(* ===== verification/Babuza_Prelude.thy ===== *)
theory Babuza_Prelude
  imports Main "HOL-Library.Word" "HOL-Library.AList" "HOL-Library.Multiset"
begin

unbundle bit_operations_syntax

text \<open>
  The shared vocabulary of the development: the machine types of the Go sources, outcomes of
  fallible calls, the parts of Go's standard library the sources use on byte slices
  (\<^verbatim>\<open>encoding/binary\<close>, \<^verbatim>\<open>io.ReadFull\<close>, \<^verbatim>\<open>hash/crc32\<close>) and the two helpers of
  \<^verbatim>\<open>pkg/utility/fileutil/fileutil.go\<close> on which every on-disk format of the repository rests.

  A writer is the list of bytes written so far, a reader the list of bytes still to be read.
  Failures of the operating system on a write are not modelled; short and damaged input is.
\<close>

section \<open>Machine types and outcomes\<close>

type_synonym byte = "8 word"
type_synonym bytes = "byte list"
type_synonym u32 = "32 word"
type_synonym u64 = "64 word"

text \<open>
  A call of the sources returns a value, returns an error, or panics (an index out of range, a
  slice with its bounds reversed, an explicit \<^verbatim>\<open>panic\<close>).
\<close>

datatype ('e, 'a) outcome = Ret 'a | Fail 'e | Panic

fun bind_outcome :: "('e, 'a) outcome \<Rightarrow> ('a \<Rightarrow> ('e, 'b) outcome) \<Rightarrow> ('e, 'b) outcome" where
  "bind_outcome (Ret x) f = f x"
| "bind_outcome (Fail e) f = Fail e"
| "bind_outcome Panic f = Panic"

named_theorems outcome_iff \<open>when a composed call returns\<close>
named_theorems codec_simps \<open>encode and decode round trips\<close>
named_theorems inv_intros \<open>preservation of the components' invariants\<close>

lemma bind_outcome_Ret_iff [outcome_iff]:
  "bind_outcome m f = Ret y \<longleftrightarrow> (\<exists>x. m = Ret x \<and> f x = Ret y)"
  by (cases m) auto

lemma bind_outcome_assoc:
  "bind_outcome (bind_outcome m f) g = bind_outcome m (\<lambda>x. bind_outcome (f x) g)"
  by (cases m) auto

text \<open>
  \<^verbatim>\<open>xs[lo:hi]\<close> on a Go slice of length \<^verbatim>\<open>len(xs)\<close>: it panics unless
  \<^verbatim>\<open>lo <= hi <= len(xs)\<close> (every slice the sources cut has its capacity equal to what they
  allocated, so the length is the bound that matters).
\<close>

definition go_slice :: "'a list \<Rightarrow> nat \<Rightarrow> nat \<Rightarrow> ('e, 'a list) outcome" where
  "go_slice xs lo hi =
     (if lo \<le> hi \<and> hi \<le> length xs then Ret (take (hi - lo) (drop lo xs)) else Panic)"

lemma go_slice_Ret [outcome_iff]:
  "go_slice xs lo hi = Ret ys \<longleftrightarrow> lo \<le> hi \<and> hi \<le> length xs \<and> ys = take (hi - lo) (drop lo xs)"
  by (auto simp: go_slice_def)

section \<open>Little-endian integers (Go's encoding/binary)\<close>

definition put_uint32 :: "u32 \<Rightarrow> bytes" where
  "put_uint32 v = [ucast v, ucast (drop_bit 8 v), ucast (drop_bit 16 v), ucast (drop_bit 24 v)]"

fun get_uint32 :: "bytes \<Rightarrow> u32" where
  "get_uint32 (b0 # b1 # b2 # b3 # _) =
     ucast b0 OR push_bit 8 (ucast b1) OR push_bit 16 (ucast b2) OR push_bit 24 (ucast b3)"
| "get_uint32 _ = 0"

definition put_uint64 :: "u64 \<Rightarrow> bytes" where
  "put_uint64 v = [ucast v, ucast (drop_bit 8 v), ucast (drop_bit 16 v), ucast (drop_bit 24 v),
     ucast (drop_bit 32 v), ucast (drop_bit 40 v), ucast (drop_bit 48 v), ucast (drop_bit 56 v)]"

fun get_uint64 :: "bytes \<Rightarrow> u64" where
  "get_uint64 (b0 # b1 # b2 # b3 # b4 # b5 # b6 # b7 # _) =
     ucast b0 OR push_bit 8 (ucast b1) OR push_bit 16 (ucast b2) OR push_bit 24 (ucast b3) OR
     push_bit 32 (ucast b4) OR push_bit 40 (ucast b5) OR push_bit 48 (ucast b6) OR
     push_bit 56 (ucast b7)"
| "get_uint64 _ = 0"

lemma length_put_uint32 [simp]: "length (put_uint32 v) = 4"
  by (simp add: put_uint32_def)

lemma length_put_uint64 [simp]: "length (put_uint64 v) = 8"
  by (simp add: put_uint64_def)

text \<open>One byte of an integer, put back at its place, carries that byte's bits and no other.\<close>

lemma bit_le_piece:
  fixes v :: "'w::len word"
  shows "bit (push_bit k (ucast (ucast (drop_bit k v) :: byte)) :: 'w word) n
    \<longleftrightarrow> k \<le> n \<and> n < k + 8 \<and> bit v n"
  by (auto simp: bit_simps dest: bit_imp_le_length)

lemma bit_le_piece0:
  fixes v :: "'w::len word"
  shows "bit (ucast (ucast v :: byte) :: 'w word) n \<longleftrightarrow> n < 8 \<and> bit v n"
  by (auto simp: bit_simps dest: bit_imp_le_length)

lemma get_put_uint32 [simp, codec_simps]: "get_uint32 (put_uint32 v @ rest) = v"
proof (rule bit_word_eqI)
  fix n assume "n < LENGTH(32)"
  then have "n < 32" by simp
  then show "bit (get_uint32 (put_uint32 v @ rest)) n = bit v n"
    unfolding put_uint32_def append.simps get_uint32.simps bit_or_iff bit_le_piece bit_le_piece0
    by linarith
qed

lemma get_put_uint64 [simp, codec_simps]: "get_uint64 (put_uint64 v @ rest) = v"
proof (rule bit_word_eqI)
  fix n assume "n < LENGTH(64)"
  then have "n < 64" by simp
  then show "bit (get_uint64 (put_uint64 v @ rest)) n = bit v n"
    unfolding put_uint64_def append.simps get_uint64.simps bit_or_iff bit_le_piece bit_le_piece0
    by linarith
qed

lemma get_put_uint32' [simp, codec_simps]: "get_uint32 (put_uint32 v) = v"
  using get_put_uint32 [of v "[]"] by simp

lemma get_put_uint64' [simp, codec_simps]: "get_uint64 (put_uint64 v) = v"
  using get_put_uint64 [of v "[]"] by simp

section \<open>Readers (Go's io.ReadFull)\<close>

datatype io_error = EOF | UnexpectedEOF

text \<open>
  \<^verbatim>\<open>io.ReadFull\<close>: all \<^verbatim>\<open>n\<close> bytes, or \<^verbatim>\<open>EOF\<close> when the reader was empty, or
  \<^verbatim>\<open>ErrUnexpectedEOF\<close> when it ended early. With an empty buffer it reads nothing and
  succeeds.
\<close>

definition read_full :: "nat \<Rightarrow> bytes \<Rightarrow> (io_error, bytes \<times> bytes) outcome" where
  "read_full n r =
     (if n \<le> length r then Ret (take n r, drop n r)
      else if r = [] then Fail EOF
      else Fail UnexpectedEOF)"

lemma read_full_append [simp, codec_simps]:
  "length xs = n \<Longrightarrow> read_full n (xs @ r) = Ret (xs, r)"
  by (simp add: read_full_def)

lemma read_full_zero [simp]: "read_full 0 r = Ret ([], r)"
  by (simp add: read_full_def)

text \<open>fileutil.go: \<^verbatim>\<open>FileWriteUint64\<close> and \<^verbatim>\<open>FileReadUint64\<close>.\<close>

definition file_write_uint64 :: "bytes \<Rightarrow> u64 \<Rightarrow> bytes" where
  "file_write_uint64 w v = w @ put_uint64 v"

definition file_read_uint64 :: "bytes \<Rightarrow> (io_error, u64 \<times> bytes) outcome" where
  "file_read_uint64 r =
     (case read_full 8 r of
        Ret (buf, r') \<Rightarrow> if length buf \<noteq> 8 then Fail UnexpectedEOF else Ret (get_uint64 buf, r')
      | Fail e \<Rightarrow> Fail e
      | Panic \<Rightarrow> Panic)"

lemma file_read_put_uint64 [simp, codec_simps]:
  "file_read_uint64 (put_uint64 v @ r) = Ret (v, r)"
  by (simp add: file_read_uint64_def)

lemma file_read_uint64_short:
  "length r < 8 \<Longrightarrow> file_read_uint64 r = Fail (if r = [] then EOF else UnexpectedEOF)"
  by (simp add: file_read_uint64_def read_full_def)

section \<open>Maps (Go's built-in map)\<close>

text \<open>
  A Go map is an association list with distinct keys: its lookup is \<^const>\<open>map_of\<close>, an assignment is
  \<^const>\<open>AList.update\<close>, \<^verbatim>\<open>delete\<close> is \<^const>\<open>AList.delete\<close> and \<^verbatim>\<open>len\<close> the length of the list. The order of a
  \<^verbatim>\<open>range\<close> loop is unspecified in Go; here it is the order of the list, and the theorems hold for
  every list with distinct keys, whatever its order.
\<close>

definition map_ok :: "('k \<times> 'v) list \<Rightarrow> bool" where
  "map_ok m \<longleftrightarrow> distinct (map fst m)"

lemma map_ok_Nil [simp]: "map_ok []"
  by (simp add: map_ok_def)

lemma map_ok_Cons [simp]: "map_ok ((k, v) # m) \<longleftrightarrow> map_of m k = None \<and> map_ok m"
  by (auto simp: map_ok_def map_of_eq_None_iff)

lemma map_ok_update [simp, inv_intros]: "map_ok m \<Longrightarrow> map_ok (AList.update k v m)"
  by (simp add: map_ok_def distinct_update)

lemma map_ok_delete [simp, inv_intros]: "map_ok m \<Longrightarrow> map_ok (AList.delete k m)"
  by (simp add: map_ok_def distinct_delete)

lemma map_ok_filter [simp, inv_intros]: "map_ok m \<Longrightarrow> map_ok (filter P m)"
  by (simp add: map_ok_def distinct_map_filter)

lemma map_of_update [simp]: "map_of (AList.update k v m) = (map_of m)(k \<mapsto> v)"
  by (rule update_conv')

lemma map_of_delete [simp]: "map_of (AList.delete k m) = (map_of m)(k := None)"
  by (rule delete_conv')

lemma update_absent: "map_of m k = None \<Longrightarrow> AList.update k v m = m @ [(k, v)]"
  by (induction m) (auto split: if_splits)

lemma map_of_filter_key: "map_of (filter (\<lambda>(k, v). P k) m) k = (if P k then map_of m k else None)"
  by (induction m) auto

section \<open>Texts\<close>

text \<open>The bytes of an ASCII literal, and \<^verbatim>\<open>%d\<close> of a non-negative integer.\<close>

definition str :: "string \<Rightarrow> bytes" where
  "str s = map of_char s"

fun itoa :: "nat \<Rightarrow> bytes" where
  "itoa n = (if n < 10 then [48 + of_nat n] else itoa (n div 10) @ [48 + of_nat (n mod 10)])"

declare itoa.simps [simp del]

section \<open>CRC-32, Castagnoli (Go's hash/crc32)\<close>

text \<open>
  \<^verbatim>\<open>crc32.Update(crc, crc32.MakeTable(crc32.Castagnoli), p)\<close>, one bit at a time: the
  reflected polynomial is 0x82f63b78 and the running value is complemented before and after.
\<close>

definition crc32c_poly :: u32 where
  "crc32c_poly = 0x82F63B78"

definition crc32_bit :: "u32 \<Rightarrow> u32" where
  "crc32_bit c = (if bit c 0 then drop_bit 1 c XOR crc32c_poly else drop_bit 1 c)"

definition crc32_byte :: "u32 \<Rightarrow> byte \<Rightarrow> u32" where
  "crc32_byte c b = (crc32_bit ^^ 8) (c XOR ucast b)"

definition crc32_update :: "u32 \<Rightarrow> bytes \<Rightarrow> u32" where
  "crc32_update c p = NOT (foldl crc32_byte (NOT c) p)"

lemma crc32_update_Nil [simp]: "crc32_update c [] = c"
  by (simp add: crc32_update_def)

lemma crc32_update_append: "crc32_update c (xs @ ys) = crc32_update (crc32_update c xs) ys"
  by (simp add: crc32_update_def)

lemma bit31_crc32_bit: "bit (crc32_bit c) 31 = bit c 0"
proof -
  have "bit crc32c_poly 31" by (simp add: crc32c_poly_def)
  moreover have "\<not> bit c 32" using bit_imp_le_length [of c 32] by auto
  ultimately show ?thesis by (auto simp: crc32_bit_def bit_simps)
qed

lemma drop_bit_1_cases:
  fixes a b :: "'w::len word"
  assumes "drop_bit 1 a = drop_bit 1 b" and "bit a 0 = bit b 0"
  shows "a = b"
proof (rule bit_word_eqI)
  fix n
  show "bit a n = bit b n"
  proof (cases n)
    case 0
    with assms(2) show ?thesis by simp
  next
    case (Suc m)
    from assms(1) have "bit (drop_bit 1 a) m = bit (drop_bit 1 b) m" by simp
    with Suc show ?thesis by (simp add: bit_simps)
  qed
qed

lemma xor_right_cancel:
  fixes a b c :: "'w::len word"
  assumes "a XOR c = b XOR c"
  shows "a = b"
proof -
  from assms have "(a XOR c) XOR c = (b XOR c) XOR c" by simp
  then show ?thesis by (simp add: xor.assoc)
qed

lemma crc32_bit_inj: "inj crc32_bit"
proof (rule injI)
  fix a b assume eq: "crc32_bit a = crc32_bit b"
  then have z: "bit a 0 = bit b 0" by (metis bit31_crc32_bit)
  with eq have "drop_bit 1 a = drop_bit 1 b"
    by (auto simp: crc32_bit_def split: if_splits dest: xor_right_cancel)
  then show "a = b" using z by (rule drop_bit_1_cases)
qed

lemma crc32_bits_inj: "inj (crc32_bit ^^ n)"
proof (induction n)
  case 0
  show ?case by (simp add: inj_on_def)
next
  case (Suc n)
  show ?case using inj_compose [OF crc32_bit_inj Suc] by (simp add: comp_def)
qed

lemma ucast_byte_inj:
  assumes "(ucast (a :: byte) :: u32) = ucast b"
  shows "a = b"
proof (rule bit_word_eqI)
  fix n assume "n < LENGTH(8)"
  moreover have "bit (ucast a :: u32) n = bit (ucast b :: u32) n" using assms by simp
  ultimately show "bit a n = bit b n" by (simp add: bit_simps)
qed

lemma crc32_byte_inj_state:
  assumes "crc32_byte c b = crc32_byte d b"
  shows "c = d"
proof -
  from assms have "c XOR ucast b = d XOR ucast b"
    unfolding crc32_byte_def by (rule injD [OF crc32_bits_inj])
  then show ?thesis by (rule xor_right_cancel)
qed

lemma crc32_byte_inj_byte:
  assumes "crc32_byte c a = crc32_byte c b"
  shows "a = b"
proof -
  from assms have "c XOR ucast a = c XOR ucast b"
    unfolding crc32_byte_def by (rule injD [OF crc32_bits_inj])
  then have "ucast a XOR c = ucast b XOR c" by (simp add: xor.commute)
  then show ?thesis by (blast dest: xor_right_cancel ucast_byte_inj)
qed

lemma foldl_crc32_inj: "foldl crc32_byte c xs = foldl crc32_byte d xs \<Longrightarrow> c = d"
  by (induction xs arbitrary: c d) (auto dest: crc32_byte_inj_state)

text \<open>One damaged byte always changes the checksum.\<close>

lemma crc32_detects_one_byte:
  assumes "crc32_update c (xs @ a # ys) = crc32_update c (xs @ b # ys)"
  shows "a = b"
proof -
  from assms have "foldl crc32_byte (crc32_byte (foldl crc32_byte (NOT c) xs) a) ys
      = foldl crc32_byte (crc32_byte (foldl crc32_byte (NOT c) xs) b) ys"
    by (simp add: crc32_update_def)
  then show ?thesis by (blast dest: foldl_crc32_inj crc32_byte_inj_byte)
qed

end
