(* ===== verification/Proto_Wire.thy ===== *)
theory Proto_Wire
  imports Babuza_Prelude
begin

unbundle bit_operations_syntax

text \<open>
  The wire format of the generated protobuf code (\<^verbatim>\<open>*.pb.go\<close>). The generator gives each package its
  own copy of the varint routines and of the skipping of unknown fields, and each message an
  \<^verbatim>\<open>Unmarshal\<close> with the same loop around a \<^verbatim>\<open>switch\<close> on the field number; here they are written once,
  and a message is its switch. The theory shows that varints and length-delimited fields read
  back, and that the loop is total: whatever the bytes, it returns a message or an error.
\<close>

section \<open>Varints\<close>

datatype pb_error =
    ErrIntOverflow
  | ErrInvalidLength
  | PbUnexpectedEOF
  | PbEndGroup
  | PbIllegalTag
  | PbWrongWireType
  | PbIllegalWireType

lemma unat_drop_bit: "unat (drop_bit n (v :: u64)) = unat v div 2 ^ n"
proof -
  have "take_bit 64 (unat v) = unat v"
    using unsigned_less [of v, where 'a = nat] by (simp add: take_bit_nat_eq_self_iff)
  then show ?thesis by (simp add: unsigned_drop_bit_eq flip: drop_bit_eq_div)
qed

function encode_varint :: "u64 \<Rightarrow> bytes" where
  "encode_varint v =
     (if 128 \<le> v then (ucast (v AND 0x7f) OR 0x80) # encode_varint (drop_bit 7 v) else [ucast v])"
  by auto
termination
proof (relation "measure unat")
  fix v :: u64
  assume "128 \<le> v"
  then have "0 < unat v" by (simp add: word_le_nat_alt)
  then have "unat v div 128 < unat v" by (intro div_less_dividend) auto
  then show "(drop_bit 7 v, v) \<in> measure unat"
    by (simp add: unat_drop_bit)
qed simp

declare encode_varint.simps [simp del]

function sov :: "u64 \<Rightarrow> nat" where
  "sov x = (let x' = drop_bit 7 x in if x' = 0 then 1 else Suc (sov x'))"
  by auto
termination
proof (relation "measure unat")
  fix x x' :: u64
  assume "x' = drop_bit 7 x" "x' \<noteq> 0"
  then have "unat x \<noteq> 0" by (metis drop_bit_of_0 unat_eq_0)
  then have "unat x div 128 < unat x" by (intro div_less_dividend) auto
  then show "(x', x) \<in> measure unat"
    by (simp add: \<open>x' = _\<close> unat_drop_bit)
qed simp

declare sov.simps [simp del]

text \<open>The varint loop of the decoders; \<^verbatim>\<open>acc\<close> is the value built so far.\<close>

fun read_varint :: "nat \<Rightarrow> u64 \<Rightarrow> bytes \<Rightarrow> (pb_error, u64 \<times> bytes) outcome" where
  "read_varint shift acc [] = Fail (if 64 \<le> shift then ErrIntOverflow else PbUnexpectedEOF)"
| "read_varint shift acc (b # bs) =
     (if 64 \<le> shift then Fail ErrIntOverflow
      else let acc' = acc OR push_bit shift (ucast (b AND 0x7f))
           in if b < 0x80 then Ret (acc', bs) else read_varint (shift + 7) acc' bs)"

text \<open>
  \<^verbatim>\<open>skip\<close>: the number of bytes of the first field of the input, which may lie past its end.
  A group (wire type 3) is skipped field by field up to its end tag, each by a recursive call, so
  the recursion carries fuel; \<open>None\<close> is running out of it. Lengths are Go's signed 64-bit
  integers: a sum of \<^verbatim>\<open>2^63\<close> or more is negative in the code.
\<close>

fun skip_field :: "nat \<Rightarrow> bytes \<Rightarrow> (pb_error, nat) outcome option"
  and skip_group :: "nat \<Rightarrow> bytes \<Rightarrow> nat \<Rightarrow> (pb_error, nat) outcome option" where
  "skip_field 0 d = None"
| "skip_field (Suc k) d =
     (if d = [] then Some Panic
      else case read_varint 0 0 d of
        Fail e \<Rightarrow> Some (Fail e)
      | Panic \<Rightarrow> Some Panic
      | Ret (wire, rest) \<Rightarrow>
          (let i = length d - length rest; wireType = unat (wire AND 7)
           in if wireType = 0 then
                Some (bind_outcome (read_varint 0 0 rest) (\<lambda>(_, rest'). Ret (length d - length rest')))
              else if wireType = 1 then Some (Ret (i + 8))
              else if wireType = 2 then
                Some (bind_outcome (read_varint 0 0 rest) (\<lambda>(len, rest').
                  if sint len < 0 then Fail ErrInvalidLength
                  else let i' = length d - length rest' + unat len
                       in if 2 ^ 63 \<le> i' then Fail ErrInvalidLength else Ret i'))
              else if wireType = 3 then skip_group k d i
              else if wireType = 4 then Some (Ret i)
              else if wireType = 5 then Some (Ret (i + 4))
              else Some (Fail PbIllegalWireType)))"
| "skip_group 0 d start = None"
| "skip_group (Suc k) d start =
     (case read_varint 0 0 (drop start d) of
        Fail e \<Rightarrow> Some (Fail e)
      | Panic \<Rightarrow> Some Panic
      | Ret (innerWire, rest) \<Rightarrow>
          if unat (innerWire AND 7) = 4 then Some (Ret (length d - length rest))
          else (case skip_field k (drop start d) of
                  None \<Rightarrow> None
                | Some (Fail e) \<Rightarrow> Some (Fail e)
                | Some Panic \<Rightarrow> Some Panic
                | Some (Ret nxt) \<Rightarrow>
                    if 2 ^ 63 \<le> start + nxt then Some (Fail ErrInvalidLength)
                    else skip_group k d (start + nxt)))"

lemma length_encode_varint: "length (encode_varint v) = sov v"
proof (induction v rule: encode_varint.induct)
  case (1 v)
  have "drop_bit 7 v = 0 \<longleftrightarrow> \<not> 128 \<le> v"
    by (simp add: word_unat_eq_iff word_le_nat_alt unat_drop_bit div_eq_0_iff not_le)
  then show ?case
    using 1 by (subst encode_varint.simps, subst sov.simps) (simp add: Let_def)
qed

lemma encode_varint_nonempty [simp]: "encode_varint v \<noteq> []"
  by (subst encode_varint.simps) simp

lemma drop_bit_small:
  fixes w :: u64
  assumes "57 \<le> s"
  shows "drop_bit s w < 128"
proof -
  have "unat w < 2 ^ 64" using unsigned_less [of w, where 'a = nat] by simp
  also have "(2 :: nat) ^ 64 = 128 * 2 ^ 57" by simp
  also have "\<dots> \<le> 128 * 2 ^ s" using assms by (intro mult_left_mono power_increasing) auto
  finally have "unat w div 2 ^ s < 128" by (rule less_mult_imp_div_less)
  then show ?thesis by (simp add: word_less_nat_alt unat_drop_bit)
qed

lemma take_bit_small: "unat x < 2 ^ n \<Longrightarrow> take_bit n x = x" for x :: "'w::len word"
  by (simp add: word_unat_eq_iff unsigned_take_bit_eq take_bit_nat_eq_self_iff)

lemma and_7f: "x AND 0x7f = take_bit 7 x" for x :: "'w::len word"
  by (simp add: take_bit_eq_mask mask_eq_exp_minus_1)

lemma varint_low_bits: "(ucast ((ucast (v AND 0x7f) OR 0x80 :: byte) AND 0x7f) :: u64) = take_bit 7 v"
  for v :: u64
proof -
  have "(ucast (v AND 0x7f) OR 0x80 :: byte) AND 0x7f = ucast (v AND 0x7f) AND 0x7f"
    by (simp add: bit.conj_disj_distrib2)
  then show ?thesis
    unfolding and_7f by (simp only:) (rule bit_word_eqI, auto simp: bit_simps)
qed

lemma varint_last_byte:
  fixes v :: u64
  assumes "v < 128"
  shows "(ucast ((ucast v :: byte) AND 0x7f) :: u64) = v" and "(ucast v :: byte) < 0x80"
proof -
  have v: "unat v < 128" using assms by (simp add: word_less_nat_alt)
  have "(ucast (take_bit 7 (ucast v :: byte)) :: u64) = take_bit 7 v"
    by (rule bit_word_eqI) (auto simp: bit_simps)
  then show "(ucast ((ucast v :: byte) AND 0x7f) :: u64) = v"
    using take_bit_small [of v 7] v by (simp add: and_7f)
  have "unat (ucast v :: byte) = unat v" using v by (simp add: unsigned_ucast_eq take_bit_nat_eq_self_iff)
  then show "(ucast v :: byte) < 0x80" using v by (simp add: word_less_nat_alt)
qed

lemma varint_cont_byte: "\<not> (ucast (v AND 0x7f) OR 0x80 :: byte) < 0x80" for v :: u64
proof
  assume "(ucast (v AND 0x7f) OR 0x80 :: byte) < 0x80"
  then have "take_bit 7 (ucast (v AND 0x7f) OR 0x80 :: byte) = ucast (v AND 0x7f) OR 0x80"
    by (intro take_bit_small) (simp add: word_less_nat_alt)
  then have "bit (ucast (v AND 0x7f) OR 0x80 :: byte) 7 = bit (take_bit 7 (ucast (v AND 0x7f) OR 0x80 :: byte)) 7"
    by simp
  then show False by (simp add: bit_simps)
qed

text \<open>The loop reads a varint back, the bits above \<^verbatim>\<open>shift\<close> first encoded.\<close>

lemma read_encode_varint_at:
  assumes "v = drop_bit s w" and "s < 64"
  shows "read_varint s acc (encode_varint v @ rest) = Ret (acc OR push_bit s v, rest)"
  using assms
proof (induction v arbitrary: s acc rule: encode_varint.induct)
  case (1 v)
  show ?case
  proof (cases "128 \<le> v")
    case True
    have s: "s + 7 < 64"
    proof (rule ccontr)
      assume "\<not> s + 7 < 64"
      then have "v < 128" using drop_bit_small [of s w] 1(2) by simp
      then show False using True by simp
    qed
    have v7: "drop_bit 7 v = drop_bit (s + 7) w" by (simp add: 1(2) add.commute)
    have split: "push_bit s (take_bit 7 v) OR push_bit (s + 7) (drop_bit 7 v) = push_bit s v"
    proof (rule bit_word_eqI)
      fix n assume "n < LENGTH(64)"
      moreover have "s + 7 \<le> n \<Longrightarrow> 7 + (n - (s + 7)) = n - s" by simp
      ultimately show "bit (push_bit s (take_bit 7 v) OR push_bit (s + 7) (drop_bit 7 v)) n = bit (push_bit s v) n"
        by (cases "s + 7 \<le> n") (auto simp: bit_simps)
    qed
    have "read_varint (s + 7) (acc OR push_bit s (take_bit 7 v)) (encode_varint (drop_bit 7 v) @ rest) =
        Ret (acc OR push_bit s (take_bit 7 v) OR push_bit (s + 7) (drop_bit 7 v), rest)"
      using 1(1) [OF True v7 s] by (simp add: or.assoc)
    then show ?thesis
      using True 1(3) varint_cont_byte [of v]
      by (subst encode_varint.simps) (simp add: Let_def varint_low_bits or.assoc split)
  next
    case False
    then have "v < 128" by simp
    from varint_last_byte [OF this] show ?thesis
      using False 1(3) by (subst encode_varint.simps) (simp add: Let_def)
  qed
qed

lemma read_encode_varint [simp, codec_simps]: "read_varint 0 0 (encode_varint v @ rest) = Ret (v, rest)"
  using read_encode_varint_at [of v 0 v 0 rest] by simp

lemma read_varint_consumes: "read_varint s acc d = Ret (v, rest) \<Longrightarrow> length rest < length d"
  by (induction s acc d rule: read_varint.induct) (auto simp: Let_def split: if_splits)

lemma read_varint_no_panic: "read_varint s acc d \<noteq> Panic"
  by (induction s acc d rule: read_varint.induct) (auto simp: Let_def)

lemma skip_positive:
  "skip_field k d = Some (Ret n) \<Longrightarrow> 0 < n"
  "skip_group k d s = Some (Ret n) \<Longrightarrow> 0 < n"
proof (induction k d and k d s arbitrary: n and n rule: skip_field_skip_group.induct)
  case (2 k d)
  then show ?case
    by (auto simp: Let_def bind_outcome_Ret_iff dest!: read_varint_consumes split: outcome.splits if_splits)
next
  case (4 k d s)
  then show ?case
    by (auto dest!: read_varint_consumes split: outcome.splits option.splits if_splits)
qed simp_all

lemma skip_returns:
  "2 * length d + 1 \<le> k \<Longrightarrow> skip_field k d \<noteq> None"
  "2 * (length d - s) + 2 \<le> k \<Longrightarrow> skip_group k d s \<noteq> None"
proof (induction k d and k d s rule: skip_field_skip_group.induct)
  case (2 k d)
  show ?case
  proof (cases "read_varint 0 0 d")
    case (Ret x)
    obtain w rest where x: "x = (w, rest)" by (cases x)
    have lt: "length rest < length d" using read_varint_consumes Ret x by blast
    then have ne: "d \<noteq> []" by auto
    from lt have "2 * (length d - (length d - length rest)) + 2 \<le> k" using 2(2) by simp
    then have "unat (w AND 7) = 3 \<Longrightarrow> skip_group k d (length d - length rest) \<noteq> None"
      using 2(1) [OF ne Ret x [symmetric] refl refl] by auto
    then show ?thesis using Ret x by (auto simp: Let_def)
  qed simp_all
next
  case (4 k d s)
  show ?case
  proof (cases "read_varint 0 0 (drop s d)")
    case (Ret x)
    obtain w rest where x: "x = (w, rest)" by (cases x)
    have lt: "s < length d" using read_varint_consumes [of 0 0 "drop s d" w rest] Ret x by simp
    show ?thesis
    proof (cases "unat (w AND 7) = 4")
      case False
      have "skip_field k (drop s d) \<noteq> None"
        using 4 Ret x False lt by simp
      then obtain r where r: "skip_field k (drop s d) = Some r" by blast
      have "skip_group k d (s + n) \<noteq> None" if "r = Ret n" "\<not> 2 ^ 63 \<le> s + n" for n
      proof -
        have "0 < n" using skip_positive(1) r that(1) by blast
        then have "2 * (length d - (s + n)) + 2 \<le> k" using 4(3) lt by simp
        then show ?thesis using 4(2) Ret x False r that by simp
      qed
      then show ?thesis using Ret x False r by (cases r) auto
    qed (use Ret x in simp)
  qed simp_all
qed simp_all

lemma skip_no_panic:
  "d \<noteq> [] \<Longrightarrow> skip_field k d \<noteq> Some Panic"
  "skip_group k d s \<noteq> Some Panic"
proof (induction k d and k d s rule: skip_field_skip_group.induct)
  case (2 k d)
  then show ?case
    using read_varint_no_panic
    by (auto simp: Let_def split: outcome.splits if_split_asm elim!: bind_outcome.elims)
next
  case (4 k d s)
  show ?case
  proof (cases "read_varint 0 0 (drop s d)")
    case (Ret x)
    obtain w rest where x: "x = (w, rest)" by (cases x)
    have ne: "drop s d \<noteq> []" using read_varint_consumes [of 0 0 "drop s d" w rest] Ret x by auto
    show ?thesis
    proof (cases "unat (w AND 7) = 4")
      case False
      have "skip_field k (drop s d) \<noteq> Some Panic"
        using 4(1) [OF Ret x [symmetric] False ne] .
      then show ?thesis
        using 4(2) [OF Ret x [symmetric] False] Ret x False
        by (auto split: option.splits outcome.splits)
    qed (use Ret x in simp)
  qed (use read_varint_no_panic in auto)
qed simp_all


declare skip_field.simps [simp del] skip_group.simps [simp del]

section \<open>Messages\<close>

text \<open>
  What a \<^verbatim>\<open>switch\<close> does with a field number: a varint that updates the message, a length-delimited
  field whose bytes update it (or fail, for a nested message), an entry of a map, or a field to be
  skipped. The code of a map entry sees all of the remaining input, of which \<^verbatim>\<open>stop\<close> bytes lie behind the
  entry.
\<close>

datatype 'm field =
    Varint "u64 \<Rightarrow> 'm \<Rightarrow> 'm"
  | Delimited "bytes \<Rightarrow> 'm \<Rightarrow> (pb_error, 'm) outcome"
  | MapEntry "nat \<Rightarrow> nat \<Rightarrow> bytes \<Rightarrow> 'm \<Rightarrow> (pb_error, 'm) outcome"
  | Unknown

text \<open>
  A length-delimited field: \<^verbatim>\<open>l\<close> is the length of the whole input, so that \<^verbatim>\<open>l - length rest\<close> is the
  index the code has reached; a sum of \<^verbatim>\<open>2^63\<close> or more is negative there.
\<close>

definition read_delimited :: "nat \<Rightarrow> bytes \<Rightarrow> (pb_error, bytes \<times> bytes) outcome" where
  "read_delimited l d =
     bind_outcome (read_varint 0 0 d) (\<lambda>(len, rest).
       if sint len < 0 then Fail ErrInvalidLength
       else if 2 ^ 63 \<le> (l - length rest) + unat len then Fail ErrInvalidLength
       else if length rest < unat len then Fail PbUnexpectedEOF
       else Ret (take (unat len) rest, drop (unat len) rest))"

definition skip_unknown :: "nat \<Rightarrow> bytes \<Rightarrow> (pb_error, bytes) outcome" where
  "skip_unknown l d =
     (case skip_field (2 * length d + 2) d of
        Some (Ret skippy) \<Rightarrow>
          if 2 ^ 63 \<le> (l - length d) + skippy then Fail ErrInvalidLength
          else if length d < skippy then Fail PbUnexpectedEOF
          else Ret (drop skippy d)
      | Some (Fail e) \<Rightarrow> Fail e
      | _ \<Rightarrow> Panic)"

lemma read_delimited_consumes: "read_delimited l d = Ret (b, rest) \<Longrightarrow> length rest < length d"
  by (auto simp: read_delimited_def bind_outcome_Ret_iff dest!: read_varint_consumes split: if_splits)

lemma skip_unknown_consumes: "d \<noteq> [] \<Longrightarrow> skip_unknown l d = Ret rest \<Longrightarrow> length rest < length d"
  by (auto simp: skip_unknown_def dest!: skip_positive(1) split: option.splits outcome.splits if_splits)

text \<open>
  The two parts of a map entry. The loop over them checks neither the wire type nor the end of the
  entry, and where it skips an unknown field it does not look for an overflow of the index: the index
  is then negative, and the next access panics.
\<close>

datatype 'x part =
    VarintPart "u64 \<Rightarrow> 'x \<Rightarrow> 'x"
  | BytesPart "bytes \<Rightarrow> 'x \<Rightarrow> (pb_error, 'x) outcome"

definition read_part :: "'x part \<Rightarrow> nat \<Rightarrow> 'x \<Rightarrow> bytes \<Rightarrow> (pb_error, 'x \<times> bytes) outcome" where
  "read_part p l x d =
     (case p of
        VarintPart upd \<Rightarrow> bind_outcome (read_varint 0 0 d) (\<lambda>(v, rest). Ret (upd v x, rest))
      | BytesPart upd \<Rightarrow>
          bind_outcome (read_delimited l d) (\<lambda>(b, rest).
          bind_outcome (upd b x) (\<lambda>x'. Ret (x', rest))))"

lemma read_part_consumes: "read_part p l x d = Ret (x', rest) \<Longrightarrow> length rest < length d"
  by (auto simp: read_part_def bind_outcome_Ret_iff dest!: read_varint_consumes read_delimited_consumes
      split: part.splits)

definition skip_in_entry :: "nat \<Rightarrow> nat \<Rightarrow> bytes \<Rightarrow> (pb_error, bytes) outcome" where
  "skip_in_entry l stop d =
     (case skip_field (2 * length d + 2) d of
        Some (Ret skippy) \<Rightarrow>
          if 2 ^ 63 \<le> (l - length d) + skippy then Panic
          else if length d < skippy + stop then Fail PbUnexpectedEOF
          else Ret (drop skippy d)
      | Some (Fail e) \<Rightarrow> Fail e
      | _ \<Rightarrow> Panic)"

lemma skip_in_entry_consumes: "\<not> length d \<le> stop \<Longrightarrow> skip_in_entry l stop d = Ret rest \<Longrightarrow> length rest < length d"
  by (auto simp: skip_in_entry_def dest!: skip_positive(1) split: option.splits outcome.splits if_splits)

function map_entry_loop ::
  "'k part \<Rightarrow> 'v part \<Rightarrow> nat \<Rightarrow> nat \<Rightarrow> 'k \<Rightarrow> 'v \<Rightarrow> bytes \<Rightarrow> (pb_error, 'k \<times> 'v) outcome" where
  "map_entry_loop kp vp l stop k v d =
     (if length d \<le> stop then Ret (k, v)
      else case read_varint 0 0 d of
        Fail e \<Rightarrow> Fail e
      | Panic \<Rightarrow> Panic
      | Ret (wire, rest) \<Rightarrow>
          (let fieldNum = (ucast (drop_bit 3 wire) :: u32)
           in if fieldNum = 1 then
                (case read_part kp l k rest of
                   Fail e \<Rightarrow> Fail e
                 | Panic \<Rightarrow> Panic
                 | Ret (k', rest') \<Rightarrow> map_entry_loop kp vp l stop k' v rest')
              else if fieldNum = 2 then
                (case read_part vp l v rest of
                   Fail e \<Rightarrow> Fail e
                 | Panic \<Rightarrow> Panic
                 | Ret (v', rest') \<Rightarrow> map_entry_loop kp vp l stop k v' rest')
              else
                (case skip_in_entry l stop d of
                   Fail e \<Rightarrow> Fail e
                 | Panic \<Rightarrow> Panic
                 | Ret rest' \<Rightarrow> map_entry_loop kp vp l stop k v rest')))"
  by pat_completeness auto
termination
  by (relation "measure (\<lambda>(kp, vp, l, stop, k, v, d). length d)")
     (auto dest!: read_varint_consumes read_part_consumes skip_in_entry_consumes)

declare map_entry_loop.simps [simp del]

text \<open>\<^verbatim>\<open>Unmarshal\<close>: the receiver is updated in place; after an error the callers drop it.\<close>

function pb_loop :: "(u32 \<Rightarrow> 'm field) \<Rightarrow> nat \<Rightarrow> 'm \<Rightarrow> bytes \<Rightarrow> (pb_error, 'm) outcome" where
  "pb_loop sw l m d =
     (if d = [] then Ret m
      else case read_varint 0 0 d of
        Fail e \<Rightarrow> Fail e
      | Panic \<Rightarrow> Panic
      | Ret (wire, rest) \<Rightarrow>
          (let fieldNum = (ucast (drop_bit 3 wire) :: u32); wireType = unat (wire AND 7)
           in if wireType = 4 then Fail PbEndGroup
              else if sint fieldNum \<le> 0 then Fail PbIllegalTag
              else case sw fieldNum of
                Varint upd \<Rightarrow>
                  (if wireType \<noteq> 0 then Fail PbWrongWireType
                   else case read_varint 0 0 rest of
                     Fail e \<Rightarrow> Fail e
                   | Panic \<Rightarrow> Panic
                   | Ret (v, rest') \<Rightarrow> pb_loop sw l (upd v m) rest')
              | Delimited upd \<Rightarrow>
                  (if wireType \<noteq> 2 then Fail PbWrongWireType
                   else case read_delimited l rest of
                     Fail e \<Rightarrow> Fail e
                   | Panic \<Rightarrow> Panic
                   | Ret (b, rest') \<Rightarrow>
                       (case upd b m of
                          Fail e \<Rightarrow> Fail e
                        | Panic \<Rightarrow> Panic
                        | Ret m' \<Rightarrow> pb_loop sw l m' rest'))
              | MapEntry upd \<Rightarrow>
                  (if wireType \<noteq> 2 then Fail PbWrongWireType
                   else case read_delimited l rest of
                     Fail e \<Rightarrow> Fail e
                   | Panic \<Rightarrow> Panic
                   | Ret (b, rest') \<Rightarrow>
                       (case upd l (length rest') (b @ rest') m of
                          Fail e \<Rightarrow> Fail e
                        | Panic \<Rightarrow> Panic
                        | Ret m' \<Rightarrow> pb_loop sw l m' rest'))
              | Unknown \<Rightarrow>
                  (case skip_unknown l d of
                     Fail e \<Rightarrow> Fail e
                   | Panic \<Rightarrow> Panic
                   | Ret rest' \<Rightarrow> pb_loop sw l m rest')))"
  by pat_completeness auto
termination
proof (relation "measure (\<lambda>(sw, l, m, d). length d)")
qed (auto dest!: read_varint_consumes read_delimited_consumes skip_unknown_consumes)

declare pb_loop.simps [simp del]

definition pb_unmarshal :: "(u32 \<Rightarrow> 'm field) \<Rightarrow> 'm \<Rightarrow> bytes \<Rightarrow> (pb_error, 'm) outcome" where
  "pb_unmarshal sw m d = pb_loop sw (length d) m d"

text \<open>
  \<^verbatim>\<open>Marshal\<close>: a buffer of the announced size is filled from the start; writing past it panics.
\<close>

definition pb_marshal :: "nat \<Rightarrow> bytes \<Rightarrow> (unit, bytes) outcome" where
  "pb_marshal n b = (if length b \<le> n then Ret b else Panic)"


section \<open>Reading back what was written\<close>

text \<open>\<^verbatim>\<open>fields_to sw b m m'\<close>: reading the fields \<^verbatim>\<open>b\<close>, wherever they stand, takes the message from \<^verbatim>\<open>m\<close> to \<^verbatim>\<open>m'\<close>.\<close>

definition fields_to :: "(u32 \<Rightarrow> 'm field) \<Rightarrow> bytes \<Rightarrow> 'm \<Rightarrow> 'm \<Rightarrow> bool" where
  "fields_to sw b m m' \<longleftrightarrow>
     (\<forall>l rest. l < 2 ^ 63 \<longrightarrow> length (b @ rest) \<le> l \<longrightarrow> pb_loop sw l m (b @ rest) = pb_loop sw l m' rest)"

named_theorems fields_intros \<open>fields of a message read back\<close>

lemma fields_to_Nil [fields_intros]: "fields_to sw [] m m"
  by (simp add: fields_to_def)

lemma fields_to_append [fields_intros]:
  assumes "fields_to sw b m m1" and "fields_to sw c m1 m2"
  shows "fields_to sw (b @ c) m m2"
  using assms by (simp add: fields_to_def)

text \<open>A tag of one byte.\<close>

definition tag_ok :: "byte \<Rightarrow> u32 \<Rightarrow> nat \<Rightarrow> bool" where
  "tag_ok t f w \<longleftrightarrow> t < 0x80 \<and> ucast (drop_bit 3 (ucast t :: u64)) = f \<and> unat ((ucast t :: u64) AND 7) = w \<and>
     0 < sint f \<and> w \<noteq> 4"

lemma read_tag: "tag_ok t f w \<Longrightarrow> read_varint 0 0 (t # bs) = Ret (ucast t, bs)"
proof -
  assume "tag_ok t f w"
  then have "t < 0x80" by (simp add: tag_ok_def)
  moreover from this have "t AND 0x7f = t" unfolding and_7f by (intro take_bit_small) (simp add: word_less_nat_alt)
  ultimately show ?thesis by (simp add: Let_def)
qed

lemma reads_varint:
  assumes "tag_ok t f 0" and "sw f = Varint upd"
  shows "fields_to sw (t # encode_varint v) m (upd v m)"
  unfolding fields_to_def
proof (intro allI impI)
  fix l rest
  show "pb_loop sw l m ((t # encode_varint v) @ rest) = pb_loop sw l (upd v m) rest"
    using assms read_tag [OF assms(1), of "encode_varint v @ rest"]
    by (subst pb_loop.simps) (simp add: tag_ok_def Let_def del: read_varint.simps)
qed

lemma read_delimited_enc:
  assumes "l < 2 ^ 63" and "length (encode_varint (of_nat (length b)) @ b @ rest) \<le> l"
  shows "read_delimited l (encode_varint (of_nat (length b)) @ b @ rest) = Ret (b, rest)"
proof -
  let ?n = "of_nat (length b) :: u64"
  have b: "length b < 2 ^ 63" using assms by simp
  then have n: "unat ?n = length b" by (simp add: unat_of_nat)
  have "nat (uint ?n) = length b" using n unfolding unat_eq_nat_uint .
  moreover have "0 \<le> uint ?n" by simp
  ultimately have "uint ?n = int (length b)" by linarith
  then have "sint ?n = int (length b)" using b by (simp only: sint_uint) (simp add: signed_take_bit_int_eq_self_iff)
  then show ?thesis using assms n by (simp add: read_delimited_def)
qed

lemma reads_delimited:
  assumes "tag_ok t f 2" and "sw f = Delimited upd" and "length b < 2 ^ 63 \<Longrightarrow> upd b m = Ret m'"
  shows "fields_to sw (t # encode_varint (of_nat (length b)) @ b) m m'"
  unfolding fields_to_def
proof (intro allI impI)
  fix l and rest :: bytes
  assume l: "l < 2 ^ 63" "length ((t # encode_varint (of_nat (length b)) @ b) @ rest) \<le> l"
  then have "length b < 2 ^ 63" "length (encode_varint (of_nat (length b)) @ b @ rest) \<le> l" by simp_all
  then show "pb_loop sw l m ((t # encode_varint (of_nat (length b)) @ b) @ rest) = pb_loop sw l m' rest"
    using assms(1,2) assms(3) read_delimited_enc [OF l(1)]
      read_tag [OF assms(1), of "encode_varint (of_nat (length b)) @ b @ rest"]
    by (subst pb_loop.simps) (simp add: tag_ok_def Let_def del: read_varint.simps)
qed

lemma reads_map_entry:
  assumes "tag_ok t f 2" and "sw f = MapEntry upd"
    and "\<And>l rest. l < 2 ^ 63 \<Longrightarrow> length (e @ rest) \<le> l \<Longrightarrow> upd l (length rest) (e @ rest) m = Ret m'"
  shows "fields_to sw (t # encode_varint (of_nat (length e)) @ e) m m'"
  unfolding fields_to_def
proof (intro allI impI)
  fix l and rest :: bytes
  assume l: "l < 2 ^ 63" "length ((t # encode_varint (of_nat (length e)) @ e) @ rest) \<le> l"
  then have "length (e @ rest) \<le> l" "length (encode_varint (of_nat (length e)) @ e @ rest) \<le> l" by simp_all
  then show "pb_loop sw l m ((t # encode_varint (of_nat (length e)) @ e) @ rest) = pb_loop sw l m' rest"
    using assms(1,2) assms(3) [OF l(1)] read_delimited_enc [OF l(1)]
      read_tag [OF assms(1), of "encode_varint (of_nat (length e)) @ e @ rest"]
    by (subst pb_loop.simps) (simp add: tag_ok_def Let_def del: read_varint.simps)
qed

text \<open>The parts of a map entry.\<close>

definition part_reads :: "'x part \<Rightarrow> bytes \<Rightarrow> 'x \<Rightarrow> 'x \<Rightarrow> bool" where
  "part_reads p b x x' \<longleftrightarrow>
     (\<forall>l rest. l < 2 ^ 63 \<longrightarrow> length (b @ rest) \<le> l \<longrightarrow> read_part p l x (b @ rest) = Ret (x', rest))"

lemma part_reads_varint: "part_reads (VarintPart upd) (encode_varint v) x (upd v x)"
  by (simp add: part_reads_def read_part_def)

lemma part_reads_bytes:
  assumes "length b < 2 ^ 63 \<Longrightarrow> upd b x = Ret x'"
  shows "part_reads (BytesPart upd) (encode_varint (of_nat (length b)) @ b) x x'"
  unfolding part_reads_def
proof (intro allI impI)
  fix l and rest :: bytes
  assume l: "l < 2 ^ 63" "length ((encode_varint (of_nat (length b)) @ b) @ rest) \<le> l"
  then have "length b < 2 ^ 63" "length (encode_varint (of_nat (length b)) @ b @ rest) \<le> l" by simp_all
  then show "read_part (BytesPart upd) l x ((encode_varint (of_nat (length b)) @ b) @ rest) = Ret (x', rest)"
    using assms read_delimited_enc [OF l(1)] by (simp add: read_part_def)
qed

lemma map_entry_reads:
  assumes "tag_ok t1 1 w1" and "tag_ok t2 2 w2" and "part_reads kp kb k k'" and "part_reads vp vb v v'"
    and "l < 2 ^ 63" and "length ((t1 # kb @ t2 # vb) @ rest) \<le> l"
  shows "map_entry_loop kp vp l (length rest) k v ((t1 # kb @ t2 # vb) @ rest) = Ret (k', v')"
proof -
  have "read_part kp l k (kb @ t2 # vb @ rest) = Ret (k', t2 # vb @ rest)"
    using assms(3,5,6) by (simp add: part_reads_def)
  moreover have "read_part vp l v (vb @ rest) = Ret (v', rest)"
    using assms(4,5,6) by (simp add: part_reads_def)
  ultimately show ?thesis
    using assms(1,2) read_tag [OF assms(1), of "kb @ t2 # vb @ rest"] read_tag [OF assms(2), of "vb @ rest"]
    by (subst map_entry_loop.simps, simp add: tag_ok_def Let_def del: read_varint.simps)
       (subst map_entry_loop.simps, simp add: Let_def del: read_varint.simps,
        subst map_entry_loop.simps, simp)
qed

lemma unmarshal_fields: "fields_to sw b m m' \<Longrightarrow> length b < 2 ^ 63 \<Longrightarrow> pb_unmarshal sw m b = Ret m'"
  using pb_loop.simps [of sw "length b" m' "[]"]
  by (auto simp: pb_unmarshal_def fields_to_def dest: spec [of _ "length b"] spec [of _ "[]"])

section \<open>Totality\<close>

definition no_panic :: "(u32 \<Rightarrow> 'm field) \<Rightarrow> bool" where
  "no_panic sw \<longleftrightarrow> (\<forall>f upd b m. sw f = Delimited upd \<longrightarrow> upd b m \<noteq> Panic) \<and>
     (\<forall>f upd l stop d m. sw f = MapEntry upd \<longrightarrow> upd l stop d m \<noteq> Panic)"

lemma read_delimited_no_panic: "read_delimited l d \<noteq> Panic"
  using read_varint_no_panic [of 0 0 d] by (cases "read_varint 0 0 d") (auto simp: read_delimited_def split: if_splits)

lemma skip_unknown_no_panic: "d \<noteq> [] \<Longrightarrow> skip_unknown l d \<noteq> Panic"
  using skip_returns(1) [of d "2 * length d + 2"] skip_no_panic(1) [of d "2 * length d + 2"]
  by (auto simp: skip_unknown_def split: option.split outcome.split)

lemma pb_loop_no_panic:
  assumes "no_panic sw"
  shows "pb_loop sw l m d \<noteq> Panic"
proof (induction "length d" arbitrary: m d rule: less_induct)
  case less
  show ?case
  proof (cases "read_varint 0 0 d")
    case (Ret x)
    obtain wire rest where x: "x = (wire, rest)" by (cases x)
    have lt: "length rest < length d" using read_varint_consumes Ret x by blast
    then have ne: "d \<noteq> []" by auto
    let ?f = "ucast (drop_bit 3 wire) :: u32"
    note step = pb_loop.simps [of sw l m d]
    show ?thesis
    proof (cases "sw ?f")
      case (Varint upd)
      have "length rest' < length d" if "read_varint 0 0 rest = Ret (v, rest')" for v rest'
        using read_varint_consumes [OF that] lt by simp
      then show ?thesis using ne Ret x Varint less read_varint_no_panic [of 0 0 rest]
        by (auto simp: step Let_def split: outcome.split)
    next
      case (Delimited upd)
      have "length rest' < length d" if "read_delimited l rest = Ret (b, rest')" for b rest'
        using read_delimited_consumes [OF that] lt by simp
      then show ?thesis using ne Ret x Delimited less read_delimited_no_panic [of l rest] assms
        by (auto simp: step Let_def no_panic_def split: outcome.split)
    next
      case (MapEntry upd)
      have "length rest' < length d" if "read_delimited l rest = Ret (b, rest')" for b rest'
        using read_delimited_consumes [OF that] lt by simp
      then show ?thesis using ne Ret x MapEntry less read_delimited_no_panic [of l rest] assms
        by (auto simp: step Let_def no_panic_def split: outcome.split)
    next
      case Unknown
      have "length rest' < length d" if "skip_unknown l d = Ret rest'" for rest'
        using skip_unknown_consumes [OF ne that] .
      then show ?thesis using ne Ret x Unknown less skip_unknown_no_panic [of d l]
        by (auto simp: step Let_def split: outcome.split)
    qed
  next
    case (Fail e)
    then show ?thesis by (subst pb_loop.simps) simp
  next
    case Panic
    then show ?thesis using read_varint_no_panic by blast
  qed
qed

section \<open>The contract of a message\<close>

text \<open>
  What the generated code of a message promises: \<^verbatim>\<open>Size\<close> is the length of what \<^verbatim>\<open>MarshalTo\<close> writes, and
  reading it into a zero message gives the message back; \<^verbatim>\<open>ok\<close> are the messages it can represent.
\<close>

locale proto_codec =
  fixes sw :: "u32 \<Rightarrow> 'm field" and enc :: "'m \<Rightarrow> bytes" and sz :: "'m \<Rightarrow> nat" and zero :: 'm
    and ok :: "'m \<Rightarrow> bool"
  assumes size_law: "ok m \<Longrightarrow> length (enc m) = sz m"
    and reads_law: "ok m \<Longrightarrow> fields_to sw (enc m) zero m"
begin

lemma unmarshal_enc: "ok m \<Longrightarrow> length (enc m) < 2 ^ 63 \<Longrightarrow> pb_unmarshal sw zero (enc m) = Ret m"
  by (rule unmarshal_fields [OF reads_law])

lemma message_round_trip:
  assumes "ok m" and "sz m < 2 ^ 63"
  shows "\<exists>b. pb_marshal (sz m) (enc m) = Ret b \<and> length b = sz m \<and> pb_unmarshal sw zero b = Ret m"
  using assms size_law [OF assms(1)] unmarshal_enc [OF assms(1)] by (simp add: pb_marshal_def)

text \<open>A message nested in another one.\<close>

lemma nested_field:
  assumes "tag_ok t f 2" and "sw' f = Delimited upd" and "ok x"
    and "\<And>b. pb_unmarshal sw zero b = Ret x \<Longrightarrow> upd b m = Ret m'"
  shows "fields_to sw' (t # encode_varint (of_nat (sz x)) @ enc x) m m'"
proof -
  have "fields_to sw' (t # encode_varint (of_nat (length (enc x))) @ enc x) m m'"
    by (rule reads_delimited [where sw = sw' and f = f and upd = upd, OF assms(1,2)])
       (intro assms(4) unmarshal_enc assms(3))
  then show ?thesis by (simp add: size_law assms(3))
qed

end

text \<open>A message without a map is also decoded without a panic.\<close>

locale proto_message = proto_codec +
  assumes total_law: "no_panic sw"
begin

lemma unmarshal_total: "pb_unmarshal sw m d \<noteq> Panic"
  unfolding pb_unmarshal_def by (rule pb_loop_no_panic [OF total_law])

end

text \<open>The fields of the encoders: a varint that is left out when it is 0, and a field of bytes.\<close>

definition varint_field :: "byte \<Rightarrow> u64 \<Rightarrow> bytes" where
  "varint_field t v = (if v \<noteq> 0 then t # encode_varint v else [])"

definition varint_field_size :: "u64 \<Rightarrow> nat" where
  "varint_field_size v = (if v \<noteq> 0 then 1 + sov v else 0)"

definition bytes_field :: "byte \<Rightarrow> bytes \<Rightarrow> bytes" where
  "bytes_field t b = t # encode_varint (of_nat (length b)) @ b"

definition bytes_field_size :: "nat \<Rightarrow> nat" where
  "bytes_field_size n = 1 + n + sov (of_nat n)"

definition bool_field :: "byte \<Rightarrow> bool \<Rightarrow> bytes" where
  "bool_field t v = (if v then [t, 1] else [])"

definition bool_field_size :: "bool \<Rightarrow> nat" where
  "bool_field_size v = (if v then 2 else 0)"

lemma length_fields [simp]:
  "length (varint_field t v) = varint_field_size v" "length (bytes_field t b) = bytes_field_size (length b)"
  "length (bool_field t v') = bool_field_size v'"
  by (simp_all add: varint_field_def varint_field_size_def bytes_field_def bytes_field_size_def length_encode_varint
      bool_field_def bool_field_size_def)

lemma sov_bound: "unat v < 2 ^ (7 * Suc k) \<Longrightarrow> sov v \<le> Suc k"
proof (induction k arbitrary: v)
  case 0
  then have "drop_bit 7 v = 0" by (simp add: word_unat_eq_iff unat_drop_bit)
  then show ?case by (subst sov.simps) simp
next
  case (Suc k)
  have "unat v < 128 * 2 ^ (7 * Suc k)" using Suc.prems by (simp add: power_add)
  then have "unat (drop_bit 7 v) < 2 ^ (7 * Suc k)" by (simp add: unat_drop_bit less_mult_imp_div_less mult.commute)
  from Suc.IH [OF this] show ?case by (subst sov.simps) (simp add: Let_def)
qed

lemma sov_le: "sov v \<le> 10"
proof -
  have "unat v < 2 ^ 64" using unsigned_less [of v, where 'a = nat] by simp
  also have "(2 :: nat) ^ 64 \<le> 2 ^ (7 * Suc 9)" by simp
  finally show ?thesis using sov_bound [of v 9] by simp
qed

lemma varint_field_size_le: "varint_field_size v \<le> 11"
  using sov_le [of v] by (simp add: varint_field_size_def)

lemma bytes_field_size_le: "bytes_field_size n \<le> n + 11"
  using sov_le [of "of_nat n"] by (simp add: bytes_field_size_def)

lemma fields_to_eq: "fields_to sw b m m1 \<Longrightarrow> m1 = m2 \<Longrightarrow> fields_to sw b m m2"
  by simp

lemma reads_varint_field:
  assumes "tag_ok t f 0" and "sw f = Varint upd"
  shows "fields_to sw (varint_field t v) m (if v = 0 then m else upd v m)"
  using reads_varint [where sw = sw and f = f and upd = upd and m = m and v = v, OF assms]
  by (auto simp: varint_field_def fields_to_Nil)

lemma encode_varint_one: "encode_varint 1 = [1]"
  by (subst encode_varint.simps) (simp add: word_le_nat_alt)

lemma reads_bool_field:
  assumes "tag_ok t f 0" and "sw f = Varint upd"
  shows "fields_to sw (bool_field t v) m (if v then upd 1 m else m)"
  using reads_varint [where sw = sw and f = f and upd = upd and m = m and v = 1, OF assms]
  by (auto simp: bool_field_def fields_to_Nil encode_varint_one)

lemma reads_bytes_field:
  assumes "tag_ok t f 2" and "sw f = Delimited upd" and "length b < 2 ^ 63 \<Longrightarrow> upd b m = Ret m'"
  shows "fields_to sw (bytes_field t b) m m'"
  unfolding bytes_field_def using assms by (rule reads_delimited)

lemma one_byte_tags:
  "tag_ok 0x08 1 0" "tag_ok 0x10 2 0" "tag_ok 0x18 3 0" "tag_ok 0x20 4 0" "tag_ok 0x28 5 0" "tag_ok 0x38 7 0"
  "tag_ok 0x0a 1 2" "tag_ok 0x12 2 2" "tag_ok 0x1a 3 2" "tag_ok 0x22 4 2" "tag_ok 0x32 6 2" "tag_ok 0x42 8 2"
  by code_simp+

definition opt_bytes_field :: "byte \<Rightarrow> bytes \<Rightarrow> bytes" where
  "opt_bytes_field t b = (if b \<noteq> [] then bytes_field t b else [])"

definition opt_bytes_field_size :: "bytes \<Rightarrow> nat" where
  "opt_bytes_field_size b = (if 0 < length b then bytes_field_size (length b) else 0)"

definition repeated_field :: "byte \<Rightarrow> bytes list \<Rightarrow> bytes" where
  "repeated_field t bs = concat (map (bytes_field t) bs)"

definition repeated_field_size :: "bytes list \<Rightarrow> nat" where
  "repeated_field_size bs = sum_list (map (\<lambda>b. bytes_field_size (length b)) bs)"

lemma length_more_fields [simp]:
  "length (opt_bytes_field t b) = opt_bytes_field_size b"
  "length (repeated_field t bs) = repeated_field_size bs"
  by (simp_all add: opt_bytes_field_def opt_bytes_field_size_def repeated_field_def repeated_field_size_def
      length_concat comp_def)

lemma reads_opt_bytes_field:
  assumes "tag_ok t f 2" and "sw f = Delimited (\<lambda>b m. Ret (g b m))"
  shows "fields_to sw (opt_bytes_field t b) m (if b = [] then m else g b m)"
  using reads_bytes_field [where sw = sw and f = f, OF assms, of b m] by (auto simp: opt_bytes_field_def fields_to_Nil)

lemma reads_repeated_field:
  assumes "tag_ok t f 2" and "sw f = Delimited (\<lambda>b m. Ret (g b m))"
  shows "fields_to sw (repeated_field t bs) m (fold g bs m)"
proof (induction bs arbitrary: m)
  case Nil
  then show ?case by (simp add: repeated_field_def fields_to_Nil)
next
  case (Cons b bs)
  have "fields_to sw (bytes_field t b) m (g b m)" by (rule reads_bytes_field [where sw = sw and f = f, OF assms]) simp
  from fields_to_append [OF this Cons.IH] show ?case by (simp add: repeated_field_def)
qed

lemmas reads_fields = fields_to_append reads_varint_field reads_bool_field reads_opt_bytes_field
  reads_repeated_field one_byte_tags

text \<open>The entries of a map, written in the order of the list.\<close>

lemma reads_entries:
  assumes "\<And>e m. e \<in> set es \<Longrightarrow> fields_to sw (ent e) m (g e m)"
  shows "fields_to sw (concat (map ent es)) m (fold g es m)"
  using assms
proof (induction es arbitrary: m)
  case (Cons e es)
  have "fields_to sw (ent e) m (g e m)" using Cons.prems by simp
  moreover have "fields_to sw (concat (map ent es)) (g e m) (fold g es (g e m))" using Cons by simp
  ultimately show ?case using fields_to_append by fastforce
qed (simp add: fields_to_Nil)

lemma fold_update_entries:
  assumes "map_ok (m @ es)"
  shows "fold (\<lambda>(k, v) m. AList.update k v m) es m = m @ es"
  using assms
proof (induction es arbitrary: m)
  case (Cons e es)
  obtain k v where e: "e = (k, v)" by (cases e)
  have "map_of m k = None" using Cons.prems e by (auto simp: map_ok_def map_of_eq_None_iff)
  then show ?case using Cons e by (simp add: update_absent)
qed simp

section \<open>An overflow of the index\<close>

text \<open>
  A map entry with one unknown field whose announced length takes the index past \<^verbatim>\<open>2^63\<close>; the entry
  stands at index 2 of an input of 12 bytes.
\<close>

definition huge_length :: u64 where
  "huge_length = 0x7ffffffffffffff5"

lemma length_huge: "length (encode_varint huge_length) = 9"
proof -
  have "sov huge_length = 9" unfolding huge_length_def by code_simp
  then show ?thesis by (simp add: length_encode_varint)
qed

lemma map_entry_overflow: "map_entry_loop kp vp 12 0 k v (0x1a # encode_varint huge_length) = Panic"
proof -
  let ?d = "0x1a # encode_varint huge_length"
  have tag: "read_varint 0 0 ?d = Ret (0x1a, encode_varint huge_length)"
    using read_tag [OF one_byte_tags(9), of "encode_varint huge_length"] by simp
  have len: "read_varint 0 0 (encode_varint huge_length) = Ret (huge_length, [])"
    using read_encode_varint [of huge_length "[]"] by simp
  have "unat huge_length = 2 ^ 63 - 11" "\<not> sint huge_length < 0"
    by (simp_all add: huge_length_def)
  then have "skip_field (Suc n) ?d = Some (Ret (2 ^ 63 - 1))" for n
    using tag len length_huge by (simp add: skip_field.simps(2) Let_def del: read_varint.simps)
  moreover have "2 * length ?d + 2 = Suc (2 * length ?d + 1)" by simp
  ultimately have "skip_field (2 * length ?d + 2) ?d = Some (Ret (2 ^ 63 - 1))" by (simp only:)
  then have "skip_in_entry 12 0 ?d = Panic" using length_huge by (simp add: skip_in_entry_def)
  then show ?thesis using tag by (subst map_entry_loop.simps) (simp add: Let_def del: read_varint.simps)
qed

lemma unmarshal_overflow:
  assumes "tag_ok t f 2" and "sw f = MapEntry upd"
    and "upd 12 0 (0x1a # encode_varint huge_length) m = Panic"
  shows "pb_unmarshal sw m (t # 0x0a # 0x1a # encode_varint huge_length) = Panic"
proof -
  have "read_varint 0 0 (0x0a # 0x1a # encode_varint huge_length) = Ret (10, 0x1a # encode_varint huge_length)"
    using read_tag [OF one_byte_tags(7), of "0x1a # encode_varint huge_length"] by simp
  then have "read_delimited 12 (0x0a # 0x1a # encode_varint huge_length) = Ret (0x1a # encode_varint huge_length, [])"
    using length_huge by (simp add: read_delimited_def del: read_varint.simps)
  then show ?thesis
    using assms length_huge read_tag [OF assms(1), of "0x0a # 0x1a # encode_varint huge_length"]
    unfolding pb_unmarshal_def by (subst pb_loop.simps) (simp add: tag_ok_def Let_def del: read_varint.simps)
qed

end
