(* ===== verification/Wal_Pb.thy ===== *)
theory Wal_Pb
  imports Proto_Wire
begin

unbundle bit_operations_syntax

text \<open>
  The protobuf code of the WAL's own message, \<^verbatim>\<open>pkg/wal/babuzawal/pb/wal.pb.go\<close>:
  \<^verbatim>\<open>WalNextEntry\<close> (the term and index of the entries that follow it in the file), and the log types of
  \<^verbatim>\<open>wal.proto\<close>. The theory ends with the round trip of the message and the totality of its decoder.
\<close>

section \<open>Log types\<close>

definition LogTypeNormalEntry :: u32 where "LogTypeNormalEntry = 0"
definition LogTypeConfChangeEntry :: u32 where "LogTypeConfChangeEntry = 1"
definition LogTypeConfChangeV2Entry :: u32 where "LogTypeConfChangeV2Entry = 2"
definition LogTypeCrc :: u32 where "LogTypeCrc = 26"
definition LogTypeMetadata :: u32 where "LogTypeMetadata = 27"
definition LogTypeHardState :: u32 where "LogTypeHardState = 28"
definition LogTypeSnapshot :: u32 where "LogTypeSnapshot = 29"
definition LogTypeNextEntry :: u32 where "LogTypeNextEntry = 30"
definition LogTypeMax :: u32 where "LogTypeMax = 31"

lemmas log_type_defs = LogTypeNormalEntry_def LogTypeConfChangeEntry_def LogTypeConfChangeV2Entry_def
  LogTypeCrc_def LogTypeMetadata_def LogTypeHardState_def LogTypeSnapshot_def LogTypeNextEntry_def
  LogTypeMax_def

section \<open>The message and its codec\<close>

record wal_next_entry =
  nextTerm :: u64
  nextIndex :: u64

definition next_entry_size :: "wal_next_entry \<Rightarrow> nat" where
  "next_entry_size m = varint_field_size (nextTerm m) + varint_field_size (nextIndex m)"

definition next_entry_bytes :: "wal_next_entry \<Rightarrow> bytes" where
  "next_entry_bytes m = varint_field 0x08 (nextTerm m) @ varint_field 0x10 (nextIndex m)"

text \<open>\<^verbatim>\<open>MarshalTo\<close> writes from the start of the buffer and panics when it is too short.\<close>

definition next_entry_marshal_to :: "wal_next_entry \<Rightarrow> bytes \<Rightarrow> (unit, bytes \<times> nat) outcome" where
  "next_entry_marshal_to m buf =
     (let b = next_entry_bytes m
      in if length b \<le> length buf then Ret (b @ drop (length b) buf, length b) else Panic)"

definition next_entry_marshal :: "wal_next_entry \<Rightarrow> (unit, bytes) outcome" where
  "next_entry_marshal m =
     bind_outcome (next_entry_marshal_to m (replicate (next_entry_size m) 0)) (\<lambda>(buf, n). go_slice buf 0 n)"

definition next_entry_switch :: "u32 \<Rightarrow> wal_next_entry field" where
  "next_entry_switch f =
     (if f = 1 then Varint (\<lambda>v m. m\<lparr>nextTerm := v\<rparr>)
      else if f = 2 then Varint (\<lambda>v m. m\<lparr>nextIndex := v\<rparr>)
      else Unknown)"

definition next_entry_unmarshal :: "wal_next_entry \<Rightarrow> bytes \<Rightarrow> (pb_error, wal_next_entry) outcome" where
  "next_entry_unmarshal = pb_unmarshal next_entry_switch"

section \<open>The message\<close>

lemma length_next_entry_bytes: "length (next_entry_bytes m) = next_entry_size m"
  by (simp add: next_entry_bytes_def next_entry_size_def)

lemma next_entry_fields: "fields_to next_entry_switch (next_entry_bytes m) \<lparr>nextTerm = 0, nextIndex = 0\<rparr> m"
  unfolding next_entry_bytes_def
  by (rule fields_to_eq, (rule fields_to_append reads_varint_field one_byte_tags | simp add: next_entry_switch_def; fail)+)

interpretation next_entry: proto_message next_entry_switch next_entry_bytes next_entry_size
    "\<lparr>nextTerm = 0, nextIndex = 0\<rparr>" "\<lambda>_. True"
  by unfold_locales (simp_all add: length_next_entry_bytes next_entry_fields no_panic_def next_entry_switch_def)

lemma next_entry_size_le: "next_entry_size m \<le> 22"
  using varint_field_size_le [of "nextTerm m"] varint_field_size_le [of "nextIndex m"]
  by (simp add: next_entry_size_def)

lemma unmarshal_next_entry_bytes:
  "next_entry_unmarshal \<lparr>nextTerm = 0, nextIndex = 0\<rparr> (next_entry_bytes m) = Ret m"
  unfolding next_entry_unmarshal_def
  by (rule next_entry.unmarshal_enc) (use next_entry_size_le [of m] in \<open>simp_all add: length_next_entry_bytes\<close>)

text \<open>
  The WAL's own message round trips: marshalling succeeds with exactly the announced size,
  and unmarshalling the bytes gives the message back.
\<close>

theorem next_entry_round_trip:
  "\<exists>b. next_entry_marshal m = Ret b \<and> length b = next_entry_size m \<and>
       next_entry_unmarshal \<lparr>nextTerm = 0, nextIndex = 0\<rparr> b = Ret m"
proof -
  have "next_entry_marshal m = Ret (next_entry_bytes m)"
    by (simp add: next_entry_marshal_def next_entry_marshal_to_def Let_def length_next_entry_bytes go_slice_def)
  then show ?thesis using length_next_entry_bytes unmarshal_next_entry_bytes by blast
qed

text \<open>
  C33. The decoder is total: on any bytes at all \<^verbatim>\<open>Unmarshal\<close> returns a message or an error, its
  loops end and it reads no byte out of range.
\<close>

theorem next_entry_unmarshal_total: "next_entry_unmarshal m d \<noteq> Panic"
  unfolding next_entry_unmarshal_def by (rule next_entry.unmarshal_total)

end
