(* ===== verification/Allocator.thy ===== *)
theory Allocator
  imports Babuza_Prelude "HOL-Library.Multiset"
begin

text \<open>
  The pool of byte buffers, \<^verbatim>\<open>pkg/utility/allocator/pool.go\<close>: levels of increasing sizes, each
  with a \<^verbatim>\<open>sync.Pool\<close> of released buffers. Go's \<^verbatim>\<open>sync.Pool\<close> may hand out any of the buffers
  it holds, or drop them: \<^verbatim>\<open>Get\<close> takes the position of the buffer to hand out, and a position
  past the end is the pool handing out nothing. A buffer carries an identity, so that handing
  the same buffer out twice is visible. \<^verbatim>\<open>grow\<close> is the next level size,
  \<^verbatim>\<open>int(float64(size) * factor)\<close>.
\<close>

record byte_slice =
  bs_id :: nat
  bs_buffer :: bytes

record level_pool =
  levelSize :: nat
  lp_free :: "byte_slice list"

record byte_slice_pool =
  pools :: "level_pool list"
  bp_next_id :: nat

partial_function (option) level_sizes :: "(nat \<Rightarrow> nat) \<Rightarrow> nat \<Rightarrow> nat \<Rightarrow> (nat list \<times> nat) option" where
  "level_sizes grow maxSize n =
     (if n \<le> maxSize then
        Option.bind (level_sizes grow maxSize (grow n)) (\<lambda>(ls, nextLevelSize). Some (n # ls, nextLevelSize))
      else Some ([], n))"

definition new_level :: "nat \<Rightarrow> level_pool" where
  "new_level n = \<lparr>levelSize = n, lp_free = []\<rparr>"

definition new_byte_slice_pool ::
  "(nat \<Rightarrow> nat) \<Rightarrow> bool \<Rightarrow> nat \<Rightarrow> nat \<Rightarrow> (unit, byte_slice_pool) outcome option" where
  "new_byte_slice_pool grow factorIsOne minSize maxSize =
     (if minSize = 0 \<or> maxSize = 0 \<or> maxSize < minSize \<or> factorIsOne then Some Panic
      else map_option
             (\<lambda>(ls, nextLevelSize).
                Ret \<lparr>pools = map new_level (ls @ (if nextLevelSize < maxSize then [maxSize] else [])),
                     bp_next_id = 0\<rparr>)
             (level_sizes grow maxSize minSize))"

text \<open>\<^verbatim>\<open>Acquire\<close>: the first level that is large enough, a recycled buffer or a fresh one.\<close>

fun acquire_from ::
  "nat \<Rightarrow> nat \<Rightarrow> nat \<Rightarrow> level_pool list \<Rightarrow> (unit, byte_slice \<times> level_pool list \<times> nat) outcome" where
  "acquire_from choice fresh n [] = Panic"
| "acquire_from choice fresh n (l # ls) =
     (if n \<le> levelSize l then
        (if choice < length (lp_free l) then
           Ret (lp_free l ! choice,
                l\<lparr>lp_free := take choice (lp_free l) @ drop (Suc choice) (lp_free l)\<rparr> # ls, fresh)
         else Ret (\<lparr>bs_id = fresh, bs_buffer = replicate (levelSize l) 0\<rparr>, l # ls, Suc fresh))
      else bind_outcome (acquire_from choice fresh n ls) (\<lambda>(b, ls', fresh'). Ret (b, l # ls', fresh')))"

definition pool_acquire ::
  "nat \<Rightarrow> nat \<Rightarrow> byte_slice_pool \<Rightarrow> (unit, byte_slice \<times> byte_slice_pool) outcome" where
  "pool_acquire choice n p =
     (if n = 0 then Panic
      else bind_outcome (acquire_from choice (bp_next_id p) n (pools p))
             (\<lambda>(b, ls, fresh). Ret (b, \<lparr>pools = ls, bp_next_id = fresh\<rparr>)))"

fun release_to :: "byte_slice \<Rightarrow> level_pool list \<Rightarrow> (unit, level_pool list) outcome" where
  "release_to b [] = Panic"
| "release_to b (l # ls) =
     (if length (bs_buffer b) = levelSize l then Ret (l\<lparr>lp_free := b # lp_free l\<rparr> # ls)
      else bind_outcome (release_to b ls) (\<lambda>ls'. Ret (l # ls')))"

text \<open>\<^verbatim>\<open>Release\<close>; the buffers of the pool have their capacity as length, and \<^verbatim>\<open>None\<close> is nil.\<close>

definition pool_release :: "byte_slice option \<Rightarrow> byte_slice_pool \<Rightarrow> (unit, byte_slice_pool) outcome" where
  "pool_release b p =
     (case b of
        None \<Rightarrow> Ret p
      | Some b \<Rightarrow> bind_outcome (release_to b (pools p)) (\<lambda>ls. Ret (p\<lparr>pools := ls\<rparr>)))"

section \<open>Invariant\<close>

definition pool_sizes :: "byte_slice_pool \<Rightarrow> nat list" where
  "pool_sizes p = map levelSize (pools p)"

definition pool_free_ids :: "byte_slice_pool \<Rightarrow> nat list" where
  "pool_free_ids p = concat (map (\<lambda>l. map bs_id (lp_free l)) (pools p))"

definition levels_ok :: "level_pool list \<Rightarrow> bool" where
  "levels_ok ls \<longleftrightarrow> (\<forall>l\<in>set ls. \<forall>b\<in>set (lp_free l). length (bs_buffer b) = levelSize l)"

text \<open>Every free buffer has its level's size, and no buffer is free twice.\<close>

definition pool_ok :: "byte_slice_pool \<Rightarrow> bool" where
  "pool_ok p \<longleftrightarrow> levels_ok (pools p) \<and> distinct (pool_free_ids p) \<and>
     (\<forall>i\<in>set (pool_free_ids p). i < bp_next_id p)"

lemma level_sizes_returns:
  assumes "\<And>n. 0 < n \<Longrightarrow> n < grow n" and "0 < n"
  shows "\<exists>ls nx. level_sizes grow m n = Some (ls, nx) \<and> m < nx \<and> (n \<le> m \<longrightarrow> n \<in> set ls) \<and>
               (\<forall>l\<in>set ls. n \<le> l \<and> l \<le> m)"
  using assms(2)
proof (induction "Suc m - n" arbitrary: n rule: less_induct)
  case less
  show ?case
  proof (cases "n \<le> m")
    case True
    have g: "n < grow n" using assms(1) less.prems by blast
    then have "Suc m - grow n < Suc m - n" "0 < grow n" using True by auto
    from less.hyps [OF this] obtain ls nx where "level_sizes grow m (grow n) = Some (ls, nx)" "m < nx"
        "\<forall>l\<in>set ls. grow n \<le> l \<and> l \<le> m"
      by blast
    then show ?thesis using True g by (subst level_sizes.simps) (auto dest: order.strict_implies_order)
  qed (subst level_sizes.simps, simp)
qed

lemma set_remove_nth: "set (take k xs @ drop (Suc k) xs) \<subseteq> set xs"
  by (auto dest: in_set_takeD in_set_dropD)

lemma mset_remove_nth: "k < length xs \<Longrightarrow> mset xs = add_mset (xs ! k) (mset (take k xs @ drop (Suc k) xs))"
  by (metis id_take_nth_drop mset_append mset.simps(2) union_mset_add_mset_right)

definition level_ids :: "level_pool list \<Rightarrow> nat multiset" where
  "level_ids ls = mset (concat (map (\<lambda>l. map bs_id (lp_free l)) ls))"

text \<open>
  The buffer handed out is large enough, has the size of a level, and is either one of the free
  buffers, removed from its level, or fresh.
\<close>

lemma acquire_from_ok:
  assumes "levels_ok ls" and "acquire_from choice fresh n ls = Ret (b, ls', fresh')"
  shows "levels_ok ls' \<and> n \<le> length (bs_buffer b) \<and> length (bs_buffer b) \<in> set (map levelSize ls) \<and>
         map levelSize ls' = map levelSize ls \<and>
         (level_ids ls = add_mset (bs_id b) (level_ids ls') \<and> fresh' = fresh \<or>
          level_ids ls = level_ids ls' \<and> bs_id b = fresh \<and> fresh' = Suc fresh)"
  using assms
proof (induction ls arbitrary: ls')
  case (Cons l ls)
  show ?case
  proof (cases "n \<le> levelSize l")
    case True
    show ?thesis
    proof (cases "choice < length (lp_free l)")
      case c: True
      have free: "\<forall>b\<in>set (lp_free l). length (bs_buffer b) = levelSize l" "levels_ok ls"
        using Cons.prems(1) by (auto simp: levels_ok_def)
      have "\<forall>b\<in>set (take choice (lp_free l) @ drop (Suc choice) (lp_free l)). length (bs_buffer b) = levelSize l"
        using free(1) set_remove_nth by fast
      moreover have "image_mset bs_id (mset (lp_free l)) = add_mset (bs_id (lp_free l ! choice))
          (image_mset bs_id (mset (take choice (lp_free l) @ drop (Suc choice) (lp_free l))))"
        using mset_remove_nth [OF c] by simp
      ultimately show ?thesis
        using Cons.prems(2) True c free
        by (auto simp: levels_ok_def level_ids_def simp flip: mset_map)
    qed (use Cons.prems True in \<open>auto simp: levels_ok_def level_ids_def\<close>)
  next
    case False
    then obtain ls2 where "acquire_from choice fresh n ls = Ret (b, ls2, fresh')" "ls' = l # ls2"
      using Cons.prems(2) by (auto simp: bind_outcome_Ret_iff)
    then show ?thesis
      using Cons.IH [of ls2] Cons.prems(1) by (auto simp: levels_ok_def level_ids_def)
  qed
qed simp

lemma acquire_from_panics_iff:
  "acquire_from choice fresh n ls = Panic \<longleftrightarrow> (\<forall>l\<in>set ls. levelSize l < n)"
  by (induction ls) (auto simp: not_le elim!: bind_outcome.elims split: if_splits)

lemma acquire_from_no_fail: "acquire_from choice fresh n ls \<noteq> Fail e"
  by (induction ls) (auto elim!: bind_outcome.elims split: if_splits)

lemma release_to_ok:
  assumes "levels_ok ls" and "length (bs_buffer b) \<in> set (map levelSize ls)"
  shows "\<exists>ls'. release_to b ls = Ret ls' \<and> levels_ok ls' \<and> map levelSize ls' = map levelSize ls \<and>
               level_ids ls' = add_mset (bs_id b) (level_ids ls)"
  using assms
proof (induction ls)
  case (Cons l ls)
  then show ?case
    by (cases "length (bs_buffer b) = levelSize l") (auto simp: levels_ok_def level_ids_def)
qed simp

lemma distinct_free_ids: "distinct (pool_free_ids p) \<longleftrightarrow> (\<forall>i. count (level_ids (pools p)) i \<le> 1)"
  unfolding level_ids_def pool_free_ids_def
  by (auto simp: distinct_count_atmost_1 count_mset_0_iff le_Suc_eq)

lemma pool_ok_ids: "pool_ok p \<longleftrightarrow> levels_ok (pools p) \<and> (\<forall>i. count (level_ids (pools p)) i \<le> 1) \<and>
    (\<forall>i\<in>#level_ids (pools p). i < bp_next_id p)"
  unfolding pool_ok_def distinct_free_ids by (simp add: level_ids_def pool_free_ids_def)

lemma set_pool_free_ids: "i \<in> set (pool_free_ids p) \<longleftrightarrow> i \<in># level_ids (pools p)"
  by (simp add: pool_free_ids_def level_ids_def)

lemma pool_acquire_ok:
  assumes "pool_ok p" and "pool_acquire choice n p = Ret (b, p')"
  shows "pool_ok p' \<and> n \<le> length (bs_buffer b) \<and> bs_id b \<notin> set (pool_free_ids p') \<and>
         bs_id b < bp_next_id p' \<and> pool_sizes p' = pool_sizes p"
proof -
  let ?ids = "level_ids (pools p)"
  have ok: "levels_ok (pools p)" and one: "\<And>i. count ?ids i \<le> 1" and lt: "\<And>i. i \<in># ?ids \<Longrightarrow> i < bp_next_id p"
    using assms(1) by (auto simp: pool_ok_ids)
  obtain ls fresh where a: "acquire_from choice (bp_next_id p) n (pools p) = Ret (b, ls, fresh)"
    and p': "p' = \<lparr>pools = ls, bp_next_id = fresh\<rparr>"
    using assms(2) by (auto simp: pool_acquire_def bind_outcome_Ret_iff split: if_splits)
  from acquire_from_ok [OF ok a] consider
      (recycled) "?ids = add_mset (bs_id b) (level_ids ls)" "fresh = bp_next_id p"
    | (made) "?ids = level_ids ls" "bs_id b = bp_next_id p" "fresh = Suc (bp_next_id p)"
    by blast
  then have "(\<forall>i. count (level_ids ls) i \<le> 1) \<and> (\<forall>i\<in>#level_ids ls. i < fresh) \<and>
      bs_id b \<notin># level_ids ls \<and> bs_id b < fresh"
  proof cases
    case recycled
    have "count (level_ids ls) i \<le> 1" for i
      using one [of i] recycled(1) by (simp split: if_splits)
    moreover have "bs_id b \<notin># level_ids ls"
      using one [of "bs_id b"] recycled(1) by (simp add: not_in_iff)
    moreover have "bs_id b < bp_next_id p" using lt recycled(1) by simp
    ultimately show ?thesis using recycled lt by simp
  next
    case made
    have "bs_id b \<notin># level_ids ls" using lt [of "bs_id b"] made by auto
    then show ?thesis using made one lt by (auto intro: less_SucI)
  qed
  then show ?thesis
    using acquire_from_ok [OF ok a] by (auto simp: p' pool_ok_ids set_pool_free_ids pool_sizes_def)
qed

section \<open>The interface of a source of buffers\<close>

text \<open>
  What the codecs rely on: a buffer that was asked for is at least that long, whatever bytes it
  holds, and taking it leaves the source usable.
\<close>

locale buffer_source =
  fixes ready :: "'p \<Rightarrow> bool"
    and take_buffer :: "nat \<Rightarrow> nat \<Rightarrow> 'p \<Rightarrow> (unit, byte_slice \<times> 'p) outcome"
  assumes take_law: "ready p \<Longrightarrow> take_buffer choice n p = Ret (b, p') \<Longrightarrow>
      ready p' \<and> n \<le> length (bs_buffer b)"
begin

definition acquirer_of :: "nat \<Rightarrow> 'p \<Rightarrow> nat \<Rightarrow> (unit, bytes) outcome" where
  "acquirer_of choice p n = bind_outcome (take_buffer choice n p) (\<lambda>(b, p'). Ret (bs_buffer b))"

lemma acquirer_long_enough:
  "ready p \<Longrightarrow> acquirer_of choice p n = Ret buf \<Longrightarrow> n \<le> length buf"
  using take_law by (auto simp: acquirer_of_def bind_outcome_Ret_iff)

end

interpretation byte_pool: buffer_source pool_ok pool_acquire
  by unfold_locales (use pool_acquire_ok in blast)

text \<open>
  The clients of the pool see only its \<^verbatim>\<open>Acquire\<close>: \<open>acq n\<close> is the buffer a request for \<open>n\<close> bytes
  gives, with whatever bytes it was left with.
\<close>

type_synonym acquirer = "nat \<Rightarrow> (unit, bytes) outcome"

definition acq_ok :: "acquirer \<Rightarrow> nat \<Rightarrow> bool" where
  "acq_ok acq n \<longleftrightarrow> (\<exists>buf. acq n = Ret buf \<and> n \<le> length buf)"

lemma byte_pool_zero: "byte_pool.acquirer_of choice p 0 = Panic"
  by (simp add: byte_pool.acquirer_of_def pool_acquire_def)

section \<open>Properties\<close>

definition sample_pool :: byte_slice_pool where
  "sample_pool = \<lparr>pools = [new_level 4, new_level 8], bp_next_id = 0\<rparr>"

lemma sample_pool_ok: "pool_ok sample_pool"
  by (simp add: sample_pool_def pool_ok_def levels_ok_def new_level_def pool_free_ids_def)

text \<open>
  C34. \<^verbatim>\<open>Acquire\<close> hands out a buffer that is large enough and that the pool no longer holds, and
  keeps the pool's invariant: no buffer is handed out twice without a release in between.
\<close>

theorem pool_acquire_exclusive:
  assumes "pool_ok p" and "pool_acquire choice n p = Ret (b, p')"
  shows "pool_ok p' \<and> n \<le> length (bs_buffer b) \<and> bs_id b \<notin> set (pool_free_ids p') \<and>
         bs_id b < bp_next_id p' \<and> pool_sizes p' = pool_sizes p"
  using assms by (rule pool_acquire_ok)

theorem pool_acquire_exclusive_witness:
  "\<exists>b p'. pool_acquire 0 6 sample_pool = Ret (b, p') \<and> pool_ok p' \<and> 6 \<le> length (bs_buffer b) \<and>
          bs_id b \<notin> set (pool_free_ids p')"
proof -
  have "pool_acquire 0 6 sample_pool =
      Ret (\<lparr>bs_id = 0, bs_buffer = replicate 8 0\<rparr>, sample_pool\<lparr>bp_next_id := 1\<rparr>)"
    by (simp add: pool_acquire_def sample_pool_def new_level_def)
  then show ?thesis using pool_acquire_exclusive [OF sample_pool_ok] by blast
qed

text \<open>
  Releasing a buffer the pool does not hold keeps the invariant; releasing it once more puts
  it into the pool twice, and two later \<^verbatim>\<open>Acquire\<close> calls hand out the same buffer.
\<close>

theorem pool_double_release_aliases:
  assumes "pool_ok p" and "bs_id b \<notin> set (pool_free_ids p)" and "bs_id b < bp_next_id p"
    and "length (bs_buffer b) \<in> set (pool_sizes p)"
  shows "\<exists>p1 p2. pool_release (Some b) p = Ret p1 \<and> pool_ok p1 \<and>
                 pool_release (Some b) p1 = Ret p2 \<and> \<not> distinct (pool_free_ids p2)"
proof -
  have ok: "levels_ok (pools p)" and one: "\<And>i. count (level_ids (pools p)) i \<le> 1"
    and lt: "\<And>i. i \<in># level_ids (pools p) \<Longrightarrow> i < bp_next_id p"
    using assms(1) by (auto simp: pool_ok_ids)
  obtain l1 where l1: "release_to b (pools p) = Ret l1" "levels_ok l1" "map levelSize l1 = pool_sizes p"
      "level_ids l1 = add_mset (bs_id b) (level_ids (pools p))"
    using release_to_ok [OF ok] assms(4) by (auto simp: pool_sizes_def)
  obtain l2 where l2: "release_to b l1 = Ret l2" "level_ids l2 = add_mset (bs_id b) (level_ids l1)"
    using release_to_ok [OF l1(2), of b] l1(3) assms(4) by auto
  have "pool_ok (p\<lparr>pools := l1\<rparr>)"
    using l1 one lt assms(2,3) by (auto simp: pool_ok_ids set_pool_free_ids not_in_iff)
  moreover have "count (level_ids l2) (bs_id b) \<ge> 2" using l2(2) l1(4) by simp
  then have "\<not> distinct (pool_free_ids (p\<lparr>pools := l2\<rparr>))"
    unfolding distinct_free_ids by (auto simp: not_le intro!: exI [of _ "bs_id b"])
  ultimately show ?thesis using l1(1) l2(1) by (auto simp: pool_release_def)
qed

theorem pool_double_release_aliases_witness:
  "\<exists>p1 p2. pool_release (Some \<lparr>bs_id = 0, bs_buffer = replicate 8 0\<rparr>) (sample_pool\<lparr>bp_next_id := 1\<rparr>) = Ret p1 \<and>
     pool_release (Some \<lparr>bs_id = 0, bs_buffer = replicate 8 0\<rparr>) p1 = Ret p2 \<and> \<not> distinct (pool_free_ids p2)"
proof -
  let ?p = "sample_pool\<lparr>bp_next_id := 1\<rparr>"
  have "pool_ok ?p" "pool_sizes ?p = [4, 8]" "pool_free_ids ?p = []"
    by (simp_all add: sample_pool_def pool_ok_def levels_ok_def new_level_def pool_free_ids_def pool_sizes_def)
  then show ?thesis
    using pool_double_release_aliases [of ?p "\<lparr>bs_id = 0, bs_buffer = replicate 8 0\<rparr>"] by auto
qed

text \<open>
  The largest level of a new pool is the last multiple that does not exceed the configured
  maximum: the branch that would add the maximum itself is never taken, so a request between that
  level and the maximum panics.
\<close>

theorem pool_max_level_not_added:
  assumes "\<And>n. 0 < n \<Longrightarrow> n < grow n" and "0 < minSize" and "minSize \<le> maxSize"
  shows "\<exists>p ls nx. new_byte_slice_pool grow False minSize maxSize = Some (Ret p) \<and>
     level_sizes grow maxSize minSize = Some (ls, nx) \<and> pool_sizes p = ls \<and>
     (\<forall>choice n. 0 < n \<longrightarrow> (pool_acquire choice n p = Panic \<longleftrightarrow> (\<forall>l\<in>set ls. l < n)))"
proof -
  obtain ls nx where ls: "level_sizes grow maxSize minSize = Some (ls, nx)" "maxSize < nx"
    using level_sizes_returns [of grow minSize maxSize] assms by blast
  define p where "p = \<lparr>pools = map new_level ls, bp_next_id = 0\<rparr>"
  have "new_byte_slice_pool grow False minSize maxSize = Some (Ret p)"
    using ls assms(2,3) by (simp add: new_byte_slice_pool_def p_def)
  moreover have "pool_sizes p = ls" by (simp add: pool_sizes_def p_def new_level_def comp_def)
  moreover have "pool_acquire choice n p = Panic \<longleftrightarrow> (\<forall>l\<in>set ls. l < n)" if "0 < n" for choice n
  proof -
    have "pool_acquire choice n p = Panic \<longleftrightarrow> acquire_from choice 0 n (pools p) = Panic"
      using that by (auto simp: pool_acquire_def p_def elim!: bind_outcome.elims)
    then show ?thesis by (auto simp: acquire_from_panics_iff p_def new_level_def)
  qed
  ultimately show ?thesis using ls(1) by blast
qed

theorem pool_max_level_not_added_witness:
  "\<exists>p. new_byte_slice_pool (\<lambda>n. 2 * n) False 3 10 = Some (Ret p) \<and> pool_acquire 0 8 p = Panic"
proof -
  have "level_sizes (\<lambda>n. 2 * n) 10 3 = Some ([3, 6], 12)"
    by (simp add: level_sizes.simps)
  then show ?thesis
    using pool_max_level_not_added [of "\<lambda>n. 2 * n" 3 10] by fastforce
qed

end
