(* ===== verification/Wal_Codec.thy ===== *)
theory Wal_Codec
  imports Wal_Pb Allocator
begin

unbundle bit_operations_syntax

text \<open>
  The framing of WAL records, \<^verbatim>\<open>pkg/wal/babuzawal/codec\<close>: an 8-byte header (24 bits of size, 5
  of type and 3 of padding, then the running CRC-32C), the body and padding to a multiple of 8.
  Buffers come from the pool: \<^verbatim>\<open>acq\<close> is its \<^verbatim>\<open>Acquire\<close>, and the bytes of a recycled buffer are
  arbitrary. The bodies of raft's own messages are what their generated \<^verbatim>\<open>MarshalTo\<close> writes.
\<close>

section \<open>Encoder\<close>

definition HeaderSize :: nat where "HeaderSize = 8"
definition logSizeMask :: u32 where "logSizeMask = NOT 8"
definition logTypeMask :: u32 where "logTypeMask = push_bit 3 0x1f"
definition maxLogSize :: nat where "maxLogSize = 0xffffff"

datatype codec_error = ErrLogSizeExceedLimit | ErrCopySize nat nat

datatype log_body = CrcLog u32 | SliceBytes bytes | MarshalledLog bytes

fun body_encode :: "log_body \<Rightarrow> bytes \<Rightarrow> nat \<Rightarrow> u32 \<Rightarrow> (codec_error, bytes \<times> u32) outcome" where
  "body_encode (CrcLog v) buf logSize lastCrc =
     (if length buf < 4 then Panic else Ret (put_uint32 v @ drop 4 buf, v))"
| "body_encode (SliceBytes l) buf logSize lastCrc =
     (let n = min (length buf) (length l); buf' = take n l @ drop n buf
      in if n \<noteq> logSize then Fail (ErrCopySize n logSize)
         else Ret (buf', crc32_update lastCrc (take logSize buf')))"
| "body_encode (MarshalledLog m) buf logSize lastCrc =
     (if length buf < length m then Panic
      else let buf' = m @ drop (length m) buf in Ret (buf', crc32_update lastCrc (take logSize buf')))"

definition calc_padding :: "nat \<Rightarrow> nat" where
  "calc_padding logSize = (8 - ((HeaderSize + logSize) mod 8)) mod 8"

definition frame_header :: "u32 \<Rightarrow> nat \<Rightarrow> nat \<Rightarrow> u32" where
  "frame_header logType logSize padding =
     push_bit 8 (of_nat logSize) OR push_bit 3 logType OR (of_nat padding AND 7)"

text \<open>
  \<^verbatim>\<open>Encode\<close> returns the encoder's new running CRC and the bytes it hands to the writer. A failing
  body resets the CRC to 0, as the code assigns it before it looks at the error.
\<close>

definition encode :: "acquirer \<Rightarrow> u32 \<Rightarrow> u32 \<Rightarrow> nat \<Rightarrow> log_body \<Rightarrow> u32 \<times> (codec_error, bytes) outcome" where
  "encode acq currentCrc logType logSize body =
     (if maxLogSize < logSize then (currentCrc, Fail ErrLogSizeExceedLimit)
      else
        let padding = calc_padding logSize; total = HeaderSize + logSize + padding
        in case acq total of
             Ret buf \<Rightarrow>
               (if length buf < total then (currentCrc, Panic)
                else
                  let buf1 = put_uint32 (frame_header logType logSize padding) @ drop 4 buf
                  in case body_encode body (take logSize (drop HeaderSize buf1)) logSize currentCrc of
                       Ret (b, crc) \<Rightarrow>
                         (let buf2 = take HeaderSize buf1 @ b @ drop (HeaderSize + logSize) buf1;
                              buf3 = take 4 buf2 @ put_uint32 crc @ drop HeaderSize buf2;
                              buf4 = take (HeaderSize + logSize) buf3 @ replicate padding 0 @ drop total buf3
                          in (crc, Ret (take total buf4)))
                     | Fail e \<Rightarrow> (0, Fail e)
                     | Panic \<Rightarrow> (currentCrc, Panic))
           | _ \<Rightarrow> (currentCrc, Panic))"

section \<open>Decoder\<close>

record frame =
  fr_type :: u32
  fr_body :: bytes
  fr_size :: nat
  fr_crc :: u32

text \<open>\<^verbatim>\<open>Decode\<close> up to the call of the handler: the frame and the rest of the input.\<close>

definition decode :: "acquirer \<Rightarrow> bytes \<Rightarrow> (io_error, frame \<times> bytes) outcome" where
  "decode acq r =
     bind_outcome (read_full HeaderSize r) (\<lambda>(headerBuf, r1).
       let h = get_uint32 (take 4 headerBuf);
           logSize = unat (drop_bit 8 (h AND logSizeMask));
           padding = unat (h AND 7);
           logType = drop_bit 3 (h AND logTypeMask);
           crc = get_uint32 (drop 4 headerBuf);
           nextReadSize = logSize + padding
       in if logSize = 0 \<and> padding = 0 \<and> crc = 0 then Fail EOF
          else if nextReadSize = 0 then
            Ret (\<lparr>fr_type = logType, fr_body = [], fr_size = HeaderSize, fr_crc = crc\<rparr>, r1)
          else
            (case acq nextReadSize of
               Ret buf \<Rightarrow>
                 (if length buf < nextReadSize then Panic
                  else case read_full nextReadSize r1 of
                         Ret (b, r2) \<Rightarrow>
                           Ret (\<lparr>fr_type = logType, fr_body = take logSize b,
                                 fr_size = HeaderSize + nextReadSize, fr_crc = crc\<rparr>, r2)
                       | Fail e \<Rightarrow> Fail (if e = EOF then UnexpectedEOF else e)
                       | Panic \<Rightarrow> Panic)
             | _ \<Rightarrow> Panic))"

section \<open>The wire format\<close>

definition frame_bytes :: "u32 \<Rightarrow> bytes \<Rightarrow> u32 \<Rightarrow> bytes" where
  "frame_bytes logType b crc =
     put_uint32 (frame_header logType (length b) (calc_padding (length b))) @ put_uint32 crc @ b @
     replicate (calc_padding (length b)) 0"

fun body_bytes :: "log_body \<Rightarrow> bytes" where
  "body_bytes (CrcLog v) = put_uint32 v"
| "body_bytes (SliceBytes l) = l"
| "body_bytes (MarshalledLog m) = m"

fun body_crc :: "log_body \<Rightarrow> u32 \<Rightarrow> u32" where
  "body_crc (CrcLog v) c = v"
| "body_crc b c = crc32_update c (body_bytes b)"

lemma calc_padding_less: "calc_padding n < 8"
  by (simp add: calc_padding_def)

lemma calc_padding_aligns: "8 dvd HeaderSize + n + calc_padding n"
proof -
  have "m + (8 - m mod 8) = 8 * (m div 8) + 8" for m :: nat
    using mult_div_mod_eq [of 8 m] mod_less_divisor [of 8 m] by linarith
  then have "8 dvd m + (8 - m mod 8) mod 8" for m :: nat
    by (metis dvd_eq_mod_eq_0 dvd_triv_left dvd_add mod_add_right_eq dvd_refl)
  then show ?thesis by (simp only: calc_padding_def)
qed

lemma calc_padding_0: "calc_padding 0 = 0"
  by (simp add: calc_padding_def HeaderSize_def)

lemma length_frame_bytes: "length (frame_bytes t b c) = HeaderSize + length b + calc_padding (length b)"
  by (simp add: frame_bytes_def HeaderSize_def)

lemma body_encode_exact:
  "length buf = length (body_bytes body) \<Longrightarrow>
   body_encode body buf (length (body_bytes body)) c = Ret (body_bytes body, body_crc body c)"
  by (cases body) (simp_all add: Let_def)

lemma encode_ok:
  assumes "length (body_bytes body) \<le> maxLogSize"
    and "acq (HeaderSize + length (body_bytes body) + calc_padding (length (body_bytes body))) = Ret buf"
    and "HeaderSize + length (body_bytes body) + calc_padding (length (body_bytes body)) \<le> length buf"
  shows "encode acq c t (length (body_bytes body)) body =
    (body_crc body c, Ret (frame_bytes t (body_bytes body) (body_crc body c)))"
proof -
  let ?n = "length (body_bytes body)" and ?p = "calc_padding (length (body_bytes body))"
  let ?h = "put_uint32 (frame_header t ?n ?p)"
  have len: "length (take ?n (drop 4 (drop 4 buf))) = ?n"
    using assms(3) by (simp add: HeaderSize_def)
  have "body_encode body (take ?n (drop HeaderSize (?h @ drop 4 buf))) ?n c = Ret (body_bytes body, body_crc body c)"
    using body_encode_exact [OF len] by (simp add: HeaderSize_def)
  then show ?thesis
    using assms
    by (simp add: encode_def Let_def frame_bytes_def HeaderSize_def)
qed

section \<open>Decoding frames\<close>

lemma bit_word_bound:
  assumes "unat (x :: u32) < 2 ^ k" and "bit x i"
  shows "i < k"
proof -
  have "bit (take_bit k x) i" using assms by (simp add: take_bit_small)
  then show ?thesis by (simp add: bit_take_bit_iff)
qed

lemma bit_7_u32: "bit (7 :: u32) i \<longleftrightarrow> i < 3"
proof -
  have e: "(7 :: u32) = mask 3" by (simp add: mask_eq_exp_minus_1)
  show ?thesis unfolding e bit_mask_iff by auto
qed

lemma bit_logTypeMask: "bit logTypeMask i \<longleftrightarrow> 3 \<le> i \<and> i < 8"
proof -
  have e: "(0x1f :: u32) = mask 5" by (simp add: mask_eq_exp_minus_1)
  show ?thesis unfolding logTypeMask_def e bit_push_bit_iff bit_mask_iff by auto
qed

lemma bit_logSizeMask: "bit logSizeMask i \<longleftrightarrow> i < 32 \<and> i \<noteq> 3"
proof -
  have e: "(8 :: u32) = 2 ^ 3" by simp
  show ?thesis unfolding logSizeMask_def e bit_not_iff bit_exp_iff by auto
qed

lemma bit_frame_header:
  fixes sz t pd :: u32
  assumes "unat sz < 2 ^ 24" and "unat t < 2 ^ 5" and "unat pd < 2 ^ 3"
  shows "bit (push_bit 8 sz OR push_bit 3 t OR (pd AND 7)) i \<longleftrightarrow>
    8 \<le> i \<and> bit sz (i - 8) \<or> 3 \<le> i \<and> i < 8 \<and> bit t (i - 3) \<or> i < 3 \<and> bit pd i"
  using bit_word_bound [OF assms(1), of "i - 8"] bit_word_bound [OF assms(2), of "i - 3"]
    bit_word_bound [OF assms(3), of i]
  unfolding bit_or_iff bit_and_iff bit_push_bit_iff bit_7_u32 by auto

lemma header_fields:
  assumes "n < 2 ^ 24" and "t < 32" and "p < 8"
  shows "drop_bit 8 (frame_header t n p AND logSizeMask) = of_nat n"
    and "drop_bit 3 (frame_header t n p AND logTypeMask) = t"
    and "frame_header t n p AND 7 = of_nat p"
proof -
  have u: "unat (of_nat n :: u32) < 2 ^ 24" "unat t < 2 ^ 5" "unat (of_nat p :: u32) < 2 ^ 3"
    using assms by (simp_all add: unat_of_nat word_less_nat_alt)
  note hdr = bit_frame_header [OF u, folded frame_header_def]
  have n: "bit (of_nat n :: u32) i \<Longrightarrow> i < 24" for i using bit_word_bound [OF u(1)] .
  have t: "bit t i \<Longrightarrow> i < 5" for i using bit_word_bound [OF u(2)] .
  have p: "bit (of_nat p :: u32) i \<Longrightarrow> i < 3" for i using bit_word_bound [OF u(3)] .
  show "drop_bit 8 (frame_header t n p AND logSizeMask) = of_nat n"
  proof (rule bit_word_eqI)
    fix i assume "i < LENGTH(32)"
    show "bit (drop_bit 8 (frame_header t n p AND logSizeMask)) i = bit (of_nat n :: u32) i"
      unfolding bit_drop_bit_eq comp_def bit_and_iff hdr bit_logSizeMask using n [of i] by auto
  qed
  show "drop_bit 3 (frame_header t n p AND logTypeMask) = t"
  proof (rule bit_word_eqI)
    fix i assume "i < LENGTH(32)"
    show "bit (drop_bit 3 (frame_header t n p AND logTypeMask)) i = bit t i"
      unfolding bit_drop_bit_eq comp_def bit_and_iff hdr bit_logTypeMask using t [of i] by auto
  qed
  show "frame_header t n p AND 7 = of_nat p"
  proof (rule bit_word_eqI)
    fix i assume "i < LENGTH(32)"
    show "bit (frame_header t n p AND 7) i = bit (of_nat p :: u32) i"
      unfolding bit_and_iff hdr bit_7_u32 using p [of i] by auto
  qed
qed

text \<open>The buffers the encoder and the decoder of a body of \<^verbatim>\<open>n\<close> bytes ask for.\<close>

definition buffers_for :: "acquirer \<Rightarrow> nat \<Rightarrow> bool" where
  "buffers_for acq n \<longleftrightarrow> acq_ok acq (HeaderSize + n + calc_padding n) \<and>
     (0 < n \<longrightarrow> acq_ok acq (n + calc_padding n))"

lemma encode_frame:
  assumes "length (body_bytes body) \<le> maxLogSize" and "buffers_for acq (length (body_bytes body))"
  shows "encode acq c t (length (body_bytes body)) body =
    (body_crc body c, Ret (frame_bytes t (body_bytes body) (body_crc body c)))"
  using assms encode_ok [of body acq _ c t] by (auto simp: buffers_for_def acq_ok_def)

lemma length_put_headers: "length (put_uint32 a @ put_uint32 b) = HeaderSize"
  by (simp add: HeaderSize_def)

lemma decode_headers:
  assumes "n \<le> maxLogSize" and "t < 32"
  shows "decode acq (put_uint32 (frame_header t n (calc_padding n)) @ put_uint32 c @ r) =
    (if n = 0 \<and> c = 0 then Fail EOF
     else if n = 0 then Ret (\<lparr>fr_type = t, fr_body = [], fr_size = HeaderSize, fr_crc = c\<rparr>, r)
     else case acq (n + calc_padding n) of
            Ret buf \<Rightarrow>
              (if length buf < n + calc_padding n then Panic
               else case read_full (n + calc_padding n) r of
                      Ret (b, r2) \<Rightarrow> Ret (\<lparr>fr_type = t, fr_body = take n b,
                          fr_size = HeaderSize + (n + calc_padding n), fr_crc = c\<rparr>, r2)
                    | Fail e \<Rightarrow> Fail (if e = EOF then UnexpectedEOF else e)
                    | Panic \<Rightarrow> Panic)
          | _ \<Rightarrow> Panic)"
proof -
  let ?p = "calc_padding n" and ?h = "frame_header t n (calc_padding n)"
  have n24: "n < 2 ^ 24" using assms(1) by (simp add: maxLogSize_def)
  note f = header_fields [OF n24 assms(2) calc_padding_less]
  have u: "unat (of_nat n :: u32) = n" "unat (of_nat ?p :: u32) = ?p"
    using n24 calc_padding_less [of n] by (simp_all add: unat_of_nat)
  have rd: "read_full HeaderSize (put_uint32 ?h @ put_uint32 c @ r) = Ret (put_uint32 ?h @ put_uint32 c, r)"
    using read_full_append [OF length_put_headers, of ?h c r] by simp
  have g: "get_uint32 (take 4 (put_uint32 ?h @ put_uint32 c)) = ?h"
    "get_uint32 (drop 4 (put_uint32 ?h @ put_uint32 c)) = c"
    by simp_all
  show ?thesis
    unfolding decode_def rd bind_outcome.simps prod.case Let_def g f u
    by (cases "n = 0") (simp_all add: calc_padding_0)
qed

lemma decode_frame:
  assumes "length b \<le> maxLogSize" and "t < 32" and "buffers_for acq (length b)"
  shows "decode acq (frame_bytes t b c @ rest) =
    (if b = [] \<and> c = 0 then Fail EOF
     else Ret (\<lparr>fr_type = t, fr_body = b, fr_size = length (frame_bytes t b c), fr_crc = c\<rparr>, rest))"
proof (cases "b = []")
  case True
  then show ?thesis
    using decode_headers [OF assms(1,2), of acq c rest] by (simp add: frame_bytes_def calc_padding_0 HeaderSize_def)
next
  case False
  then obtain buf where buf: "acq (length b + calc_padding (length b)) = Ret buf"
      "length b + calc_padding (length b) \<le> length buf"
    using assms(3) by (auto simp: buffers_for_def acq_ok_def)
  have "read_full (length b + calc_padding (length b)) ((b @ replicate (calc_padding (length b)) 0) @ rest) =
      Ret (b @ replicate (calc_padding (length b)) 0, rest)"
    by (rule read_full_append) simp
  then show ?thesis
    using False buf decode_headers [OF assms(1,2), of acq c "b @ replicate (calc_padding (length b)) 0 @ rest"]
    by (simp add: frame_bytes_def HeaderSize_def)
qed

text \<open>A frame cut short by a crash.\<close>

lemma decode_torn:
  assumes "length b \<le> maxLogSize" and "t < 32" and "buffers_for acq (length b)" and "b \<noteq> []"
    and "0 < k" and "k < length (frame_bytes t b c)"
  shows "decode acq (take k (frame_bytes t b c)) = Fail UnexpectedEOF"
proof (cases "k < HeaderSize")
  case True
  then have "read_full HeaderSize (take k (frame_bytes t b c)) = Fail UnexpectedEOF"
    using assms(5,6) by (auto simp: read_full_def)
  then show ?thesis by (simp add: decode_def)
next
  case False
  let ?p = "calc_padding (length b)" and ?r = "take (k - HeaderSize) (b @ replicate (calc_padding (length b)) 0)"
  have t: "take k (frame_bytes t b c) = put_uint32 (frame_header t (length b) ?p) @ put_uint32 c @ ?r"
    using False by (simp add: frame_bytes_def HeaderSize_def)
  have "length ?r < length b + ?p" using assms(6) False by (simp add: length_frame_bytes)
  then have "read_full (length b + ?p) ?r = Fail EOF \<or> read_full (length b + ?p) ?r = Fail UnexpectedEOF"
    by (auto simp: read_full_def)
  then show ?thesis
    using assms(3,4) decode_headers [OF assms(1,2), of acq c ?r] unfolding t
    by (auto simp: buffers_for_def acq_ok_def)
qed

lemma decode_zeros:
  "decode acq (replicate 8 0 @ r) = Fail EOF"
proof -
  have z: "put_uint32 (frame_header 0 0 (calc_padding 0)) @ put_uint32 0 = replicate 8 (0 :: byte)"
    by (simp add: frame_header_def calc_padding_0 put_uint32_def numeral_eq_Suc)
  show ?thesis
    using decode_headers [of 0 0 acq 0 r] by (simp flip: z)
qed

section \<open>Properties\<close>

definition sample_acq :: acquirer where
  "sample_acq n = Ret (replicate n 7)"

lemma sample_buffers: "buffers_for sample_acq n"
  by (simp add: buffers_for_def acq_ok_def sample_acq_def)

text \<open>
  C19. A record survives the codec: for a body within the size limit and a 5-bit type, and buffers that the pool
  can provide, encoding produces a frame of a multiple of 8 bytes that does not depend on what the recycled
  buffer held, and decoding that frame gives the type, the body, the length and the running checksum back and
  leaves the rest of the input. The one exception is an empty record whose running checksum is 0. It cannot be
  told from the zeros of preallocated file space: decoding it reports the end of the log, and what follows is lost.
\<close>

theorem encode_decode_round_trip:
  assumes "length (body_bytes body) \<le> maxLogSize" and "t < 32"
    and "buffers_for acq (length (body_bytes body))"
  shows "\<exists>bs. encode acq c t (length (body_bytes body)) body = (body_crc body c, Ret bs) \<and>
     8 dvd length bs \<and>
     decode acq (bs @ rest) =
       (if body_bytes body = [] \<and> body_crc body c = 0 then Fail EOF
        else Ret (\<lparr>fr_type = t, fr_body = body_bytes body, fr_size = length bs,
               fr_crc = body_crc body c\<rparr>, rest))"
  using assms encode_frame [OF assms(1,3), of c t] decode_frame [OF assms(1-3), of "body_crc body c" rest]
  by (auto simp: length_frame_bytes calc_padding_aligns)

theorem encode_decode_round_trip_witness:
  "\<exists>bs. encode sample_acq 5 27 3 (SliceBytes [1, 2, 3]) = (crc32_update 5 [1, 2, 3], Ret bs) \<and>
     8 dvd length bs \<and>
     decode sample_acq (bs @ [9]) =
       Ret (\<lparr>fr_type = 27, fr_body = [1, 2, 3], fr_size = length bs, fr_crc = crc32_update 5 [1, 2, 3]\<rparr>, [9])"
proof -
  have l: "length (body_bytes (SliceBytes [1, 2, 3])) = 3" by simp
  show ?thesis
    using encode_decode_round_trip [of "SliceBytes [1, 2, 3]" 27 sample_acq 5 "[9]", unfolded l] sample_buffers
    by (simp add: maxLogSize_def)
qed

text \<open>
  C32. A record torn by a crash is never delivered: every proper, non-empty prefix of a frame with
  a body decodes to \<^verbatim>\<open>ErrUnexpectedEOF\<close>.
\<close>

theorem torn_record_rejected:
  assumes "length b \<le> maxLogSize" and "t < 32" and "buffers_for acq (length b)" and "b \<noteq> []"
    and "0 < k" and "k < length (frame_bytes t b c)"
  shows "decode acq (take k (frame_bytes t b c)) = Fail UnexpectedEOF"
  using assms by (rule decode_torn)

theorem torn_record_rejected_witness:
  "decode sample_acq (take 11 (frame_bytes 27 [1, 2, 3] 5)) = Fail UnexpectedEOF"
  using torn_record_rejected [of "[1, 2, 3]" 27 sample_acq 11 5] sample_buffers
  by (simp add: maxLogSize_def length_frame_bytes HeaderSize_def calc_padding_def)

end
