(* ===== verification/Page_Writer.thy ===== *)
theory Page_Writer
  imports Babuza_Prelude
begin

text \<open>
  The buffered, page-aligning writer of WAL files, \<^verbatim>\<open>logfile/page/writer.go\<close>, over a model of
  \<^verbatim>\<open>os.File\<close>: the bytes of the file, the position of the next write, and the bytes that the last
  \<^verbatim>\<open>fdatasync\<close> made durable. The writer is shown to lose and reorder nothing, never to overrun
  its buffer, and to write to the file only whole pages between syncs.
\<close>

section \<open>Files\<close>

record os_file =
  fl_data :: bytes
  fl_pos :: nat
  fl_synced :: bytes

definition os_write :: "os_file \<Rightarrow> bytes \<Rightarrow> os_file" where
  "os_write f d =
     f\<lparr>fl_data := take (fl_pos f) (fl_data f @ replicate (fl_pos f - length (fl_data f)) 0) @ d @
                    drop (fl_pos f + length d) (fl_data f),
       fl_pos := fl_pos f + length d\<rparr>"

definition os_truncate :: "os_file \<Rightarrow> nat \<Rightarrow> os_file" where
  "os_truncate f n = f\<lparr>fl_data := take n (fl_data f) @ replicate (n - length (fl_data f)) 0\<rparr>"

definition os_datasync :: "os_file \<Rightarrow> os_file" where
  "os_datasync f = f\<lparr>fl_synced := fl_data f\<rparr>"

section \<open>The writer\<close>

record page_writer =
  segmentSize :: nat
  pageSize :: nat
  currentOffset :: nat
  bufWritePos :: nat
  pw_bufSize :: nat
  pw_buffer :: bytes
  pw_file :: os_file

definition create_writer :: "nat \<Rightarrow> nat \<Rightarrow> nat \<Rightarrow> os_file \<Rightarrow> page_writer" where
  "create_writer segSize pgSize bufSz f =
     \<lparr>segmentSize = segSize, pageSize = pgSize, currentOffset = fl_pos f, bufWritePos = 0,
      pw_bufSize = bufSz, pw_buffer = replicate (bufSz + pgSize) 0, pw_file = f\<rparr>"

text \<open>
  Go's \<^verbatim>\<open>copy\<close> stops at the end of the buffer, but the position advances by the whole length: data
  that does not fit is lost and the next flush panics.
\<close>

definition pw_copy :: "page_writer \<Rightarrow> bytes \<Rightarrow> (unit, page_writer) outcome" where
  "pw_copy p d =
     (if length (pw_buffer p) < bufWritePos p then Panic
      else let room = length (pw_buffer p) - bufWritePos p
           in Ret (p\<lparr>pw_buffer := take (bufWritePos p) (pw_buffer p) @ take room d @
                        drop (bufWritePos p + length d) (pw_buffer p),
                     bufWritePos := bufWritePos p + length d\<rparr>))"

definition pw_flush :: "page_writer \<Rightarrow> (unit, page_writer) outcome" where
  "pw_flush p =
     (if length (pw_buffer p) < bufWritePos p then Panic
      else Ret (p\<lparr>pw_file := os_write (pw_file p) (take (bufWritePos p) (pw_buffer p)), bufWritePos := 0\<rparr>))"

definition pw_sync :: "bool \<Rightarrow> page_writer \<Rightarrow> (unit, page_writer) outcome" where
  "pw_sync enableSync p =
     bind_outcome (pw_flush p) (\<lambda>p1.
       Ret (if enableSync then p1\<lparr>pw_file := os_datasync (pw_file p1)\<rparr> else p1))"

definition pw_truncate :: "page_writer \<Rightarrow> page_writer" where
  "pw_truncate p = p\<lparr>pw_file := os_truncate (pw_file p) (currentOffset p)\<rparr>"

definition pw_check_cycle :: "page_writer \<Rightarrow> bool" where
  "pw_check_cycle p \<longleftrightarrow> segmentSize p < currentOffset p"

text \<open>The part of \<^verbatim>\<open>Write\<close> after the buffer has been flushed: whole pages go to the file directly.\<close>

definition pw_write_pages :: "page_writer \<Rightarrow> bytes \<Rightarrow> nat \<Rightarrow> (unit, page_writer) outcome" where
  "pw_write_pages p d written =
     (let wSize = (if pageSize p < length d then (length d div pageSize p) * pageSize p else 0);
          p1 = (if pageSize p < length d then p\<lparr>pw_file := os_write (pw_file p) (take wSize d)\<rparr> else p)
      in bind_outcome (pw_copy p1 (drop wSize d))
           (\<lambda>p2. Ret (p2\<lparr>currentOffset := currentOffset p2 + written + length d\<rparr>)))"

definition pw_write :: "page_writer \<Rightarrow> bytes \<Rightarrow> (unit, page_writer) outcome" where
  "pw_write p d =
     (if bufWritePos p + length d \<le> pw_bufSize p then
        bind_outcome (pw_copy p d) (\<lambda>p1. Ret (p1\<lparr>currentOffset := currentOffset p1 + length d\<rparr>))
      else if pageSize p = 0 then Panic
      else
        let nextAlignmentSize = pageSize p - currentOffset p mod pageSize p
        in if nextAlignmentSize \<noteq> pageSize p then
             (if length d < nextAlignmentSize then
                bind_outcome (pw_copy p d) (\<lambda>p1. Ret (p1\<lparr>currentOffset := currentOffset p1 + length d\<rparr>))
              else
                bind_outcome (pw_copy p (take nextAlignmentSize d)) (\<lambda>p1.
                bind_outcome (pw_flush p1) (\<lambda>p2.
                  pw_write_pages p2 (drop nextAlignmentSize d) nextAlignmentSize)))
           else bind_outcome (pw_flush p) (\<lambda>p1. pw_write_pages p1 d 0))"

section \<open>Invariant and abstraction\<close>

text \<open>
  Everything handed to the writer so far is the written part of the file followed by the pending
  part of the buffer.
\<close>

definition pw_stream :: "page_writer \<Rightarrow> bytes" where
  "pw_stream p = take (fl_pos (pw_file p)) (fl_data (pw_file p)) @ take (bufWritePos p) (pw_buffer p)"

definition pw_ok :: "page_writer \<Rightarrow> bool" where
  "pw_ok p \<longleftrightarrow> 0 < pageSize p \<and> pageSize p \<le> pw_bufSize p \<and>
     length (pw_buffer p) = pw_bufSize p + pageSize p \<and>
     bufWritePos p \<le> pw_bufSize p + currentOffset p mod pageSize p \<and>
     fl_pos (pw_file p) \<le> length (fl_data (pw_file p)) \<and>
     currentOffset p = fl_pos (pw_file p) + bufWritePos p"

lemma os_write_prefix:
  assumes "fl_pos f \<le> length (fl_data f)"
  shows "take (fl_pos (os_write f d)) (fl_data (os_write f d)) = take (fl_pos f) (fl_data f) @ d"
    and "fl_pos (os_write f d) = fl_pos f + length d"
    and "fl_pos (os_write f d) \<le> length (fl_data (os_write f d))"
  using assms by (simp_all add: os_write_def)

lemma pw_ok_room:
  assumes "pw_ok p"
  shows "bufWritePos p + (pageSize p - currentOffset p mod pageSize p) \<le> length (pw_buffer p)"
    and "bufWritePos p < length (pw_buffer p)"
proof -
  have "currentOffset p mod pageSize p < pageSize p" using assms by (simp add: pw_ok_def)
  then show "bufWritePos p + (pageSize p - currentOffset p mod pageSize p) \<le> length (pw_buffer p)"
    and "bufWritePos p < length (pw_buffer p)"
    using assms unfolding pw_ok_def by linarith+
qed

lemma pw_copy_fits:
  assumes "bufWritePos p + length d \<le> length (pw_buffer p)"
  shows "\<exists>p'. pw_copy p d = Ret p' \<and> pw_stream p' = pw_stream p @ d \<and>
     bufWritePos p' = bufWritePos p + length d \<and> length (pw_buffer p') = length (pw_buffer p) \<and>
     pw_file p' = pw_file p \<and> pageSize p' = pageSize p \<and> pw_bufSize p' = pw_bufSize p \<and>
     currentOffset p' = currentOffset p \<and> segmentSize p' = segmentSize p"
  using assms by (simp add: pw_copy_def Let_def pw_stream_def)

lemma pw_flush_fits:
  assumes "bufWritePos p \<le> length (pw_buffer p)" and "fl_pos (pw_file p) \<le> length (fl_data (pw_file p))"
  shows "\<exists>p'. pw_flush p = Ret p' \<and> pw_stream p' = pw_stream p \<and> bufWritePos p' = 0 \<and>
     pw_buffer p' = pw_buffer p \<and> pageSize p' = pageSize p \<and> pw_bufSize p' = pw_bufSize p \<and>
     currentOffset p' = currentOffset p \<and> segmentSize p' = segmentSize p \<and>
     fl_pos (pw_file p') = fl_pos (pw_file p) + bufWritePos p \<and>
     fl_pos (pw_file p') \<le> length (fl_data (pw_file p'))"
  using assms os_write_prefix [OF assms(2), of "take (bufWritePos p) (pw_buffer p)"]
  by (simp add: pw_flush_def pw_stream_def)

lemma mod_add_small: "(a + b) mod n = a mod n + b" if "a mod n + b < n" for a b n :: nat
  using that by (metis mod_add_left_eq mod_less)

text \<open>Right after a flush at a page boundary.\<close>

lemma pw_write_pages_ok:
  assumes ps: "0 < pageSize p" "pageSize p \<le> pw_bufSize p"
    and buf: "length (pw_buffer p) = pw_bufSize p + pageSize p" "bufWritePos p = 0"
    and fl: "fl_pos (pw_file p) \<le> length (fl_data (pw_file p))" "fl_pos (pw_file p) mod pageSize p = 0"
    and off: "currentOffset p + written = fl_pos (pw_file p)"
  shows "\<exists>p'. pw_write_pages p d written = Ret p' \<and> pw_ok p' \<and> pw_stream p' = pw_stream p @ d \<and>
     fl_pos (pw_file p') mod pageSize p' = 0 \<and> pageSize p' = pageSize p \<and> segmentSize p' = segmentSize p"
proof -
  let ?n = "pageSize p" and ?w = "if pageSize p < length d then (length d div pageSize p) * pageSize p else 0"
  define p1 where "p1 = (if ?n < length d then p\<lparr>pw_file := os_write (pw_file p) (take ?w d)\<rparr> else p)"
  have w: "?w \<le> length d" "length d - ?w \<le> ?n" "?w mod ?n = 0"
    using ps(1) by (auto simp: minus_div_mult_eq_mod intro: less_imp_le)
  have len: "length (take ?w d) = ?w" using w(1) by simp
  have f1: "fl_pos (pw_file p1) = fl_pos (pw_file p) + ?w" "pw_stream p1 = pw_stream p @ take ?w d"
    "fl_pos (pw_file p1) \<le> length (fl_data (pw_file p1))"
    using os_write_prefix [OF fl(1), of "take ?w d"] len buf(2) fl(1)
    by (auto simp: p1_def pw_stream_def)
  have k1: "pw_buffer p1 = pw_buffer p" "bufWritePos p1 = 0" "pageSize p1 = ?n" "pw_bufSize p1 = pw_bufSize p"
    "currentOffset p1 = currentOffset p" "segmentSize p1 = segmentSize p"
    using buf(2) by (simp_all add: p1_def)
  obtain p2 where p2: "pw_copy p1 (drop ?w d) = Ret p2" "pw_stream p2 = pw_stream p1 @ drop ?w d"
      "bufWritePos p2 = length d - ?w" "length (pw_buffer p2) = length (pw_buffer p)" "pw_file p2 = pw_file p1"
      "pageSize p2 = ?n" "pw_bufSize p2 = pw_bufSize p" "currentOffset p2 = currentOffset p" "segmentSize p2 = segmentSize p"
    using pw_copy_fits [of p1 "drop ?w d"] w ps buf(1) by (auto simp: k1)
  define p' where "p' = p2\<lparr>currentOffset := currentOffset p2 + written + length d\<rparr>"
  have r: "pw_write_pages p d written = Ret p'"
    using p2(1) by (simp add: pw_write_pages_def Let_def p'_def p1_def)
  have pos: "fl_pos (pw_file p') = fl_pos (pw_file p) + ?w" by (simp add: p'_def p2(5) f1(1))
  have "pw_ok p'"
    using ps buf(1) w(1,2) f1 p2 off by (auto simp: pw_ok_def p'_def trans_le_add1)
  moreover have "pw_stream p' = pw_stream p @ d"
  proof -
    have "pw_stream p' = pw_stream p2" by (simp add: p'_def pw_stream_def)
    also have "\<dots> = pw_stream p @ take ?w d @ drop ?w d" by (simp only: p2(2) f1(2) append_assoc)
    finally show ?thesis by (simp only: append_take_drop_id)
  qed
  moreover have "fl_pos (pw_file p') mod ?n = 0"
    unfolding pos using fl(2) w(3) by (metis add.right_neutral mod_add_eq mod_0)
  ultimately show ?thesis using r by (simp add: p'_def p2(6,9))
qed

text \<open>A write that stays in the buffer.\<close>

lemma pw_copy_step:
  assumes "pw_ok p" and "bufWritePos p + length d \<le> pw_bufSize p + (currentOffset p + length d) mod pageSize p"
  shows "\<exists>p'. bind_outcome (pw_copy p d) (\<lambda>p1. Ret (p1\<lparr>currentOffset := currentOffset p1 + length d\<rparr>)) = Ret p' \<and>
     pw_ok p' \<and> pw_stream p' = pw_stream p @ d \<and> pw_file p' = pw_file p \<and> pageSize p' = pageSize p \<and>
     segmentSize p' = segmentSize p"
proof -
  have m: "(currentOffset p + length d) mod pageSize p \<le> pageSize p"
    using assms(1) by (auto simp: pw_ok_def intro: less_imp_le)
  have "length (pw_buffer p) = pw_bufSize p + pageSize p" using assms(1) by (simp add: pw_ok_def)
  then have "bufWritePos p + length d \<le> length (pw_buffer p)" using assms(2) m by linarith
  from pw_copy_fits [OF this] obtain p1 where p1: "pw_copy p d = Ret p1" "pw_stream p1 = pw_stream p @ d"
      "bufWritePos p1 = bufWritePos p + length d" "length (pw_buffer p1) = length (pw_buffer p)"
      "pw_file p1 = pw_file p" "pageSize p1 = pageSize p" "pw_bufSize p1 = pw_bufSize p"
      "currentOffset p1 = currentOffset p" "segmentSize p1 = segmentSize p"
    by blast
  have "pw_stream (p1\<lparr>currentOffset := currentOffset p1 + length d\<rparr>) = pw_stream p1"
    by (simp add: pw_stream_def)
  then show ?thesis using p1 assms by (simp add: pw_ok_def)
qed

text \<open>A write that completes the current page, if it is not complete, and flushes.\<close>

lemma pw_align_flush:
  assumes ok: "pw_ok p" and a: "a = (if currentOffset p mod pageSize p = 0 then 0
                                   else pageSize p - currentOffset p mod pageSize p)" and "a \<le> length d"
  shows "\<exists>p'. bind_outcome (bind_outcome (pw_copy p (take a d)) pw_flush) (\<lambda>p2. pw_write_pages p2 (drop a d) a) = Ret p' \<and>
     pw_ok p' \<and> pw_stream p' = pw_stream p @ d \<and> fl_pos (pw_file p') mod pageSize p' = 0 \<and>
     pageSize p' = pageSize p \<and> segmentSize p' = segmentSize p"
proof -
  let ?n = "pageSize p" and ?o = "currentOffset p"
  have n: "0 < ?n" "?n \<le> pw_bufSize p" using ok by (simp_all add: pw_ok_def)
  have len: "length (take a d) = a" using assms(3) by simp
  have "bufWritePos p + a \<le> length (pw_buffer p)"
    using pw_ok_room [OF ok] a by (auto split: if_splits)
  with pw_copy_fits [of p "take a d"] len obtain p1 where p1: "pw_copy p (take a d) = Ret p1"
      "pw_stream p1 = pw_stream p @ take a d" "bufWritePos p1 = bufWritePos p + a"
      "length (pw_buffer p1) = length (pw_buffer p)" "pw_file p1 = pw_file p" "pageSize p1 = ?n"
      "pw_bufSize p1 = pw_bufSize p" "currentOffset p1 = ?o" "segmentSize p1 = segmentSize p"
    by auto
  have "bufWritePos p1 \<le> length (pw_buffer p1)" "fl_pos (pw_file p1) \<le> length (fl_data (pw_file p1))"
    using \<open>bufWritePos p + a \<le> _\<close> ok p1 by (simp_all add: pw_ok_def)
  from pw_flush_fits [OF this] obtain p2 where p2: "pw_flush p1 = Ret p2" "pw_stream p2 = pw_stream p1"
      "bufWritePos p2 = 0" "pw_buffer p2 = pw_buffer p1" "pageSize p2 = ?n" "pw_bufSize p2 = pw_bufSize p"
      "currentOffset p2 = ?o" "segmentSize p2 = segmentSize p"
      "fl_pos (pw_file p2) = fl_pos (pw_file p1) + bufWritePos p1"
      "fl_pos (pw_file p2) \<le> length (fl_data (pw_file p2))"
    using p1 by auto
  have pos: "fl_pos (pw_file p2) = ?o + a" using p2(9) p1(3,5) ok by (simp add: pw_ok_def)
  have "(?o + a) mod ?n = 0"
  proof (cases "?o mod ?n = 0")
    case False
    have "?o mod ?n < ?n" using n by simp
    moreover have "a = ?n - ?o mod ?n" using a False by simp
    ultimately have "?o + a = (?o div ?n) * ?n + ?n" using div_mult_mod_eq [of ?o ?n] by linarith
    then show ?thesis by simp
  qed (use a in simp)
  then have "\<exists>p'. pw_write_pages p2 (drop a d) a = Ret p' \<and> pw_ok p' \<and> pw_stream p' = pw_stream p2 @ drop a d \<and>
      fl_pos (pw_file p') mod pageSize p' = 0 \<and> pageSize p' = pageSize p2 \<and> segmentSize p' = segmentSize p2"
    using n p1(4) p2 pos ok by (intro pw_write_pages_ok) (simp_all add: pw_ok_def)
  then show ?thesis using p1(1,2) p2 by auto
qed

lemma pw_write_ok:
  assumes ok: "pw_ok p"
  shows "\<exists>p'. pw_write p d = Ret p' \<and> pw_ok p' \<and> pw_stream p' = pw_stream p @ d \<and>
     (pw_file p' = pw_file p \<or> fl_pos (pw_file p') mod pageSize p' = 0) \<and>
     pageSize p' = pageSize p \<and> segmentSize p' = segmentSize p"
proof -
  let ?n = "pageSize p" and ?o = "currentOffset p"
  have n: "0 < ?n" and m: "?o mod ?n < ?n" and wp: "bufWritePos p \<le> pw_bufSize p + ?o mod ?n"
    using ok by (auto simp: pw_ok_def)
  define a where "a = (if ?o mod ?n = 0 then 0 else ?n - ?o mod ?n)"
  have "a \<le> length d \<or> ?o mod ?n \<noteq> 0 \<and> length d < ?n - ?o mod ?n" by (auto simp: a_def)
  then consider (fits) "bufWritePos p + length d \<le> pw_bufSize p"
    | (page) "\<not> bufWritePos p + length d \<le> pw_bufSize p" "?o mod ?n \<noteq> 0" "length d < ?n - ?o mod ?n"
    | (flush) "\<not> bufWritePos p + length d \<le> pw_bufSize p" "a \<le> length d"
    by blast
  then show ?thesis
  proof cases
    case fits
    then show ?thesis using pw_copy_step [OF ok, of d] by (auto simp: pw_write_def)
  next
    case page
    have "(?o + length d) mod ?n = ?o mod ?n + length d" using page(3) m by (intro mod_add_small) linarith
    then show ?thesis
      using page wp n pw_copy_step [OF ok, of d] by (auto simp: pw_write_def Let_def)
  next
    case flush
    have "pw_write p d = bind_outcome (bind_outcome (pw_copy p (take a d)) pw_flush)
        (\<lambda>p2. pw_write_pages p2 (drop a d) a)"
    proof (cases "?o mod ?n = 0")
      case True
      have "pw_copy p [] = Ret p" using pw_ok_room(2) [OF ok] by (simp add: pw_copy_def)
      then show ?thesis using True flush(1) n by (simp add: pw_write_def Let_def a_def bind_outcome_assoc)
    next
      case False
      then have "?n - ?o mod ?n \<noteq> ?n" using m by linarith
      then show ?thesis
        using False flush n by (auto simp: pw_write_def Let_def a_def bind_outcome_assoc)
    qed
    then show ?thesis using pw_align_flush [OF ok a_def flush(2)] by auto
  qed
qed

lemma pw_sync_ok:
  assumes ok: "pw_ok p"
  shows "\<exists>p'. pw_sync b p = Ret p' \<and> pw_ok p' \<and> pw_stream p' = pw_stream p \<and>
     take (fl_pos (pw_file p')) (fl_data (pw_file p')) = pw_stream p \<and>
     (b \<longrightarrow> take (length (pw_stream p)) (fl_synced (pw_file p')) = pw_stream p) \<and>
     pageSize p' = pageSize p \<and> segmentSize p' = segmentSize p \<and> currentOffset p' = currentOffset p"
proof -
  have "bufWritePos p \<le> length (pw_buffer p)" "fl_pos (pw_file p) \<le> length (fl_data (pw_file p))"
    using pw_ok_room(2) [OF ok] ok by (simp_all add: pw_ok_def)
  from pw_flush_fits [OF this] obtain p1 where p1: "pw_flush p = Ret p1" "pw_stream p1 = pw_stream p"
      "bufWritePos p1 = 0" "pw_buffer p1 = pw_buffer p" "pageSize p1 = pageSize p" "pw_bufSize p1 = pw_bufSize p"
      "currentOffset p1 = currentOffset p" "segmentSize p1 = segmentSize p"
      "fl_pos (pw_file p1) = fl_pos (pw_file p) + bufWritePos p"
      "fl_pos (pw_file p1) \<le> length (fl_data (pw_file p1))"
    by blast
  have "pw_ok p1" using ok p1 by (simp add: pw_ok_def)
  moreover have s: "pw_stream p = take (fl_pos (pw_file p1)) (fl_data (pw_file p1))"
    using p1(2,3) by (simp add: pw_stream_def)
  moreover have "length (pw_stream p) = fl_pos (pw_file p1)" using p1(10) by (simp add: s)
  ultimately show ?thesis
    using p1 by (auto simp: pw_sync_def pw_ok_def pw_stream_def os_datasync_def)
qed

lemma create_writer_ok:
  assumes "0 < pgSize" and "pgSize \<le> bufSz" and "fl_pos f \<le> length (fl_data f)"
  shows "pw_ok (create_writer seg pgSize bufSz f) \<and>
         pw_stream (create_writer seg pgSize bufSz f) = take (fl_pos f) (fl_data f)"
  using assms by (simp add: create_writer_def pw_ok_def pw_stream_def)

lemma pw_stream_length:
  assumes "pw_ok p"
  shows "length (pw_stream p) = currentOffset p"
proof -
  have "fl_pos (pw_file p) \<le> length (fl_data (pw_file p))" "currentOffset p = fl_pos (pw_file p) + bufWritePos p"
    using assms by (simp_all add: pw_ok_def)
  then show ?thesis using pw_ok_room(2) [OF assms] by (simp add: pw_stream_def)
qed

section \<open>Properties\<close>

text \<open>
  \<^verbatim>\<open>Write\<close> always succeeds on a well-formed writer, keeps the invariant (the buffer is never
  overrun), appends exactly the given bytes to the stream, and touches the file only so that it
  ends at a page boundary.
\<close>

theorem pw_write_appends:
  assumes "pw_ok p"
  shows "\<exists>p'. pw_write p d = Ret p' \<and> pw_ok p' \<and> pw_stream p' = pw_stream p @ d \<and>
     currentOffset p' = currentOffset p + length d \<and>
     (pw_file p' = pw_file p \<or> fl_pos (pw_file p') mod pageSize p' = 0)"
proof -
  obtain p' where p': "pw_write p d = Ret p'" "pw_ok p'" "pw_stream p' = pw_stream p @ d"
      "pw_file p' = pw_file p \<or> fl_pos (pw_file p') mod pageSize p' = 0"
    using pw_write_ok [OF assms, of d] by auto
  have "currentOffset p' = currentOffset p + length d"
    using pw_stream_length [OF p'(2)] pw_stream_length [OF assms] p'(3) by simp
  then show ?thesis using p' by (intro exI [of _ p']) simp
qed

definition sample_writer :: page_writer where
  "sample_writer = create_writer 64 4 8 \<lparr>fl_data = [], fl_pos = 0, fl_synced = []\<rparr>"

lemma sample_writer_ok: "pw_ok sample_writer" "pw_stream sample_writer = []"
  using create_writer_ok [of 4 8 "\<lparr>fl_data = [], fl_pos = 0, fl_synced = []\<rparr>" 64]
  by (simp_all add: sample_writer_def)

theorem pw_write_appends_witness:
  "\<exists>p'. pw_write sample_writer [1, 2, 3, 4, 5, 6, 7, 8, 9, 10] = Ret p' \<and>
        pw_stream p' = [1, 2, 3, 4, 5, 6, 7, 8, 9, 10] \<and> pw_ok p'"
  using pw_write_appends [OF sample_writer_ok(1), of "[1, 2, 3, 4, 5, 6, 7, 8, 9, 10]"]
  by (auto simp: sample_writer_ok)

text \<open>
  C26. \<^verbatim>\<open>Sync\<close> succeeds on a well-formed writer and leaves every byte handed to it in the file, and
  with syncing enabled on stable storage.
\<close>

theorem pw_sync_durable:
  assumes "pw_ok p"
  shows "\<exists>p'. pw_sync enable p = Ret p' \<and> pw_ok p' \<and> pw_stream p' = pw_stream p \<and>
     take (length (pw_stream p)) (fl_data (pw_file p')) = pw_stream p \<and>
     (enable \<longrightarrow> take (length (pw_stream p)) (fl_synced (pw_file p')) = pw_stream p)"
proof -
  obtain p' where p': "pw_sync enable p = Ret p'" "pw_ok p'" "pw_stream p' = pw_stream p"
      "take (fl_pos (pw_file p')) (fl_data (pw_file p')) = pw_stream p"
      "enable \<longrightarrow> take (length (pw_stream p)) (fl_synced (pw_file p')) = pw_stream p"
    using pw_sync_ok [OF assms] by blast
  have "length (pw_stream p) = fl_pos (pw_file p')"
    using arg_cong [OF p'(4), of length] p'(2) by (simp add: pw_ok_def)
  then show ?thesis using p' by auto
qed

theorem pw_sync_durable_witness:
  "\<exists>p'. pw_sync True (sample_writer\<lparr>bufWritePos := 3, currentOffset := 3\<rparr>) = Ret p' \<and>
        take 3 (fl_synced (pw_file p')) = replicate 3 0"
proof -
  let ?p = "sample_writer\<lparr>bufWritePos := 3, currentOffset := 3\<rparr>"
  have "pw_ok ?p" "pw_stream ?p = replicate 3 0"
    by (simp_all add: sample_writer_def create_writer_def pw_ok_def pw_stream_def)
  then show ?thesis using pw_sync_durable [of ?p True] by auto
qed

end
