(* ===== verification/Ring_Cache.thy ===== *)
theory Ring_Cache
  imports Babuza_Prelude
begin

unbundle bit_operations_syntax

text \<open>
  The cache of recent entry payloads, \<^verbatim>\<open>pkg/wal/walbase/cache.go\<close>: a ring buffer whose size
  is a power of two and which doubles when it is full. The operations are translated with
  their 64-bit positions; the two loops whose end depends on the ring being well formed are
  partial functions, \<open>None\<close> being a loop that does not end. The ring is then shown to
  implement a queue of consecutively numbered payloads.
\<close>

section \<open>Entries and the ring\<close>

text \<open>
  The fields of etcd's \<^verbatim>\<open>raftpb.Entry\<close> that the repository reads and writes.
\<close>

datatype entry_type = EntryNormal | EntryConfChange | EntryConfChangeV2

record entry =
  ent_term :: u64
  ent_index :: u64
  ent_type :: entry_type
  ent_data :: bytes

record cache_entry =
  ce_index :: u64
  ce_data :: bytes

record cache =
  ringBuf :: "cache_entry list"
  bufferSize :: u64
  consumePos :: u64
  appendPos :: u64
  cache_len :: u64

record index_range =
  ir_first :: u64
  ir_last :: u64
  ir_empty :: bool

definition zero_ce :: cache_entry where
  "zero_ce = \<lparr>ce_index = 0, ce_data = []\<rparr>"

definition defaultBuffer :: u64 where
  "defaultBuffer = 128"

definition to_offset_index :: "index_range \<Rightarrow> u64 \<Rightarrow> u64 \<times> u64" where
  "to_offset_index i firstItemIndex =
     (if ir_empty i then (0, 0) else (ir_first i - firstItemIndex, ir_last i - firstItemIndex))"

definition new_cache :: cache where
  "new_cache = \<lparr>ringBuf = replicate (unat defaultBuffer) zero_ce, bufferSize = defaultBuffer,
     consumePos = 0, appendPos = 0, cache_len = 0\<rparr>"

definition cache_inc :: "cache \<Rightarrow> u64 \<Rightarrow> u64" where
  "cache_inc c p = (p + 1) AND (bufferSize c - 1)"

definition cache_dec :: "cache \<Rightarrow> u64 \<Rightarrow> u64" where
  "cache_dec c p = (p - 1) AND (bufferSize c - 1)"

definition ring_at :: "cache \<Rightarrow> u64 \<Rightarrow> cache_entry" where
  "ring_at c p = ringBuf c ! unat p"

definition cache_index_range :: "cache \<Rightarrow> index_range" where
  "cache_index_range c =
     (if cache_len c = 0 then \<lparr>ir_first = 0, ir_last = 0, ir_empty = True\<rparr>
      else \<lparr>ir_first = ce_index (ring_at c (consumePos c)),
            ir_last = ce_index (ring_at c (cache_dec c (appendPos c))), ir_empty = False\<rparr>)"

text \<open>\<^verbatim>\<open>growBuf\<close>: a full ring is copied, oldest entry first, into one of twice the size.\<close>

definition cache_grow :: "cache \<Rightarrow> cache" where
  "cache_grow c =
     (if consumePos c = appendPos c then
        let extendSize = push_bit 1 (bufferSize c);
            old = drop (unat (consumePos c)) (ringBuf c) @ take (unat (consumePos c)) (ringBuf c)
        in c\<lparr>ringBuf := old @ replicate (unat extendSize - length old) zero_ce,
             consumePos := 0, appendPos := bufferSize c, bufferSize := extendSize\<rparr>
      else c)"

definition cache_push :: "cache \<Rightarrow> entry \<Rightarrow> cache" where
  "cache_push c e =
     cache_grow (c\<lparr>ringBuf := (ringBuf c)[unat (appendPos c) :=
                     \<lparr>ce_index = ent_index e, ce_data = ent_data e\<rparr>],
                   appendPos := cache_inc c (appendPos c),
                   cache_len := cache_len c + 1\<rparr>)"

fun cache_append_loop :: "cache \<Rightarrow> entry list \<Rightarrow> cache" where
  "cache_append_loop c [] = c"
| "cache_append_loop c (e # es) = cache_append_loop (cache_push c e) es"

text \<open>\<^verbatim>\<open>truncate\<close> frees from the newest entry down, \<^verbatim>\<open>Delete\<close> from the oldest up.\<close>

definition cache_pop_back :: "cache \<Rightarrow> cache" where
  "cache_pop_back c =
     (let lastItemPos = cache_dec c (appendPos c)
      in c\<lparr>ringBuf := (ringBuf c)[unat lastItemPos := zero_ce], appendPos := lastItemPos,
           cache_len := cache_len c - 1\<rparr>)"

definition cache_pop_front :: "cache \<Rightarrow> cache" where
  "cache_pop_front c =
     c\<lparr>ringBuf := (ringBuf c)[unat (consumePos c) := zero_ce],
       consumePos := cache_inc c (consumePos c), cache_len := cache_len c - 1\<rparr>"

partial_function (option) cache_truncate_loop :: "u64 \<Rightarrow> cache \<Rightarrow> cache option" where
  "cache_truncate_loop toIndex c =
     (if toIndex \<le> ce_index (ring_at c (cache_dec c (appendPos c))) then
        (let c1 = cache_pop_back c
         in if consumePos c1 = appendPos c1 then Some c1 else cache_truncate_loop toIndex c1)
      else Some c)"

definition cache_truncate :: "u64 \<Rightarrow> cache \<Rightarrow> cache option" where
  "cache_truncate toIndex c =
     (if cache_len c = 0 then Some c
      else if ce_index (ring_at c (cache_dec c (appendPos c))) < toIndex then Some c
      else cache_truncate_loop toIndex c)"

partial_function (option) cache_delete_loop :: "u64 \<Rightarrow> cache \<Rightarrow> cache option" where
  "cache_delete_loop toIndex c =
     (if ce_index (ring_at c (consumePos c)) \<le> toIndex then
        (let c1 = cache_pop_front c
         in if consumePos c1 = appendPos c1 then Some c1 else cache_delete_loop toIndex c1)
      else Some c)"

definition cache_delete :: "u64 \<Rightarrow> cache \<Rightarrow> cache option" where
  "cache_delete toIndex c =
     (if cache_len c = 0 then Some c
      else if toIndex < ce_index (ring_at c (consumePos c)) then Some c
      else cache_delete_loop toIndex c)"

definition cache_clear :: "cache \<Rightarrow> cache option" where
  "cache_clear c = cache_delete (ce_index (ring_at c (cache_dec c (appendPos c)))) c"

text \<open>
  \<^verbatim>\<open>Append\<close>. The offset is computed from \<^verbatim>\<open>appendFirst\<close>, which the code does not update
  after it has cut \<^verbatim>\<open>entries\<close>: it wraps around when the appended entries start before the
  oldest cached one.
\<close>

definition cache_append :: "cache \<Rightarrow> entry list \<Rightarrow> (unit, cache) outcome option" where
  "cache_append c entries =
     (if entries = [] then Some (Ret c)
      else
        let consumeIndex = ce_index (ring_at c (consumePos c));
            appendLast = ent_index (last entries);
            appendFirst = ent_index (hd entries)
        in if appendLast < consumeIndex then Some (Ret c)
           else
             (case (if appendFirst < consumeIndex
                    then go_slice entries (unat (consumeIndex - appendFirst)) (length entries)
                    else Ret entries) of
                Ret es \<Rightarrow>
                  (let offset = appendFirst - consumeIndex
                   in if offset < cache_len c then
                        map_option (\<lambda>c1. Ret (cache_append_loop c1 es)) (cache_truncate appendFirst c)
                      else if cache_len c = offset \<or> cache_len c = 0 then
                        Some (Ret (cache_append_loop c es))
                      else Some (Ret c))
              | Fail e \<Rightarrow> Some (Fail e)
              | Panic \<Rightarrow> Some Panic))"

text \<open>
  \<^verbatim>\<open>ReadEntriesData\<close> fills the payloads of \<^verbatim>\<open>ents\<close> when the cache holds the whole range
  named by the first and the last of them; the loop writes \<^verbatim>\<open>ents[i]\<close> and so panics when
  the range is longer than the slice.
\<close>

fun cache_read_loop :: "cache \<Rightarrow> u64 \<Rightarrow> u64 \<Rightarrow> u64 \<Rightarrow> entry list \<Rightarrow> (unit, entry list) outcome" where
  "cache_read_loop c pos lo hi [] = (if lo \<le> hi then Panic else Ret [])"
| "cache_read_loop c pos lo hi (e # es) =
     (if lo \<le> hi then
        bind_outcome (cache_read_loop c (cache_inc c pos) (lo + 1) hi es)
          (\<lambda>es'. Ret (e\<lparr>ent_data := ce_data (ring_at c pos)\<rparr> # es'))
      else Ret (e # es))"

definition cache_read :: "cache \<Rightarrow> entry list \<Rightarrow> (unit, bool \<times> entry list) outcome" where
  "cache_read c ents =
     (if cache_len c = 0 \<or> ents = [] then Ret (False, ents)
      else
        let entsLoIndex = ent_index (hd ents);
            firstIndex = ce_index (ring_at c (consumePos c));
            lastIndex = ce_index (ring_at c (cache_dec c (appendPos c)));
            entsHiIndex = ent_index (last ents)
        in if entsLoIndex < firstIndex then Ret (False, ents)
           else if lastIndex < entsHiIndex then Ret (False, ents)
           else bind_outcome
                  (cache_read_loop c
                     ((consumePos c + (entsLoIndex - firstIndex)) AND (bufferSize c - 1))
                     entsLoIndex entsHiIndex ents)
                  (\<lambda>es. Ret (True, es)))"

section \<open>Positions modulo the size of the ring\<close>

lemma unat_pow2:
  assumes "k < 64"
  shows "unat (2 ^ k :: u64) = 2 ^ k"
proof -
  have "unat (of_nat (2 ^ k) :: u64) = 2 ^ k mod 2 ^ LENGTH(64)" by (rule unat_of_nat)
  also have "\<dots> = 2 ^ k" using assms by (intro mod_less power_strict_increasing) auto
  finally show ?thesis by simp
qed

lemma unat_and_pow2_minus_1: "unat (x AND (2 ^ k - 1) :: u64) = unat x mod 2 ^ k"
  by (simp flip: mask_eq_exp_minus_1 take_bit_eq_mask take_bit_eq_mod add: unsigned_take_bit_eq)

lemma unat_inc_mod:
  assumes "k < 64"
  shows "unat ((p + d) AND (2 ^ k - 1) :: u64) = (unat p + unat d) mod 2 ^ k"
proof -
  have "unat (p + d) mod 2 ^ k = ((unat p + unat d) mod 2 ^ 64) mod 2 ^ k"
    by (simp add: unat_word_ariths)
  also have "\<dots> = (unat p + unat d) mod 2 ^ k"
    using assms by (intro mod_mod_cancel le_imp_power_dvd) simp
  finally show ?thesis by (simp add: unat_and_pow2_minus_1)
qed

lemma unat_dec_mod:
  assumes "k < 64" "unat p < 2 ^ k"
  shows "unat ((p - 1) AND (2 ^ k - 1) :: u64) = (unat p + (2 ^ k - 1)) mod 2 ^ k"
proof (cases "p = 0")
  case True
  have "unat (- 1 AND (2 ^ k - 1) :: u64) = unat (- 1 :: u64) mod 2 ^ k"
    by (rule unat_and_pow2_minus_1)
  also have "\<dots> = take_bit k (mask 64)"
    by (simp add: unsigned_minus_1_eq_mask take_bit_eq_mod)
  also have "\<dots> = 2 ^ k - 1"
    using assms by (simp only: take_bit_of_mask) (simp add: min_def mask_eq_exp_minus_1)
  finally show ?thesis using True by simp
next
  case False
  then have "unat (p - 1) = unat p - 1" "0 < unat p"
    by (simp_all add: unat_minus_one unat_gt_0)
  then have "unat p + (2 ^ k - 1) = unat (p - 1) + 2 ^ k" by simp
  then have "unat (p - 1) mod 2 ^ k = (unat p + (2 ^ k - 1)) mod 2 ^ k" by simp
  then show ?thesis by (simp add: unat_and_pow2_minus_1)
qed

lemma mod_add_left_inj:
  fixes a i j n :: nat
  assumes "(a + i) mod n = (a + j) mod n" and "i < n" and "j < n"
  shows "i = j"
proof -
  have "int n dvd (int a + int i) - (int a + int j)"
    using assms(1) by (metis mod_eq_dvd_iff of_nat_add zmod_int)
  then have "int n dvd int i - int j" by simp
  moreover have "\<bar>int i - int j\<bar> < \<bar>int n\<bar>" using assms(2,3) by simp
  ultimately have "int i - int j = 0" by (metis dvd_imp_le_int linorder_not_le)
  then show ?thesis by simp
qed

section \<open>Well-formed rings and the queue they hold\<close>

definition slot :: "cache \<Rightarrow> nat \<Rightarrow> nat" where
  "slot c i = (unat (consumePos c) + i) mod length (ringBuf c)"

text \<open>
  A ring that may be full (between the write and \<^verbatim>\<open>growBuf\<close>): the size is a power of two,
  the positions agree with the length, and every slot outside the queue has been freed. Between
  operations the ring is never full.
\<close>

definition ring_ok :: "cache \<Rightarrow> bool" where
  "ring_ok c \<longleftrightarrow>
     (\<exists>k\<le>62. bufferSize c = 2 ^ k) \<and> length (ringBuf c) = unat (bufferSize c) \<and>
     unat (consumePos c) < length (ringBuf c) \<and> unat (cache_len c) \<le> length (ringBuf c) \<and>
     unat (appendPos c) = slot c (unat (cache_len c)) \<and>
     (\<forall>i\<in>{unat (cache_len c)..<length (ringBuf c)}. ringBuf c ! slot c i = zero_ce)"

definition cache_wf :: "cache \<Rightarrow> bool" where
  "cache_wf c \<longleftrightarrow> ring_ok c \<and> unat (cache_len c) < length (ringBuf c)"

definition cache_abs :: "cache \<Rightarrow> cache_entry list" where
  "cache_abs c = map (\<lambda>i. ringBuf c ! slot c i) [0..<unat (cache_len c)]"

lemma length_cache_abs [simp]: "length (cache_abs c) = unat (cache_len c)"
  by (simp add: cache_abs_def)

lemma cache_abs_Nil_iff [simp]: "cache_abs c = [] \<longleftrightarrow> cache_len c = 0"
  by (simp add: cache_abs_def unat_eq_0)

lemma cache_abs_nth: "i < unat (cache_len c) \<Longrightarrow> cache_abs c ! i = ringBuf c ! slot c i"
  by (simp add: cache_abs_def)

lemma ring_size: "ring_ok c \<Longrightarrow> \<exists>k\<le>62. bufferSize c = 2 ^ k \<and> length (ringBuf c) = 2 ^ k"
  by (auto simp: ring_ok_def unat_pow2)

lemma ring_pos: "ring_ok c \<Longrightarrow> 0 < length (ringBuf c)"
  by (auto simp: ring_ok_def)

lemma slot_less: "ring_ok c \<Longrightarrow> slot c i < length (ringBuf c)"
  unfolding slot_def by (rule mod_less_divisor [OF ring_pos])

lemma zero_slot:
  "ring_ok c \<Longrightarrow> unat (cache_len c) \<le> i \<Longrightarrow> i < length (ringBuf c) \<Longrightarrow> ringBuf c ! slot c i = zero_ce"
  by (simp add: ring_ok_def)

lemma slot_0: "ring_ok c \<Longrightarrow> slot c 0 = unat (consumePos c)"
  by (simp add: slot_def ring_ok_def)

lemma slot_inj: "slot c i = slot c j \<Longrightarrow> i < length (ringBuf c) \<Longrightarrow> j < length (ringBuf c) \<Longrightarrow> i = j"
  unfolding slot_def by (rule mod_add_left_inj)

lemma unat_cache_inc: "ring_ok c \<Longrightarrow> unat (cache_inc c p) = (unat p + 1) mod length (ringBuf c)"
  using ring_size [of c] unat_inc_mod [of _ p 1] by (auto simp: cache_inc_def)

lemma unat_cache_dec:
  "ring_ok c \<Longrightarrow> unat p < length (ringBuf c) \<Longrightarrow>
   unat (cache_dec c p) = (unat p + (length (ringBuf c) - 1)) mod length (ringBuf c)"
  using ring_size [of c] unat_dec_mod [of _ p] by (auto simp: cache_dec_def)

lemma slot_wrap: "slot c (length (ringBuf c)) = slot c 0"
  by (simp add: slot_def)

lemma unat_inc_slot: "ring_ok c \<Longrightarrow> unat p = slot c i \<Longrightarrow> unat (cache_inc c p) = slot c (Suc i)"
  by (simp add: unat_cache_inc slot_def mod_Suc_eq)

lemma unat_last_pos:
  assumes "ring_ok c" and "cache_len c \<noteq> 0"
  shows "unat (cache_dec c (appendPos c)) = slot c (unat (cache_len c) - 1)"
proof -
  let ?n = "length (ringBuf c)" and ?l = "unat (cache_len c)"
  have ap: "unat (appendPos c) = (unat (consumePos c) + ?l) mod ?n" and n: "0 < ?n"
    using assms(1) by (auto simp: ring_ok_def slot_def)
  have "unat (cache_dec c (appendPos c)) = ((unat (consumePos c) + ?l) mod ?n + (?n - 1)) mod ?n"
    using assms(1) ap n by (simp add: unat_cache_dec)
  also have "\<dots> = (unat (consumePos c) + ?l + (?n - 1)) mod ?n"
    by (simp add: mod_add_left_eq)
  also have "unat (consumePos c) + ?l + (?n - 1) = unat (consumePos c) + (?l - 1) + ?n"
    using assms(2) n by (simp add: unat_gt_0 Suc_leI)
  finally show ?thesis by (simp add: slot_def)
qed

lemma ring_at_first:
  "ring_ok c \<Longrightarrow> cache_len c \<noteq> 0 \<Longrightarrow> ring_at c (consumePos c) = hd (cache_abs c)"
  by (simp add: ring_at_def slot_0 [symmetric] hd_conv_nth cache_abs_nth unat_gt_0)

lemma ring_at_last:
  assumes "ring_ok c" and "cache_len c \<noteq> 0"
  shows "ring_at c (cache_dec c (appendPos c)) = last (cache_abs c)"
  using assms by (simp add: ring_at_def unat_last_pos last_conv_nth cache_abs_nth unat_gt_0)

lemma ring_at_empty:
  assumes "cache_wf c" and "cache_len c = 0"
  shows "ring_at c (consumePos c) = zero_ce"
proof -
  have "ring_ok c" using assms(1) by (simp add: cache_wf_def)
  then have "ringBuf c ! slot c 0 = zero_ce"
    using assms(2) ring_pos [of c] by (simp add: ring_ok_def)
  with \<open>ring_ok c\<close> show ?thesis by (simp add: ring_at_def slot_0)
qed

section \<open>The elementary steps on the queue\<close>

lemma unat_dec_1: "(x :: u64) \<noteq> 0 \<Longrightarrow> unat (x - 1) = unat x - 1"
  by (rule unat_minus_one)

lemma slot_pop_front:
  assumes "ring_ok c"
  shows "slot (cache_pop_front c) i = slot c (Suc i)"
  using assms mod_add_left_eq [of "Suc (unat (consumePos c))" "length (ringBuf c)" i]
  by (simp add: slot_def cache_pop_front_def unat_cache_inc)

lemma cache_pop_front_wf:
  assumes "ring_ok c" and "cache_len c \<noteq> 0"
  shows "cache_wf (cache_pop_front c)"
proof -
  let ?c = "cache_pop_front c" and ?n = "length (ringBuf c)" and ?l = "unat (cache_len c)"
  have buf: "ringBuf ?c = (ringBuf c)[slot c 0 := zero_ce]" "bufferSize ?c = bufferSize c"
    and len: "unat (cache_len ?c) = ?l - 1" and ap: "appendPos ?c = appendPos c"
    using assms by (simp_all add: cache_pop_front_def slot_0 unat_dec_1)
  have l: "0 < ?l" "?l \<le> ?n" using assms by (auto simp: ring_ok_def unat_gt_0)
  have "ringBuf ?c ! slot ?c i = zero_ce" if "?l - 1 \<le> i" "i < ?n" for i
  proof (cases "Suc i = ?n")
    case True
    then show ?thesis
      using assms(1) slot_wrap [of c] by (simp add: slot_pop_front buf slot_less)
  next
    case False
    then have "ringBuf c ! slot c (Suc i) = zero_ce"
      using that l assms(1) by (simp add: ring_ok_def)
    then show ?thesis
      using assms(1) by (simp add: slot_pop_front buf nth_list_update slot_less)
  qed
  moreover have "unat (appendPos ?c) = slot ?c (?l - 1)"
    using assms(1) l by (simp add: slot_pop_front ap ring_ok_def)
  moreover have "unat (consumePos ?c) < ?n"
    using assms(1) slot_less [of c 1] by (simp add: cache_pop_front_def unat_cache_inc slot_def)
  ultimately show ?thesis
    using assms(1) l by (auto simp: cache_wf_def ring_ok_def buf len)
qed

lemma cache_pop_front_abs:
  assumes "ring_ok c" and "cache_len c \<noteq> 0"
  shows "cache_abs (cache_pop_front c) = tl (cache_abs c)"
proof (rule nth_equalityI)
  have len: "unat (cache_len (cache_pop_front c)) = unat (cache_len c) - 1"
    and buf: "ringBuf (cache_pop_front c) = (ringBuf c)[slot c 0 := zero_ce]"
    using assms by (simp_all add: cache_pop_front_def slot_0 unat_dec_1)
  show "length (cache_abs (cache_pop_front c)) = length (tl (cache_abs c))" by (simp add: len)
  fix i assume "i < length (cache_abs (cache_pop_front c))"
  then have i: "Suc i < unat (cache_len c)" by (simp add: len)
  then have "slot c (Suc i) \<noteq> slot c 0"
    using assms(1) slot_inj [of c "Suc i" 0] by (auto simp: ring_ok_def)
  then show "cache_abs (cache_pop_front c) ! i = tl (cache_abs c) ! i"
    using assms(1) i by (simp add: cache_abs_nth len slot_pop_front buf nth_tl slot_less)
qed

lemma slot_pop_back: "slot (cache_pop_back c) i = slot c i"
  by (simp add: slot_def cache_pop_back_def Let_def)

lemma cache_pop_back_wf:
  assumes "ring_ok c" and "cache_len c \<noteq> 0"
  shows "cache_wf (cache_pop_back c)"
proof -
  let ?c = "cache_pop_back c" and ?n = "length (ringBuf c)" and ?l = "unat (cache_len c)"
  have buf: "ringBuf ?c = (ringBuf c)[slot c (?l - 1) := zero_ce]" "bufferSize ?c = bufferSize c"
    and len: "unat (cache_len ?c) = ?l - 1" and ap: "unat (appendPos ?c) = slot c (?l - 1)"
    and cp: "consumePos ?c = consumePos c"
    using assms by (simp_all add: cache_pop_back_def Let_def unat_last_pos unat_dec_1)
  have l: "0 < ?l" "?l \<le> ?n" using assms by (auto simp: ring_ok_def unat_gt_0)
  have "ringBuf ?c ! slot ?c i = zero_ce" if "?l - 1 \<le> i" "i < ?n" for i
  proof (cases "i = ?l - 1")
    case False
    then have "ringBuf c ! slot c i = zero_ce" using that assms(1) by (simp add: ring_ok_def)
    then show ?thesis using assms(1) by (simp add: slot_pop_back buf nth_list_update slot_less)
  qed (use assms(1) in \<open>simp add: slot_pop_back buf slot_less\<close>)
  then show ?thesis
    using assms(1) l by (auto simp: cache_wf_def ring_ok_def buf len ap cp slot_pop_back)
qed

lemma cache_pop_back_abs:
  assumes "ring_ok c" and "cache_len c \<noteq> 0"
  shows "cache_abs (cache_pop_back c) = butlast (cache_abs c)"
proof (rule nth_equalityI)
  let ?l = "unat (cache_len c)"
  have len: "unat (cache_len (cache_pop_back c)) = ?l - 1"
    and buf: "ringBuf (cache_pop_back c) = (ringBuf c)[slot c (?l - 1) := zero_ce]"
    using assms by (simp_all add: cache_pop_back_def Let_def unat_last_pos unat_dec_1)
  show "length (cache_abs (cache_pop_back c)) = length (butlast (cache_abs c))" by (simp add: len)
  fix i assume "i < length (cache_abs (cache_pop_back c))"
  then have i: "i < ?l - 1" by (simp add: len)
  moreover have "?l \<le> length (ringBuf c)" using assms(1) by (simp add: ring_ok_def)
  ultimately have "i < length (ringBuf c)" "?l - 1 < length (ringBuf c)" "i \<noteq> ?l - 1" by auto
  then have "slot c i \<noteq> slot c (?l - 1)" using slot_inj [of c i "?l - 1"] by blast
  with i show "cache_abs (cache_pop_back c) ! i = butlast (cache_abs c) ! i"
    using assms(1) i by (simp add: cache_abs_nth len slot_pop_back buf nth_butlast slot_less)
qed

lemma consume_eq_append_iff:
  assumes "ring_ok c" and "unat (cache_len c) < length (ringBuf c)"
  shows "consumePos c = appendPos c \<longleftrightarrow> cache_len c = 0"
proof -
  have "consumePos c = appendPos c \<longleftrightarrow> slot c 0 = slot c (unat (cache_len c))"
    using assms(1) by (simp add: slot_0 ring_ok_def word_unat_eq_iff)
  also have "\<dots> \<longleftrightarrow> unat (cache_len c) = 0"
    using assms(2) slot_inj [of c 0 "unat (cache_len c)"] by fastforce
  finally show ?thesis by (simp add: unat_eq_0)
qed

lemma cache_wf_empty_iff: "cache_wf c \<Longrightarrow> consumePos c = appendPos c \<longleftrightarrow> cache_len c = 0"
  by (simp add: cache_wf_def consume_eq_append_iff)

definition as_cache_entry :: "entry \<Rightarrow> cache_entry" where
  "as_cache_entry e = \<lparr>ce_index = ent_index e, ce_data = ent_data e\<rparr>"

text \<open>The write of \<^verbatim>\<open>append\<close>, before \<^verbatim>\<open>growBuf\<close>.\<close>

definition cache_write :: "cache \<Rightarrow> entry \<Rightarrow> cache" where
  "cache_write c e =
     c\<lparr>ringBuf := (ringBuf c)[unat (appendPos c) := as_cache_entry e],
       appendPos := cache_inc c (appendPos c), cache_len := cache_len c + 1\<rparr>"

lemma cache_push_write: "cache_push c e = cache_grow (cache_write c e)"
  by (simp add: cache_push_def cache_write_def as_cache_entry_def)

lemma unat_len_Suc:
  assumes "cache_wf c"
  shows "unat (cache_len c + 1) = Suc (unat (cache_len c))"
proof -
  obtain k where "k \<le> 62" "length (ringBuf c) = 2 ^ k"
    using assms ring_size by (auto simp: cache_wf_def)
  then have "unat (cache_len c) < 2 ^ 62"
    using assms power_increasing [of k 62 "2 :: nat"] by (simp add: cache_wf_def)
  then show ?thesis by (simp add: unat_word_ariths)
qed

lemma cache_write_ok:
  assumes "cache_wf c"
  shows "ring_ok (cache_write c e) \<and> cache_abs (cache_write c e) = cache_abs c @ [as_cache_entry e]"
proof
  let ?c = "cache_write c e" and ?n = "length (ringBuf c)" and ?l = "unat (cache_len c)"
  have ok: "ring_ok c" and l: "?l < ?n" using assms by (auto simp: cache_wf_def)
  have sl: "slot ?c i = slot c i" for i by (simp add: slot_def cache_write_def)
  have buf: "ringBuf ?c = (ringBuf c)[slot c ?l := as_cache_entry e]" "bufferSize ?c = bufferSize c"
    and len: "unat (cache_len ?c) = Suc ?l" and cp: "consumePos ?c = consumePos c"
    and ap: "unat (appendPos ?c) = slot c (Suc ?l)"
    using ok by (simp_all add: cache_write_def ring_ok_def unat_len_Suc [OF assms] unat_inc_slot)
  have ne: "slot c i \<noteq> slot c ?l" if "i < ?n" "i \<noteq> ?l" for i
    using slot_inj [of c i ?l] l that by auto
  have "ringBuf ?c ! slot c i = zero_ce" if "Suc ?l \<le> i" "i < ?n" for i
    using that zero_slot [OF ok, of i] ne [of i] by (auto simp: buf)
  then show "ring_ok ?c" using ok l by (auto simp: ring_ok_def buf len ap cp sl)
  have "cache_abs ?c ! i = (cache_abs c @ [as_cache_entry e]) ! i" if "i < Suc ?l" for i
    using that l ne [of i] ok
    by (cases "i = ?l") (simp_all add: cache_abs_nth len sl buf nth_append slot_less)
  then show "cache_abs ?c = cache_abs c @ [as_cache_entry e]"
    by (intro nth_equalityI) (simp_all add: len)
qed

lemma cache_grow_full:
  assumes "ring_ok c" and "unat (cache_len c) = length (ringBuf c)" and "length (ringBuf c) < 2 ^ 62"
  shows "cache_wf (cache_grow c) \<and> cache_abs (cache_grow c) = cache_abs c"
proof -
  obtain k where "bufferSize c = 2 ^ k" and n: "length (ringBuf c) = 2 ^ k"
    using assms(1) ring_size by blast
  then have "(2 :: nat) ^ k < 2 ^ 62" using assms(3) by (simp only:)
  then have k: "k < 62" by (rule power_less_imp_less_exp [rotated]) simp
  let ?old = "rotate (unat (consumePos c)) (ringBuf c)" and ?g = "cache_grow c"
  have cp: "unat (consumePos c) < 2 ^ k" and "unat (appendPos c) = unat (consumePos c)"
    using assms(1,2) slot_wrap [of c] slot_0 [of c] by (auto simp: ring_ok_def n)
  then have full: "consumePos c = appendPos c" by (simp add: word_unat_eq_iff)
  have ext: "push_bit 1 (2 ^ k :: u64) = 2 ^ Suc k" by (simp add: push_bit_eq_mult)
  have g: "ringBuf ?g = ?old @ replicate (2 ^ k) zero_ce" "consumePos ?g = 0" "appendPos ?g = 2 ^ k"
    "bufferSize ?g = 2 ^ Suc k" "cache_len ?g = cache_len c"
    using full cp k
    by (simp_all only: cache_grow_def ext \<open>bufferSize c = 2 ^ k\<close>)
       (simp_all add: Let_def rotate_drop_take n unat_pow2 [of "Suc k", simplified])
  have len: "length (ringBuf ?g) = 2 ^ Suc k" by (simp add: g n)
  have sl: "slot ?g i = i" if "i < 2 ^ Suc k" for i using that by (simp only: slot_def len g(2)) simp
  have "unat (2 ^ Suc k :: u64) = 2 ^ Suc k" "unat (2 ^ k :: u64) = 2 ^ k"
    using k by (simp_all only: unat_pow2)
  moreover have "ringBuf ?g ! slot ?g i = zero_ce" if "2 ^ k \<le> i" "i < 2 ^ Suc k" for i
    using that by (simp add: sl) (simp add: g nth_append n)
  ultimately have "cache_wf ?g"
    unfolding cache_wf_def ring_ok_def len using k assms(2)
    by (auto simp: g sl n simp del: power_Suc intro!: exI [of _ "Suc k"])
  moreover have "ringBuf ?g ! slot ?g i = ringBuf c ! slot c i" if "i < 2 ^ k" for i
    using that by (simp add: sl) (simp add: g nth_append n nth_rotate slot_def)
  then have "cache_abs ?g = cache_abs c"
    using assms(2) by (simp add: cache_abs_def g n)
  ultimately show ?thesis ..
qed

lemma cache_push_ok:
  assumes "cache_wf c" and "Suc (unat (cache_len c)) < 2 ^ 62"
  shows "cache_wf (cache_push c e) \<and> cache_abs (cache_push c e) = cache_abs c @ [as_cache_entry e]"
proof -
  let ?w = "cache_write c e"
  have w: "ring_ok ?w" "cache_abs ?w = cache_abs c @ [as_cache_entry e]"
    using cache_write_ok [OF assms(1)] by auto
  have len: "unat (cache_len ?w) = Suc (unat (cache_len c))"
    using arg_cong [OF w(2), of length] by simp
  show ?thesis
  proof (cases "unat (cache_len ?w) < length (ringBuf ?w)")
    case True
    then have "consumePos ?w \<noteq> appendPos ?w"
      using consume_eq_append_iff [OF w(1)] len by (metis nat.distinct(1) unat_0)
    then show ?thesis using True w by (simp add: cache_push_write cache_grow_def cache_wf_def)
  next
    case False
    then have "unat (cache_len ?w) = length (ringBuf ?w)" using w(1) by (simp add: ring_ok_def)
    then show ?thesis
      using cache_grow_full [OF w(1)] w(2) assms(2) len by (simp add: cache_push_write)
  qed
qed

lemma cache_append_loop_ok:
  assumes "cache_wf c" and "unat (cache_len c) + length es < 2 ^ 62"
  shows "cache_wf (cache_append_loop c es) \<and>
         cache_abs (cache_append_loop c es) = cache_abs c @ map as_cache_entry es"
  using assms
proof (induction es arbitrary: c)
  case (Cons e es)
  have p: "cache_wf (cache_push c e)" "cache_abs (cache_push c e) = cache_abs c @ [as_cache_entry e]"
    using cache_push_ok [of c e] Cons.prems by auto
  have "unat (cache_len (cache_push c e)) = Suc (unat (cache_len c))"
    using arg_cong [OF p(2), of length] by simp
  then show ?case using Cons.IH [OF p(1)] Cons.prems(2) p(2) by simp
qed simp

section \<open>The removal loops return\<close>

definition strip_back :: "u64 \<Rightarrow> cache_entry list \<Rightarrow> cache_entry list" where
  "strip_back t q = rev (dropWhile (\<lambda>e. t \<le> ce_index e) (rev q))"

lemma strip_back_step:
  "q \<noteq> [] \<Longrightarrow> strip_back t q = (if t \<le> ce_index (last q) then strip_back t (butlast q) else q)"
  by (cases q rule: rev_cases) (simp_all add: strip_back_def)

lemma cache_truncate_loop_ok:
  assumes "cache_wf c" and "cache_len c \<noteq> 0"
  shows "\<exists>c'. cache_truncate_loop t c = Some c' \<and> cache_wf c' \<and> cache_abs c' = strip_back t (cache_abs c)"
  using assms
proof (induction "unat (cache_len c)" arbitrary: c rule: less_induct)
  case less
  let ?p = "cache_pop_back c"
  have ok: "ring_ok c" and lst: "ring_at c (cache_dec c (appendPos c)) = last (cache_abs c)"
    using less.prems by (auto simp: cache_wf_def ring_at_last)
  have p: "cache_wf ?p" "cache_abs ?p = butlast (cache_abs c)"
    using ok less.prems(2) by (simp_all add: cache_pop_back_wf cache_pop_back_abs)
  have step: "strip_back t (cache_abs c) =
      (if t \<le> ce_index (last (cache_abs c)) then strip_back t (cache_abs ?p) else cache_abs c)"
    using less.prems(2) p(2) by (subst strip_back_step) auto
  have "unat (cache_len ?p) < unat (cache_len c)"
    using less.prems(2) by (simp add: cache_pop_back_def Let_def unat_dec_1 unat_gt_0)
  then have IH: "cache_len ?p \<noteq> 0 \<Longrightarrow> \<exists>c'. cache_truncate_loop t ?p = Some c' \<and> cache_wf c' \<and>
      cache_abs c' = strip_back t (cache_abs ?p)"
    using less.hyps p(1) by blast
  have "cache_len ?p = 0 \<Longrightarrow> strip_back t (cache_abs ?p) = cache_abs ?p"
    by (simp add: strip_back_def flip: cache_abs_Nil_iff)
  then show ?case
    using IH p(1) less.prems(1) step
    by (subst cache_truncate_loop.simps) (auto simp: lst Let_def cache_wf_empty_iff)
qed

lemma cache_truncate_ok:
  assumes "cache_wf c"
  shows "\<exists>c'. cache_truncate t c = Some c' \<and> cache_wf c' \<and> cache_abs c' = strip_back t (cache_abs c)"
proof (cases "cache_len c = 0")
  case True
  then show ?thesis using assms by (simp add: cache_truncate_def strip_back_def flip: cache_abs_Nil_iff)
next
  case False
  then have "ring_at c (cache_dec c (appendPos c)) = last (cache_abs c)"
    using assms by (simp add: cache_wf_def ring_at_last)
  then show ?thesis
    using cache_truncate_loop_ok [OF assms False, of t] assms False strip_back_step [of "cache_abs c" t]
    by (auto simp: cache_truncate_def not_less)
qed

lemma cache_delete_loop_ok:
  assumes "cache_wf c" and "cache_len c \<noteq> 0"
  shows "\<exists>c'. cache_delete_loop t c = Some c' \<and> cache_wf c' \<and>
              cache_abs c' = dropWhile (\<lambda>e. ce_index e \<le> t) (cache_abs c)"
  using assms
proof (induction "unat (cache_len c)" arbitrary: c rule: less_induct)
  case less
  let ?p = "cache_pop_front c" and ?P = "\<lambda>e. ce_index e \<le> t"
  have ok: "ring_ok c" and fst: "ring_at c (consumePos c) = hd (cache_abs c)"
    using less.prems by (auto simp: cache_wf_def ring_at_first)
  have p: "cache_wf ?p" "cache_abs ?p = tl (cache_abs c)"
    using ok less.prems(2) by (simp_all add: cache_pop_front_wf cache_pop_front_abs)
  have step: "dropWhile ?P (cache_abs c) =
      (if ?P (hd (cache_abs c)) then dropWhile ?P (cache_abs ?p) else cache_abs c)"
    using less.prems(2) p(2) by (cases "cache_abs c") (auto simp flip: cache_abs_Nil_iff)
  have "unat (cache_len ?p) < unat (cache_len c)"
    using less.prems(2) by (simp add: cache_pop_front_def unat_dec_1 unat_gt_0)
  then have IH: "cache_len ?p \<noteq> 0 \<Longrightarrow> \<exists>c'. cache_delete_loop t ?p = Some c' \<and> cache_wf c' \<and>
      cache_abs c' = dropWhile ?P (cache_abs ?p)"
    using less.hyps p(1) by blast
  have "cache_len ?p = 0 \<Longrightarrow> dropWhile ?P (cache_abs ?p) = cache_abs ?p"
    by (simp flip: cache_abs_Nil_iff)
  then show ?case
    using IH p(1) less.prems(1) step
    by (subst cache_delete_loop.simps) (auto simp: fst Let_def cache_wf_empty_iff)
qed

lemma cache_delete_ok:
  assumes "cache_wf c"
  shows "\<exists>c'. cache_delete t c = Some c' \<and> cache_wf c' \<and>
              cache_abs c' = dropWhile (\<lambda>e. ce_index e \<le> t) (cache_abs c)"
proof (cases "cache_len c = 0")
  case True
  then show ?thesis using assms by (simp add: cache_delete_def flip: cache_abs_Nil_iff)
next
  case False
  then have "ring_at c (consumePos c) = hd (cache_abs c)" "cache_abs c \<noteq> []"
    using assms by (auto simp: cache_wf_def ring_at_first)
  then show ?thesis
    using cache_delete_loop_ok [OF assms False, of t] assms False
    by (cases "cache_abs c") (auto simp: cache_delete_def not_less)
qed

section \<open>Runs of consecutive indices\<close>

text \<open>
  Raft hands the cache consecutive entries. \<^verbatim>\<open>ce_run n q\<close> and \<^verbatim>\<open>ent_run n es\<close> say that the
  indices of a list are \<^verbatim>\<open>n, n + 1, ...\<close> and stay below the largest 64-bit value.
\<close>

definition ce_run :: "nat \<Rightarrow> cache_entry list \<Rightarrow> bool" where
  "ce_run n q \<longleftrightarrow> n + length q < 2 ^ 64 \<and> (\<forall>i<length q. ce_index (q ! i) = of_nat (n + i))"

definition ent_run :: "nat \<Rightarrow> entry list \<Rightarrow> bool" where
  "ent_run n es \<longleftrightarrow> n + length es < 2 ^ 64 \<and> (\<forall>i<length es. ent_index (es ! i) = of_nat (n + i))"

lemma ent_run_ce_run: "ent_run n es \<Longrightarrow> ce_run n (map as_cache_entry es)"
  by (simp add: ent_run_def ce_run_def as_cache_entry_def)

lemma ent_run_Nil [simp]: "ent_run n [] \<longleftrightarrow> n < 2 ^ 64" and ce_run_Nil [simp]: "ce_run n [] \<longleftrightarrow> n < 2 ^ 64"
  by (simp_all add: ent_run_def ce_run_def)

lemma unat_of_nat_u64: "n < 2 ^ 64 \<Longrightarrow> unat (of_nat n :: u64) = n"
  by (simp add: unat_of_nat)

lemma ce_run_index: "ce_run n q \<Longrightarrow> i < length q \<Longrightarrow> unat (ce_index (q ! i)) = n + i"
  using unat_of_nat_u64 [of "n + i"] by (auto simp: ce_run_def)

lemma ent_run_index: "ent_run n es \<Longrightarrow> i < length es \<Longrightarrow> unat (ent_index (es ! i)) = n + i"
  using unat_of_nat_u64 [of "n + i"] by (auto simp: ent_run_def)

lemma ce_run_hd: "ce_run n q \<Longrightarrow> q \<noteq> [] \<Longrightarrow> unat (ce_index (hd q)) = n"
  using ce_run_index [of n q 0] by (simp add: hd_conv_nth)

lemma ce_run_last: "ce_run n q \<Longrightarrow> q \<noteq> [] \<Longrightarrow> unat (ce_index (last q)) = n + length q - 1"
  using ce_run_index [of n q "length q - 1"] by (cases q rule: rev_cases) simp_all

lemma ent_run_hd: "ent_run n es \<Longrightarrow> es \<noteq> [] \<Longrightarrow> unat (ent_index (hd es)) = n"
  using ent_run_index [of n es 0] by (simp add: hd_conv_nth)

lemma ent_run_last: "ent_run n es \<Longrightarrow> es \<noteq> [] \<Longrightarrow> unat (ent_index (last es)) = n + length es - 1"
  using ent_run_index [of n es "length es - 1"] by (cases es rule: rev_cases) simp_all

lemma ce_run_append:
  "ce_run n p \<Longrightarrow> ce_run (n + length p) q \<Longrightarrow> ce_run n (p @ q)"
  by (auto simp: ce_run_def nth_append)

lemma ce_run_take: "ce_run n q \<Longrightarrow> ce_run n (take k q)"
  by (auto simp: ce_run_def)

lemma ce_run_drop: "ce_run n q \<Longrightarrow> k \<le> length q \<Longrightarrow> ce_run (n + k) (drop k q)"
  by (auto simp: ce_run_def algebra_simps)

lemma ent_run_drop: "ent_run n es \<Longrightarrow> k \<le> length es \<Longrightarrow> ent_run (n + k) (drop k es)"
  by (auto simp: ent_run_def algebra_simps)

lemma ent_run_take: "ent_run n es \<Longrightarrow> ent_run n (take k es)"
  by (auto simp: ent_run_def)

lemma ent_run_append_iff:
  "ent_run n (p @ q) \<longleftrightarrow> ent_run n p \<and> ent_run (n + length p) q"
proof
  assume l: "ent_run n (p @ q)"
  show "ent_run n p \<and> ent_run (n + length p) q"
    using ent_run_take [OF l, of "length p"] ent_run_drop [OF l, of "length p"] by simp
qed (auto simp: ent_run_def nth_append)

text \<open>On a run, removing from either end by index is removing by count.\<close>

lemma drop_le_run:
  assumes "ce_run n q"
  shows "dropWhile (\<lambda>e. ce_index e \<le> t) q = drop (Suc (unat t) - n) q"
  using assms
proof (induction q arbitrary: n)
  case (Cons x q)
  have x: "unat (ce_index x) = n" using ce_run_hd [OF Cons.prems] by simp
  have "ce_run (Suc n) q" using ce_run_drop [OF Cons.prems, of 1] by simp
  from Cons.IH [OF this] x show ?case
    by (auto simp: word_le_nat_alt Suc_diff_le)
qed simp

lemma strip_back_run:
  assumes "ce_run n q"
  shows "strip_back t q = take (unat t - n) q"
  using assms
proof (induction q rule: rev_induct)
  case (snoc x q)
  have x: "unat (ce_index x) = n + length q"
    using ce_run_index [OF snoc.prems, of "length q"] by simp
  have IH: "strip_back t q = take (unat t - n) q"
    using snoc.IH ce_run_take [OF snoc.prems, of "length q"] by simp
  have "strip_back t (q @ [x]) = (if t \<le> ce_index x then strip_back t q else q @ [x])"
    by (subst strip_back_step) simp_all
  then show ?case using IH x by (auto simp: word_le_nat_alt)
qed (simp add: strip_back_def)

section \<open>The cache as a queue of consecutive payloads\<close>

text \<open>
  \<^verbatim>\<open>cache_inv\<close> is the invariant between calls. \<^verbatim>\<open>queue_append\<close> is what \<^verbatim>\<open>Append\<close> does to the
  queue: entries that start inside the queue or right after it replace its tail, every other
  batch is ignored.
\<close>

definition cache_inv :: "cache \<Rightarrow> bool" where
  "cache_inv c \<longleftrightarrow> cache_wf c \<and> (\<exists>n. ce_run n (cache_abs c))"

definition queue_append :: "cache_entry list \<Rightarrow> entry list \<Rightarrow> cache_entry list" where
  "queue_append q es =
     (if es = [] then q
      else if q = [] then map as_cache_entry es
      else let n = unat (ce_index (hd q)); m = unat (ent_index (hd es))
           in if n \<le> m \<and> m \<le> n + length q then take (m - n) q @ map as_cache_entry es else q)"

lemma queue_append_run:
  assumes "ce_run n q" and "ent_run m es"
  shows "\<exists>k. ce_run k (queue_append q es)"
proof (cases "es = [] \<or> q = []")
  case True
  then show ?thesis using assms ent_run_ce_run [OF assms(2)] by (auto simp: queue_append_def)
next
  case False
  then have "unat (ce_index (hd q)) = n" "unat (ent_index (hd es)) = m"
    using assms by (simp_all add: ce_run_hd ent_run_hd)
  moreover have "ce_run n (take (m - n) q @ map as_cache_entry es)" if "n \<le> m" "m \<le> n + length q"
    using that assms by (intro ce_run_append) (simp_all add: ce_run_take ent_run_ce_run)
  ultimately show ?thesis using False assms(1) by (auto simp: queue_append_def Let_def)
qed

lemma word_diff_wraps:
  fixes x y :: u64
  shows "y \<le> x \<Longrightarrow> unat (x - y) = unat x - unat y"
    and "x < y \<Longrightarrow> unat (x - y) = 2 ^ 64 - (unat y - unat x)"
  using unsigned_less [of y, where 'a = nat] by (auto simp: unat_sub_if_size word_size word_le_nat_alt word_less_nat_alt)

lemma cache_append_empty:
  assumes "cache_wf c" and "cache_len c = 0" and "length es < 2 ^ 62"
  shows "\<exists>c'. cache_append c es = Some (Ret c') \<and> cache_wf c' \<and> cache_abs c' = map as_cache_entry es"
proof -
  have "ce_index (ring_at c (consumePos c)) = 0"
    using ring_at_empty [OF assms(1,2)] by (simp add: zero_ce_def)
  moreover have "cache_abs c = []" using assms(2) by simp
  ultimately show ?thesis
    using cache_append_loop_ok [of c es] assms
    by (cases "es = []") (auto simp: cache_append_def Let_def)
qed

text \<open>
  On a run the offset test of \<^verbatim>\<open>Append\<close> compares positions; a batch that starts before the
  oldest cached entry has a wrapped offset and is ignored.
\<close>

lemma cache_append_cases:
  assumes "cache_wf c" and "ce_run n (cache_abs c)" and "cache_len c \<noteq> 0"
    and "ent_run m es" and "es \<noteq> []"
  shows "cache_append c es =
    (if n \<le> m \<and> m < n + unat (cache_len c) then
       map_option (\<lambda>c1. Ret (cache_append_loop c1 es)) (cache_truncate (ent_index (hd es)) c)
     else if m = n + unat (cache_len c) then Some (Ret (cache_append_loop c es))
     else Some (Ret c))"
proof -
  let ?l = "unat (cache_len c)"
  define ci where "ci = ce_index (ring_at c (consumePos c))"
  define af where "af = ent_index (hd es)"
  define al where "al = ent_index (last es)"
  have "ring_at c (consumePos c) = hd (cache_abs c)"
    using assms(1,3) by (simp add: cache_wf_def ring_at_first)
  then have n: "unat ci = n" and m: "unat af = m" and al: "unat al = m + length es - 1"
    using assms by (simp_all add: ci_def af_def al_def ce_run_hd ent_run_hd ent_run_last)
  then have m_al: "m \<le> unat al" using assms(5) by (cases es) simp_all
  have bound: "n + ?l < 2 ^ 64" using assms(2) by (simp add: ce_run_def)
  have app: "cache_append c es =
      (if al < ci then Some (Ret c)
       else case (if af < ci then go_slice es (unat (ci - af)) (length es) else Ret es) of
          Ret es' \<Rightarrow>
            (if af - ci < cache_len c then
               map_option (\<lambda>c1. Ret (cache_append_loop c1 es')) (cache_truncate af c)
             else if cache_len c = af - ci \<or> cache_len c = 0 then Some (Ret (cache_append_loop c es'))
             else Some (Ret c))
        | Fail e \<Rightarrow> Some (Fail e) | Panic \<Rightarrow> Some Panic)"
    unfolding cache_append_def Let_def ci_def af_def al_def using assms(5) by simp
  show ?thesis
  proof (cases "m < n")
    case True
    then have lt: "af < ci" by (simp add: word_less_nat_alt n m)
    then have "unat (af - ci) = 2 ^ 64 - (n - m)" "unat (ci - af) = n - m"
      by (simp_all add: word_diff_wraps n m)
    then have off: "\<not> af - ci < cache_len c" "cache_len c \<noteq> af - ci" "unat (ci - af) = n - m"
      using bound True by (auto simp: word_less_nat_alt)
    have "(go_slice es (n - m) (length es) :: (unit, _) outcome) = Ret (drop (n - m) es)" if "\<not> al < ci"
      using that al n assms(5) True by (intro go_slice_Ret [THEN iffD2]) (auto simp: word_less_nat_alt)
    then show ?thesis using lt off True assms(3) by (simp add: app)
  next
    case False
    have cmp: "\<not> al < ci" "\<not> af < ci" using False m_al by (auto simp: word_less_nat_alt n m)
    have "unat (af - ci) = m - n" using cmp by (simp add: word_diff_wraps not_less n m)
    then have "af - ci < cache_len c \<longleftrightarrow> m < n + ?l" "cache_len c = af - ci \<longleftrightarrow> m = n + ?l"
      using False by (auto simp: word_less_nat_alt word_unat_eq_iff)
    then show ?thesis using False cmp assms(3) by (simp add: app af_def)
  qed
qed

lemma cache_append_ok:
  assumes "cache_inv c" and "ent_run m es" and "unat (cache_len c) + length es < 2 ^ 62"
  shows "\<exists>c'. cache_append c es = Some (Ret c') \<and> cache_wf c' \<and>
              cache_abs c' = queue_append (cache_abs c) es"
proof (cases "es = [] \<or> cache_len c = 0")
  case True
  then show ?thesis
    using assms cache_append_empty [of c es]
    by (auto simp: cache_inv_def queue_append_def cache_append_def)
next
  case False
  obtain n where wf: "cache_wf c" and run: "ce_run n (cache_abs c)"
    using assms(1) by (auto simp: cache_inv_def)
  let ?q = "cache_abs c"
  have n: "unat (ce_index (hd ?q)) = n" and m: "unat (ent_index (hd es)) = m"
    using False run assms(2) by (simp_all add: ce_run_hd ent_run_hd)
  obtain c1 where c1: "cache_truncate (ent_index (hd es)) c = Some c1" "cache_wf c1"
      "cache_abs c1 = take (m - n) ?q"
    using cache_truncate_ok [OF wf, of "ent_index (hd es)"] strip_back_run [OF run, of "ent_index (hd es)"]
    by (auto simp: m)
  have "unat (cache_len c1) \<le> unat (cache_len c)" using arg_cong [OF c1(3), of length] by simp
  then have "cache_wf (cache_append_loop c1 es)"
    "cache_abs (cache_append_loop c1 es) = take (m - n) ?q @ map as_cache_entry es"
    using cache_append_loop_ok [OF c1(2), of es] c1(3) assms(3) by auto
  then show ?thesis
    using False wf c1(1) cache_append_loop_ok [OF wf assms(3)] cache_append_cases [OF wf run _ assms(2)]
    by (auto simp: queue_append_def Let_def n m)
qed

lemma cache_append_inv:
  assumes "cache_inv c" and "ent_run m es" and "unat (cache_len c) + length es < 2 ^ 62"
    and "cache_append c es = Some (Ret c')"
  shows "cache_inv c' \<and> cache_abs c' = queue_append (cache_abs c) es"
  using cache_append_ok [OF assms(1-3)] assms queue_append_run [OF _ assms(2)]
  by (auto simp: cache_inv_def)

lemma cache_delete_inv:
  assumes "cache_inv c" and "cache_delete t c = Some c'"
  shows "cache_inv c' \<and> cache_abs c' = dropWhile (\<lambda>e. ce_index e \<le> t) (cache_abs c)"
proof -
  obtain n where wf: "cache_wf c" and run: "ce_run n (cache_abs c)"
    using assms(1) by (auto simp: cache_inv_def)
  let ?k = "min (Suc (unat t) - n) (length (cache_abs c))"
  have "ce_run (n + ?k) (drop ?k (cache_abs c))" using run by (intro ce_run_drop) auto
  moreover have "drop ?k (cache_abs c) = dropWhile (\<lambda>e. ce_index e \<le> t) (cache_abs c)"
    unfolding drop_le_run [OF run] by (auto simp: min_def)
  ultimately show ?thesis
    using cache_delete_ok [OF wf, of t] assms(2) by (auto simp: cache_inv_def)
qed

lemma cache_clear_ok:
  assumes "cache_inv c"
  shows "\<exists>c'. cache_clear c = Some c' \<and> cache_inv c' \<and> cache_abs c' = []"
proof (cases "cache_len c = 0")
  case True
  then show ?thesis using assms by (simp add: cache_clear_def cache_delete_def)
next
  case False
  obtain n where wf: "cache_wf c" and run: "ce_run n (cache_abs c)"
    using assms by (auto simp: cache_inv_def)
  let ?t = "ce_index (ring_at c (cache_dec c (appendPos c)))"
  obtain c' where c': "cache_delete ?t c = Some c'" using cache_delete_ok [OF wf] by blast
  have "unat ?t = n + length (cache_abs c) - 1"
    using False wf run by (simp add: cache_wf_def ring_at_last ce_run_last)
  then have "drop (Suc (unat ?t) - n) (cache_abs c) = []" using False by (simp add: unat_gt_0)
  then have "cache_abs c' = []" using cache_delete_inv [OF assms c'] drop_le_run [OF run, of ?t] by metis
  then show ?thesis unfolding cache_clear_def using cache_delete_inv [OF assms c'] c' by blast
qed

section \<open>Reading payloads back\<close>

definition fill_data :: "entry \<Rightarrow> cache_entry \<Rightarrow> entry" where
  "fill_data e ce = e\<lparr>ent_data := ce_data ce\<rparr>"

lemma cache_read_loop_ok:
  assumes "ring_ok c" and "unat pos = slot c j" and "j + length es \<le> unat (cache_len c)"
    and "Suc (unat hi) = unat lo + length es" and "Suc (unat hi) < 2 ^ 64"
  shows "cache_read_loop c pos lo hi es = Ret (map2 fill_data es (drop j (cache_abs c)))"
  using assms(2-4)
proof (induction es arbitrary: pos lo j)
  case Nil
  then show ?case by (simp add: word_le_nat_alt)
next
  case (Cons e es)
  have j: "j < unat (cache_len c)" using Cons.prems(2) by simp
  then have "drop j (cache_abs c) = ringBuf c ! slot c j # drop (Suc j) (cache_abs c)"
    by (simp add: cache_abs_nth Cons_nth_drop_Suc [symmetric])
  moreover have "unat (lo + 1) = Suc (unat lo)"
    using Cons.prems(3) assms(5) by (simp add: unat_word_ariths)
  moreover have "unat (cache_inc c pos) = slot c (Suc j)"
    using assms(1) Cons.prems(1) by (rule unat_inc_slot)
  ultimately show ?case
    using Cons.IH [of "cache_inc c pos" "Suc j" "lo + 1"] Cons.prems
    by (simp add: word_le_nat_alt fill_data_def ring_at_def)
qed

text \<open>
  A hit needs the whole range in the cache; it fills every payload from the queue. A miss leaves
  the entries as they are. Neither runs off the slice.
\<close>

definition queue_read :: "cache_entry list \<Rightarrow> entry list \<Rightarrow> bool \<times> entry list" where
  "queue_read q es =
     (let n = unat (ce_index (hd q)); m = unat (ent_index (hd es))
      in if q \<noteq> [] \<and> es \<noteq> [] \<and> n \<le> m \<and> m + length es \<le> n + length q
         then (True, map2 fill_data es (drop (m - n) q)) else (False, es))"

lemma cache_read_ok:
  assumes "cache_inv c" and "ent_run m es"
  shows "cache_read c es = Ret (queue_read (cache_abs c) es)"
proof (cases "es = [] \<or> cache_len c = 0")
  case True
  then show ?thesis by (auto simp: cache_read_def queue_read_def)
next
  case False
  obtain n where wf: "cache_wf c" and run: "ce_run n (cache_abs c)"
    using assms(1) by (auto simp: cache_inv_def)
  let ?q = "cache_abs c" and ?first = "ce_index (ring_at c (consumePos c))"
    and ?last = "ce_index (ring_at c (cache_dec c (appendPos c)))"
  have ok: "ring_ok c" using wf by (simp add: cache_wf_def)
  have q: "unat (ce_index (hd ?q)) = n" "unat ?first = n" "unat ?last = n + length ?q - 1"
    using False ok run by (simp_all add: ring_at_first ring_at_last ce_run_hd ce_run_last)
  have e: "unat (ent_index (hd es)) = m" "unat (ent_index (last es)) = m + length es - 1"
    using False assms(2) by (simp_all add: ent_run_hd ent_run_last)
  have pos: "0 < length es" "0 < length ?q" using False by (simp_all add: unat_gt_0)
  have miss: "ent_index (hd es) < ?first \<or> ?last < ent_index (last es) \<longleftrightarrow>
      \<not> (n \<le> m \<and> m + length es \<le> n + length ?q)"
    using pos by (auto simp: word_less_nat_alt q(2,3) e)
  have hit: "cache_read_loop c ((consumePos c + (ent_index (hd es) - ?first)) AND (bufferSize c - 1))
      (ent_index (hd es)) (ent_index (last es)) es = Ret (map2 fill_data es (drop (m - n) ?q))"
    if "n \<le> m" "m + length es \<le> n + length ?q"
  proof (rule cache_read_loop_ok [OF ok])
    have "?first \<le> ent_index (hd es)" using that by (simp add: word_le_nat_alt q(2) e)
    then have d: "unat (ent_index (hd es) - ?first) = m - n" by (simp add: word_diff_wraps q(2) e)
    obtain k where "k \<le> 62" "bufferSize c = 2 ^ k" "length (ringBuf c) = 2 ^ k"
      using ring_size [OF ok] by blast
    then show "unat ((consumePos c + (ent_index (hd es) - ?first)) AND (bufferSize c - 1)) = slot c (m - n)"
      using unat_inc_mod [of k "consumePos c" "ent_index (hd es) - ?first"] by (simp add: slot_def d)
    show "m - n + length es \<le> unat (cache_len c)" using that by simp
    show "Suc (unat (ent_index (last es))) = unat (ent_index (hd es)) + length es"
      using pos by (simp add: e)
    show "Suc (unat (ent_index (last es))) < 2 ^ 64"
      using assms(2) pos by (simp add: e ent_run_def)
  qed
  show ?thesis
    using False miss hit by (auto simp: cache_read_def queue_read_def Let_def q(1) e(1) split: if_splits)
qed

lemma cache_index_range_ok:
  assumes "cache_inv c"
  shows "cache_index_range c =
    (if cache_abs c = [] then \<lparr>ir_first = 0, ir_last = 0, ir_empty = True\<rparr>
     else \<lparr>ir_first = ce_index (hd (cache_abs c)), ir_last = ce_index (last (cache_abs c)), ir_empty = False\<rparr>)"
  using assms by (simp add: cache_index_range_def cache_inv_def cache_wf_def ring_at_first ring_at_last)

lemma new_cache_inv: "cache_inv new_cache \<and> cache_abs new_cache = []"
proof -
  have "\<exists>k\<le>62. (128 :: u64) = 2 ^ k" by (rule exI [of _ 7]) simp
  then have "cache_wf new_cache"
    by (auto simp: cache_wf_def ring_ok_def new_cache_def defaultBuffer_def slot_def)
  then show ?thesis by (simp add: cache_inv_def new_cache_def cache_abs_def exI [of _ 0])
qed

lemma new_cache_abs [simp]: "cache_abs new_cache = []"
  using new_cache_inv by blast

section \<open>The interface of a payload cache\<close>

text \<open>
  What the entry storage relies on: the cache holds a run of consecutively numbered payloads,
  and each call acts on that run as the queue operations above say and returns. The client
  lemmas are about agreement with a log \<^verbatim>\<open>p\<close>, the payload at each index: a cache that agrees
  with the log keeps agreeing when both are appended to, and a hit returns the log's payloads.
\<close>

locale payload_cache =
  fixes inv :: "'c \<Rightarrow> bool"
    and content :: "'c \<Rightarrow> cache_entry list"
    and range :: "'c \<Rightarrow> index_range"
    and app :: "'c \<Rightarrow> entry list \<Rightarrow> (unit, 'c) outcome option"
    and del :: "u64 \<Rightarrow> 'c \<Rightarrow> 'c option"
    and clr :: "'c \<Rightarrow> 'c option"
    and rd :: "'c \<Rightarrow> entry list \<Rightarrow> (unit, bool \<times> entry list) outcome"
  assumes content_run: "inv c \<Longrightarrow> \<exists>n. ce_run n (content c)"
    and range_law: "inv c \<Longrightarrow> range c =
      (if content c = [] then \<lparr>ir_first = 0, ir_last = 0, ir_empty = True\<rparr>
       else \<lparr>ir_first = ce_index (hd (content c)), ir_last = ce_index (last (content c)), ir_empty = False\<rparr>)"
    and append_law: "inv c \<Longrightarrow> ent_run m es \<Longrightarrow> length (content c) + length es < 2 ^ 62 \<Longrightarrow>
      \<exists>c'. app c es = Some (Ret c') \<and> inv c' \<and> content c' = queue_append (content c) es"
    and delete_law: "inv c \<Longrightarrow>
      \<exists>c'. del t c = Some c' \<and> inv c' \<and> content c' = dropWhile (\<lambda>e. ce_index e \<le> t) (content c)"
    and clear_law: "inv c \<Longrightarrow> \<exists>c'. clr c = Some c' \<and> inv c' \<and> content c' = []"
    and read_law: "inv c \<Longrightarrow> ent_run m es \<Longrightarrow> rd c es = Ret (queue_read (content c) es)"
begin

definition agrees :: "(nat \<Rightarrow> bytes) \<Rightarrow> 'c \<Rightarrow> bool" where
  "agrees p c \<longleftrightarrow> (\<forall>ce\<in>set (content c). ce_data ce = p (unat (ce_index ce)))"

lemma agrees_empty: "content c = [] \<Longrightarrow> agrees p c"
  by (simp add: agrees_def)

lemma agrees_delete:
  assumes "inv c" and "agrees p c" and "del t c = Some c'"
  shows "inv c' \<and> agrees p c'"
  using delete_law [OF assms(1), of t] assms(2,3) by (auto simp: agrees_def dest: set_dropWhileD)

text \<open>
  Appending a batch that starts at or after the oldest cached entry and not beyond the newest,
  to a cache that agrees with the log below the batch.
\<close>

lemma agrees_append:
  assumes "inv c" and "ent_run m es" and "es \<noteq> []" and "length (content c) + length es < 2 ^ 62"
    and "\<And>i. i < length es \<Longrightarrow> p' (m + i) = ent_data (es ! i)"
    and "\<And>i. i < m \<Longrightarrow> p' i = p i"
    and "agrees p c"
    and "content c = [] \<or> unat (ce_index (hd (content c))) \<le> m \<and>
           m \<le> unat (ce_index (hd (content c))) + length (content c)"
    and "app c es = Some (Ret c')"
  shows "inv c' \<and> agrees p' c' \<and> content c' \<noteq> [] \<and> last (content c') = as_cache_entry (last es)"
proof -
  obtain n where run: "ce_run n (content c)" using content_run [OF assms(1)] by blast
  have inv': "inv c'" and c': "content c' = queue_append (content c) es"
    using append_law [OF assms(1,2,4)] assms(9) by auto
  have m: "unat (ent_index (hd es)) = m" using assms(2,3) by (rule ent_run_hd)
  have es: "ce_data ce = p' (unat (ce_index ce))" if ce: "ce \<in> set (map as_cache_entry es)" for ce
  proof -
    obtain i where "i < length es" "ce = as_cache_entry (es ! i)"
      using ce by (auto simp: in_set_conv_nth)
    then show ?thesis
      using assms(5) [of i] ent_run_index [OF assms(2), of i] by (simp add: as_cache_entry_def)
  qed
  show ?thesis
  proof (cases "content c = []")
    case True
    then show ?thesis using inv' c' assms(3) es by (simp add: queue_append_def agrees_def last_map)
  next
    case False
    have n: "unat (ce_index (hd (content c))) = n" using run False by (rule ce_run_hd)
    have eq: "content c' = take (m - n) (content c) @ map as_cache_entry es"
      using False assms(3,8) by (simp add: c' queue_append_def Let_def n m)
    have "ce_data ce = p' (unat (ce_index ce))" if ce: "ce \<in> set (take (m - n) (content c))" for ce
    proof -
      obtain i where "i < m - n" "i < length (content c)" "ce = content c ! i"
        using ce by (auto simp: in_set_conv_nth)
      then show ?thesis
        using ce_run_index [OF run, of i] assms(6) [of "n + i"] assms(7) by (simp add: agrees_def)
    qed
    then show ?thesis using inv' eq es assms(3) by (auto simp: agrees_def last_map)
  qed
qed

lemma hit_agrees:
  assumes "inv c" and "agrees p c" and "ent_run m es" and "es \<noteq> []" and "content c \<noteq> []"
    and "unat (ce_index (hd (content c))) \<le> m"
    and "m + length es \<le> unat (ce_index (hd (content c))) + length (content c)"
  shows "rd c es = Ret (True, map (\<lambda>e. e\<lparr>ent_data := p (unat (ent_index e))\<rparr>) es)"
proof -
  let ?q = "content c"
  obtain n where run: "ce_run n ?q" using content_run [OF assms(1)] by blast
  have n: "unat (ce_index (hd ?q)) = n" using run assms(5) by (rule ce_run_hd)
  have m: "unat (ent_index (hd es)) = m" using assms(3,4) by (rule ent_run_hd)
  have "map2 fill_data es (drop (m - n) ?q) = map (\<lambda>e. e\<lparr>ent_data := p (unat (ent_index e))\<rparr>) es"
  proof (rule nth_equalityI)
    show "length (map2 fill_data es (drop (m - n) ?q)) =
        length (map (\<lambda>e. e\<lparr>ent_data := p (unat (ent_index e))\<rparr>) es)"
      using assms(6,7) by (simp add: n)
    fix i assume "i < length (map2 fill_data es (drop (m - n) ?q))"
    then have i: "i < length es" "m - n + i < length ?q" by auto
    then have "ce_data (?q ! (m - n + i)) = p (m + i)"
      using assms(2,6) ce_run_index [OF run, of "m - n + i"] by (simp add: agrees_def n)
    then show "map2 fill_data es (drop (m - n) ?q) ! i = map (\<lambda>e. e\<lparr>ent_data := p (unat (ent_index e))\<rparr>) es ! i"
      using i ent_run_index [OF assms(3), of i] by (simp add: fill_data_def)
  qed
  then show ?thesis
    using read_law [OF assms(1,3)] assms(4-7) by (simp add: queue_read_def Let_def n m)
qed

end

interpretation ring: payload_cache cache_inv cache_abs cache_index_range cache_append cache_delete
  cache_clear cache_read
proof unfold_locales
  fix c :: cache and m es t
  show "cache_inv c \<Longrightarrow> \<exists>n. ce_run n (cache_abs c)" by (simp add: cache_inv_def)
  show "cache_inv c \<Longrightarrow> ent_run m es \<Longrightarrow> length (cache_abs c) + length es < 2 ^ 62 \<Longrightarrow>
      \<exists>c'. cache_append c es = Some (Ret c') \<and> cache_inv c' \<and> cache_abs c' = queue_append (cache_abs c) es"
    using cache_append_ok [of c m es] cache_append_inv [of c m es] by auto
  show "cache_inv c \<Longrightarrow> \<exists>c'. cache_delete t c = Some c' \<and> cache_inv c' \<and>
      cache_abs c' = dropWhile (\<lambda>e. ce_index e \<le> t) (cache_abs c)"
    using cache_delete_ok [of c t] cache_delete_inv [of c t] by (auto simp: cache_inv_def)
  show "cache_inv c \<Longrightarrow> \<exists>c'. cache_clear c = Some c' \<and> cache_inv c' \<and> cache_abs c' = []"
    by (rule cache_clear_ok)
qed (simp_all add: cache_index_range_ok cache_read_ok)

section \<open>Properties of the cache\<close>

definition sample_entry :: "u64 \<Rightarrow> bytes \<Rightarrow> entry" where
  "sample_entry i d = \<lparr>ent_term = 1, ent_index = i, ent_type = EntryNormal, ent_data = d\<rparr>"

lemma ent_run_samples: "ent_run 7 [sample_entry 7 [1], sample_entry 8 [2]]"
  by (auto simp: ent_run_def sample_entry_def less_Suc_eq)

text \<open>
  C13. \<^verbatim>\<open>Append\<close> of consecutive entries returns on a well-formed cache, keeps the invariant, and does one of
  three things to the cached run. An empty cache takes the batch. A batch that starts inside the run or right
  after it replaces the run from there on. Any other batch changes nothing: one that leaves a gap, and
  also one that starts before the oldest cached entry, even where it overlaps the run with new payloads.
\<close>

theorem cache_append_refines:
  assumes "cache_inv c" and "ent_run m es" and "es \<noteq> []" and "length (cache_abs c) + length es < 2 ^ 62"
  shows "\<exists>c'. cache_append c es = Some (Ret c') \<and> cache_inv c' \<and>
     cache_abs c' =
       (if cache_abs c = [] then map as_cache_entry es
        else let first = unat (ce_index (hd (cache_abs c)))
             in if first \<le> m \<and> m \<le> first + length (cache_abs c)
                then take (m - first) (cache_abs c) @ map as_cache_entry es
                else cache_abs c)"
  using ring.append_law [OF assms(1,2,4)] assms(3)
  unfolding queue_append_def Let_def ent_run_hd [OF assms(2,3)] by simp

theorem cache_append_refines_witness:
  "\<exists>c'. cache_append new_cache [sample_entry 7 [1], sample_entry 8 [2]] = Some (Ret c') \<and> cache_inv c' \<and>
        cache_abs c' = [\<lparr>ce_index = 7, ce_data = [1]\<rparr>, \<lparr>ce_index = 8, ce_data = [2]\<rparr>]"
proof -
  let ?es = "[sample_entry 7 [1], sample_entry 8 [2]]"
  show ?thesis
    using cache_append_refines [of new_cache 7 ?es] new_cache_inv ent_run_samples
    by (simp add: as_cache_entry_def sample_entry_def)
qed

text \<open>
  C14. \<^verbatim>\<open>Delete\<close> returns, keeps the invariant and removes exactly the payloads up to the index.
\<close>

theorem cache_delete_refines:
  assumes "cache_inv c"
  shows "\<exists>c'. cache_delete t c = Some c' \<and> cache_inv c' \<and>
              cache_abs c' = dropWhile (\<lambda>e. ce_index e \<le> t) (cache_abs c)"
  using assms by (rule ring.delete_law)

theorem cache_delete_refines_witness:
  "\<exists>c'. cache_delete 7 (cache_append_loop new_cache [sample_entry 7 [1], sample_entry 8 [2]]) = Some c' \<and>
        cache_inv c' \<and> cache_abs c' = [\<lparr>ce_index = 8, ce_data = [2]\<rparr>]"
proof -
  let ?es = "[sample_entry 7 [1], sample_entry 8 [2]]" and ?c = "cache_append_loop new_cache [sample_entry 7 [1], sample_entry 8 [2]]"
  have "cache_wf ?c" "cache_abs ?c = map as_cache_entry ?es"
    using cache_append_loop_ok [of new_cache ?es] new_cache_inv
    by (auto simp: cache_inv_def new_cache_def)
  moreover from this have "cache_inv ?c"
    using ent_run_ce_run [OF ent_run_samples] by (auto simp: cache_inv_def)
  ultimately show ?thesis
    using cache_delete_refines [of ?c 7] by (simp add: as_cache_entry_def sample_entry_def)
qed

text \<open>
  C15. \<^verbatim>\<open>ReadEntriesData\<close> never panics on consecutive entries: it fills every payload from the
  cache when the whole range is cached, and otherwise reports a miss and changes nothing.
\<close>

theorem cache_read_refines:
  assumes "cache_inv c" and "ent_run m es"
  shows "cache_read c es = Ret (queue_read (cache_abs c) es)"
  using assms by (rule ring.read_law)

theorem cache_read_refines_witness:
  "cache_read new_cache [sample_entry 7 [1], sample_entry 8 [2]] =
     Ret (False, [sample_entry 7 [1], sample_entry 8 [2]])"
  using cache_read_refines [of new_cache 7 "[sample_entry 7 [1], sample_entry 8 [2]]"]
    new_cache_inv ent_run_samples
  by (simp add: queue_read_def)

text \<open>
  A batch that starts before the oldest cached entry is ignored, even where it overlaps the
  cache: the payloads it overwrites in the log stay in the cache. (\<^verbatim>\<open>appendFirst\<close> is not
  advanced when the batch is cut, so the offset wraps around.)
\<close>

theorem cache_append_before_front_ignored:
  assumes "cache_inv c" and "cache_abs c \<noteq> []" and "ent_run m es"
    and "m < unat (ce_index (hd (cache_abs c)))"
  shows "cache_append c es = Some (Ret c)"
proof (cases "es = []")
  case False
  obtain n where wf: "cache_wf c" and run: "ce_run n (cache_abs c)"
    using assms(1) by (auto simp: cache_inv_def)
  have "cache_len c \<noteq> 0" using assms(2) by simp
  from cache_append_cases [OF wf run this assms(3) False] show ?thesis
    using assms(4) ce_run_hd [OF run assms(2)] by simp
qed (simp add: cache_append_def)

theorem cache_append_before_front_ignored_witness:
  "cache_append (cache_append_loop new_cache [sample_entry 8 [9]]) [sample_entry 7 [1], sample_entry 8 [2]] =
     Some (Ret (cache_append_loop new_cache [sample_entry 8 [9]]))"
proof -
  let ?c = "cache_append_loop new_cache [sample_entry 8 [9]]"
  have "cache_wf ?c" and abs: "cache_abs ?c = [as_cache_entry (sample_entry 8 [9])]"
    using cache_append_loop_ok [of new_cache "[sample_entry 8 [9]]"] new_cache_inv
    by (auto simp: cache_inv_def new_cache_def)
  moreover have "ce_run 8 (cache_abs ?c)"
    by (simp only: abs) (simp add: ce_run_def as_cache_entry_def sample_entry_def)
  ultimately have "cache_inv ?c" by (auto simp: cache_inv_def)
  moreover have "cache_abs ?c \<noteq> []" by (simp only: abs) simp
  moreover have "unat (ce_index (hd (cache_abs ?c))) = 8"
    by (simp only: abs) (simp add: as_cache_entry_def sample_entry_def)
  ultimately show ?thesis
    using cache_append_before_front_ignored [of ?c 7, OF _ _ ent_run_samples] by simp
qed

end
