(* ===== verification/Entry_Storage.thy ===== *)
theory Entry_Storage
  imports Ring_Cache
begin

text \<open>
  The in-memory view of the log, \<^verbatim>\<open>pkg/wal/walbase/storage.go\<close>: an index of the entries kept in
  the WAL files (term, index, type and where the payload is), the payload cache in front of it,
  the last snapshot and the hard state. It implements etcd's \<^verbatim>\<open>raft.Storage\<close>. The payload
  reader is an interface of the program (\<^verbatim>\<open>EntryDataReader\<close>) and the encoded size of an entry
  is generated protobuf code: both are arguments of the definitions that use them.
\<close>

section \<open>State\<close>

record conf_state =
  cs_voters :: "u64 list"
  cs_learners :: "u64 list"
  cs_voters_outgoing :: "u64 list"
  cs_learners_next :: "u64 list"
  cs_auto_leave :: bool

record snapshot =
  snap_conf :: conf_state
  snap_index :: u64
  snap_term :: u64
  snap_data :: bytes

record hard_state =
  hs_term :: u64
  hs_vote :: u64
  hs_commit :: u64

record 'm entry_pos =
  ep_term :: u64
  ep_index :: u64
  ep_type :: entry_type
  ep_meta :: 'm

record 'm entry_storage =
  es_hardState :: hard_state
  es_snapshot :: snapshot
  es_cache :: cache
  es_ents :: "'m entry_pos list"

datatype storage_error =
    ErrCompacted
  | ErrUnavailable
  | ErrSnapOutOfDate
  | ErrOutOfBound u64 u64
  | ErrMissingLogEntry u64 u64
  | ErrCacheRead
  | ErrReader string

type_synonym 'm entry_reader =
  "'m entry_pos list \<Rightarrow> entry list \<Rightarrow> (storage_error, entry list) outcome"

definition zero_conf :: conf_state where
  "zero_conf = \<lparr>cs_voters = [], cs_learners = [], cs_voters_outgoing = [], cs_learners_next = [],
     cs_auto_leave = False\<rparr>"

definition zero_snapshot :: snapshot where
  "zero_snapshot = \<lparr>snap_conf = zero_conf, snap_index = 0, snap_term = 0, snap_data = []\<rparr>"

definition zero_hard_state :: hard_state where
  "zero_hard_state = \<lparr>hs_term = 0, hs_vote = 0, hs_commit = 0\<rparr>"

text \<open>The dummy entry at the front; \<^verbatim>\<open>z\<close> is the zero value of the metadata type.\<close>

definition dummy_pos :: "'m \<Rightarrow> u64 \<Rightarrow> u64 \<Rightarrow> 'm entry_pos" where
  "dummy_pos z t i = \<lparr>ep_term = t, ep_index = i, ep_type = EntryNormal, ep_meta = z\<rparr>"

definition new_entry_storage :: "'m \<Rightarrow> 'm entry_storage" where
  "new_entry_storage z = \<lparr>es_hardState = zero_hard_state, es_snapshot = zero_snapshot,
     es_cache = new_cache, es_ents = [dummy_pos z 0 0]\<rparr>"

section \<open>Operations\<close>

definition es_initial_state :: "'m entry_storage \<Rightarrow> hard_state \<times> conf_state" where
  "es_initial_state s = (es_hardState s, snap_conf (es_snapshot s))"

definition es_offset :: "'m entry_storage \<Rightarrow> u64" where
  "es_offset s = ep_index (hd (es_ents s))"

definition es_last_index :: "'m entry_storage \<Rightarrow> u64" where
  "es_last_index s = es_offset s + of_nat (length (es_ents s)) - 1"

definition es_first_index :: "'m entry_storage \<Rightarrow> u64" where
  "es_first_index s = es_offset s + 1"

definition validate_range ::
  "'m entry_storage \<Rightarrow> u64 \<Rightarrow> u64 \<Rightarrow> (storage_error, u64 \<times> u64 \<times> u64) outcome" where
  "validate_range s lo hi =
     (if lo \<le> es_offset s then Fail ErrCompacted
      else if es_last_index s + 1 < hi then Fail (ErrOutOfBound hi (es_last_index s))
      else if length (es_ents s) = 1 then Fail ErrUnavailable
      else Ret (es_offset s, lo - es_offset s, hi - es_offset s))"

text \<open>
  \<^verbatim>\<open>limitSize\<close>. The sizes are added in an \<^verbatim>\<open>int\<close> and compared as \<^verbatim>\<open>uint64\<close>: the sum of 64 bits is the same.
\<close>

fun limit_loop :: "(entry \<Rightarrow> nat) \<Rightarrow> u64 \<Rightarrow> u64 \<Rightarrow> entry list \<Rightarrow> entry list" where
  "limit_loop sz maxSize acc [] = []"
| "limit_loop sz maxSize acc (e # es) =
     (let acc' = acc + of_nat (sz e)
      in if maxSize < acc' then [] else e # limit_loop sz maxSize acc' es)"

fun limit_size :: "(entry \<Rightarrow> nat) \<Rightarrow> entry list \<Rightarrow> u64 \<Rightarrow> entry list" where
  "limit_size sz [] maxSize = []"
| "limit_size sz (e # es) maxSize = e # limit_loop sz maxSize (of_nat (sz e)) es"

definition copy_ent :: "'m entry_pos \<Rightarrow> entry" where
  "copy_ent e = \<lparr>ent_term = ep_term e, ent_index = ep_index e, ent_type = ep_type e, ent_data = []\<rparr>"

text \<open>A payload read from the cache; a miss is the nameless error of the code.\<close>

definition cache_fill :: "cache \<Rightarrow> entry list \<Rightarrow> (storage_error, entry list) outcome" where
  "cache_fill c es =
     (case cache_read c es of
        Ret (hit, es') \<Rightarrow> if hit then Ret es' else Fail ErrCacheRead
      | _ \<Rightarrow> Panic)"

text \<open>
  \<^verbatim>\<open>Entries\<close>. \<^verbatim>\<open>make\<close> panics on the wrapped length when \<^verbatim>\<open>hi < lo\<close>; the copy loop panics when
  it runs past the index.
\<close>

definition es_entries ::
  "'m entry_reader \<Rightarrow> (entry \<Rightarrow> nat) \<Rightarrow> 'm entry_storage \<Rightarrow> u64 \<Rightarrow> u64 \<Rightarrow> u64 \<Rightarrow>
   (storage_error, entry list) outcome" where
  "es_entries reader sz s lo hi maxSize =
     bind_outcome (validate_range s lo hi) (\<lambda>(firstEntryIndex, loOffset, hiOffset).
       if hiOffset < loOffset then Panic
       else bind_outcome (go_slice (es_ents s) (unat loOffset) (unat hiOffset)) (\<lambda>slice.
         let copyEnts = map copy_ent slice;
             cacheRange = cache_index_range (es_cache s);
             includedHiEntryIndex = firstEntryIndex + hiOffset - 1;
             loEntryIndex = firstEntryIndex + loOffset
         in bind_outcome
              (if ir_empty cacheRange \<or> includedHiEntryIndex < ir_first cacheRange then
                 reader slice copyEnts
               else if ir_first cacheRange \<le> loEntryIndex \<and> includedHiEntryIndex \<le> ir_last cacheRange then
                 cache_fill (es_cache s) copyEnts
               else if loEntryIndex < ir_first cacheRange \<and> ir_first cacheRange \<le> includedHiEntryIndex then
                 (let cacheFirstOffset = fst (to_offset_index cacheRange firstEntryIndex);
                      untilOffset = unat (cacheFirstOffset - loOffset)
                  in bind_outcome (go_slice (es_ents s) (unat loOffset) (unat cacheFirstOffset)) (\<lambda>old.
                     bind_outcome (go_slice copyEnts 0 untilOffset) (\<lambda>front.
                     bind_outcome (reader old front) (\<lambda>front'.
                     bind_outcome (go_slice copyEnts untilOffset (length copyEnts)) (\<lambda>back.
                     bind_outcome (cache_fill (es_cache s) back) (\<lambda>back'.
                       Ret (front' @ back')))))))
               else Panic)
              (\<lambda>es. Ret (limit_size sz es maxSize))))"

definition es_term :: "'m entry_storage \<Rightarrow> u64 \<Rightarrow> (storage_error, u64) outcome" where
  "es_term s i =
     (if i < es_offset s then Fail ErrCompacted
      else if int (length (es_ents s)) \<le> sint (i - es_offset s) then Fail ErrUnavailable
      else if unat (i - es_offset s) < length (es_ents s)
           then Ret (ep_term (es_ents s ! unat (i - es_offset s)))
           else Panic)"

definition es_apply_snapshot ::
  "'m \<Rightarrow> 'm entry_storage \<Rightarrow> snapshot \<Rightarrow> (storage_error, 'm entry_storage) outcome option" where
  "es_apply_snapshot z s snap =
     (if snap_index snap \<le> snap_index (es_snapshot s) then Some (Fail ErrSnapOutOfDate)
      else map_option
             (\<lambda>c. Ret (s\<lparr>es_snapshot := snap, es_cache := c,
                         es_ents := [dummy_pos z (snap_term snap) (snap_index snap)]\<rparr>))
             (cache_clear (es_cache s)))"

definition es_create_snapshot ::
  "'m entry_storage \<Rightarrow> u64 \<Rightarrow> conf_state option \<Rightarrow> bytes \<Rightarrow>
   (storage_error, 'm entry_storage \<times> snapshot) outcome" where
  "es_create_snapshot s i cs data =
     (if i \<le> snap_index (es_snapshot s) then Fail ErrSnapOutOfDate
      else if es_last_index s < i then Panic
      else if length (es_ents s) \<le> unat (i - es_offset s) then Panic
      else let snap = (es_snapshot s)
                 \<lparr>snap_index := i, snap_term := ep_term (es_ents s ! unat (i - es_offset s)),
                  snap_conf := (case cs of None \<Rightarrow> snap_conf (es_snapshot s) | Some c \<Rightarrow> c),
                  snap_data := data\<rparr>
           in Ret (s\<lparr>es_snapshot := snap\<rparr>, snap))"

text \<open>\<^verbatim>\<open>Compact\<close> reads \<^verbatim>\<open>es.ents[i]\<close> without the bound check its comment describes.\<close>

definition es_compact :: "'m \<Rightarrow> 'm entry_storage \<Rightarrow> u64 \<Rightarrow> (storage_error, 'm entry_storage) outcome" where
  "es_compact z s compactIndex =
     (if compactIndex \<le> es_offset s then Fail ErrCompacted
      else let i = unat (compactIndex - es_offset s)
           in if length (es_ents s) \<le> i then Panic
              else Ret (s\<lparr>es_ents :=
                dummy_pos z (ep_term (es_ents s ! i)) (ep_index (es_ents s ! i)) # drop (Suc i) (es_ents s)\<rparr>))"

definition es_append_index ::
  "'m entry_storage \<Rightarrow> 'm entry_pos list \<Rightarrow> (storage_error, 'm entry_storage) outcome" where
  "es_append_index s es =
     (if es = [] then Ret s
      else
        let first = es_first_index s;
            lst = ep_index (hd es) + of_nat (length es) - 1
        in if lst < first then Ret s
           else bind_outcome
                  (if ep_index (hd es) < first
                   then go_slice es (unat (first - ep_index (hd es))) (length es) else Ret es)
                  (\<lambda>es'. if es' = [] then Panic
                     else let offset = ep_index (hd es') - es_offset s
                          in if unat offset < length (es_ents s) then
                               Ret (s\<lparr>es_ents := take (unat offset) (es_ents s) @ es'\<rparr>)
                             else if length (es_ents s) = unat offset then
                               Ret (s\<lparr>es_ents := es_ents s @ es'\<rparr>)
                             else Fail (ErrMissingLogEntry (es_last_index s) (ep_index (hd es')))))"

definition es_set_hard_state :: "'m entry_storage \<Rightarrow> hard_state \<Rightarrow> 'm entry_storage" where
  "es_set_hard_state s st = s\<lparr>es_hardState := st\<rparr>"

definition es_append_cache :: "'m entry_storage \<Rightarrow> entry list \<Rightarrow> (unit, 'm entry_storage) outcome option" where
  "es_append_cache s ents =
     map_option (\<lambda>r. bind_outcome r (\<lambda>c. Ret (s\<lparr>es_cache := c\<rparr>))) (cache_append (es_cache s) ents)"

definition es_delete_cache :: "'m entry_storage \<Rightarrow> u64 \<Rightarrow> 'm entry_storage option" where
  "es_delete_cache s commitIndex =
     map_option (\<lambda>c. s\<lparr>es_cache := c\<rparr>) (cache_delete commitIndex (es_cache s))"

definition es_entry_index :: "'m entry_storage \<Rightarrow> 'm entry_pos list" where
  "es_entry_index s = tl (es_ents s)"

text \<open>\<^verbatim>\<open>replay_result.go\<close>: the index 0 stands both for "nothing to delete" and for the first entry.\<close>

fun first_uncommitted :: "u64 \<Rightarrow> nat \<Rightarrow> entry list \<Rightarrow> nat" where
  "first_uncommitted commitIndex i [] = 0"
| "first_uncommitted commitIndex i (e # es) =
     (if commitIndex < ent_index e then i else first_uncommitted commitIndex (Suc i) es)"

definition delete_uncommitted :: "u64 \<Rightarrow> entry list \<Rightarrow> entry list" where
  "delete_uncommitted commitIndex es =
     (let deleteFrom = first_uncommitted commitIndex 0 es
      in if deleteFrom \<noteq> 0 then take deleteFrom es else es)"

fun visit_all :: "(entry \<Rightarrow> ('e, unit) outcome) \<Rightarrow> entry list \<Rightarrow> ('e, unit) outcome" where
  "visit_all v [] = Ret ()"
| "visit_all v (e # es) = bind_outcome (v e) (\<lambda>_. visit_all v es)"

definition for_each_conf_change :: "(entry \<Rightarrow> ('e, unit) outcome) \<Rightarrow> entry list \<Rightarrow> ('e, unit) outcome" where
  "for_each_conf_change v es = visit_all v (filter (\<lambda>e. ent_type e = EntryConfChange) es)"

section \<open>The invariant and the log it represents\<close>

definition pos_run :: "nat \<Rightarrow> 'm entry_pos list \<Rightarrow> bool" where
  "pos_run n ps \<longleftrightarrow> n + length ps < 2 ^ 63 \<and> (\<forall>i<length ps. ep_index (ps ! i) = of_nat (n + i))"

definition with_payload :: "(nat \<Rightarrow> bytes) \<Rightarrow> entry \<Rightarrow> entry" where
  "with_payload p e = e\<lparr>ent_data := p (unat (ent_index e))\<rparr>"

definition es_log :: "(nat \<Rightarrow> bytes) \<Rightarrow> 'm entry_storage \<Rightarrow> entry list" where
  "es_log p s = map (\<lambda>e. with_payload p (copy_ent e)) (tl (es_ents s))"

definition es_wf :: "'m entry_storage \<Rightarrow> bool" where
  "es_wf s \<longleftrightarrow> es_ents s \<noteq> [] \<and> (\<exists>n. pos_run n (es_ents s))"

text \<open>
  The cache agrees with the log and, when it is not empty, ends where the log ends.
\<close>

definition es_inv :: "(nat \<Rightarrow> bytes) \<Rightarrow> 'm entry_storage \<Rightarrow> bool" where
  "es_inv p s \<longleftrightarrow> es_wf s \<and> cache_inv (es_cache s) \<and>
     (\<forall>ce\<in>set (cache_abs (es_cache s)). ce_data ce = p (unat (ce_index ce))) \<and>
     (cache_abs (es_cache s) \<noteq> [] \<longrightarrow> ce_index (last (cache_abs (es_cache s))) = es_last_index s)"

lemma pos_run_index: "pos_run n ps \<Longrightarrow> i < length ps \<Longrightarrow> unat (ep_index (ps ! i)) = n + i"
  using unat_of_nat_u64 [of "n + i"] by (auto simp: pos_run_def)

lemma pos_run_hd: "pos_run n ps \<Longrightarrow> ps \<noteq> [] \<Longrightarrow> unat (ep_index (hd ps)) = n"
  using pos_run_index [of n ps 0] by (simp add: hd_conv_nth)

lemma pos_run_take: "pos_run n ps \<Longrightarrow> pos_run n (take k ps)"
  by (auto simp: pos_run_def)

lemma pos_run_drop: "pos_run n ps \<Longrightarrow> k \<le> length ps \<Longrightarrow> pos_run (n + k) (drop k ps)"
  by (auto simp: pos_run_def algebra_simps)

lemma pos_run_append: "pos_run n ps \<Longrightarrow> pos_run (n + length ps) qs \<Longrightarrow> pos_run n (ps @ qs)"
  by (auto simp: pos_run_def nth_append)

lemma pos_run_copy: "pos_run n ps \<Longrightarrow> ent_run n (map copy_ent ps)"
  by (auto simp: pos_run_def ent_run_def copy_ent_def)

lemma es_wf_run:
  assumes "es_wf s"
  shows "pos_run (unat (es_offset s)) (es_ents s) \<and> 0 < length (es_ents s) \<and>
         unat (es_last_index s) = unat (es_offset s) + length (es_ents s) - 1 \<and>
         unat (es_offset s) + length (es_ents s) < 2 ^ 63"
proof -
  obtain n where ne: "es_ents s \<noteq> []" and run: "pos_run n (es_ents s)"
    using assms by (auto simp: es_wf_def)
  let ?l = "length (es_ents s)"
  have n: "unat (es_offset s) = n" using pos_run_hd [OF run ne] by (simp add: es_offset_def)
  have b: "n + ?l < 2 ^ 63" using run by (simp add: pos_run_def)
  have "es_offset s = of_nat n" by (simp flip: n)
  then have "es_last_index s = of_nat (n + ?l - 1)"
    using ne by (simp add: es_last_index_def of_nat_diff Suc_leI)
  then have "unat (es_last_index s) = n + ?l - 1" using b unat_of_nat_u64 [of "n + ?l - 1"] by simp
  then show ?thesis using run ne n b by simp
qed

lemma new_entry_storage_inv: "es_inv p (new_entry_storage z)"
proof -
  have "pos_run 0 [dummy_pos z 0 0]" by (simp add: pos_run_def dummy_pos_def)
  then show ?thesis
    using new_cache_inv by (auto simp: es_inv_def es_wf_def new_entry_storage_def)
qed

lemma es_cache_end:
  assumes "es_inv p s" and "cache_abs (es_cache s) \<noteq> []"
  shows "unat (ce_index (hd (cache_abs (es_cache s)))) + length (cache_abs (es_cache s)) =
         unat (es_offset s) + length (es_ents s)"
proof -
  let ?q = "cache_abs (es_cache s)"
  obtain f where f: "ce_run f ?q" using assms(1) by (auto simp: es_inv_def cache_inv_def)
  have "f + length ?q - 1 = unat (es_last_index s)"
    using ce_run_last [OF f assms(2)] assms by (simp add: es_inv_def)
  moreover have "unat (es_last_index s) = unat (es_offset s) + length (es_ents s) - 1"
    "0 < length (es_ents s)"
    using es_wf_run [of s] assms(1) by (auto simp: es_inv_def)
  ultimately show ?thesis
    using assms(2) ce_run_hd [OF f assms(2)]
    unfolding length_greater_0_conv [symmetric] by linarith
qed

section \<open>Reading ranges of the log\<close>

text \<open>
  What \<^verbatim>\<open>Entries\<close> relies on of the reader: for positions the index holds it returns the log's
  payloads.
\<close>

definition reads_payloads :: "(nat \<Rightarrow> bytes) \<Rightarrow> 'm entry_reader \<Rightarrow> 'm entry_pos list \<Rightarrow> bool" where
  "reads_payloads p reader ps \<longleftrightarrow>
     (\<forall>ms. ms \<noteq> [] \<and> set ms \<subseteq> set ps \<longrightarrow> reader ms (map copy_ent ms) = Ret (map (with_payload p) (map copy_ent ms)))"

lemma cache_fill_ok:
  assumes "cache_inv c" and "\<forall>ce\<in>set (cache_abs c). ce_data ce = p (unat (ce_index ce))"
    and "ent_run m es" and "es \<noteq> []" and "cache_abs c \<noteq> []"
    and "unat (ce_index (hd (cache_abs c))) \<le> m"
    and "m + length es \<le> unat (ce_index (hd (cache_abs c))) + length (cache_abs c)"
  shows "cache_fill c es = Ret (map (with_payload p) es)"
  using ring.hit_agrees [of c p m es] assms
  by (simp add: cache_fill_def ring.agrees_def with_payload_def)

lemma unat_add_diff:
  fixes x y :: u64
  assumes "x \<le> y"
  shows "x + (y - x) = y" "unat (y - x) = unat y - unat x"
  using assms by (simp_all add: word_diff_wraps)

text \<open>
  On a valid range the offsets are plain differences: \<^verbatim>\<open>Entries\<close> copies the positions of the
  range and fetches their payloads.
\<close>

definition es_fetch ::
  "'m entry_reader \<Rightarrow> cache \<Rightarrow> 'm entry_pos list \<Rightarrow> u64 \<Rightarrow> u64 \<Rightarrow> (storage_error, entry list) outcome" where
  "es_fetch reader c part lo hi =
     (let r = cache_index_range c; k = unat (ir_first r) - unat lo
      in if ir_empty r \<or> hi - 1 < ir_first r then reader part (map copy_ent part)
         else if ir_first r \<le> lo \<and> hi - 1 \<le> ir_last r then cache_fill c (map copy_ent part)
         else if lo < ir_first r \<and> ir_first r \<le> hi - 1 then
           bind_outcome (reader (take k part) (map copy_ent (take k part))) (\<lambda>front.
           bind_outcome (cache_fill c (map copy_ent (drop k part))) (\<lambda>back. Ret (front @ back)))
         else Panic)"

lemma unat_pred: "(x :: u64) < y \<Longrightarrow> unat (y - 1) = unat y - 1"
  by (rule unat_dec_1) (metis word_not_simps(1))

lemma es_entries_fetch:
  assumes wf: "es_wf s" and lo: "es_offset s < lo" "lo < hi"
    and hi: "unat hi \<le> unat (es_offset s) + length (es_ents s)"
  shows "es_entries reader sz s lo hi maxSize =
    bind_outcome (es_fetch reader (es_cache s)
        (take (unat hi - unat lo) (drop (unat lo - unat (es_offset s)) (es_ents s))) lo hi)
      (\<lambda>es. Ret (limit_size sz es maxSize))"
proof -
  let ?o = "es_offset s" and ?r = "cache_index_range (es_cache s)"
  define part where "part = take (unat hi - unat lo) (drop (unat lo - unat ?o) (es_ents s))"
  have le: "?o \<le> lo" "?o \<le> hi" using lo by auto
  have nat: "unat ?o < unat lo" "unat lo < unat hi" using lo by (simp_all add: word_less_nat_alt)
  have last: "unat (es_last_index s) = unat ?o + length (es_ents s) - 1" "0 < length (es_ents s)"
    "unat ?o + length (es_ents s) < 2 ^ 63"
    using es_wf_run [OF wf] by auto
  have "unat (es_last_index s + 1) = unat ?o + length (es_ents s)"
    using last by (simp add: unat_word_ariths)
  then have val: "validate_range s lo hi = Ret (?o, lo - ?o, hi - ?o)"
    using lo nat hi by (auto simp: validate_range_def word_less_nat_alt word_le_nat_alt)
  have sl: "(go_slice (es_ents s) (unat (lo - ?o)) (unat (hi - ?o)) :: (storage_error, _) outcome) = Ret part"
    using nat hi le by (auto simp: go_slice_Ret part_def unat_add_diff)
  have order: "\<not> hi - ?o < lo - ?o" using nat le by (simp add: word_less_nat_alt unat_add_diff)
  have len: "length part = unat hi - unat lo" using hi nat by (simp add: part_def)
  have mid: "bind_outcome (go_slice (es_ents s) (unat (lo - ?o)) (unat (fst (to_offset_index ?r ?o)))) (\<lambda>old.
             bind_outcome (go_slice (map copy_ent part) 0 (unat (fst (to_offset_index ?r ?o) - (lo - ?o)))) (\<lambda>front.
             bind_outcome (reader old front) (\<lambda>front'.
             bind_outcome (go_slice (map copy_ent part) (unat (fst (to_offset_index ?r ?o) - (lo - ?o))) (length (map copy_ent part))) (\<lambda>back.
             bind_outcome (cache_fill (es_cache s) back) (\<lambda>back'. Ret (front' @ back'))))))
     = (let k = unat (ir_first ?r) - unat lo
        in bind_outcome (reader (take k part) (map copy_ent (take k part))) (\<lambda>front.
           bind_outcome (cache_fill (es_cache s) (map copy_ent (drop k part))) (\<lambda>back. Ret (front @ back))))"
    if c: "\<not> ir_empty ?r" "lo < ir_first ?r" "ir_first ?r \<le> hi - 1"
  proof -
    let ?f = "ir_first ?r" and ?k = "unat (ir_first ?r) - unat lo"
    have f: "unat lo < unat ?f" "unat ?f \<le> unat hi - 1" "?o \<le> ?f"
      using c lo by (auto simp: word_less_nat_alt word_le_nat_alt unat_pred)
    have off: "fst (to_offset_index ?r ?o) = ?f - ?o" using c(1) by (simp add: to_offset_index_def)
    have until: "unat (?f - lo) = ?k" using c(2) by (simp add: unat_add_diff)
    have "(go_slice (es_ents s) (unat (lo - ?o)) (unat (?f - ?o)) :: (storage_error, _) outcome) =
        Ret (take ?k part)"
      using f nat hi le by (simp add: go_slice_Ret part_def unat_add_diff min_def) auto
    moreover have "(go_slice (map copy_ent part) 0 ?k :: (storage_error, _) outcome) =
        Ret (map copy_ent (take ?k part))"
      "(go_slice (map copy_ent part) ?k (length part) :: (storage_error, _) outcome) =
        Ret (map copy_ent (drop ?k part))"
      using f len by (simp_all add: go_slice_Ret take_map drop_map)
    ultimately show ?thesis by (simp add: until off Let_def)
  qed
  have idx: "?o + (lo - ?o) = lo" "?o + (hi - ?o) = hi" using le by (simp_all add: unat_add_diff)
  show ?thesis
    unfolding es_entries_def val sl bind_outcome.simps prod.case Let_def es_fetch_def part_def [symmetric] idx
    using mid [unfolded Let_def] order by (cases "ir_empty ?r \<or> hi - 1 < ir_first ?r") (simp_all only: if_True if_False not_False_eq_True split: if_split, auto)
qed

lemma es_entries_payloads:
  assumes inv: "es_inv p s" and reader: "reads_payloads p reader (tl (es_ents s))"
    and lo: "es_offset s < lo" "lo < hi" and hi: "unat hi \<le> unat (es_offset s) + length (es_ents s)"
  shows "es_entries reader sz s lo hi maxSize =
    Ret (limit_size sz (take (unat hi - unat lo) (drop (unat lo - unat (es_first_index s)) (es_log p s))) maxSize)"
proof -
  let ?o = "es_offset s" and ?c = "es_cache s" and ?q = "cache_abs (es_cache s)"
  define part where "part = take (unat hi - unat lo) (drop (unat lo - unat ?o) (es_ents s))"
  have wf: "es_wf s" and cinv: "cache_inv ?c"
    and agr: "\<forall>ce\<in>set ?q. ce_data ce = p (unat (ce_index ce))"
    using inv by (auto simp: es_inv_def)
  have run: "pos_run (unat ?o) (es_ents s)" and b: "unat ?o + length (es_ents s) < 2 ^ 63"
    using es_wf_run [OF wf] by auto
  have nat: "unat ?o < unat lo" "unat lo < unat hi" using lo by (simp_all add: word_less_nat_alt)
  have first: "unat (es_first_index s) = Suc (unat ?o)"
    using b by (simp add: es_first_index_def unat_word_ariths)
  have "drop (unat lo - unat ?o) (es_ents s) = drop (unat lo - unat (es_first_index s)) (tl (es_ents s))"
    using nat(1) by (simp add: first drop_Suc [symmetric] Suc_diff_Suc)
  then have log: "map (with_payload p) (map copy_ent part) =
      take (unat hi - unat lo) (drop (unat lo - unat (es_first_index s)) (es_log p s))"
    and sub: "set part \<subseteq> set (tl (es_ents s))"
    by (auto simp: part_def es_log_def drop_map take_map comp_def dest: in_set_takeD in_set_dropD)
  have prun: "pos_run (unat lo) part"
    using pos_run_take [OF pos_run_drop [OF run, of "unat lo - unat ?o"]] nat hi by (simp add: part_def)
  have rd: "reader ms (map copy_ent ms) = Ret (map (with_payload p) (map copy_ent ms))"
    if "ms \<noteq> []" "set ms \<subseteq> set part" for ms
    using reader sub that by (auto simp: reads_payloads_def)
  have len: "length part = unat hi - unat lo" using nat hi by (simp add: part_def)
  then have ne: "part \<noteq> []" using nat by auto
  have "es_fetch reader ?c part lo hi = Ret (map (with_payload p) (map copy_ent part))"
  proof (cases "?q = []")
    case True
    then show ?thesis
      using rd [OF ne] cache_index_range_ok [OF cinv] by (simp add: es_fetch_def)
  next
    case False
    obtain f where qrun: "ce_run f ?q" using cinv by (auto simp: cache_inv_def)
    have r: "cache_index_range ?c = \<lparr>ir_first = ce_index (hd ?q), ir_last = ce_index (last ?q), ir_empty = False\<rparr>"
      using False cache_index_range_ok [OF cinv] by simp
    have f: "unat (ce_index (hd ?q)) = f" "unat (ce_index (last ?q)) = f + length ?q - 1"
      using False qrun by (simp_all add: ce_run_hd ce_run_last)
    have fl: "f + length ?q = unat ?o + length (es_ents s)"
      using es_cache_end [OF inv False] f(1) by simp
    have fill: "cache_fill ?c (map copy_ent (drop k part)) = Ret (map (with_payload p) (map copy_ent (drop k part)))"
      if "f \<le> unat lo + k" "k < length part" for k
    proof (rule cache_fill_ok [OF cinv agr _ _ False])
      show "ent_run (unat lo + k) (map copy_ent (drop k part))"
        using that by (intro pos_run_copy pos_run_drop prun) simp
    qed (use that f fl hi len in auto)
    have hi1: "unat (hi - 1) = unat hi - 1" using lo(2) by (rule unat_pred)
    consider "unat hi - 1 < f" | "f \<le> unat lo" "f \<le> unat hi - 1" | "unat lo < f" "f \<le> unat hi - 1" by linarith
    then show ?thesis
    proof cases
      case 1
      then show ?thesis using rd [OF ne] by (simp add: es_fetch_def r word_less_nat_alt f hi1)
    next
      case 2
      then show ?thesis
        using fill [of 0] nat hi fl len
        by (simp add: es_fetch_def r Let_def word_less_nat_alt word_le_nat_alt f hi1)
    next
      case 3
      then show ?thesis
        using fill [of "f - unat lo"] rd [of "take (f - unat lo) part"] nat len ne
        by (auto simp: es_fetch_def r Let_def word_less_nat_alt word_le_nat_alt f hi1 set_take_subset
            simp flip: map_append)
    qed
  qed
  then show ?thesis
    using es_entries_fetch [OF wf lo hi] by (simp add: part_def [symmetric] log [symmetric])
qed

section \<open>Appending\<close>

text \<open>
  \<^verbatim>\<open>AppendEntryIndex\<close> on a consecutive batch: positions already compacted are cut off, the rest
  replaces the tail it overlaps; a gap is an error.
\<close>

lemma es_append_index_cases:
  assumes wf: "es_wf s" and run: "pos_run m ms" and ne: "ms \<noteq> []"
  defines "o' \<equiv> unat (es_offset s)" and "l \<equiv> length (es_ents s)"
  shows "es_append_index s ms =
    (if m + length ms \<le> Suc o' then Ret s
     else if m \<le> o' then Ret (s\<lparr>es_ents := take 1 (es_ents s) @ drop (Suc o' - m) ms\<rparr>)
     else if m \<le> o' + l then Ret (s\<lparr>es_ents := take (m - o') (es_ents s) @ ms\<rparr>)
     else Fail (ErrMissingLogEntry (es_last_index s) (ep_index (hd ms))))"
proof -
  have b: "o' + l < 2 ^ 63" and l: "0 < l" and mb: "m + length ms < 2 ^ 63" and lm: "0 < length ms"
    using es_wf_run [OF wf] run ne by (auto simp: o'_def l_def pos_run_def)
  have hd_m: "unat (ep_index (hd ms)) = m" using run ne by (rule pos_run_hd)
  have first: "unat (es_first_index s) = Suc o'"
    using b by (simp add: es_first_index_def unat_word_ariths o'_def)
  have "ep_index (hd ms) = of_nat m" by (simp flip: hd_m)
  then have "ep_index (hd ms) + of_nat (length ms) - 1 = of_nat (m + length ms - 1)"
    using lm by (simp add: of_nat_diff Suc_leI)
  then have last: "unat (ep_index (hd ms) + of_nat (length ms) - 1) = m + length ms - 1"
    using mb unat_of_nat_u64 [of "m + length ms - 1"] by simp
  consider (old) "m + length ms \<le> Suc o'" | (cut) "Suc o' < m + length ms" "m \<le> o'" | (new) "o' < m"
    by linarith
  then show ?thesis
  proof cases
    case old
    then have "ep_index (hd ms) + of_nat (length ms) - 1 < es_first_index s"
      using lm unfolding word_less_nat_alt last first by linarith
    then show ?thesis using old ne by (simp add: es_append_index_def Let_def)
  next
    case cut
    let ?k = "Suc o' - m"
    have d: "unat (es_first_index s - ep_index (hd ms)) = ?k"
      using cut by (subst unat_add_diff(2)) (simp_all add: word_le_nat_alt first hd_m)
    have k: "?k < length ms" using cut by simp
    then have "unat (ep_index (hd (drop ?k ms))) = Suc o'"
      using pos_run_index [OF run k] cut by (simp add: hd_drop_conv_nth)
    then have off: "unat (ep_index (hd (drop ?k ms)) - es_offset s) = 1"
      by (subst unat_add_diff(2)) (simp_all add: word_le_nat_alt o'_def)
    have "(go_slice ms ?k (length ms) :: (storage_error, _) outcome) = Ret (drop ?k ms)"
      using k by (simp add: go_slice_Ret)
    then show ?thesis
      using cut ne lm k l off wf
      by (auto simp: es_append_index_def Let_def word_less_nat_alt last first d hd_m l_def es_wf_def
          Suc_lessI)
  next
    case new
    have off: "unat (ep_index (hd ms) - es_offset s) = m - o'"
      using new by (subst unat_add_diff(2)) (simp_all add: word_le_nat_alt o'_def hd_m)
    show ?thesis
      using new ne lm
      by (auto simp: es_append_index_def Let_def word_less_nat_alt last first hd_m off l_def)
  qed
qed

lemma es_append_index_wf:
  assumes "es_wf s" and "pos_run m ms" and "es_append_index s ms = Ret s'"
  shows "es_wf s' \<and> es_offset s' = es_offset s"
proof (cases "ms = []")
  case False
  let ?o = "unat (es_offset s)" and ?ents = "es_ents s"
  have run: "pos_run ?o ?ents" and ne: "?ents \<noteq> []" "es_ents s = hd ?ents # tl ?ents"
    using es_wf_run [OF assms(1)] by auto
  have len1: "length (take 1 ?ents) = 1" using ne(1) by (cases ?ents) auto
  have "pos_run ?o (take 1 ?ents @ drop (Suc ?o - m) ms)" if "m \<le> ?o" "Suc ?o < m + length ms"
    using that pos_run_take [OF run, of 1] pos_run_drop [OF assms(2), of "Suc ?o - m"]
    by (intro pos_run_append) (simp_all only: len1, simp)
  moreover have "pos_run ?o (take (m - ?o) ?ents @ ms)" if "?o < m" "m \<le> ?o + length ?ents"
    using that pos_run_take [OF run, of "m - ?o"] assms(2) by (intro pos_run_append) auto
  ultimately show ?thesis
    using assms(1,3) ne es_append_index_cases [OF assms(1,2) False]
    by (auto simp: es_wf_def es_offset_def hd_append split: if_splits)
qed (use assms in \<open>simp add: es_append_index_def\<close>)

text \<open>
  A batch handed to the storage by the WAL: the positions and the entries describe the same
  records, and the payload function is updated by the batch.
\<close>

definition same_batch :: "'m entry_pos list \<Rightarrow> entry list \<Rightarrow> bool" where
  "same_batch ms es \<longleftrightarrow> map copy_ent ms = map (\<lambda>e. e\<lparr>ent_data := []\<rparr>) es"

definition put_payloads :: "(nat \<Rightarrow> bytes) \<Rightarrow> nat \<Rightarrow> entry list \<Rightarrow> nat \<Rightarrow> bytes" where
  "put_payloads p m es i = (if m \<le> i \<and> i < m + length es then ent_data (es ! (i - m)) else p i)"

lemma same_batch_length: "same_batch ms es \<Longrightarrow> length ms = length es"
  unfolding same_batch_def by (metis length_map)

lemma same_batch_payload:
  assumes "same_batch ms es" and "pos_run m ms"
  shows "map (\<lambda>e. with_payload (put_payloads p m es) (copy_ent e)) ms = es"
proof (rule nth_equalityI)
  show "length (map (\<lambda>e. with_payload (put_payloads p m es) (copy_ent e)) ms) = length es"
    using same_batch_length [OF assms(1)] by simp
  fix i assume "i < length (map (\<lambda>e. with_payload (put_payloads p m es) (copy_ent e)) ms)"
  then have i: "i < length ms" "i < length es" using same_batch_length [OF assms(1)] by auto
  have c: "copy_ent (ms ! i) = (es ! i)\<lparr>ent_data := []\<rparr>"
    using assms(1) i by (simp add: same_batch_def list_eq_iff_nth_eq)
  have "ent_index (copy_ent (ms ! i)) = ep_index (ms ! i)" by (simp add: copy_ent_def)
  then have "unat (ent_index (es ! i)) = m + i"
    using pos_run_index [OF assms(2) i(1)] by (simp add: c)
  then show "map (\<lambda>e. with_payload (put_payloads p m es) (copy_ent e)) ms ! i = es ! i"
    using i by (simp add: c with_payload_def put_payloads_def)
qed

lemma put_payloads_below: "map (\<lambda>e. with_payload (put_payloads p m es) (copy_ent e)) ps =
    map (\<lambda>e. with_payload p (copy_ent e)) ps" if "pos_run n ps" "n + length ps \<le> m" for ps
proof -
  have "unat (ep_index e) < m" if "e \<in> set ps" for e
    using that \<open>pos_run n ps\<close> \<open>n + length ps \<le> m\<close> pos_run_index [of n ps]
    by (auto simp: in_set_conv_nth)
  then show ?thesis
    by (intro map_cong refl) (force simp: with_payload_def put_payloads_def copy_ent_def)
qed

lemma same_batch_run: "same_batch ms es \<Longrightarrow> pos_run m ms \<Longrightarrow> ent_run m es"
proof -
  assume b: "same_batch ms es" and "pos_run m ms"
  then have "ent_run m (map (\<lambda>e. e\<lparr>ent_data := []\<rparr>) es)" using pos_run_copy by (metis same_batch_def)
  then show "ent_run m es" by (simp add: ent_run_def)
qed

text \<open>
  The batch from index \<^verbatim>\<open>m\<close> on starts at or after the oldest cached entry. Otherwise \<^verbatim>\<open>Cache.Append\<close> ignores
  the batch, also where it overlaps the cached entries.
\<close>

definition cache_reaches :: "nat \<Rightarrow> 'm entry_storage \<Rightarrow> bool" where
  "cache_reaches m s \<longleftrightarrow> cache_abs (es_cache s) = [] \<or> unat (ce_index (hd (cache_abs (es_cache s)))) \<le> m"

lemma es_append_cache_inv:
  assumes inv: "es_inv p s" and erun: "ent_run m es" and ene: "es \<noteq> []"
    and at: "m \<le> unat (es_offset s) + length (es_ents s)"
    and size: "length (cache_abs (es_cache s)) + length es < 2 ^ 62" and front: "cache_reaches m s"
    and c': "cache_append (es_cache s) es = Some (Ret c')"
    and s1: "es_wf s1" "unat (es_last_index s1) = m + length es - 1"
  shows "es_inv (put_payloads p m es) (s1\<lparr>es_cache := c'\<rparr>)"
proof -
  let ?q = "cache_abs (es_cache s)"
  have cinv: "cache_inv (es_cache s)" and agr: "ring.agrees p (es_cache s)"
    using inv by (auto simp: es_inv_def ring.agrees_def)
  have reach: "?q = [] \<or> unat (ce_index (hd ?q)) \<le> m \<and> m \<le> unat (ce_index (hd ?q)) + length ?q"
    using es_cache_end [OF inv] front at by (fastforce simp: cache_reaches_def)
  have c2: "cache_inv c'" "ring.agrees (put_payloads p m es) c'" "cache_abs c' \<noteq> []" "last (cache_abs c') = as_cache_entry (last es)"
    using ring.agrees_append [OF cinv erun ene size _ _ agr reach c', of "put_payloads p m es"]
    by (auto simp: put_payloads_def)
  have "ce_index (last (cache_abs c')) = es_last_index s1"
    using ent_run_last [OF erun ene] s1(2) by (simp add: c2(4) as_cache_entry_def word_unat_eq_iff)
  then show ?thesis
    using s1(1) c2 by (simp add: es_inv_def es_wf_def ring.agrees_def es_last_index_def es_offset_def)
qed

lemma es_append_index_log:
  assumes wf: "es_wf s" and run: "pos_run m ms" and ne: "ms \<noteq> []" and same: "same_batch ms es"
    and at: "unat (es_offset s) < m" "m \<le> unat (es_offset s) + length (es_ents s)"
  shows "\<exists>s1. es_append_index s ms = Ret s1 \<and> es_wf s1 \<and> es_offset s1 = es_offset s \<and> es_cache s1 = es_cache s \<and>
    unat (es_last_index s1) = m + length es - 1 \<and>
    es_log (put_payloads p m es) s1 = take (m - unat (es_first_index s)) (es_log p s) @ es"
proof -
  let ?o = "unat (es_offset s)" and ?p = "put_payloads p m es"
  have srun: "pos_run ?o (es_ents s)" and l: "0 < length (es_ents s)"
    and b: "?o + length (es_ents s) < 2 ^ 63"
    using es_wf_run [OF wf] by auto
  define s1 where "s1 = s\<lparr>es_ents := take (m - ?o) (es_ents s) @ ms\<rparr>"
  have s1: "es_append_index s ms = Ret s1"
    using es_append_index_cases [OF wf run ne] at ne by (cases ms) (auto simp: s1_def)
  then have wf1: "es_wf s1" and off1: "es_offset s1 = es_offset s"
    using es_append_index_wf [OF wf run] by auto
  have last1: "unat (es_last_index s1) = m + length es - 1"
    using es_wf_run [OF wf1] at l same_batch_length [OF same] by (simp add: s1_def off1 es_offset_def)
  have first: "unat (es_first_index s) = Suc ?o"
    using b by (simp add: es_first_index_def unat_word_ariths)
  have "tl (es_ents s1) = take (m - Suc ?o) (tl (es_ents s)) @ ms"
    using at l by (cases "es_ents s") (auto simp: s1_def take_Cons' Suc_diff_Suc)
  moreover have "pos_run (Suc ?o) (take (m - Suc ?o) (tl (es_ents s)))"
    using pos_run_take [OF pos_run_drop [OF srun, of 1]] l by (simp add: drop_Suc Suc_leI)
  from put_payloads_below [OF this, of m p es]
  have "map (\<lambda>e. with_payload ?p (copy_ent e)) (take (m - Suc ?o) (tl (es_ents s))) =
      take (m - Suc ?o) (es_log p s)"
    using at by (simp add: es_log_def take_map)
  ultimately have "es_log ?p s1 = take (m - unat (es_first_index s)) (es_log p s) @ es"
    using same_batch_payload [OF same run, of p] by (simp add: es_log_def first)
  then show ?thesis using s1 wf1 off1 last1 by (intro exI [of _ s1]) (simp add: s1_def)
qed

lemma es_append_any:
  assumes inv: "es_inv p s" and run: "pos_run m ms" and ne: "ms \<noteq> []" and same: "same_batch ms es"
    and at: "unat (es_offset s) < m" "m \<le> unat (es_offset s) + length (es_ents s)"
    and size: "length (cache_abs (es_cache s)) + length es < 2 ^ 62"
  shows "\<exists>s1 s2. es_append_index s ms = Ret s1 \<and> es_append_cache s1 es = Some (Ret s2) \<and>
    es_wf s2 \<and> cache_inv (es_cache s2) \<and> es_offset s2 = es_offset s \<and>
    (if cache_reaches m s then es_inv (put_payloads p m es) s2 else es_cache s2 = es_cache s) \<and>
    es_log (put_payloads p m es) s2 = take (m - unat (es_first_index s)) (es_log p s) @ es"
proof -
  let ?c = "es_cache s"
  have wf: "es_wf s" and cinv: "cache_inv ?c" using inv by (auto simp: es_inv_def)
  have erun: "ent_run m es" and ene: "es \<noteq> []"
    using same_batch_run [OF same run] same_batch_length [OF same] ne by auto
  obtain s1 where s1: "es_append_index s ms = Ret s1" "es_wf s1" "es_offset s1 = es_offset s" "es_cache s1 = ?c"
      "unat (es_last_index s1) = m + length es - 1"
      "es_log (put_payloads p m es) s1 = take (m - unat (es_first_index s)) (es_log p s) @ es"
    using es_append_index_log [OF wf run ne same at] by blast
  obtain c' where c': "cache_append ?c es = Some (Ret c')" "cache_inv c'"
    using ring.append_law [OF cinv erun size] by blast
  have "es_append_cache s1 es = Some (Ret (s1\<lparr>es_cache := c'\<rparr>))" using c' s1(4) by (simp add: es_append_cache_def)
  moreover have "c' = ?c" if "\<not> cache_reaches m s"
    using that cache_append_before_front_ignored [OF cinv _ erun] c' by (simp add: cache_reaches_def not_le)
  moreover have "es_inv (put_payloads p m es) (s1\<lparr>es_cache := c'\<rparr>)" if "cache_reaches m s"
    by (rule es_append_cache_inv [OF inv erun ene at(2) size that c'(1) s1(2,5)])
  ultimately show ?thesis
    using s1 c'(2) by (intro exI [of _ s1] exI [of _ "s1\<lparr>es_cache := c'\<rparr>"]) (simp add: es_wf_def es_offset_def es_log_def)
qed

lemma es_delete_cache_inv:
  assumes "es_inv p s"
  shows "\<exists>s'. es_delete_cache s t = Some s' \<and> es_inv p s' \<and> es_log p s' = es_log p s \<and>
              es_ents s' = es_ents s"
proof -
  let ?q = "cache_abs (es_cache s)"
  have cinv: "cache_inv (es_cache s)" using assms by (simp add: es_inv_def)
  then obtain c where c: "cache_delete t (es_cache s) = Some c" "cache_inv c"
      "cache_abs c = dropWhile (\<lambda>e. ce_index e \<le> t) ?q"
    using ring.delete_law by blast
  let ?s = "s\<lparr>es_cache := c\<rparr>"
  have "last (cache_abs c) = last ?q" if "cache_abs c \<noteq> []"
    unfolding c(3) using that c(3) by (metis dropWhile_eq_Nil_conv last_append takeWhile_dropWhile_id)
  moreover have "?q \<noteq> []" if "cache_abs c \<noteq> []" using that c(3) by (metis dropWhile.simps(1))
  moreover have "\<forall>ce\<in>set (cache_abs c). ce_data ce = p (unat (ce_index ce))"
    using assms c(3) by (auto simp: es_inv_def dest: set_dropWhileD)
  ultimately have "es_inv p ?s"
    using assms c(2) by (simp add: es_inv_def es_wf_def es_last_index_def es_offset_def del: cache_abs_Nil_iff)
  then show ?thesis using c(1) by (simp add: es_delete_cache_def es_log_def)
qed

lemma es_offset_dummy [simp]: "es_offset (s\<lparr>es_ents := dummy_pos z t i # ps\<rparr>) = i"
  by (simp add: es_offset_def dummy_pos_def)

text \<open>
  \<^verbatim>\<open>Compact\<close> inside the log keeps the cache invariant and drops the entries up to the index.
\<close>

lemma es_compact_ok:
  assumes inv: "es_inv p s" and i: "es_offset s < i" "i \<le> es_last_index s"
  shows "\<exists>s'. es_compact z s i = Ret s' \<and> es_inv p s' \<and> es_offset s' = i \<and>
              es_last_index s' = es_last_index s \<and>
              es_log p s' = drop (unat i - unat (es_offset s)) (es_log p s)"
proof -
  let ?o = "unat (es_offset s)" and ?ents = "es_ents s" and ?k = "unat i - unat (es_offset s)"
  have wf: "es_wf s" using inv by (simp add: es_inv_def)
  have run: "pos_run ?o ?ents" and l: "0 < length ?ents"
    and last: "unat (es_last_index s) = ?o + length ?ents - 1" and b: "?o + length ?ents < 2 ^ 63"
    using es_wf_run [OF wf] by auto
  have k: "unat (i - es_offset s) = ?k" "?k < length ?ents" "?o < unat i"
    using i last l by (auto simp: unat_add_diff word_less_nat_alt word_le_nat_alt)
  have idx: "ep_index (?ents ! ?k) = i"
    using pos_run_index [OF run k(2)] k(3) by (simp add: word_unat_eq_iff)
  define s' where "s' = s\<lparr>es_ents := dummy_pos z (ep_term (?ents ! ?k)) i # drop (Suc ?k) ?ents\<rparr>"
  have c: "es_compact z s i = Ret s'"
    using i k by (simp add: es_compact_def Let_def s'_def idx)
  have off: "es_offset s' = i" by (simp add: s'_def)
  have "pos_run (unat i) (es_ents s')"
  proof -
    have "pos_run (unat i) [dummy_pos z (ep_term (?ents ! ?k)) i]"
      using k b by (simp add: pos_run_def dummy_pos_def)
    moreover have "pos_run (Suc (unat i)) (drop (Suc ?k) ?ents)"
      using pos_run_drop [OF run, of "Suc ?k"] k by simp
    ultimately show ?thesis using pos_run_append by (fastforce simp: s'_def)
  qed
  then have wf': "es_wf s'" by (auto simp: es_wf_def s'_def)
  have "unat (es_last_index s') = unat (es_last_index s)"
    using es_wf_run [OF wf'] k by (simp add: off last s'_def)
  then have last': "es_last_index s' = es_last_index s" by (simp add: word_unat_eq_iff)
  have "es_inv p s'" using inv wf' last' by (simp add: es_inv_def s'_def)
  moreover have "es_log p s' = drop ?k (es_log p s)"
    by (simp add: es_log_def s'_def drop_map drop_Suc)
  ultimately show ?thesis using c off last' by blast
qed

lemma es_compact_beyond_panics:
  assumes "es_wf s" and "es_last_index s < i"
  shows "es_compact z s i = Panic"
proof -
  have last: "unat (es_last_index s) = unat (es_offset s) + length (es_ents s) - 1" "0 < length (es_ents s)"
    using es_wf_run [OF assms(1)] by auto
  have "unat (es_last_index s) < unat i" using assms(2) by (simp add: word_less_nat_alt)
  then have "unat (es_offset s) < unat i" "length (es_ents s) \<le> unat i - unat (es_offset s)"
    using last by linarith+
  moreover from this have "unat (i - es_offset s) = unat i - unat (es_offset s)"
    by (simp add: unat_add_diff word_le_nat_alt)
  ultimately show ?thesis by (simp add: es_compact_def Let_def word_le_nat_alt)
qed

lemma sint_nonneg:
  fixes x :: u64
  assumes "unat x < 2 ^ 63"
  shows "sint x = int (unat x)"
proof -
  have u: "uint x = int (unat x)" by simp
  have "int (unat x) < int (2 ^ 63)" using assms by (simp only: of_nat_less_iff)
  then have "uint x < 2 ^ 63" unfolding u by simp
  moreover have "- (2 ^ 63) \<le> uint x" by (rule order_trans [of _ 0]) simp_all
  ultimately have "signed_take_bit 63 (uint x) = uint x" by (intro signed_take_bit_int_eq_self)
  then show ?thesis by (simp add: sint_uint)
qed

lemma es_term_ok:
  assumes wf: "es_wf s" and i: "unat i < 2 ^ 63"
  shows "es_term s i =
    (if i < es_offset s then Fail ErrCompacted
     else if es_last_index s < i then Fail ErrUnavailable
     else Ret (ep_term (es_ents s ! (unat i - unat (es_offset s)))))"
proof (cases "i < es_offset s")
  case False
  let ?d = "i - es_offset s"
  have last: "unat (es_last_index s) = unat (es_offset s) + length (es_ents s) - 1" "0 < length (es_ents s)"
    using es_wf_run [OF wf] by auto
  have d: "unat ?d = unat i - unat (es_offset s)" "unat (es_offset s) \<le> unat i"
    using False by (simp_all add: unat_add_diff not_less word_le_nat_alt)
  then have "unat ?d < 2 ^ 63" using i by linarith
  then have "sint ?d = int (unat ?d)" by (rule sint_nonneg)
  then have "int (length (es_ents s)) \<le> sint ?d \<longleftrightarrow> length (es_ents s) \<le> unat ?d"
    by (simp only: of_nat_le_iff)
  moreover have "es_last_index s < i \<longleftrightarrow> length (es_ents s) \<le> unat ?d"
    using last d unfolding word_less_nat_alt by linarith
  ultimately show ?thesis using False d(1) by (simp add: es_term_def)
qed (simp add: es_term_def)

lemma es_apply_snapshot_ok:
  assumes inv: "es_inv p s" and new: "snap_index (es_snapshot s) < snap_index snap"
    and b: "unat (snap_index snap) < 2 ^ 62"
  shows "\<exists>s'. es_apply_snapshot z s snap = Some (Ret s') \<and> es_inv p s' \<and> es_log p s' = [] \<and>
              es_offset s' = snap_index snap \<and> es_last_index s' = snap_index snap \<and>
              es_snapshot s' = snap \<and> es_term s' (snap_index snap) = Ret (snap_term snap)"
proof -
  have "cache_inv (es_cache s)" using inv by (simp add: es_inv_def)
  then obtain c where c: "cache_clear (es_cache s) = Some c" "cache_inv c" "cache_abs c = []"
    using ring.clear_law by blast
  define s' where "s' = s\<lparr>es_snapshot := snap, es_cache := c,
      es_ents := [dummy_pos z (snap_term snap) (snap_index snap)]\<rparr>"
  have off: "es_offset s' = snap_index snap" "es_last_index s' = snap_index snap"
    by (simp_all add: s'_def es_offset_def es_last_index_def dummy_pos_def)
  have "pos_run (unat (snap_index snap)) (es_ents s')"
    using b by (simp add: s'_def pos_run_def dummy_pos_def)
  then have wf: "es_wf s'" by (auto simp: es_wf_def s'_def)
  have "cache_abs (es_cache s') = []" "cache_inv (es_cache s')" using c by (simp_all add: s'_def)
  then have "es_inv p s'" using wf unfolding es_inv_def by (metis empty_iff list.set(1))
  moreover have "es_term s' (snap_index snap) = Ret (snap_term snap)"
    using es_term_ok [OF wf, of "snap_index snap"] b by (simp add: off) (simp add: s'_def dummy_pos_def)
  ultimately show ?thesis
    using c(1) new off
    by (intro exI [of _ s']) (simp add: es_apply_snapshot_def s'_def es_log_def not_le [symmetric])
qed

section \<open>Size limit and uncommitted entries\<close>

lemma limit_loop_prefix:
  assumes "unat acc + sum_list (map sz es) < 2 ^ 64"
  shows "\<exists>k. limit_loop sz m acc es = take k es \<and> k \<le> length es \<and>
       (0 < k \<longrightarrow> unat acc + sum_list (map sz (take k es)) \<le> unat m) \<and>
       (k < length es \<longrightarrow> unat m < unat acc + sum_list (map sz (take (Suc k) es)))"
  using assms
proof (induction es arbitrary: acc)
  case (Cons e es)
  have u: "unat (acc + of_nat (sz e)) = unat acc + sz e"
    using Cons.prems by (simp add: unat_word_ariths unat_of_nat)
  obtain k where k: "limit_loop sz m (acc + of_nat (sz e)) es = take k es" "k \<le> length es"
      "0 < k \<longrightarrow> unat acc + sz e + sum_list (map sz (take k es)) \<le> unat m"
      "k < length es \<longrightarrow> unat m < unat acc + sz e + sum_list (map sz (take (Suc k) es))"
    using Cons.IH [of "acc + of_nat (sz e)"] Cons.prems unfolding u by (auto simp: add.assoc)
  show ?case
  proof (cases "unat m < unat acc + sz e")
    case False
    then show ?thesis using k by (intro exI [of _ "Suc k"]) (auto simp: Let_def word_less_nat_alt u add.assoc not_less)
  qed (intro exI [of _ 0], simp add: Let_def word_less_nat_alt u)
qed simp

lemma limit_size_prefix:
  assumes "es \<noteq> []" and "sum_list (map sz es) < 2 ^ 64"
  shows "\<exists>k. limit_size sz es m = take (Suc k) es \<and> Suc k \<le> length es \<and>
       (0 < k \<longrightarrow> sum_list (map sz (take (Suc k) es)) \<le> unat m) \<and>
       (Suc k < length es \<longrightarrow> unat m < sum_list (map sz (take (Suc (Suc k)) es)))"
proof -
  obtain e t where es: "es = e # t" using assms(1) by (cases es) auto
  have "unat (of_nat (sz e) :: u64) = sz e" using assms(2) by (simp add: es unat_of_nat)
  then show ?thesis using limit_loop_prefix [of "of_nat (sz e)" sz t m] assms(2) by (simp add: es)
qed

lemma first_uncommitted_run:
  assumes "ent_run n es" and "n \<le> unat c" "unat c < n + length es - 1" "es \<noteq> []"
  shows "first_uncommitted c i es = i + (Suc (unat c) - n)"
  using assms
proof (induction es arbitrary: n i)
  case (Cons e es)
  have e: "unat (ent_index e) = n" using ent_run_hd [OF Cons.prems(1)] by simp
  have r: "ent_run (Suc n) es" using ent_run_drop [OF Cons.prems(1), of 1] by simp
  show ?case
  proof (cases "n = unat c")
    case True
    then obtain e2 es2 where "es = e2 # es2" using Cons.prems(3) by (cases es) auto
    moreover from this have "unat (ent_index e2) = Suc n" using ent_run_hd [OF r] by simp
    ultimately show ?thesis using True e by (simp add: word_less_nat_alt)
  next
    case False
    then have "first_uncommitted c (Suc i) es = Suc i + (Suc (unat c) - Suc n)"
      using Cons.prems by (intro Cons.IH [OF r]) auto
    then show ?thesis using False e Cons.prems(2) by (simp add: word_less_nat_alt)
  qed
qed simp

lemma first_uncommitted_none:
  "\<forall>e\<in>set es. ent_index e \<le> c \<Longrightarrow> first_uncommitted c i es = 0"
  by (induction es arbitrary: i) (auto simp: not_less)

section \<open>Properties of the entry storage\<close>

definition sample_pos :: "u64 \<Rightarrow> unit entry_pos" where
  "sample_pos i = \<lparr>ep_term = 1, ep_index = i, ep_type = EntryNormal, ep_meta = ()\<rparr>"

definition sample_storage :: "unit entry_storage" where
  "sample_storage = (new_entry_storage ())\<lparr>es_ents := [dummy_pos () 0 0, sample_pos 1, sample_pos 2]\<rparr>"

lemma sample_run: "pos_run 0 [dummy_pos () 0 0, sample_pos 1, sample_pos 2]"
  by (auto simp: pos_run_def sample_pos_def dummy_pos_def less_Suc_eq)

lemma sample_inv: "es_inv p sample_storage"
  using new_entry_storage_inv [of p "()"] sample_run
  by (auto simp: es_inv_def es_wf_def sample_storage_def new_entry_storage_def)

lemma sample_reader: "reads_payloads p (\<lambda>ms es. Ret (map (with_payload p) es)) ps"
  by (simp add: reads_payloads_def)



text \<open>
  C10. Saving a consecutive batch that starts inside the log or right after it: the index and then
  the cache are appended to as the WAL does, both calls return, and the log becomes its part
  before the batch followed by the batch, payloads included. When the batch does not start before the
  oldest cached entry, the invariant is kept, so the cache agrees with the new log. When it does, the cache is left
  as it was: it still holds the payloads the batch has replaced.
\<close>

theorem es_append_replaces_tail:
  assumes "es_inv p s" and "pos_run m ms" and "ms \<noteq> []" and "same_batch ms es"
    and "es_first_index s \<le> of_nat m" and "of_nat m \<le> es_last_index s + 1"
    and "length (cache_abs (es_cache s)) + length es < 2 ^ 62"
  shows "\<exists>s1 s2. es_append_index s ms = Ret s1 \<and> es_append_cache s1 es = Some (Ret s2) \<and>
    es_log (put_payloads p m es) s2 = take (m - unat (es_first_index s)) (es_log p s) @ es \<and>
    (if cache_abs (es_cache s) = [] \<or> unat (ce_index (hd (cache_abs (es_cache s)))) \<le> m
     then es_inv (put_payloads p m es) s2 else es_wf s2 \<and> es_cache s2 = es_cache s)"
proof -
  have l: "unat (es_last_index s) = unat (es_offset s) + length (es_ents s) - 1" "0 < length (es_ents s)"
    "unat (es_offset s) + length (es_ents s) < 2 ^ 63"
    using es_wf_run [of s] assms(1) by (auto simp: es_inv_def)
  have f: "unat (es_first_index s) = Suc (unat (es_offset s))"
    "unat (es_last_index s + 1) = unat (es_offset s) + length (es_ents s)"
    using l by (simp_all add: es_first_index_def unat_word_ariths)
  have "unat (of_nat m :: u64) = m" using assms(2) by (intro unat_of_nat_u64) (simp add: pos_run_def)
  then have "unat (es_offset s) < m" "m \<le> unat (es_offset s) + length (es_ents s)"
    using assms(5,6) by (auto simp: word_le_nat_alt f)
  from es_append_any [OF assms(1-4) this assms(7)] show ?thesis unfolding cache_reaches_def by metis
qed

theorem es_append_replaces_tail_witness:
  "\<exists>s1 s2. es_append_index sample_storage [sample_pos 2] = Ret s1 \<and>
     es_append_cache s1 [\<lparr>ent_term = 1, ent_index = 2, ent_type = EntryNormal, ent_data = [9]\<rparr>] = Some (Ret s2) \<and>
     es_log (put_payloads (\<lambda>_. []) 2 [\<lparr>ent_term = 1, ent_index = 2, ent_type = EntryNormal, ent_data = [9]\<rparr>]) s2 =
       [\<lparr>ent_term = 1, ent_index = 1, ent_type = EntryNormal, ent_data = []\<rparr>,
        \<lparr>ent_term = 1, ent_index = 2, ent_type = EntryNormal, ent_data = [9]\<rparr>]"
proof -
  let ?e = "\<lparr>ent_term = 1, ent_index = 2, ent_type = EntryNormal, ent_data = [9]\<rparr>"
  have 1: "pos_run 2 [sample_pos 2]" "same_batch [sample_pos 2] [?e]"
    by (simp_all add: pos_run_def sample_pos_def same_batch_def copy_ent_def)
  have 2: "es_first_index sample_storage = 1" "es_last_index sample_storage = 2"
    "cache_abs (es_cache sample_storage) = []"
    by (simp_all add: sample_storage_def es_first_index_def es_last_index_def es_offset_def dummy_pos_def
        new_entry_storage_def)
  have 3: "es_log (\<lambda>_. []) sample_storage =
      [\<lparr>ent_term = 1, ent_index = 1, ent_type = EntryNormal, ent_data = []\<rparr>,
       \<lparr>ent_term = 1, ent_index = 2, ent_type = EntryNormal, ent_data = []\<rparr>]"
    by (simp add: sample_storage_def es_log_def with_payload_def copy_ent_def sample_pos_def)
  show ?thesis
    using es_append_replaces_tail [OF sample_inv [of "\<lambda>_. []"] 1(1) _ 1(2)] by (simp add: 2 3) blast
qed

text \<open>
  C27. \<^verbatim>\<open>Compact\<close> at an index of the log keeps the invariant (the cache still agrees with the log)
  and drops exactly the entries up to that index; the last index does not move.
\<close>

theorem es_compact_drops_prefix:
  assumes "es_inv p s" and "es_offset s < i" and "i \<le> es_last_index s"
  shows "\<exists>s'. es_compact z s i = Ret s' \<and> es_inv p s' \<and> es_first_index s' = i + 1 \<and>
              es_last_index s' = es_last_index s \<and>
              es_log p s' = drop (unat i - unat (es_offset s)) (es_log p s)"
  using es_compact_ok [OF assms, of z] by (auto simp: es_first_index_def)

theorem es_compact_drops_prefix_witness:
  "\<exists>s'. es_compact () sample_storage 1 = Ret s' \<and> es_first_index s' = 2 \<and> es_last_index s' = 2"
proof -
  have "es_offset sample_storage = 0" "es_last_index sample_storage = 2"
    by (simp_all add: sample_storage_def es_last_index_def es_offset_def dummy_pos_def)
  then show ?thesis using es_compact_drops_prefix [OF sample_inv [of "\<lambda>_. []"], of 1 "()"] by auto
qed

text \<open>
  \<^verbatim>\<open>ApplySnapshot\<close> with a newer snapshot returns with an empty log that starts right after the
  snapshot, an empty cache and the snapshot's term at its index.
\<close>

theorem es_apply_snapshot_restarts:
  assumes "es_inv p s" and "snap_index (es_snapshot s) < snap_index snap"
    and "unat (snap_index snap) < 2 ^ 62"
  shows "\<exists>s'. es_apply_snapshot z s snap = Some (Ret s') \<and> es_inv p s' \<and> es_log p s' = [] \<and>
              es_first_index s' = snap_index snap + 1 \<and> es_last_index s' = snap_index snap \<and>
              es_term s' (snap_index snap) = Ret (snap_term snap)"
  using es_apply_snapshot_ok [OF assms, of z] by (auto simp: es_first_index_def)

theorem es_apply_snapshot_restarts_witness:
  "\<exists>s'. es_apply_snapshot () sample_storage (zero_snapshot\<lparr>snap_index := 9, snap_term := 3\<rparr>) = Some (Ret s') \<and>
        es_last_index s' = 9 \<and> es_term s' 9 = Ret 3"
  using es_apply_snapshot_restarts
    [OF sample_inv [of "\<lambda>_. []"], of "zero_snapshot\<lparr>snap_index := 9, snap_term := 3\<rparr>" "()"]
  by (auto simp: sample_storage_def new_entry_storage_def zero_snapshot_def)

text \<open>
  \<^verbatim>\<open>DeleteUncommittedEntry\<close> on a replayed run: it keeps exactly the entries up to the commit
  index when at least one entry is committed, but when every entry is uncommitted it keeps them
  all, because the position 0 also means that nothing was found.
\<close>

theorem delete_uncommitted_run:
  assumes "ent_run n es" and "es \<noteq> []"
  shows "delete_uncommitted c es =
    (if unat c < n then es else take (Suc (unat c) - n) es)"
proof -
  consider "unat c < n" | "n \<le> unat c" "unat c < n + length es - 1" | "n + length es - 1 \<le> unat c" by linarith
  then show ?thesis
  proof cases
    case 1
    then have "first_uncommitted c 0 es = 0"
      using assms ent_run_hd [OF assms] by (cases es) (auto simp: word_less_nat_alt)
    then show ?thesis using 1 by (simp add: delete_uncommitted_def)
  next
    case 2
    then show ?thesis
      using first_uncommitted_run [OF assms(1) 2 assms(2), of 0] by (simp add: delete_uncommitted_def)
  next
    case 3
    then have "ent_index e \<le> c" if "e \<in> set es" for e
      using that ent_run_index [OF assms(1)] by (fastforce simp: in_set_conv_nth word_le_nat_alt)
    then have "first_uncommitted c 0 es = 0" by (intro first_uncommitted_none) blast
    moreover have "0 < length es" using assms(2) by simp
    ultimately show ?thesis using 3 by (auto simp: delete_uncommitted_def)
  qed
qed

theorem delete_uncommitted_run_witness:
  "delete_uncommitted 6 [sample_entry 7 [1], sample_entry 8 [2]] = [sample_entry 7 [1], sample_entry 8 [2]] \<and>
   delete_uncommitted 7 [sample_entry 7 [1], sample_entry 8 [2]] = [sample_entry 7 [1]]"
  using delete_uncommitted_run [OF ent_run_samples, of 6] delete_uncommitted_run [OF ent_run_samples, of 7]
  by simp

end
