(* ===== verification/Wal_File.thy ===== *)
theory Wal_File
  imports Wal_Codec Page_Writer Entry_Storage Proto_Wire
begin

unbundle bit_operations_syntax

text \<open>
  WAL files and their manager: \<^verbatim>\<open>logfile/logFile.go\<close> (one method per record kind),
  \<^verbatim>\<open>logfile/manager.go\<close> and \<^verbatim>\<open>utility/utility.go\<close> of \<^verbatim>\<open>pkg/wal/babuzawal\<close>. A file name is
  determined by its descriptor (id, first log index, temporary or not), so a directory is a map
  from descriptors to files. etcd's marshalling of the hard state and of the snapshot record is
  third-party code and comes in as the record \<open>raft_pb\<close>.
\<close>

section \<open>Third-party messages\<close>

record wal_snapshot =
  ws_index :: u64
  ws_term :: u64
  ws_conf :: "conf_state option"

record raft_pb =
  pb_hs :: "hard_state \<Rightarrow> bytes"
  pb_hs_un :: "bytes \<Rightarrow> (pb_error, hard_state) outcome"
  pb_snap :: "wal_snapshot \<Rightarrow> bytes"
  pb_snap_un :: "bytes \<Rightarrow> (pb_error, wal_snapshot) outcome"
  pb_snap_valid :: "wal_snapshot \<Rightarrow> bool"
  raft_is_empty_hs :: "hard_state \<Rightarrow> bool"
  raft_must_sync :: "hard_state \<Rightarrow> hard_state \<Rightarrow> nat \<Rightarrow> bool"

text \<open>
  What the repository relies on: unmarshalling inverts marshalling, a marshalled hard state
  fits a WAL record, \<^verbatim>\<open>IsEmptyHardState\<close> recognises the zero value, and \<^verbatim>\<open>MustSync\<close>
  asks for a synchronous write when there are entries or the vote or the term has changed.
\<close>

definition raft_pb_ok :: "raft_pb \<Rightarrow> bool" where
  "raft_pb_ok pb \<longleftrightarrow>
     (\<forall>h. pb_hs_un pb (pb_hs pb h) = Ret h \<and> pb_hs pb h \<noteq> [] \<and> length (pb_hs pb h) \<le> maxLogSize) \<and>
     (\<forall>s. pb_snap_un pb (pb_snap pb s) = Ret s \<and> pb_snap pb s \<noteq> []) \<and>
     (\<forall>h. raft_is_empty_hs pb h \<longleftrightarrow> h = zero_hard_state) \<and>
     (\<forall>st prev n. raft_must_sync pb st prev n \<longleftrightarrow> n \<noteq> 0 \<or> hs_vote st \<noteq> hs_vote prev \<or> hs_term st \<noteq> hs_term prev)"

datatype wal_error =
    WCodec codec_error
  | WIo io_error
  | WInvalidSnapshot
  | WNotFoundFile u64
  | WUnexpectedNextId u64 u64
  | WNoFiles
  | WMagicMismatch
  | WVersionMismatch u64
  | WDiscontinuous u64 u64
  | WInvalidSize
  | WCrcMismatchForCrc
  | WCrcMismatchForOthers
  | WNotSupported
  | WNotFoundNextEntry
  | WUnmarshal
  | WEntryGap
  | WNotImplemented
  | WNotMaximumRepairedFile
  | WReaderNil
  | WStorage storage_error
  | WSnapshotMismatch
  | WSnapshotNotFound
  | WNotFoundValidLogFiles

section \<open>Log files\<close>

record log_file =
  lf_pw :: page_writer
  lf_enc_crc :: u32

text \<open>
  \<^verbatim>\<open>codec.Encode\<close> into the page writer. The result carries the file, since the encoder's checksum
  has changed even when the call fails.
\<close>

definition lf_put ::
  "acquirer \<Rightarrow> u32 \<Rightarrow> nat \<Rightarrow> log_body \<Rightarrow> log_file \<Rightarrow> (wal_error, unit) outcome \<times> log_file" where
  "lf_put acq logType logSize body lf =
     (case encode acq (lf_enc_crc lf) logType logSize body of
        (crc, Ret bs) \<Rightarrow>
          (case pw_write (lf_pw lf) bs of
             Ret pw \<Rightarrow> (Ret (), lf\<lparr>lf_enc_crc := crc, lf_pw := pw\<rparr>)
           | _ \<Rightarrow> (Panic, lf\<lparr>lf_enc_crc := crc\<rparr>))
      | (crc, Fail e) \<Rightarrow> (Fail (WCodec e), lf\<lparr>lf_enc_crc := crc\<rparr>)
      | (crc, Panic) \<Rightarrow> (Panic, lf\<lparr>lf_enc_crc := crc\<rparr>))"

definition lf_crc :: "acquirer \<Rightarrow> u32 \<Rightarrow> log_file \<Rightarrow> (wal_error, unit) outcome \<times> log_file" where
  "lf_crc acq crc = lf_put acq LogTypeCrc 4 (CrcLog crc)"

definition lf_metadata :: "acquirer \<Rightarrow> bytes \<Rightarrow> log_file \<Rightarrow> (wal_error, unit) outcome \<times> log_file" where
  "lf_metadata acq metadata = lf_put acq LogTypeMetadata (length metadata) (SliceBytes metadata)"

definition lf_hard_state ::
  "acquirer \<Rightarrow> raft_pb \<Rightarrow> hard_state \<Rightarrow> log_file \<Rightarrow> (wal_error, unit) outcome \<times> log_file" where
  "lf_hard_state acq pb st =
     lf_put acq LogTypeHardState (length (pb_hs pb st)) (MarshalledLog (pb_hs pb st))"

definition lf_snapshot ::
  "acquirer \<Rightarrow> raft_pb \<Rightarrow> wal_snapshot \<Rightarrow> log_file \<Rightarrow> (wal_error, unit) outcome \<times> log_file" where
  "lf_snapshot acq pb snap lf =
     (if \<not> pb_snap_valid pb snap then (Fail WInvalidSnapshot, lf)
      else lf_put acq LogTypeSnapshot (length (pb_snap pb snap)) (MarshalledLog (pb_snap pb snap)) lf)"

definition lf_next_entry ::
  "acquirer \<Rightarrow> wal_next_entry \<Rightarrow> log_file \<Rightarrow> (wal_error, unit) outcome \<times> log_file" where
  "lf_next_entry acq ne = lf_put acq LogTypeNextEntry (next_entry_size ne) (MarshalledLog (next_entry_bytes ne))"

definition lf_entry :: "acquirer \<Rightarrow> u32 \<Rightarrow> bytes \<Rightarrow> log_file \<Rightarrow> (wal_error, unit) outcome \<times> log_file" where
  "lf_entry acq entryType entryData = lf_put acq entryType (length entryData) (SliceBytes entryData)"

definition lf_sync :: "bool \<Rightarrow> log_file \<Rightarrow> (wal_error, unit) outcome \<times> log_file" where
  "lf_sync enableSync lf =
     (case pw_sync enableSync (lf_pw lf) of
        Ret pw \<Rightarrow> (Ret (), lf\<lparr>lf_pw := pw\<rparr>)
      | _ \<Rightarrow> (Panic, lf))"

definition lf_truncate :: "log_file \<Rightarrow> log_file" where
  "lf_truncate lf = lf\<lparr>lf_pw := pw_truncate (lf_pw lf)\<rparr>"

definition lf_offset :: "log_file \<Rightarrow> nat" where
  "lf_offset lf = currentOffset (lf_pw lf)"

definition lf_do_cycle :: "log_file \<Rightarrow> bool" where
  "lf_do_cycle lf = pw_check_cycle (lf_pw lf)"

section \<open>File headers\<close>

definition logFileMagicHeader :: bytes where
  "logFileMagicHeader = map of_char ''babuzawal-raft-wal-D37314C80A57AA1ABB325BF1A2750F53FA822E64''"

definition logFileVersion :: u64 where "logFileVersion = 1"

definition LogFileHeaderLength :: nat where
  "LogFileHeaderLength = length logFileMagicHeader + 8"

definition create_log_file_handle :: "nat \<Rightarrow> os_file" where
  "create_log_file_handle preAllocSize =
     os_write (os_write \<lparr>fl_data = replicate preAllocSize 0, fl_pos = 0, fl_synced = []\<rparr> logFileMagicHeader)
       (put_uint64 logFileVersion)"

text \<open>\<^verbatim>\<open>fd.Read\<close> fills what the file has; the rest of the fresh buffer stays zero.\<close>

definition open_log_file_handle :: "os_file \<Rightarrow> (wal_error, os_file) outcome" where
  "open_log_file_handle f =
     (if fl_data f = [] then Fail (WIo EOF)
      else
        let n = min LogFileHeaderLength (length (fl_data f));
            buf = take n (fl_data f) @ replicate (LogFileHeaderLength - n) 0;
            v = get_uint64 (drop (length logFileMagicHeader) buf)
        in if take (length logFileMagicHeader) buf \<noteq> logFileMagicHeader then Fail WMagicMismatch
           else if v \<noteq> logFileVersion then Fail (WVersionMismatch v)
           else Ret (f\<lparr>fl_pos := n\<rparr>))"

section \<open>The manager\<close>

record log_file_desc =
  ld_id :: u64
  ld_start :: u64
  ld_temp :: bool

record manager_config =
  mc_chunk :: nat
  mc_page :: nat
  mc_buf :: nat
  mc_keep :: nat

record log_manager =
  lm_cfg :: manager_config
  lm_files :: "log_file_desc list"
  lm_next :: u64

type_synonym wal_dir = "log_file_desc \<rightharpoonup> os_file"

text \<open>\<^verbatim>\<open>filesDesc\<close>, a map keyed by the id, as the list of its values; ids are distinct.\<close>

definition lm_find :: "log_manager \<Rightarrow> u64 \<Rightarrow> log_file_desc option" where
  "lm_find m i = find (\<lambda>d. ld_id d = i) (lm_files m)"

definition desc_insert :: "log_file_desc \<Rightarrow> log_file_desc list \<Rightarrow> log_file_desc list" where
  "desc_insert d fs = filter (\<lambda>x. ld_id x \<noteq> ld_id d) fs @ [d]"

definition lm_set :: "log_manager \<Rightarrow> log_file_desc \<Rightarrow> log_manager" where
  "lm_set m d = m\<lparr>lm_files := desc_insert d (lm_files m)\<rparr>"

definition lm_open_log_file ::
  "u64 \<Rightarrow> nat \<Rightarrow> u32 \<Rightarrow> log_manager \<Rightarrow> wal_dir \<Rightarrow> (wal_error, log_file) outcome" where
  "lm_open_log_file i seekTo initCrc m dir =
     (case lm_find m i of
        None \<Rightarrow> Fail (WNotFoundFile i)
      | Some d \<Rightarrow>
          (case dir (d\<lparr>ld_temp := False\<rparr>) of
             None \<Rightarrow> Fail (WNotFoundFile i)
           | Some f \<Rightarrow>
               bind_outcome (open_log_file_handle f) (\<lambda>h.
                 Ret \<lparr>lf_pw = create_writer (mc_chunk (lm_cfg m)) (mc_page (lm_cfg m)) (mc_buf (lm_cfg m))
                               (h\<lparr>fl_pos := seekTo\<rparr>),
                      lf_enc_crc = initCrc\<rparr>)))"

definition lm_create_next_temp ::
  "u64 \<Rightarrow> u64 \<Rightarrow> log_manager \<Rightarrow> (wal_error, log_file \<times> log_manager) outcome" where
  "lm_create_next_temp i startLogIndex m =
     (if lm_next m \<noteq> i then Fail (WUnexpectedNextId (lm_next m) i)
      else
        let d = \<lparr>ld_id = i, ld_start = startLogIndex, ld_temp = True\<rparr>
        in Ret (\<lparr>lf_pw = create_writer (mc_chunk (lm_cfg m)) (mc_page (lm_cfg m)) (mc_buf (lm_cfg m))
                          (create_log_file_handle (mc_chunk (lm_cfg m))),
                 lf_enc_crc = 0\<rparr>,
                (lm_set m d)\<lparr>lm_next := lm_next m + 1\<rparr>))"

text \<open>
  \<^verbatim>\<open>FinalizeTempLogFile\<close> renames the closed temporary file \<^verbatim>\<open>f\<close>.
\<close>

definition lm_finalize_temp ::
  "u64 \<Rightarrow> os_file \<Rightarrow> log_manager \<Rightarrow> wal_dir \<Rightarrow> (wal_error, log_manager \<times> wal_dir) outcome" where
  "lm_finalize_temp i f m dir =
     (case lm_find m i of
        None \<Rightarrow> Fail (WNotFoundFile i)
      | Some d \<Rightarrow> Ret (lm_set m (d\<lparr>ld_temp := False\<rparr>), dir(d\<lparr>ld_temp := False\<rparr> \<mapsto> f)))"

definition lm_last_desc :: "log_manager \<Rightarrow> (wal_error, log_file_desc) outcome" where
  "lm_last_desc m =
     (if lm_files m = [] then Fail WNoFiles
      else case lm_find m (lm_next m - 1) of
             Some d \<Rightarrow> Ret d
           | None \<Rightarrow> Ret \<lparr>ld_id = 0, ld_start = 0, ld_temp = False\<rparr>)"

text \<open>
  \<^verbatim>\<open>Purge\<close>. \<^verbatim>\<open>r\<close> is the sorted list of descriptors; the inner loop leaves \<^verbatim>\<open>r\<close> as it is after a
  removal, so that the next round looks at the same descriptor again.
\<close>

fun first_at_least :: "u64 \<Rightarrow> nat \<Rightarrow> log_file_desc list \<Rightarrow> int" where
  "first_at_least s i [] = 0"
| "first_at_least s i (d # ds) = (if s \<le> ld_start d then int i - 1 else first_at_least s (Suc i) ds)"

fun purge_inner :: "nat \<Rightarrow> u64 \<Rightarrow> log_file_desc list \<Rightarrow> log_file_desc option \<times> log_file_desc list" where
  "purge_inner keep s [] = (None, [])"
| "purge_inner keep s (d # ds) =
     (if keep < length (d # ds) then
        (if ld_start d < s then (Some d, d # ds) else purge_inner keep s ds)
      else (None, d # ds))"

fun purge_outer ::
  "nat \<Rightarrow> nat \<Rightarrow> u64 \<Rightarrow> log_file_desc list \<Rightarrow> log_manager \<Rightarrow> wal_dir \<Rightarrow> log_manager \<times> wal_dir" where
  "purge_outer 0 keep s r m dir = (m, dir)"
| "purge_outer (Suc n) keep s r m dir =
     (case purge_inner keep s r of
        (None, r') \<Rightarrow> purge_outer n keep s r' m dir
      | (Some d, r') \<Rightarrow>
          purge_outer n keep s r' (m\<lparr>lm_files := filter (\<lambda>x. ld_id x \<noteq> ld_id d) (lm_files m)\<rparr>)
            (dir(d\<lparr>ld_temp := False\<rparr> := None)))"

text \<open>
  \<^verbatim>\<open>sort.Sort(r)\<close> sorts the values of the map by their start index. The map has no order and the
  sort is not stable, so files with equal start indices may come in any order: \<^verbatim>\<open>r\<close> is an argument.
\<close>

definition purge_order :: "log_manager \<Rightarrow> log_file_desc list \<Rightarrow> bool" where
  "purge_order m r \<longleftrightarrow>
     set r = set (lm_files m) \<and> length r = length (lm_files m) \<and> sorted (map ld_start r)"

definition lm_purge ::
  "log_file_desc list \<Rightarrow> u64 \<Rightarrow> log_manager \<Rightarrow> wal_dir \<Rightarrow> log_manager \<times> wal_dir" where
  "lm_purge r snapshotIndex m dir =
     (let smaller = first_at_least snapshotIndex 0 r
      in if 0 \<le> smaller then purge_outer (nat smaller) (mc_keep (lm_cfg m)) snapshotIndex r m dir
         else (m, dir))"

section \<open>Directory scans\<close>

text \<open>
  \<^verbatim>\<open>ReadValidLogFiles\<close>: the files sorted by id, from the last one that starts at or before the
  snapshot; \<^verbatim>\<open>names\<close> are the names with the suffix \<^verbatim>\<open>.wal\<close>. Ids must be consecutive down to it.
\<close>

fun valid_scan :: "u64 \<Rightarrow> u64 \<Rightarrow> log_file_desc list \<Rightarrow> log_file_desc list \<Rightarrow> (wal_error, log_file_desc list) outcome" where
  "valid_scan snapIndex nextSeq [] acc = Ret acc"
| "valid_scan snapIndex nextSeq (d # ds) acc =
     (if nextSeq \<noteq> 0 \<and> ld_id d \<noteq> nextSeq - 1 then Fail (WDiscontinuous (nextSeq - 1) (ld_id d))
      else if ld_start d \<le> snapIndex then Ret (d # acc)
      else valid_scan snapIndex (ld_id d) ds (d # acc))"

definition read_valid_log_files :: "log_file_desc list \<Rightarrow> u64 \<Rightarrow> (wal_error, log_file_desc list) outcome" where
  "read_valid_log_files names snapIndex =
     valid_scan snapIndex 0 (rev (sort_key (\<lambda>d. unat (ld_id d)) names)) []"

definition new_log_manager :: "manager_config \<Rightarrow> log_manager" where
  "new_log_manager cfg = \<lparr>lm_cfg = cfg, lm_files = [], lm_next = 0\<rparr>"

definition new_log_manager_with_scan ::
  "manager_config \<Rightarrow> log_file_desc list \<Rightarrow> u64 \<Rightarrow> (wal_error, log_manager) outcome" where
  "new_log_manager_with_scan cfg names snapIndex =
     bind_outcome (read_valid_log_files names snapIndex) (\<lambda>fs.
       if fs = [] then Fail WNotFoundValidLogFiles
       else Ret \<lparr>lm_cfg = cfg, lm_files = fold desc_insert fs [], lm_next = ld_id (last fs) + 1\<rparr>)"

section \<open>Reading payloads\<close>

record entry_meta =
  em_file :: u64
  em_offset :: nat
  em_len :: nat
  em_cap :: nat

text \<open>\<^verbatim>\<open>utility.ReadEntriesData\<close> on one file; a short \<^verbatim>\<open>ReadAt\<close> is an error.\<close>

fun read_entries_data :: "bytes \<Rightarrow> (entry_meta entry_pos \<times> entry) list \<Rightarrow> (storage_error, entry list) outcome" where
  "read_entries_data d [] = Ret []"
| "read_entries_data d ((m, e) # ps) =
     (if 0 < em_len (ep_meta m) then
        (if em_offset (ep_meta m) + em_len (ep_meta m) \<le> length d then
           bind_outcome (read_entries_data d ps) (\<lambda>es.
             Ret (e\<lparr>ent_data := take (em_len (ep_meta m)) (drop (em_offset (ep_meta m)) d)\<rparr> # es))
         else Fail (ErrReader ''EOF''))
      else bind_outcome (read_entries_data d ps) (\<lambda>es. Ret (e # es)))"

definition read_file_group ::
  "log_manager \<Rightarrow> (log_file_desc \<Rightarrow> bytes option) \<Rightarrow> u64 \<Rightarrow> (entry_meta entry_pos \<times> entry) list \<Rightarrow>
   (storage_error, entry list) outcome" where
  "read_file_group m view i ps =
     (case lm_find m i of
        None \<Rightarrow> Fail (ErrReader ''not found log file'')
      | Some d \<Rightarrow>
          (case view (d\<lparr>ld_temp := False\<rparr>) of
             None \<Rightarrow> Fail (ErrReader ''no such file'')
           | Some data \<Rightarrow> read_entries_data data ps))"

text \<open>\<^verbatim>\<open>Manager.ReadEntriesData\<close>: runs of positions in the same file are read together.\<close>

fun read_groups ::
  "log_manager \<Rightarrow> (log_file_desc \<Rightarrow> bytes option) \<Rightarrow> u64 \<Rightarrow> (entry_meta entry_pos \<times> entry) list \<Rightarrow>
   (entry_meta entry_pos \<times> entry) list \<Rightarrow> (storage_error, entry list) outcome" where
  "read_groups m view currFileId pend [] = read_file_group m view currFileId pend"
| "read_groups m view currFileId pend (p # ps) =
     (if currFileId \<noteq> em_file (ep_meta (fst p)) then
        bind_outcome (read_file_group m view currFileId pend) (\<lambda>es.
        bind_outcome (read_groups m view (em_file (ep_meta (fst p))) [p] ps) (\<lambda>es'. Ret (es @ es')))
      else read_groups m view currFileId (pend @ [p]) ps)"

definition lm_read_entries_data ::
  "log_manager \<Rightarrow> (log_file_desc \<Rightarrow> bytes option) \<Rightarrow> entry_meta entry_reader" where
  "lm_read_entries_data m view ms es =
     (if length ms \<noteq> length es \<or> ms = [] then Fail (ErrReader ''invalid size'')
      else read_groups m view (em_file (ep_meta (hd ms))) [] (zip ms es))"

section \<open>A concrete instance of the third-party messages\<close>

text \<open>
  The hypotheses on the third-party code can be met: fixed-width integers for the hard state, and
  self-delimiting lists for the snapshot record.
\<close>

fun put_list :: "u64 list \<Rightarrow> bytes" where
  "put_list [] = [0]"
| "put_list (x # xs) = 1 # put_uint64 x @ put_list xs"

function get_list :: "bytes \<Rightarrow> u64 list \<times> bytes" where
  "get_list d = (if length d < 9 \<or> hd d = 0 then ([], tl d)
                 else let (xs, r) = get_list (drop 9 d) in (get_uint64 (tl d) # xs, r))"
  by auto
termination by (relation "measure length") auto

declare get_list.simps [simp del]

lemma get_put_list: "get_list (put_list xs @ r) = (xs, r)"
proof (induction xs)
  case Nil
  then show ?case by (subst get_list.simps) simp
next
  case (Cons x xs)
  have "drop 9 (1 # put_uint64 x @ put_list xs @ r) = put_list xs @ r" by simp
  moreover have "\<not> length (1 # put_uint64 x @ put_list xs @ r) < 9" by simp
  ultimately show ?case using Cons by (subst get_list.simps) simp
qed

definition put_conf :: "conf_state \<Rightarrow> bytes" where
  "put_conf c = put_list (cs_voters c) @ put_list (cs_learners c) @ put_list (cs_voters_outgoing c) @
     put_list (cs_learners_next c) @ [if cs_auto_leave c then 1 else 0]"

definition get_conf :: "bytes \<Rightarrow> conf_state" where
  "get_conf d =
     (let (a, d1) = get_list d; (b, d2) = get_list d1; (c, d3) = get_list d2; (e, d4) = get_list d3
      in \<lparr>cs_voters = a, cs_learners = b, cs_voters_outgoing = c, cs_learners_next = e,
          cs_auto_leave = (hd d4 = 1)\<rparr>)"

lemma get_put_conf: "get_conf (put_conf c) = c"
  by (cases c) (simp add: put_conf_def get_conf_def get_put_list)

definition sample_pb :: raft_pb where
  "sample_pb =
     \<lparr>pb_hs = (\<lambda>h. put_uint64 (hs_term h) @ put_uint64 (hs_vote h) @ put_uint64 (hs_commit h)),
      pb_hs_un = (\<lambda>d. Ret \<lparr>hs_term = get_uint64 d, hs_vote = get_uint64 (drop 8 d), hs_commit = get_uint64 (drop 16 d)\<rparr>),
      pb_snap = (\<lambda>s. put_uint64 (ws_index s) @ put_uint64 (ws_term s) @
                     (case ws_conf s of None \<Rightarrow> [] | Some c \<Rightarrow> put_conf c)),
      pb_snap_un = (\<lambda>d. Ret \<lparr>ws_index = get_uint64 d, ws_term = get_uint64 (drop 8 d),
                              ws_conf = (if drop 16 d = [] then None else Some (get_conf (drop 16 d)))\<rparr>),
      pb_snap_valid = (\<lambda>s. \<not> (ws_conf s = None \<and> ws_index s \<noteq> 0)),
      raft_is_empty_hs = (\<lambda>h. h = zero_hard_state),
      raft_must_sync = (\<lambda>st prev n. n \<noteq> 0 \<or> hs_vote st \<noteq> hs_vote prev \<or> hs_term st \<noteq> hs_term prev)\<rparr>"

lemma put_conf_nonempty: "put_conf c \<noteq> []"
  by (simp add: put_conf_def)

lemma put_uint64_nonempty [simp]: "put_uint64 v \<noteq> []"
  by (simp add: put_uint64_def)

lemma sample_pb_ok: "raft_pb_ok sample_pb"
proof -
  have "pb_snap_un sample_pb (pb_snap sample_pb s) = Ret s" for s
    by (cases s) (auto simp: sample_pb_def get_put_conf put_conf_nonempty split: option.splits)
  moreover have "pb_hs_un sample_pb (pb_hs sample_pb h) = Ret h" for h
    by (cases h) (simp add: sample_pb_def)
  moreover have "length (pb_hs sample_pb h) \<le> maxLogSize" "pb_hs sample_pb h \<noteq> []" for h
    by (simp_all add: sample_pb_def maxLogSize_def)
  moreover have "pb_snap sample_pb s \<noteq> []" for s by (simp add: sample_pb_def)
  ultimately show ?thesis by (simp add: raft_pb_ok_def) (simp add: sample_pb_def)
qed

section \<open>Purging\<close>

lemma purge_outer_repeats:
  assumes "r = d # ds" and "keep < length r" and "ld_start d < s"
  shows "purge_outer (Suc n) keep s r m dir =
    (m\<lparr>lm_files := filter (\<lambda>x. ld_id x \<noteq> ld_id d) (lm_files m)\<rparr>, dir(d\<lparr>ld_temp := False\<rparr> := None))"
  using assms by (induction n arbitrary: m dir) (simp_all add: comp_def)

lemma purge_outer_keep: "length r \<le> keep \<Longrightarrow> purge_outer n keep s r m dir = (m, dir)"
proof (induction n)
  case (Suc n)
  then show ?case by (cases r) simp_all
qed simp

lemma first_at_least_bound:
  "first_at_least s i r = k \<Longrightarrow> 0 < k \<Longrightarrow> int i \<le> k \<Longrightarrow>
   (\<forall>j. j + i \<le> nat k \<longrightarrow> j < length r \<longrightarrow> ld_start (r ! j) < s) \<and> Suc (nat k) - i < length r"
proof (induction r arbitrary: i)
  case (Cons d ds)
  show ?case
  proof (cases "s \<le> ld_start d")
    case False
    then have k: "first_at_least s (Suc i) ds = k" using Cons.prems by simp
    show ?thesis
    proof (cases "int (Suc i) \<le> k")
      case True
      from Cons.IH [OF k Cons.prems(2) True] show ?thesis
        using False by (auto simp: nth_Cons not_le split: nat.splits)
    next
      case i: False
      then have "k = int i" using Cons.prems(3) by simp
      then have "ds \<noteq> []" using k Cons.prems(2) by (cases ds) auto
      then show ?thesis using False \<open>k = int i\<close> by (cases ds) (auto simp: not_le nth_Cons split: nat.splits)
    qed
  qed (use Cons.prems in auto)
qed simp

text \<open>The closed form: at most the first file of the order goes, and only if the second one is old enough too.\<close>

lemma lm_purge_cases:
  "lm_purge r s m dir = (m, dir) \<or>
   (\<exists>d1 d2 ds. r = d1 # d2 # ds \<and> ld_start d1 < s \<and> ld_start d2 < s \<and> mc_keep (lm_cfg m) < length r \<and>
      lm_purge r s m dir = (m\<lparr>lm_files := filter (\<lambda>x. ld_id x \<noteq> ld_id d1) (lm_files m)\<rparr>, dir(d1\<lparr>ld_temp := False\<rparr> := None)))"
proof -
  let ?k = "first_at_least s 0 r"
  show ?thesis
  proof (cases "0 < ?k \<and> mc_keep (lm_cfg m) < length r")
    case True
    have b: "\<forall>j. j \<le> nat ?k \<longrightarrow> j < length r \<longrightarrow> ld_start (r ! j) < s" "Suc (nat ?k) < length r"
      using first_at_least_bound [of s 0 r ?k] True by auto
    then obtain d1 d2 ds where r: "r = d1 # d2 # ds" using True by (cases r; cases "tl r") auto
    have less: "ld_start d1 < s" "ld_start d2 < s"
      using b(1) [rule_format, of 0] b(1) [rule_format, of 1] True by (auto simp: r)
    obtain n where n: "nat ?k = Suc n" using True by (cases "nat ?k") auto
    have "lm_purge r s m dir = (m\<lparr>lm_files := filter (\<lambda>x. ld_id x \<noteq> ld_id d1) (lm_files m)\<rparr>, dir(d1\<lparr>ld_temp := False\<rparr> := None))"
      using True less purge_outer_repeats [OF r] by (simp add: lm_purge_def Let_def n)
    then show ?thesis using r less True by auto
  next
    case False
    then have "?k \<le> 0 \<or> length r \<le> mc_keep (lm_cfg m)" by auto
    then show ?thesis by (auto simp: lm_purge_def Let_def purge_outer_keep)
  qed
qed

text \<open>
  Purging is limited: whatever order the sort gives to files with equal start indices, one call
  of \<^verbatim>\<open>Purge\<close> removes at most one file, one with the smallest start index, and only when more than
  \<^verbatim>\<open>MaxKeepLogFiles\<close> files exist and another file, which stays, also starts before the snapshot.
  (The loop asks for up to \<^verbatim>\<open>smaller\<close> files, but looks at the same descriptor each time.)
\<close>

theorem purge_removes_only_oldest:
  assumes "purge_order m r" and "distinct (map ld_id (lm_files m))"
  shows "lm_purge r s m dir = (m, dir) \<or>
    (\<exists>d1 d2. d1 \<in> set (lm_files m) \<and> d2 \<in> set (lm_files (fst (lm_purge r s m dir))) \<and>
       (\<forall>d\<in>set (lm_files m). ld_start d1 \<le> ld_start d \<and> (d \<noteq> d1 \<longrightarrow> ld_start d2 \<le> ld_start d)) \<and>
       ld_start d1 < s \<and> ld_start d2 < s \<and> mc_keep (lm_cfg m) < length (lm_files m) \<and>
       set (lm_files (fst (lm_purge r s m dir))) = set (lm_files m) - {d1} \<and>
       snd (lm_purge r s m dir) = dir(d1\<lparr>ld_temp := False\<rparr> := None))"
proof (cases "lm_purge r s m dir = (m, dir)")
  case False
  then obtain d1 d2 ds where r: "r = d1 # d2 # ds"
    and less: "ld_start d1 < s" "ld_start d2 < s" "mc_keep (lm_cfg m) < length r"
    and p: "lm_purge r s m dir = (m\<lparr>lm_files := filter (\<lambda>x. ld_id x \<noteq> ld_id d1) (lm_files m)\<rparr>, dir(d1\<lparr>ld_temp := False\<rparr> := None))"
    using lm_purge_cases [of r s m dir] by auto
  have set: "set (lm_files m) = set (d1 # d2 # ds)" and len: "length (lm_files m) = length r"
    and sorted: "sorted (map ld_start (d1 # d2 # ds))"
    using assms(1) by (auto simp: purge_order_def r)
  have inj: "inj_on ld_id (set (lm_files m))" and dist: "distinct (lm_files m)"
    using assms(2) by (simp_all add: distinct_map)
  have "card (set (d1 # d2 # ds)) = length (d1 # d2 # ds)"
    using distinct_card [OF dist] by (simp only: set len r)
  then have "d1 \<noteq> d2" using card_distinct [of "d1 # d2 # ds"] by auto
  then have "ld_id d1 \<noteq> ld_id d2" using inj set by (auto simp: inj_on_def)
  moreover have "set (filter (\<lambda>x. ld_id x \<noteq> ld_id d1) (lm_files m)) = set (lm_files m) - {d1}"
    using inj set by (auto simp: inj_on_def)
  moreover have "\<forall>d\<in>set (lm_files m). ld_start d1 \<le> ld_start d \<and> (d \<noteq> d1 \<longrightarrow> ld_start d2 \<le> ld_start d)"
    using sorted set by auto
  ultimately show ?thesis using p less set len by auto
qed simp

definition sample_manager :: log_manager where
  "sample_manager =
     \<lparr>lm_cfg = \<lparr>mc_chunk = 1000, mc_page = 8, mc_buf = 64, mc_keep = 1\<rparr>,
      lm_files = [\<lparr>ld_id = 1, ld_start = 5, ld_temp = False\<rparr>, \<lparr>ld_id = 2, ld_start = 5, ld_temp = False\<rparr>,
                  \<lparr>ld_id = 3, ld_start = 10, ld_temp = False\<rparr>],
      lm_next = 4\<rparr>"

definition sample_order :: "log_file_desc list" where
  "sample_order = [\<lparr>ld_id = 2, ld_start = 5, ld_temp = False\<rparr>, \<lparr>ld_id = 1, ld_start = 5, ld_temp = False\<rparr>,
     \<lparr>ld_id = 3, ld_start = 10, ld_temp = False\<rparr>]"

lemma sample_order_ok:
  "purge_order sample_manager sample_order" "distinct (map ld_id (lm_files sample_manager))"
  by (auto simp: purge_order_def sample_manager_def sample_order_def word_le_nat_alt)

lemma sample_purge:
  "map ld_id (lm_files (fst (lm_purge sample_order 7 sample_manager Map.empty))) = [1, 3]"
  by code_simp

theorem purge_removes_only_oldest_witness:
  "map ld_id (lm_files (fst (lm_purge sample_order 7 sample_manager Map.empty))) = [1, 3] \<and>
   (lm_purge sample_order 7 sample_manager Map.empty = (sample_manager, Map.empty) \<or>
    (\<exists>d1 d2. d1 \<in> set (lm_files sample_manager) \<and> d2 \<in> set (lm_files (fst (lm_purge sample_order 7 sample_manager Map.empty))) \<and>
       ld_start d1 < 7 \<and> ld_start d2 < 7 \<and>
       set (lm_files (fst (lm_purge sample_order 7 sample_manager Map.empty))) = set (lm_files sample_manager) - {d1}))"
  using purge_removes_only_oldest [OF sample_order_ok, of 7 Map.empty] sample_purge by blast

text \<open>
  \<^verbatim>\<open>Purge\<close> can make the log unreadable: when two files have the same start index (a file that
  was cycled without a new entry in it), the sort may put the younger one first. Purging then
  leaves a hole in the ids, and a restart from the same snapshot, which could read the files
  before, fails with the discontinuity error.
\<close>

theorem purge_can_break_restart:
  "purge_order sample_manager sample_order \<and>
   (\<exists>fs. read_valid_log_files (lm_files sample_manager) 7 = Ret fs) \<and>
   read_valid_log_files (lm_files (fst (lm_purge sample_order 7 sample_manager Map.empty))) 7 = Fail (WDiscontinuous 2 1)"
proof -
  have "lm_files (fst (lm_purge sample_order 7 sample_manager Map.empty)) =
      [\<lparr>ld_id = 1, ld_start = 5, ld_temp = False\<rparr>, \<lparr>ld_id = 3, ld_start = 10, ld_temp = False\<rparr>]"
    by code_simp
  moreover have "read_valid_log_files [\<lparr>ld_id = 1, ld_start = 5, ld_temp = False\<rparr>, \<lparr>ld_id = 3, ld_start = 10, ld_temp = False\<rparr>] 7 =
      Fail (WDiscontinuous 2 1)"
    by code_simp
  moreover have "read_valid_log_files (lm_files sample_manager) 7 =
      Ret [\<lparr>ld_id = 2, ld_start = 5, ld_temp = False\<rparr>, \<lparr>ld_id = 3, ld_start = 10, ld_temp = False\<rparr>]"
    by code_simp
  ultimately show ?thesis using sample_order_ok(1) by auto
qed

section \<open>Appending to a log file\<close>

text \<open>Behind the write position a file holds zeros only, and none past the segment size.\<close>

definition zero_tail :: "nat \<Rightarrow> os_file \<Rightarrow> bool" where
  "zero_tail seg f \<longleftrightarrow>
     drop (fl_pos f) (fl_data f) = replicate (length (fl_data f) - fl_pos f) 0 \<and> length (fl_data f) \<le> max seg (fl_pos f)"

definition lf_ok :: "log_file \<Rightarrow> bool" where
  "lf_ok lf \<longleftrightarrow> pw_ok (lf_pw lf) \<and> zero_tail (segmentSize (lf_pw lf)) (pw_file (lf_pw lf))"

definition lf_stream :: "log_file \<Rightarrow> bytes" where
  "lf_stream lf = pw_stream (lf_pw lf)"

lemma zero_tail_write:
  assumes "zero_tail seg f" and "fl_pos f \<le> length (fl_data f)"
  shows "zero_tail seg (os_write f d)"
proof -
  have "drop (fl_pos f + length d) (fl_data f) = drop (length d) (drop (fl_pos f) (fl_data f))"
    by (simp add: add.commute)
  also have "\<dots> = replicate (length (fl_data f) - fl_pos f - length d) 0"
    using assms(1) by (simp add: zero_tail_def)
  finally show ?thesis using assms by (auto simp: zero_tail_def os_write_def)
qed

text \<open>The writer touches its file only by appending at the write position.\<close>

definition grows :: "os_file \<Rightarrow> os_file \<Rightarrow> bool" where
  "grows f f' \<longleftrightarrow> (\<forall>seg. fl_pos f \<le> length (fl_data f) \<longrightarrow> zero_tail seg f \<longrightarrow>
     zero_tail seg f' \<and> fl_pos f' \<le> length (fl_data f'))"

lemma grows_refl: "grows f f"
  by (simp add: grows_def)

lemma grows_trans: "grows f g \<Longrightarrow> grows g h \<Longrightarrow> grows f h"
  unfolding grows_def by blast

lemma grows_write: "grows f (os_write f d)"
  by (simp add: grows_def zero_tail_write os_write_prefix(3))

lemma pw_copy_grows: "pw_copy p d = Ret p' \<Longrightarrow> pw_file p' = pw_file p \<and> segmentSize p' = segmentSize p"
  by (auto simp: pw_copy_def Let_def split: if_splits)

lemma pw_flush_grows: "pw_flush p = Ret p' \<Longrightarrow> grows (pw_file p) (pw_file p') \<and> segmentSize p' = segmentSize p"
  by (auto simp: pw_flush_def grows_write split: if_splits)

lemma pw_write_pages_grows:
  "pw_write_pages p d n = Ret p' \<Longrightarrow> grows (pw_file p) (pw_file p') \<and> segmentSize p' = segmentSize p"
  by (auto simp: pw_write_pages_def Let_def bind_outcome_Ret_iff grows_write grows_refl
      dest!: pw_copy_grows split: if_splits)

lemma pw_write_grows:
  assumes "pw_write p d = Ret p'"
  shows "grows (pw_file p) (pw_file p') \<and> segmentSize p' = segmentSize p"
  using assms
  by (auto simp: pw_write_def Let_def bind_outcome_Ret_iff grows_refl
      dest!: pw_copy_grows pw_flush_grows pw_write_pages_grows intro: grows_trans split: if_splits)

lemma grows_zero_tail: "grows f f' \<Longrightarrow> fl_pos f \<le> length (fl_data f) \<Longrightarrow> zero_tail seg f \<Longrightarrow> zero_tail seg f'"
  by (simp add: grows_def)

lemma lf_offset_stream: "lf_ok lf \<Longrightarrow> lf_offset lf = length (lf_stream lf)"
  by (simp add: lf_ok_def lf_offset_def lf_stream_def pw_stream_length)

lemma lf_ok_parts:
  assumes "lf_ok lf"
  shows "pw_ok (lf_pw lf)" "zero_tail (segmentSize (lf_pw lf)) (pw_file (lf_pw lf))"
    "fl_pos (pw_file (lf_pw lf)) \<le> length (fl_data (pw_file (lf_pw lf)))"
proof -
  show "pw_ok (lf_pw lf)" "zero_tail (segmentSize (lf_pw lf)) (pw_file (lf_pw lf))"
    using assms by (simp_all add: lf_ok_def)
  then show "fl_pos (pw_file (lf_pw lf)) \<le> length (fl_data (pw_file (lf_pw lf)))" by (simp add: pw_ok_def)
qed

lemma lf_put_ok:
  assumes ok: "lf_ok lf" and b: "length (body_bytes b) \<le> maxLogSize" "buffers_for acq (length (body_bytes b))"
  shows "\<exists>lf'. lf_put acq t (length (body_bytes b)) b lf = (Ret (), lf') \<and> lf_ok lf' \<and>
     lf_stream lf' = lf_stream lf @ frame_bytes t (body_bytes b) (body_crc b (lf_enc_crc lf)) \<and>
     lf_enc_crc lf' = body_crc b (lf_enc_crc lf) \<and> segmentSize (lf_pw lf') = segmentSize (lf_pw lf)"
proof -
  let ?d = "frame_bytes t (body_bytes b) (body_crc b (lf_enc_crc lf))"
  note pw = lf_ok_parts [OF ok]
  obtain p where p: "pw_write (lf_pw lf) ?d = Ret p" "pw_ok p" "pw_stream p = pw_stream (lf_pw lf) @ ?d"
    using pw_write_ok [OF pw(1), of ?d] by auto
  have "zero_tail (segmentSize p) (pw_file p)" "segmentSize p = segmentSize (lf_pw lf)"
    using pw_write_grows [OF p(1)] grows_zero_tail pw(2,3) by auto
  then show ?thesis
    using p encode_frame [OF b, of "lf_enc_crc lf" t] by (simp add: lf_put_def lf_ok_def lf_stream_def)
qed

lemma take_eq_length_append: "take n xs = ys \<Longrightarrow> n \<le> length xs \<Longrightarrow> xs = ys @ drop n xs"
  by (metis append_take_drop_id)

lemma lf_sync_ok:
  assumes ok: "lf_ok lf"
  shows "\<exists>lf' n. lf_sync b lf = (Ret (), lf') \<and> lf_ok lf' \<and> lf_stream lf' = lf_stream lf \<and>
     lf_enc_crc lf' = lf_enc_crc lf \<and> segmentSize (lf_pw lf') = segmentSize (lf_pw lf) \<and>
     fl_data (pw_file (lf_pw lf')) = lf_stream lf @ replicate n 0 \<and>
     fl_pos (pw_file (lf_pw lf')) = length (lf_stream lf) \<and>
     (segmentSize (lf_pw lf) < lf_offset lf \<longrightarrow> n = 0) \<and>
     (b \<longrightarrow> fl_synced (pw_file (lf_pw lf')) = fl_data (pw_file (lf_pw lf')))"
proof -
  note pw = lf_ok_parts [OF ok]
  obtain p where p: "pw_sync b (lf_pw lf) = Ret p" "pw_ok p" "pw_stream p = pw_stream (lf_pw lf)"
    "take (fl_pos (pw_file p)) (fl_data (pw_file p)) = pw_stream (lf_pw lf)" "segmentSize p = segmentSize (lf_pw lf)"
    using pw_sync_ok [OF pw(1), of b] by auto
  obtain p1 where p1: "pw_flush (lf_pw lf) = Ret p1" "p = (if b then p1\<lparr>pw_file := os_datasync (pw_file p1)\<rparr> else p1)"
    using p(1) by (auto simp: pw_sync_def bind_outcome_Ret_iff)
  have "zero_tail (segmentSize p) (pw_file p1)"
    using pw_flush_grows [OF p1(1)] grows_zero_tail pw(2,3) p(5) by auto
  then have z: "zero_tail (segmentSize p) (pw_file p)" using p1(2) by (cases b) (simp_all add: zero_tail_def os_datasync_def)
  have len: "fl_pos (pw_file p) \<le> length (fl_data (pw_file p))" using p(2) by (simp add: pw_ok_def)
  then have pos: "fl_pos (pw_file p) = length (lf_stream lf)" using arg_cong [OF p(4), of length] by (simp add: lf_stream_def)
  let ?n = "length (fl_data (pw_file p)) - fl_pos (pw_file p)"
  have "fl_data (pw_file p) = lf_stream lf @ replicate ?n 0"
    using take_eq_length_append [OF p(4) len] z by (simp add: zero_tail_def lf_stream_def)
  moreover have "segmentSize (lf_pw lf) < lf_offset lf \<longrightarrow> ?n = 0"
    using z p(5) pos lf_offset_stream [OF ok] by (auto simp: zero_tail_def)
  moreover have "b \<longrightarrow> fl_synced (pw_file p) = fl_data (pw_file p)" using p1(2) by (simp add: os_datasync_def)
  ultimately show ?thesis
    using p z pos by (intro exI [of _ "lf\<lparr>lf_pw := p\<rparr>"] exI [of _ ?n]) (simp add: lf_sync_def lf_ok_def lf_stream_def)
qed

text \<open>Opening and creating files.\<close>

lemma lf_ok_create:
  assumes "0 < mc_page cfg" and "mc_page cfg \<le> mc_buf cfg" and "fl_pos f \<le> length (fl_data f)"
    and "drop (fl_pos f) (fl_data f) = replicate n 0" and "n = 0 \<or> length (fl_data f) \<le> mc_chunk cfg"
  shows "lf_ok \<lparr>lf_pw = create_writer (mc_chunk cfg) (mc_page cfg) (mc_buf cfg) f, lf_enc_crc = c\<rparr> \<and>
    lf_stream \<lparr>lf_pw = create_writer (mc_chunk cfg) (mc_page cfg) (mc_buf cfg) f, lf_enc_crc = c\<rparr> = take (fl_pos f) (fl_data f)"
proof -
  have "length (fl_data f) - fl_pos f = n" using arg_cong [OF assms(4), of length] by simp
  then have "zero_tail (mc_chunk cfg) f" using assms(3-5) by (auto simp: zero_tail_def)
  then show ?thesis
    using create_writer_ok [OF assms(1-3), of "mc_chunk cfg"]
    by (simp add: lf_ok_def lf_stream_def) (simp add: create_writer_def)
qed

lemma create_handle:
  "fl_data (create_log_file_handle n) =
     logFileMagicHeader @ put_uint64 logFileVersion @ replicate (n - LogFileHeaderLength) 0"
  "fl_pos (create_log_file_handle n) = LogFileHeaderLength"
  by (simp_all add: create_log_file_handle_def os_write_def LogFileHeaderLength_def)

end
