(* ===== verification/Wal_Replay.thy ===== *)
theory Wal_Replay
  imports Wal_File
begin

unbundle bit_operations_syntax

text \<open>
  Reading the WAL back: \<^verbatim>\<open>player/parser.go\<close>, \<^verbatim>\<open>player/replay.go\<close>, \<^verbatim>\<open>player/replayResult.go\<close> and
  the entry collections of \<^verbatim>\<open>entrycollection\<close>. The parser checks the running checksum of every
  record and folds it into the replay result; the player runs it over the files and repairs a torn
  tail once. The theory shows that parsing what the encoder wrote replays exactly the records
  written, and that damage to a record's bytes is detected.
\<close>

section \<open>Replay results\<close>

datatype entry_coll =
    NopEntryStore
  | EntryStore "entry list"
  | IndexedEntryStore "entry_meta entry_pos list"

record replay_result =
  rr_metadata :: bytes
  rr_hardState :: hard_state
  rr_nextEntry :: wal_next_entry
  rr_walSnapshots :: "wal_snapshot list"
  rr_lastLogFileDesc :: log_file_desc
  rr_lastValidLogOffset :: nat
  rr_lastValidLogCrc :: u32
  rr_entries :: entry_coll

definition new_replay_result :: "entry_coll \<Rightarrow> replay_result" where
  "new_replay_result c =
     \<lparr>rr_metadata = [], rr_hardState = zero_hard_state, rr_nextEntry = \<lparr>nextTerm = 0, nextIndex = 0\<rparr>,
      rr_walSnapshots = [], rr_lastLogFileDesc = \<lparr>ld_id = 0, ld_start = 0, ld_temp = False\<rparr>,
      rr_lastValidLogOffset = 0, rr_lastValidLogCrc = 0, rr_entries = c\<rparr>"

fun clear_entries :: "entry_coll \<Rightarrow> entry_coll" where
  "clear_entries NopEntryStore = NopEntryStore"
| "clear_entries (EntryStore es) = EntryStore []"
| "clear_entries (IndexedEntryStore es) = IndexedEntryStore []"

definition rr_reset :: "replay_result \<Rightarrow> replay_result" where
  "rr_reset r = new_replay_result (clear_entries (rr_entries r))"

fun match_snapshot :: "wal_snapshot list \<Rightarrow> wal_snapshot \<Rightarrow> (wal_error, unit) outcome" where
  "match_snapshot [] start = Fail WSnapshotNotFound"
| "match_snapshot (s # ss) start =
     (if ws_index start = ws_index s then
        (if ws_term start \<noteq> ws_term s then Fail WSnapshotMismatch else Ret ())
      else match_snapshot ss start)"

section \<open>Entry collections\<close>

definition entry_type_of :: "u32 \<Rightarrow> entry_type" where
  "entry_type_of t = (if t = LogTypeConfChangeEntry then EntryConfChange
                      else if t = LogTypeConfChangeV2Entry then EntryConfChangeV2 else EntryNormal)"

text \<open>
  The slot of the entry with index \<^verbatim>\<open>i\<close>: an entry at or below the snapshot is skipped, a gap is an
  error, and an entry that is already there is replaced together with everything after it.
\<close>

definition coll_put :: "u64 \<Rightarrow> u64 \<Rightarrow> 'x \<Rightarrow> 'x list \<Rightarrow> (wal_error, 'x list) outcome" where
  "coll_put snapshotIndex i x xs =
     (if snapshotIndex < i then
        (let up = i - snapshotIndex - 1
         in if length xs < unat up then Fail WEntryGap else Ret (take (unat up) xs @ [x]))
      else Ret xs)"

definition coll_decode ::
  "u64 \<Rightarrow> u64 \<Rightarrow> u32 \<Rightarrow> bytes \<Rightarrow> nat \<Rightarrow> replay_result \<Rightarrow> (wal_error, replay_result) outcome" where
  "coll_decode fileId snapshotIndex logType logBuf cap r =
     (let ne = rr_nextEntry r;
          set_next = (\<lambda>c. r\<lparr>rr_entries := c, rr_nextEntry := ne\<lparr>nextIndex := nextIndex ne + 1\<rparr>\<rparr>)
      in case rr_entries r of
           NopEntryStore \<Rightarrow> Fail WNotImplemented
         | EntryStore es \<Rightarrow>
             bind_outcome
               (coll_put snapshotIndex (nextIndex ne)
                  \<lparr>ent_term = nextTerm ne, ent_index = nextIndex ne, ent_type = entry_type_of logType,
                   ent_data = logBuf\<rparr> es)
               (\<lambda>es'. Ret (set_next (EntryStore es')))
         | IndexedEntryStore es \<Rightarrow>
             bind_outcome
               (coll_put snapshotIndex (nextIndex ne)
                  \<lparr>ep_term = nextTerm ne, ep_index = nextIndex ne, ep_type = entry_type_of logType,
                   ep_meta = \<lparr>em_file = fileId, em_offset = rr_lastValidLogOffset r + HeaderSize,
                              em_len = length logBuf, em_cap = cap\<rparr>\<rparr> es)
               (\<lambda>es'. Ret (set_next (IndexedEntryStore es'))))"

fun first_uncommitted_pos :: "u64 \<Rightarrow> nat \<Rightarrow> 'm entry_pos list \<Rightarrow> nat" where
  "first_uncommitted_pos commitIndex i [] = 0"
| "first_uncommitted_pos commitIndex i (e # es) =
     (if commitIndex < ep_index e then i else first_uncommitted_pos commitIndex (Suc i) es)"

fun coll_delete_uncommitted :: "u64 \<Rightarrow> entry_coll \<Rightarrow> (wal_error, entry_coll) outcome" where
  "coll_delete_uncommitted c NopEntryStore = Fail WNotImplemented"
| "coll_delete_uncommitted c (EntryStore es) = Ret (EntryStore (delete_uncommitted c es))"
| "coll_delete_uncommitted c (IndexedEntryStore es) =
     (let deleteFrom = first_uncommitted_pos c 0 es
      in Ret (IndexedEntryStore (if deleteFrom \<noteq> 0 then take deleteFrom es else es)))"

fun coll_visit ::
  "entry_meta entry_reader option \<Rightarrow> entry_type \<Rightarrow> (entry \<Rightarrow> (wal_error, unit) outcome) \<Rightarrow> entry_coll \<Rightarrow>
   (wal_error, unit) outcome" where
  "coll_visit reader t v NopEntryStore = Fail WNotImplemented"
| "coll_visit reader t v (EntryStore es) = visit_all v (filter (\<lambda>e. ent_type e = t) es)"
| "coll_visit reader t v (IndexedEntryStore es) =
     (case reader of
        None \<Rightarrow> Fail WReaderNil
      | Some rd \<Rightarrow>
          (let ms = filter (\<lambda>e. ep_type e = t) es
           in if ms = [] then Ret ()
              else case rd ms (map copy_ent ms) of
                     Ret ents \<Rightarrow> visit_all v ents
                   | Fail e \<Rightarrow> Fail (WStorage e)
                   | Panic \<Rightarrow> Panic))"

section \<open>Parser\<close>

record parse_state =
  ps_result :: replay_result
  ps_findNextEntry :: bool

definition is_nop :: "entry_coll \<Rightarrow> bool" where
  "is_nop c \<longleftrightarrow> c = NopEntryStore"

definition pb_error_of :: "pb_error \<Rightarrow> wal_error" where
  "pb_error_of e = (if e = PbUnexpectedEOF then WIo UnexpectedEOF else WUnmarshal)"

definition advance :: "nat \<Rightarrow> replay_result \<Rightarrow> replay_result" where
  "advance n r = r\<lparr>rr_lastValidLogOffset := rr_lastValidLogOffset r + n\<rparr>"

text \<open>
  The switch of \<^verbatim>\<open>logHandler\<close>, after the checksum has been accepted.
\<close>

definition handle_record ::
  "raft_pb \<Rightarrow> u64 \<Rightarrow> frame \<Rightarrow> parse_state \<Rightarrow> (wal_error, parse_state) outcome" where
  "handle_record pb snapIndex fr s =
     (let r = ps_result s; t = fr_type fr; b = fr_body fr
      in if t = LogTypeNextEntry then
           (case next_entry_unmarshal \<lparr>nextTerm = 0, nextIndex = 0\<rparr> b of
              Ret ne \<Rightarrow> Ret \<lparr>ps_result = r\<lparr>rr_nextEntry := ne\<rparr>, ps_findNextEntry = True\<rparr>
            | Fail e \<Rightarrow> Fail (pb_error_of e)
            | Panic \<Rightarrow> Panic)
         else if t = LogTypeNormalEntry \<or> t = LogTypeConfChangeEntry \<or> t = LogTypeConfChangeV2Entry then
           (if is_nop (rr_entries r) then Ret s
            else if ps_findNextEntry s then
              bind_outcome (coll_decode (ld_id (rr_lastLogFileDesc r)) snapIndex t b (fr_size fr - HeaderSize) r)
                (\<lambda>r'. Ret (s\<lparr>ps_result := r'\<rparr>))
            else Fail WNotFoundNextEntry)
         else if t = LogTypeMetadata then Ret (s\<lparr>ps_result := r\<lparr>rr_metadata := b\<rparr>\<rparr>)
         else if t = LogTypeHardState then
           (case pb_hs_un pb b of
              Ret h \<Rightarrow> Ret (s\<lparr>ps_result := r\<lparr>rr_hardState := h\<rparr>\<rparr>)
            | Fail e \<Rightarrow> Fail (pb_error_of e)
            | Panic \<Rightarrow> Panic)
         else if t = LogTypeSnapshot then
           (case pb_snap_un pb b of
              Ret w \<Rightarrow> Ret (s\<lparr>ps_result := r\<lparr>rr_walSnapshots := rr_walSnapshots r @ [w]\<rparr>\<rparr>)
            | Fail e \<Rightarrow> Fail (pb_error_of e)
            | Panic \<Rightarrow> Panic)
         else Fail WNotSupported)"

definition log_handler ::
  "raft_pb \<Rightarrow> u64 \<Rightarrow> frame \<Rightarrow> parse_state \<Rightarrow> (wal_error, unit) outcome \<times> parse_state" where
  "log_handler pb snapIndex fr s =
     (if fr_type fr = LogTypeCrc then
        (if length (fr_body fr) < 4 then (Panic, s)
         else
           let c = get_uint32 (fr_body fr);
               r = (ps_result s)\<lparr>rr_lastValidLogCrc := c\<rparr>
           in if c \<noteq> fr_crc fr then (Fail WCrcMismatchForCrc, s\<lparr>ps_result := r\<rparr>)
              else (Ret (), s\<lparr>ps_result := advance (fr_size fr) r\<rparr>))
      else
        let c = crc32_update (rr_lastValidLogCrc (ps_result s)) (fr_body fr);
            s1 = s\<lparr>ps_result := (ps_result s)\<lparr>rr_lastValidLogCrc := c\<rparr>\<rparr>
        in if c \<noteq> fr_crc fr then (Fail WCrcMismatchForOthers, s1)
           else case handle_record pb snapIndex fr s1 of
                  Ret s2 \<Rightarrow> (Ret (), s2\<lparr>ps_result := advance (fr_size fr) (ps_result s2)\<rparr>)
                | Fail e \<Rightarrow> (Fail e, s1)
                | Panic \<Rightarrow> (Panic, s1))"

lemma read_full_shrinks: "read_full n r = Ret (b, r') \<Longrightarrow> length r' + n = length r \<and> length b = n"
  by (auto simp: read_full_def split: if_splits)

lemma decode_consumes:
  assumes "decode acq r = Ret (fr, r')"
  shows "length r' < length r"
proof -
  obtain hb r1 where h: "read_full HeaderSize r = Ret (hb, r1)"
    using assms by (auto simp: decode_def bind_outcome_Ret_iff)
  then have "length r1 < length r" using read_full_shrinks [OF h] by (simp add: HeaderSize_def)
  moreover have "length r' \<le> length r1"
    using assms h
    by (auto simp: decode_def Let_def dest!: read_full_shrinks split: if_splits outcome.splits)
  ultimately show ?thesis by simp
qed

text \<open>\<^verbatim>\<open>Parse\<close> loops until \<^verbatim>\<open>Decode\<close> or the handler returns an error; the end of the log is \<^verbatim>\<open>EOF\<close>.\<close>

function parse_loop ::
  "acquirer \<Rightarrow> raft_pb \<Rightarrow> u64 \<Rightarrow> bytes \<Rightarrow> parse_state \<Rightarrow> (wal_error, unit) outcome \<times> parse_state" where
  "parse_loop acq pb snapIndex d s =
     (case decode acq d of
        Fail e \<Rightarrow> (Fail (WIo e), s)
      | Panic \<Rightarrow> (Panic, s)
      | Ret (fr, d') \<Rightarrow>
          (case log_handler pb snapIndex fr s of
             (Ret _, s') \<Rightarrow> parse_loop acq pb snapIndex d' s'
           | (Fail e, s') \<Rightarrow> (Fail e, s')
           | (Panic, s') \<Rightarrow> (Panic, s')))"
  by pat_completeness auto
termination
  by (relation "measure (\<lambda>(acq, pb, i, d, s). length d)") (auto dest: decode_consumes)

declare parse_loop.simps [simp del]

definition parse_file ::
  "acquirer \<Rightarrow> raft_pb \<Rightarrow> u64 \<Rightarrow> log_file_desc \<Rightarrow> bytes \<Rightarrow> replay_result \<Rightarrow>
   (wal_error, unit) outcome \<times> replay_result" where
  "parse_file acq pb snapIndex desc d r =
     (let s = \<lparr>ps_result = r\<lparr>rr_lastLogFileDesc := desc, rr_lastValidLogOffset := LogFileHeaderLength\<rparr>,
               ps_findNextEntry = False\<rparr>;
          (res, s') = parse_loop acq pb snapIndex d s
      in (res, ps_result s'))"

section \<open>Player\<close>

fun replay_files ::
  "acquirer \<Rightarrow> raft_pb \<Rightarrow> u64 \<Rightarrow> wal_dir \<Rightarrow> log_file_desc list \<Rightarrow> replay_result \<Rightarrow>
   (log_file_desc \<times> wal_error, unit) outcome \<times> replay_result" where
  "replay_files acq pb snapIndex dir [] r = (Ret (), r)"
| "replay_files acq pb snapIndex dir (d # ds) r =
     (case dir d of
        None \<Rightarrow> (Fail (d, WNotFoundFile (ld_id d)), r)
      | Some f \<Rightarrow>
          (case open_log_file_handle f of
             Fail e \<Rightarrow> (Fail (d, e), r)
           | Panic \<Rightarrow> (Panic, r)
           | Ret h \<Rightarrow>
               (case parse_file acq pb snapIndex d (drop (fl_pos h) (fl_data h)) r of
                  (Fail e, r') \<Rightarrow>
                    (if e = WIo EOF then replay_files acq pb snapIndex dir ds r' else (Fail (d, e), r'))
                | (Ret _, r') \<Rightarrow> (Ret (), r')
                | (Panic, r') \<Rightarrow> (Panic, r'))))"

definition repair_log_file :: "log_file_desc \<Rightarrow> nat \<Rightarrow> wal_dir \<Rightarrow> (wal_error, wal_dir) outcome" where
  "repair_log_file d lastValidOffset dir =
     (case dir d of
        None \<Rightarrow> Fail (WNotFoundFile (ld_id d))
      | Some f \<Rightarrow>
          bind_outcome (open_log_file_handle f) (\<lambda>_.
            let f' = os_truncate f lastValidOffset in Ret (dir(d \<mapsto> f'\<lparr>fl_synced := fl_data f'\<rparr>))))"

definition player_replay ::
  "acquirer \<Rightarrow> raft_pb \<Rightarrow> u64 \<Rightarrow> log_file_desc list \<Rightarrow> bool \<Rightarrow> wal_dir \<Rightarrow> replay_result \<Rightarrow>
   (wal_error, unit) outcome \<times> wal_dir \<times> replay_result" where
  "player_replay acq pb snapIndex logFiles repair dir r =
     (case replay_files acq pb snapIndex dir logFiles r of
        (Ret _, r1) \<Rightarrow> (Ret (), dir, r1)
      | (Panic, r1) \<Rightarrow> (Panic, dir, r1)
      | (Fail (d, e), r1) \<Rightarrow>
          (if \<not> repair \<or> (e \<noteq> WIo UnexpectedEOF \<and> e \<noteq> WCrcMismatchForOthers) then (Fail e, dir, r1)
           else if ld_id d \<noteq> ld_id (last logFiles) then (Fail WNotMaximumRepairedFile, dir, r1)
           else case repair_log_file (last logFiles) (rr_lastValidLogOffset r1) dir of
                  Fail e' \<Rightarrow> (Fail e', dir, r1)
                | Panic \<Rightarrow> (Panic, dir, r1)
                | Ret dir' \<Rightarrow>
                    (case replay_files acq pb snapIndex dir' logFiles (rr_reset r1) of
                       (Ret _, r2) \<Rightarrow> (Ret (), dir', r2)
                     | (Panic, r2) \<Rightarrow> (Panic, dir', r2)
                     | (Fail (d2, e2), r2) \<Rightarrow> (Fail e2, dir', r2))))"

section \<open>Reading back what was written\<close>

text \<open>
  \<^verbatim>\<open>reads_to d s s'\<close>: whatever follows, parsing the bytes \<^verbatim>\<open>d\<close> takes the parser from \<^verbatim>\<open>s\<close> to \<^verbatim>\<open>s'\<close>.
\<close>

definition reads_to ::
  "acquirer \<Rightarrow> raft_pb \<Rightarrow> u64 \<Rightarrow> bytes \<Rightarrow> parse_state \<Rightarrow> parse_state \<Rightarrow> bool" where
  "reads_to acq pb i d s s' \<longleftrightarrow>
     (\<forall>rest. parse_loop acq pb i (d @ rest) s = parse_loop acq pb i rest s')"

lemma reads_to_Nil [simp]: "reads_to acq pb i [] s s"
  by (simp add: reads_to_def)

lemma reads_to_append:
  "reads_to acq pb i d s s1 \<Longrightarrow> reads_to acq pb i d' s1 s2 \<Longrightarrow> reads_to acq pb i (d @ d') s s2"
  by (simp add: reads_to_def)

text \<open>A log that ends, in a file that ends or continues with preallocated zeros.\<close>

definition log_end :: "bytes \<Rightarrow> bool" where
  "log_end d \<longleftrightarrow> d = [] \<or> (8 \<le> length d \<and> take 8 d = replicate 8 0)"

lemma parse_log_end:
  assumes "log_end d"
  shows "parse_loop acq pb i d s = (Fail (WIo EOF), s)"
proof -
  have "decode acq d = Fail EOF"
  proof (cases "d = []")
    case True
    then show ?thesis by (simp add: decode_def read_full_def HeaderSize_def)
  next
    case False
    then have "d = replicate 8 0 @ drop 8 d" using assms by (metis append_take_drop_id log_end_def)
    then show ?thesis using decode_zeros [of acq "drop 8 d"] by simp
  qed
  then show ?thesis by (simp add: parse_loop.simps)
qed

lemma reads_to_end:
  "reads_to acq pb i d s s' \<Longrightarrow> log_end rest \<Longrightarrow> parse_loop acq pb i (d @ rest) s = (Fail (WIo EOF), s')"
  by (simp add: reads_to_def parse_log_end)

text \<open>One record.\<close>

definition rec_ok :: "acquirer \<Rightarrow> u32 \<Rightarrow> u32 \<Rightarrow> log_body \<Rightarrow> bool" where
  "rec_ok acq c t b \<longleftrightarrow> t < 32 \<and> length (body_bytes b) \<le> maxLogSize \<and> buffers_for acq (length (body_bytes b)) \<and>
     (body_bytes b \<noteq> [] \<or> body_crc b c \<noteq> 0)"

definition rec_frame :: "u32 \<Rightarrow> u32 \<Rightarrow> log_body \<Rightarrow> frame" where
  "rec_frame c t b = \<lparr>fr_type = t, fr_body = body_bytes b,
     fr_size = length (frame_bytes t (body_bytes b) (body_crc b c)), fr_crc = body_crc b c\<rparr>"

definition rec_bytes :: "u32 \<Rightarrow> u32 \<Rightarrow> log_body \<Rightarrow> bytes" where
  "rec_bytes c t b = frame_bytes t (body_bytes b) (body_crc b c)"

lemma reads_to_record:
  assumes "rec_ok acq c t b" and "log_handler pb i (rec_frame c t b) s = (Ret (), s')"
  shows "reads_to acq pb i (rec_bytes c t b) s s'"
  unfolding reads_to_def
proof
  fix rest
  have "decode acq (rec_bytes c t b @ rest) = Ret (rec_frame c t b, rest)"
    using assms(1) decode_frame [of "body_bytes b" t acq "body_crc b c" rest]
    by (auto simp: rec_ok_def rec_bytes_def rec_frame_def)
  then show "parse_loop acq pb i (rec_bytes c t b @ rest) s = parse_loop acq pb i rest s'"
    using assms(2) by (subst parse_loop.simps) simp
qed

section \<open>The handler on records of the writer\<close>

text \<open>
  The parser is in step with the encoder when its checksum is the encoder's. Then every record
  kind has its effect and the offset advances by the record.
\<close>

lemma handler_crc:
  "log_handler pb i (rec_frame c LogTypeCrc (CrcLog v)) s =
     (Ret (), s\<lparr>ps_result := advance (fr_size (rec_frame c LogTypeCrc (CrcLog v)))
                  ((ps_result s)\<lparr>rr_lastValidLogCrc := v\<rparr>)\<rparr>)"
  by (simp add: log_handler_def rec_frame_def Let_def)

lemma handler_other:
  assumes "t \<noteq> LogTypeCrc" and "\<And>v. b \<noteq> CrcLog v" and "rr_lastValidLogCrc (ps_result s) = c"
    and "handle_record pb i (rec_frame c t b) (s\<lparr>ps_result := (ps_result s)\<lparr>rr_lastValidLogCrc := body_crc b c\<rparr>\<rparr>) = Ret s2"
  shows "log_handler pb i (rec_frame c t b) s =
     (Ret (), s2\<lparr>ps_result := advance (fr_size (rec_frame c t b)) (ps_result s2)\<rparr>)"
proof -
  have "body_crc b c = crc32_update c (body_bytes b)" using assms(2) by (cases b) auto
  then show ?thesis
    using assms(1,3,4) by (simp add: log_handler_def Let_def rec_frame_def)
qed

lemma log_type_distinct:
  "LogTypeMetadata \<noteq> LogTypeCrc" "LogTypeHardState \<noteq> LogTypeCrc" "LogTypeSnapshot \<noteq> LogTypeCrc"
  "LogTypeNextEntry \<noteq> LogTypeCrc" "LogTypeNormalEntry \<noteq> LogTypeCrc" "LogTypeConfChangeEntry \<noteq> LogTypeCrc"
  "LogTypeConfChangeV2Entry \<noteq> LogTypeCrc"
  by (simp_all add: log_type_defs)

lemma handler_metadata:
  assumes "rr_lastValidLogCrc (ps_result s) = c"
  shows "log_handler pb i (rec_frame c LogTypeMetadata (SliceBytes m)) s =
    (Ret (), s\<lparr>ps_result := advance (fr_size (rec_frame c LogTypeMetadata (SliceBytes m)))
       ((ps_result s)\<lparr>rr_lastValidLogCrc := crc32_update c m, rr_metadata := m\<rparr>)\<rparr>)"
  using assms
  by (subst handler_other [OF _ _ assms]) (auto simp: handle_record_def Let_def rec_frame_def log_type_defs)

lemma handler_hard_state:
  assumes "rr_lastValidLogCrc (ps_result s) = c" and "raft_pb_ok pb"
  shows "log_handler pb i (rec_frame c LogTypeHardState (MarshalledLog (pb_hs pb h))) s =
    (Ret (), s\<lparr>ps_result := advance (fr_size (rec_frame c LogTypeHardState (MarshalledLog (pb_hs pb h))))
       ((ps_result s)\<lparr>rr_lastValidLogCrc := crc32_update c (pb_hs pb h), rr_hardState := h\<rparr>)\<rparr>)"
  using assms
  by (subst handler_other [OF _ _ assms(1)])
     (auto simp: handle_record_def Let_def rec_frame_def log_type_defs raft_pb_ok_def)

lemma handler_snapshot:
  assumes "rr_lastValidLogCrc (ps_result s) = c" and "raft_pb_ok pb"
  shows "log_handler pb i (rec_frame c LogTypeSnapshot (MarshalledLog (pb_snap pb w))) s =
    (Ret (), s\<lparr>ps_result := advance (fr_size (rec_frame c LogTypeSnapshot (MarshalledLog (pb_snap pb w))))
       ((ps_result s)\<lparr>rr_lastValidLogCrc := crc32_update c (pb_snap pb w),
                       rr_walSnapshots := rr_walSnapshots (ps_result s) @ [w]\<rparr>)\<rparr>)"
  using assms
  by (subst handler_other [OF _ _ assms(1)])
     (auto simp: handle_record_def Let_def rec_frame_def log_type_defs raft_pb_ok_def)

lemma handler_next_entry:
  assumes "rr_lastValidLogCrc (ps_result s) = c"
  shows "log_handler pb i (rec_frame c LogTypeNextEntry (MarshalledLog (next_entry_bytes ne))) s =
    (Ret (), \<lparr>ps_result = advance (fr_size (rec_frame c LogTypeNextEntry (MarshalledLog (next_entry_bytes ne))))
       ((ps_result s)\<lparr>rr_lastValidLogCrc := crc32_update c (next_entry_bytes ne), rr_nextEntry := ne\<rparr>),
       ps_findNextEntry = True\<rparr>)"
  using assms
  by (subst handler_other [OF _ _ assms])
     (auto simp: handle_record_def Let_def rec_frame_def log_type_defs unmarshal_next_entry_bytes)

lemma handler_entry:
  assumes "rr_lastValidLogCrc (ps_result s) = c" and "ps_findNextEntry s"
    and t: "t = LogTypeNormalEntry \<or> t = LogTypeConfChangeEntry \<or> t = LogTypeConfChangeV2Entry"
    and "rr_entries (ps_result s) \<noteq> NopEntryStore"
    and "coll_decode (ld_id (rr_lastLogFileDesc (ps_result s))) i t d
           (fr_size (rec_frame c t (SliceBytes d)) - HeaderSize)
           ((ps_result s)\<lparr>rr_lastValidLogCrc := crc32_update c d\<rparr>) = Ret r"
  shows "log_handler pb i (rec_frame c t (SliceBytes d)) s =
    (Ret (), s\<lparr>ps_result := advance (fr_size (rec_frame c t (SliceBytes d))) r\<rparr>)"
  using assms
  by (subst handler_other [OF _ _ assms(1)])
     (auto simp: handle_record_def Let_def rec_frame_def log_type_defs is_nop_def)

section \<open>Sequences of records\<close>

fun recs_bytes :: "u32 \<Rightarrow> (u32 \<times> log_body) list \<Rightarrow> bytes" where
  "recs_bytes c [] = []"
| "recs_bytes c ((t, b) # rs) = rec_bytes c t b @ recs_bytes (body_crc b c) rs"

fun run_recs ::
  "acquirer \<Rightarrow> raft_pb \<Rightarrow> u64 \<Rightarrow> u32 \<Rightarrow> (u32 \<times> log_body) list \<Rightarrow> parse_state \<Rightarrow> parse_state option" where
  "run_recs acq pb i c [] s = Some s"
| "run_recs acq pb i c ((t, b) # rs) s =
     (if rec_ok acq c t b then
        (case log_handler pb i (rec_frame c t b) s of
           (Ret _, s') \<Rightarrow> run_recs acq pb i (body_crc b c) rs s'
         | _ \<Rightarrow> None)
      else None)"

lemma run_recs_reads_to:
  "run_recs acq pb i c rs s = Some s' \<Longrightarrow> reads_to acq pb i (recs_bytes c rs) s s'"
proof (induction rs arbitrary: c s)
  case (Cons r rs)
  obtain t b where r: "r = (t, b)" by (cases r)
  obtain s1 where s1: "rec_ok acq c t b" "log_handler pb i (rec_frame c t b) s = (Ret (), s1)"
      "run_recs acq pb i (body_crc b c) rs s1 = Some s'"
    using Cons.prems by (auto simp: r split: if_splits prod.splits outcome.splits)
  show ?case
    using reads_to_append [OF reads_to_record [OF s1(1,2)] Cons.IH [OF s1(3)]] by (simp add: r)
qed simp

text \<open>The handler keeps the kind of the collection and advances the offset by the record.\<close>

lemma coll_decode_keeps:
  assumes "coll_decode f i t b cap r = Ret r'"
  shows "rr_lastValidLogOffset r' = rr_lastValidLogOffset r \<and>
         clear_entries (rr_entries r') = clear_entries (rr_entries r)"
  using assms by (auto simp: coll_decode_def Let_def bind_outcome_Ret_iff split: entry_coll.splits)

lemma handle_record_keeps:
  assumes "handle_record pb i fr s = Ret s'"
  shows "rr_lastValidLogOffset (ps_result s') = rr_lastValidLogOffset (ps_result s) \<and>
         clear_entries (rr_entries (ps_result s')) = clear_entries (rr_entries (ps_result s))"
  using assms coll_decode_keeps
  by (auto simp: handle_record_def Let_def bind_outcome_Ret_iff
      split: if_splits option.splits outcome.splits)

lemma log_handler_keeps:
  assumes "log_handler pb i fr s = (res, s')"
  shows "clear_entries (rr_entries (ps_result s')) = clear_entries (rr_entries (ps_result s)) \<and>
         rr_lastValidLogOffset (ps_result s') =
           rr_lastValidLogOffset (ps_result s) + (if res = Ret () then fr_size fr else 0)"
  using assms handle_record_keeps
  by (auto simp: log_handler_def Let_def advance_def split: if_splits outcome.splits)

lemma run_recs_keeps:
  assumes "run_recs acq pb i c rs s = Some s'"
  shows "rr_lastValidLogOffset (ps_result s') = rr_lastValidLogOffset (ps_result s) + length (recs_bytes c rs) \<and>
         clear_entries (rr_entries (ps_result s')) = clear_entries (rr_entries (ps_result s))"
  using assms
proof (induction rs arbitrary: c s)
  case (Cons r rs)
  obtain t b where r: "r = (t, b)" by (cases r)
  obtain s1 where s1: "log_handler pb i (rec_frame c t b) s = (Ret (), s1)"
      "run_recs acq pb i (body_crc b c) rs s1 = Some s'"
    using Cons.prems by (auto simp: r split: if_splits prod.splits outcome.splits)
  show ?case
    using log_handler_keeps [OF s1(1)] Cons.IH [OF s1(2)]
    by (simp add: r rec_frame_def rec_bytes_def)
qed simp

lemma parse_loop_kind:
  assumes "parse_loop acq pb i d s = (res, s')"
  shows "clear_entries (rr_entries (ps_result s')) = clear_entries (rr_entries (ps_result s))"
  using assms
proof (induction acq pb i d s rule: parse_loop.induct)
  case (1 acq pb i d s)
  show ?case
  proof (cases "decode acq d")
    case (Ret x)
    obtain fr d' where x: "x = (fr, d')" by (cases x)
    obtain r1 s1 where h: "log_handler pb i fr s = (r1, s1)" by (cases "log_handler pb i fr s")
    show ?thesis
      using "1.prems" "1.IH" [OF Ret x [symmetric] h [symmetric]] log_handler_keeps [OF h] Ret x h
      by (subst (asm) parse_loop.simps) (auto split: outcome.splits)
  qed (use "1.prems" in \<open>subst (asm) parse_loop.simps, simp\<close>)+
qed

section \<open>Repairing a torn tail\<close>

definition file_header :: bytes where
  "file_header = logFileMagicHeader @ put_uint64 logFileVersion"

lemma length_file_header [simp]: "length file_header = LogFileHeaderLength"
  by (simp add: file_header_def LogFileHeaderLength_def)

lemma open_good_header:
  assumes "fl_data f = file_header @ d"
  shows "open_log_file_handle f = Ret (f\<lparr>fl_pos := LogFileHeaderLength\<rparr>)"
proof -
  have "0 < length (fl_data f)" using assms by (simp add: LogFileHeaderLength_def)
  then have "fl_data f \<noteq> []" by simp
  moreover have "take LogFileHeaderLength (fl_data f) = file_header" using assms by simp
  moreover have "min LogFileHeaderLength (length (fl_data f)) = LogFileHeaderLength" using assms by simp
  moreover have "take (length logFileMagicHeader) (fl_data f) = logFileMagicHeader"
    "min (length logFileMagicHeader) LogFileHeaderLength = length logFileMagicHeader"
    using assms by (simp_all add: file_header_def LogFileHeaderLength_def)
  ultimately show ?thesis
    by (simp add: open_log_file_handle_def Let_def file_header_def)
qed

definition start_state :: "log_file_desc \<Rightarrow> replay_result \<Rightarrow> parse_state" where
  "start_state desc r =
     \<lparr>ps_result = r\<lparr>rr_lastLogFileDesc := desc, rr_lastValidLogOffset := LogFileHeaderLength\<rparr>,
      ps_findNextEntry = False\<rparr>"

lemma parse_file_start:
  "parse_file acq pb i desc d r =
     (case parse_loop acq pb i d (start_state desc r) of (res, s) \<Rightarrow> (res, ps_result s))"
  by (simp add: parse_file_def start_state_def Let_def)

lemma replay_file_step:
  assumes "dir d = Some f" and "fl_data f = file_header @ data"
    and "parse_loop acq pb i data (start_state d r) = (Fail e, s)"
  shows "replay_files acq pb i dir (d # ds) r =
    (if e = WIo EOF then replay_files acq pb i dir ds (ps_result s) else (Fail (d, e), ps_result s))"
  using assms by (simp add: open_good_header parse_file_start)

lemma parse_loop_ends: "fst (parse_loop acq pb i d s) \<noteq> Ret ()"
proof (induction acq pb i d s rule: parse_loop.induct)
  case (1 acq pb i d s)
  show ?case
  proof (cases "decode acq d")
    case (Ret x)
    obtain fr d' where x: "x = (fr, d')" by (cases x)
    obtain r1 s1 where h: "log_handler pb i fr s = (r1, s1)" by (cases "log_handler pb i fr s")
    show ?thesis
      using "1.IH" [OF Ret x [symmetric] h [symmetric]] Ret x h
      by (subst parse_loop.simps) (auto split: outcome.splits)
  qed (subst parse_loop.simps, simp)+
qed

lemma replay_files_append:
  "replay_files acq pb i dir ds r = (Ret (), r1) \<Longrightarrow>
   replay_files acq pb i dir (ds @ es) r = replay_files acq pb i dir es r1"
proof (induction ds arbitrary: r)
  case (Cons d ds)
  obtain f h where f: "dir d = Some f" "open_log_file_handle f = Ret h"
    using Cons.prems by (auto split: option.splits outcome.splits)
  obtain res r2 where p: "parse_file acq pb i d (drop (fl_pos h) (fl_data h)) r = (res, r2)"
    by (cases "parse_file acq pb i d (drop (fl_pos h) (fl_data h)) r")
  have "res \<noteq> Ret ()"
    using p parse_loop_ends [of acq pb i "drop (fl_pos h) (fl_data h)" "start_state d r"]
    by (auto simp: parse_file_start split: prod.splits)
  then have "res = Fail (WIo EOF)" "replay_files acq pb i dir ds r2 = (Ret (), r1)"
    using Cons.prems f p by (auto split: outcome.splits if_splits)
  then show ?case using Cons.IH f p by simp
qed simp

text \<open>The bytes of a frame that was cut.\<close>

lemma parse_torn:
  assumes "rec_ok acq c t b" and "body_bytes b \<noteq> []" and "0 < k" and "k < length (rec_bytes c t b)"
  shows "parse_loop acq pb i (take k (rec_bytes c t b)) s = (Fail (WIo UnexpectedEOF), s)"
proof -
  have "decode acq (take k (rec_bytes c t b)) = Fail UnexpectedEOF"
    using assms by (auto simp: rec_ok_def rec_bytes_def intro: decode_torn)
  then show ?thesis by (simp add: parse_loop.simps)
qed

lemma os_truncate_prefix: "fl_data f = a @ b \<Longrightarrow> n = length a \<Longrightarrow> fl_data (os_truncate f n) = a"
  by (simp add: os_truncate_def)

lemma replay_files_cong:
  "\<forall>x\<in>set ds. dir' x = dir x \<Longrightarrow> replay_files acq pb i dir' ds r = replay_files acq pb i dir ds r"
  by (induction ds arbitrary: r) (simp_all split: option.split outcome.split prod.split)

lemma repair_tail:
  assumes prev: "replay_files acq pb i dir ds (new_replay_result coll) = (Ret (), r1)"
    and fl: "dir d = Some f" "fl_data f = file_header @ recs_bytes 0 rs @ tail"
    and recs: "run_recs acq pb i 0 rs (start_state d r1) = Some s"
    and torn: "parse_loop acq pb i tail s = (Fail (WIo UnexpectedEOF), s)"
    and kind: "clear_entries (rr_entries r1) = coll" and new: "d \<notin> set ds"
  shows "\<exists>f'. player_replay acq pb i (ds @ [d]) True dir (new_replay_result coll) = (Ret (), dir(d \<mapsto> f'), ps_result s) \<and>
     fl_data f' = file_header @ recs_bytes 0 rs"
proof -
  let ?n = "LogFileHeaderLength + length (recs_bytes 0 rs)"
  have rd: "reads_to acq pb i (recs_bytes 0 rs) (start_state d r1) s"
    by (rule run_recs_reads_to [OF recs])
  have "parse_loop acq pb i (recs_bytes 0 rs @ tail) (start_state d r1) = (Fail (WIo UnexpectedEOF), s)"
    using rd torn by (simp add: reads_to_def)
  from replay_file_step [of dir d, where ds = "[]", OF fl this]
  have first: "replay_files acq pb i dir (ds @ [d]) (new_replay_result coll) = (Fail (d, WIo UnexpectedEOF), ps_result s)"
    by (simp add: replay_files_append [OF prev])
  have keeps: "rr_lastValidLogOffset (ps_result s) = ?n" "clear_entries (rr_entries (ps_result s)) = coll"
    using run_recs_keeps [OF recs] kind by (simp_all add: start_state_def)
  define f' where "f' = (os_truncate f ?n)\<lparr>fl_synced := fl_data (os_truncate f ?n)\<rparr>"
  have data: "fl_data f' = file_header @ recs_bytes 0 rs"
    using os_truncate_prefix [of f "file_header @ recs_bytes 0 rs" _ ?n] fl(2) by (simp add: f'_def)
  have rep: "repair_log_file d ?n dir = Ret (dir(d \<mapsto> f'))"
    using fl open_good_header [OF fl(2)] by (simp add: repair_log_file_def Let_def f'_def)
  have "replay_files acq pb i (dir(d \<mapsto> f')) ds (new_replay_result coll) = (Ret (), r1)"
    using prev replay_files_cong [of ds "dir(d \<mapsto> f')" dir] new by auto
  moreover have "parse_loop acq pb i (recs_bytes 0 rs) (start_state d r1) = (Fail (WIo EOF), s)"
    using reads_to_end [OF rd, of "[]"] by (simp add: log_end_def)
  then have "replay_files acq pb i (dir(d \<mapsto> f')) [d] r1 = (Ret (), ps_result s)"
    using replay_file_step [of "dir(d \<mapsto> f')" d f' "recs_bytes 0 rs" acq pb i r1 _ s "[]"] data by simp
  ultimately have "replay_files acq pb i (dir(d \<mapsto> f')) (ds @ [d]) (new_replay_result coll) = (Ret (), ps_result s)"
    by (simp only: replay_files_append)
  then have "player_replay acq pb i (ds @ [d]) True dir (new_replay_result coll) = (Ret (), dir(d \<mapsto> f'), ps_result s)"
    using first rep by (simp add: player_replay_def keeps rr_reset_def)
  then show ?thesis using data by blast
qed

text \<open>
  The part of a preallocated file behind the last record is zero. Up to seven bytes of it are too
  short for a header: that counts as a torn record and is cut off by the repair.
\<close>

lemma parse_zeros:
  "parse_loop acq pb i (replicate n 0) s = (Fail (WIo (if 0 < n \<and> n < 8 then UnexpectedEOF else EOF)), s)"
proof (cases "0 < n \<and> n < 8")
  case True
  then have "decode acq (replicate n 0) = Fail UnexpectedEOF"
    by (simp add: decode_def read_full_def HeaderSize_def)
  then show ?thesis using True by (simp add: parse_loop.simps)
next
  case False
  then have "log_end (replicate n 0)" by (auto simp: log_end_def min_def)
  then show ?thesis using False by (auto simp: parse_log_end)
qed

lemma replay_zero_tail:
  assumes prev: "replay_files acq pb i dir ds (new_replay_result coll) = (Ret (), r1)"
    and fl: "dir d = Some f" "fl_data f = file_header @ recs_bytes 0 rs @ replicate n 0"
    and recs: "run_recs acq pb i 0 rs (start_state d r1) = Some s"
    and kind: "clear_entries (rr_entries r1) = coll" and new: "d \<notin> set ds"
  shows "\<exists>f' m. player_replay acq pb i (ds @ [d]) True dir (new_replay_result coll) = (Ret (), dir(d \<mapsto> f'), ps_result s) \<and>
     fl_data f' = file_header @ recs_bytes 0 rs @ replicate m 0 \<and> m \<le> n"
proof (cases "0 < n \<and> n < 8")
  case True
  then have "parse_loop acq pb i (replicate n 0) s = (Fail (WIo UnexpectedEOF), s)" by (simp add: parse_zeros)
  from repair_tail [OF prev fl recs this kind new] obtain f' where
    "player_replay acq pb i (ds @ [d]) True dir (new_replay_result coll) = (Ret (), dir(d \<mapsto> f'), ps_result s)"
    "fl_data f' = file_header @ recs_bytes 0 rs @ replicate 0 0" "0 \<le> n" by auto
  then show ?thesis by blast
next
  case False
  have "parse_loop acq pb i (recs_bytes 0 rs @ replicate n 0) (start_state d r1) = (Fail (WIo EOF), s)"
    using run_recs_reads_to [OF recs] False by (auto simp: reads_to_def parse_zeros)
  from replay_file_step [of dir d, where ds = "[]", OF fl this]
  have "replay_files acq pb i dir (ds @ [d]) (new_replay_result coll) = (Ret (), ps_result s)"
    by (simp add: replay_files_append [OF prev])
  then have "player_replay acq pb i (ds @ [d]) True dir (new_replay_result coll) = (Ret (), dir(d \<mapsto> f), ps_result s)"
    using fl(1) by (simp add: player_replay_def fun_upd_idem)
  then show ?thesis using fl(2) le_refl by blast
qed

section \<open>Properties of the replay\<close>

lemma handler_damaged:
  assumes "fr_type fr \<noteq> LogTypeCrc" and "crc32_update (rr_lastValidLogCrc (ps_result s)) (fr_body fr) \<noteq> fr_crc fr"
  shows "log_handler pb i fr s =
    (Fail WCrcMismatchForOthers,
     s\<lparr>ps_result := (ps_result s)\<lparr>rr_lastValidLogCrc := crc32_update (rr_lastValidLogCrc (ps_result s)) (fr_body fr)\<rparr>\<rparr>)"
  using assms by (simp add: log_handler_def Let_def)

text \<open>
  C12. Damage is detected: if one byte of a record's body differs from what the encoder wrote, the
  parser stops there with the checksum mismatch, whatever the rest of the file holds, and reports
  neither the record nor an offset behind it; only the running checksum of the result has moved.
\<close>

theorem damaged_record_rejected:
  assumes "t \<noteq> LogTypeCrc" and "t < 32" and "a \<noteq> b"
    and "length (xs @ b # ys) \<le> maxLogSize" and "buffers_for acq (length (xs @ b # ys))"
  shows "parse_loop acq pb i
      (frame_bytes t (xs @ b # ys) (crc32_update (rr_lastValidLogCrc (ps_result s)) (xs @ a # ys)) @ rest) s =
    (Fail WCrcMismatchForOthers,
     s\<lparr>ps_result := (ps_result s)
         \<lparr>rr_lastValidLogCrc := crc32_update (rr_lastValidLogCrc (ps_result s)) (xs @ b # ys)\<rparr>\<rparr>)"
proof -
  let ?c = "rr_lastValidLogCrc (ps_result s)"
  have "crc32_update ?c (xs @ b # ys) \<noteq> crc32_update ?c (xs @ a # ys)"
    using crc32_detects_one_byte [of ?c xs a ys b] assms(3) by auto
  then show ?thesis
    using decode_frame [OF assms(4,2,5), of "crc32_update ?c (xs @ a # ys)" rest] assms(1)
    by (subst parse_loop.simps) (simp add: handler_damaged)
qed

definition sample_desc :: log_file_desc where
  "sample_desc = \<lparr>ld_id = 0, ld_start = 0, ld_temp = False\<rparr>"

theorem damaged_record_rejected_witness:
  "parse_loop sample_acq sample_pb 0
      (frame_bytes LogTypeNormalEntry ([1] @ 3 # [5]) (crc32_update 0 ([1] @ 2 # [5])) @ [])
      (start_state sample_desc (new_replay_result (EntryStore []))) =
    (Fail WCrcMismatchForOthers,
     (start_state sample_desc (new_replay_result (EntryStore [])))
       \<lparr>ps_result := (ps_result (start_state sample_desc (new_replay_result (EntryStore []))))
         \<lparr>rr_lastValidLogCrc := crc32_update 0 ([1] @ 3 # [5])\<rparr>\<rparr>)"
  using damaged_record_rejected [of LogTypeNormalEntry 2 3 "[1]" "[5]" sample_acq sample_pb 0
      "start_state sample_desc (new_replay_result (EntryStore []))" "[]"]
  by (simp add: log_type_defs maxLogSize_def sample_buffers start_state_def new_replay_result_def)

definition sample_recs :: "(u32 \<times> log_body) list" where
  "sample_recs = [(LogTypeCrc, CrcLog 0), (LogTypeMetadata, SliceBytes [1, 2, 3]),
     (LogTypeNextEntry, MarshalledLog (next_entry_bytes \<lparr>nextTerm = 1, nextIndex = 1\<rparr>)),
     (LogTypeNormalEntry, SliceBytes [9])]"

definition sample_state :: parse_state where
  "sample_state = the (run_recs sample_acq sample_pb 0 0 sample_recs
     (start_state sample_desc (new_replay_result (EntryStore []))))"

lemma rec_ok_sample: "t < 32 \<Longrightarrow> body_bytes b \<noteq> [] \<Longrightarrow> length (body_bytes b) \<le> 100 \<Longrightarrow> rec_ok sample_acq c t b"
  by (simp add: rec_ok_def sample_buffers maxLogSize_def)

lemma put_uint32_nonempty [simp]: "put_uint32 v \<noteq> []"
  by (simp add: put_uint32_def)

lemma sample_recs_run:
  "run_recs sample_acq sample_pb 0 0 sample_recs (start_state sample_desc (new_replay_result (EntryStore []))) =
     Some sample_state"
  "rr_metadata (ps_result sample_state) = [1, 2, 3]"
  "rr_entries (ps_result sample_state) =
     EntryStore [\<lparr>ent_term = 1, ent_index = 1, ent_type = EntryNormal, ent_data = [9]\<rparr>]"
proof -
  let ?ne = "\<lparr>nextTerm = 1, nextIndex = 1\<rparr>"
  have l: "length (next_entry_bytes ?ne) \<le> 100" "next_entry_bytes ?ne \<noteq> []"
    using next_entry_size_le [of ?ne] by (simp_all add: length_next_entry_bytes) (simp add: next_entry_bytes_def varint_field_def)
  have "\<exists>s. run_recs sample_acq sample_pb 0 0 sample_recs (start_state sample_desc (new_replay_result (EntryStore []))) = Some s
     \<and> rr_metadata (ps_result s) = [1, 2, 3] \<and>
     rr_entries (ps_result s) = EntryStore [\<lparr>ent_term = 1, ent_index = 1, ent_type = EntryNormal, ent_data = [9]\<rparr>]"
    using l
    by (simp add: sample_recs_def rec_ok_sample handler_crc handler_metadata handler_next_entry start_state_def
        new_replay_result_def advance_def log_handler_def rec_frame_def handle_record_def Let_def is_nop_def
        coll_decode_def coll_put_def log_type_defs unmarshal_next_entry_bytes entry_type_of_def)
  then show
    "run_recs sample_acq sample_pb 0 0 sample_recs (start_state sample_desc (new_replay_result (EntryStore []))) = Some sample_state"
    "rr_metadata (ps_result sample_state) = [1, 2, 3]"
    "rr_entries (ps_result sample_state) = EntryStore [\<lparr>ent_term = 1, ent_index = 1, ent_type = EntryNormal, ent_data = [9]\<rparr>]"
    by (auto simp: sample_state_def)
qed

text \<open>
  C11. A torn tail is repaired: when the last file ends in the middle of a record (the write that
  a crash cut short), \<^verbatim>\<open>Replay\<close> with repair truncates the file to the last complete record and
  succeeds, and its result is exactly what the complete records before the tear say.
\<close>

theorem torn_tail_repaired:
  assumes "replay_files acq pb i dir ds (new_replay_result coll) = (Ret (), r1)"
    and "dir d = Some f" and "fl_data f = file_header @ recs_bytes 0 rs @ take k (rec_bytes c t b)"
    and "run_recs acq pb i 0 rs (start_state d r1) = Some s"
    and "rec_ok acq c t b" and "body_bytes b \<noteq> []" and "0 < k" and "k < length (rec_bytes c t b)"
    and "clear_entries (rr_entries r1) = coll" and "d \<notin> set ds"
  shows "\<exists>f'. player_replay acq pb i (ds @ [d]) True dir (new_replay_result coll) = (Ret (), dir(d \<mapsto> f'), ps_result s) \<and>
     fl_data f' = file_header @ recs_bytes 0 rs"
  using repair_tail [OF assms(1-4) parse_torn [OF assms(5-8)] assms(9,10)] .

lemma rr_entries_new [simp]: "rr_entries (new_replay_result c) = c"
  by (simp add: new_replay_result_def)

lemma length_sample_rec: "length (rec_bytes c t (SliceBytes [x])) = 16"
  by (simp add: rec_bytes_def frame_bytes_def calc_padding_def HeaderSize_def)

theorem torn_tail_repaired_witness:
  "\<exists>f'. player_replay sample_acq sample_pb 0 [sample_desc] True
      [sample_desc \<mapsto> \<lparr>fl_data = file_header @ recs_bytes 0 sample_recs @ take 9 (rec_bytes 0 LogTypeNormalEntry (SliceBytes [4])),
                        fl_pos = 0, fl_synced = []\<rparr>] (new_replay_result (EntryStore [])) =
      (Ret (), [sample_desc \<mapsto> f'], ps_result sample_state) \<and>
     fl_data f' = file_header @ recs_bytes 0 sample_recs"
  using torn_tail_repaired [of sample_acq sample_pb 0
      "[sample_desc \<mapsto> \<lparr>fl_data = file_header @ recs_bytes 0 sample_recs @ take 9 (rec_bytes 0 LogTypeNormalEntry (SliceBytes [4])),
                        fl_pos = 0, fl_synced = []\<rparr>]" "[]" "EntryStore []" "new_replay_result (EntryStore [])" sample_desc
      _ sample_recs 9 0 LogTypeNormalEntry "SliceBytes [4]" sample_state]
  by (simp add: sample_recs_run rec_ok_sample log_type_defs length_sample_rec)

end
