(* ===== verification/Wal.thy ===== *)
theory Wal
  imports Wal_Replay
begin

unbundle bit_operations_syntax

text \<open>
  The write-ahead log, \<^verbatim>\<open>pkg/wal/babuzawal/wal.go\<close> and \<^verbatim>\<open>common.go\<close>: creating and opening it, saving
  entries and hard states, recording snapshots, and cycling to the next file. A call works on the
  state \<open>wal\<close> and returns its outcome with the state it leaves; \<open>None\<close> is a call that does not
  return (a cache loop on a malformed cache). The theory shows which records a call appends and what
  the parser makes of them; recovery is the subject of \<open>Wal_Recovery\<close>.
\<close>

section \<open>State\<close>

record wal_state =
  st_metadata :: bytes
  st_nextEntry :: wal_next_entry
  st_hardState :: hard_state
  st_lastEntryIndex :: u64

record wal =
  w_mgr :: log_manager
  w_dir :: wal_dir
  w_state :: wal_state
  w_file :: log_file
  w_index :: "entry_meta entry_storage option"
  w_noSync :: bool

type_synonym 'a wal_op = "wal \<Rightarrow> ((wal_error, 'a) outcome \<times> wal) option"

definition wret :: "'a \<Rightarrow> 'a wal_op" where
  "wret x w = Some (Ret x, w)"

definition wfail :: "wal_error \<Rightarrow> 'a wal_op" where
  "wfail e w = Some (Fail e, w)"

fun wbind :: "'a wal_op \<Rightarrow> ('a \<Rightarrow> 'b wal_op) \<Rightarrow> 'b wal_op" where
  "wbind m f w =
     (case m w of
        None \<Rightarrow> None
      | Some (Ret x, w') \<Rightarrow> f x w'
      | Some (Fail e, w') \<Rightarrow> Some (Fail e, w')
      | Some (Panic, w') \<Rightarrow> Some (Panic, w'))"

text \<open>A method of the current log file, and updates of the state.\<close>

definition on_file :: "(log_file \<Rightarrow> (wal_error, unit) outcome \<times> log_file) \<Rightarrow> unit wal_op" where
  "on_file f w = (case f (w_file w) of (r, lf) \<Rightarrow> Some (r, w\<lparr>w_file := lf\<rparr>))"

definition on_state :: "(wal_state \<Rightarrow> wal_state) \<Rightarrow> unit wal_op" where
  "on_state f w = Some (Ret (), w\<lparr>w_state := f (w_state w)\<rparr>)"

definition empty_next_entry :: "wal_state \<Rightarrow> bool" where
  "empty_next_entry s \<longleftrightarrow> nextTerm (st_nextEntry s) = 0 \<and> nextIndex (st_nextEntry s) = 0"

definition tail_desc :: "log_file_desc wal_op" where
  "tail_desc w = (case lm_last_desc (w_mgr w) of Ret d \<Rightarrow> Some (Ret d, w) | _ \<Rightarrow> Some (Panic, w))"

section \<open>Saving entries\<close>

definition log_type_of :: "entry_type \<Rightarrow> u32" where
  "log_type_of t = (case t of EntryNormal \<Rightarrow> LogTypeNormalEntry | EntryConfChange \<Rightarrow> LogTypeConfChangeEntry
                    | EntryConfChangeV2 \<Rightarrow> LogTypeConfChangeV2Entry)"

text \<open>The index element of \<^verbatim>\<open>saveEntry\<close> for an entry written at the current offset.\<close>

definition entry_pos_of :: "u64 \<Rightarrow> nat \<Rightarrow> entry \<Rightarrow> entry_meta entry_pos" where
  "entry_pos_of fileId offset e =
     \<lparr>ep_term = ent_term e, ep_index = ent_index e, ep_type = ent_type e,
      ep_meta = \<lparr>em_file = fileId, em_offset = offset + HeaderSize, em_len = length (ent_data e),
                 em_cap = length (ent_data e) + (8 - length (ent_data e) mod 8) mod 8\<rparr>\<rparr>"

text \<open>One round of the loop of \<^verbatim>\<open>saveEntry\<close>; it returns the index element when there is an index.\<close>

definition save_one :: "acquirer \<Rightarrow> entry \<Rightarrow> entry_meta entry_pos list wal_op" where
  "save_one acq e =
     wbind (\<lambda>w. if nextTerm (st_nextEntry (w_state w)) \<noteq> ent_term e \<or> nextIndex (st_nextEntry (w_state w)) \<noteq> ent_index e
                then wbind (on_state (\<lambda>s. s\<lparr>st_nextEntry := \<lparr>nextTerm = ent_term e, nextIndex = ent_index e\<rparr>\<rparr>))
                       (\<lambda>_. on_file (lf_next_entry acq \<lparr>nextTerm = ent_term e, nextIndex = ent_index e\<rparr>)) w
                else wret () w)
       (\<lambda>_. wbind (\<lambda>w. if w_index w = None then wret [] w
                       else wbind tail_desc (\<lambda>d w. wret [entry_pos_of (ld_id d) (lf_offset (w_file w)) e] w) w)
       (\<lambda>ps. wbind (on_file (lf_entry acq (log_type_of (ent_type e)) (ent_data e)))
       (\<lambda>_. wbind (on_state (\<lambda>s. s\<lparr>st_nextEntry := (st_nextEntry s)\<lparr>nextIndex := ent_index e + 1\<rparr>,
                                  st_lastEntryIndex := ent_index e\<rparr>))
       (\<lambda>_. wret ps))))"

fun save_loop :: "acquirer \<Rightarrow> entry list \<Rightarrow> entry_meta entry_pos list wal_op" where
  "save_loop acq [] = wret []"
| "save_loop acq (e # es) =
     wbind (save_one acq e) (\<lambda>ps. wbind (save_loop acq es) (\<lambda>qs. wret (ps @ qs)))"

definition save_entry :: "acquirer \<Rightarrow> entry list \<Rightarrow> unit wal_op" where
  "save_entry acq entries =
     wbind (save_loop acq entries) (\<lambda>entriesIndex w.
       case w_index w of
         None \<Rightarrow> wret () w
       | Some s \<Rightarrow>
           (case es_append_index s entriesIndex of
              Fail e \<Rightarrow> wfail (WStorage e) w
            | Panic \<Rightarrow> Some (Panic, w)
            | Ret s1 \<Rightarrow>
                (case es_append_cache s1 entries of
                   None \<Rightarrow> None
                 | Some (Ret s2) \<Rightarrow> wret () (w\<lparr>w_index := Some s2\<rparr>)
                 | Some _ \<Rightarrow> Some (Panic, w\<lparr>w_index := Some s1\<rparr>))))"

definition save_hard_state :: "acquirer \<Rightarrow> raft_pb \<Rightarrow> hard_state \<Rightarrow> unit wal_op" where
  "save_hard_state acq pb st =
     (if raft_is_empty_hs pb st then wret ()
      else wbind (on_file (lf_hard_state acq pb st))
        (\<lambda>_. wbind (on_state (\<lambda>s. s\<lparr>st_hardState := st\<rparr>))
        (\<lambda>_ w. case w_index w of
                 None \<Rightarrow> wret () w
               | Some s \<Rightarrow>
                   (case es_delete_cache s (hs_commit st) of
                      None \<Rightarrow> None
                    | Some s' \<Rightarrow> wret () (w\<lparr>w_index := Some s'\<rparr>)))))"

section \<open>Cycling\<close>

text \<open>
  \<^verbatim>\<open>cycle\<close>: the current file is flushed, truncated and closed; the next one is prepared under a
  temporary name with the checksum, the metadata, the hard state and the position of the next
  entry, then renamed and opened again for writing.
\<close>

definition close_current :: "unit wal_op" where
  "close_current w =
     (case lm_last_desc (w_mgr w) of
        Ret d \<Rightarrow> Some (Ret (), w\<lparr>w_dir := (w_dir w)(d\<lparr>ld_temp := False\<rparr> \<mapsto> pw_file (lf_pw (w_file w)))\<rparr>)
      | _ \<Rightarrow> Some (Panic, w))"

definition open_next :: "u64 \<Rightarrow> u64 \<Rightarrow> unit wal_op" where
  "open_next nextId startIndex w =
     (case lm_create_next_temp nextId startIndex (w_mgr w) of
        Ret (lf, m) \<Rightarrow> Some (Ret (), w\<lparr>w_file := lf, w_mgr := m\<rparr>)
      | Fail e \<Rightarrow> Some (Fail e, w)
      | Panic \<Rightarrow> Some (Panic, w))"

definition finalize_next :: "u64 \<Rightarrow> unit wal_op" where
  "finalize_next nextId w =
     (case lm_finalize_temp nextId (pw_file (lf_pw (w_file w))) (w_mgr w) (w_dir w) of
        Ret (m, dir) \<Rightarrow> Some (Ret (), w\<lparr>w_mgr := m, w_dir := dir\<rparr>)
      | Fail e \<Rightarrow> Some (Fail e, w)
      | Panic \<Rightarrow> Some (Panic, w))"

definition reopen :: "u64 \<Rightarrow> nat \<Rightarrow> u32 \<Rightarrow> unit wal_op" where
  "reopen i off crc w =
     (case lm_open_log_file i off crc (w_mgr w) (w_dir w) of
        Ret lf \<Rightarrow> Some (Ret (), w\<lparr>w_file := lf\<rparr>)
      | Fail e \<Rightarrow> Some (Fail e, w)
      | Panic \<Rightarrow> Some (Panic, w))"

definition write_prologue :: "acquirer \<Rightarrow> raft_pb \<Rightarrow> u32 \<Rightarrow> unit wal_op" where
  "write_prologue acq pb lastCrc =
     wbind (on_file (lf_crc acq lastCrc)) (\<lambda>_.
     wbind (\<lambda>w. on_file (lf_metadata acq (st_metadata (w_state w))) w) (\<lambda>_.
     wbind (\<lambda>w. on_file (lf_hard_state acq pb (st_hardState (w_state w))) w) (\<lambda>_.
     wbind (\<lambda>w. if empty_next_entry (w_state w) then wret () w
                else on_file (lf_next_entry acq (st_nextEntry (w_state w))) w) (\<lambda>_.
     on_file (lf_sync True)))))"

text \<open>
  The next file becomes the current one only when every step has succeeded. The call of
  \<^verbatim>\<open>SyncWalFolder\<close> at the end of \<^verbatim>\<open>cycle\<close> has no counterpart: the directory is taken to be durable, so that a
  file that was renamed has its new name also after a crash.
\<close>

definition keeping_file :: "log_file \<Rightarrow> unit wal_op \<Rightarrow> unit wal_op" where
  "keeping_file lf m w =
     (case m w of
        None \<Rightarrow> None
      | Some (Ret x, w') \<Rightarrow> Some (Ret x, w')
      | Some (r, w') \<Rightarrow> Some (r, w'\<lparr>w_file := lf\<rparr>))"

definition cycle :: "acquirer \<Rightarrow> raft_pb \<Rightarrow> unit wal_op" where
  "cycle acq pb =
     wbind (\<lambda>w. on_file (lf_sync (\<not> w_noSync w)) w) (\<lambda>_.
     wbind (on_file (\<lambda>lf. (Ret (), lf_truncate lf))) (\<lambda>_.
     wbind close_current (\<lambda>_.
     wbind tail_desc (\<lambda>d w.
       (let lastCrc = lf_enc_crc (w_file w); nextId = ld_id d + 1
        in keeping_file (w_file w)
             (wbind (open_next nextId (st_lastEntryIndex (w_state w) + 1)) (\<lambda>_.
              wbind (write_prologue acq pb lastCrc) (\<lambda>_.
              wbind (finalize_next nextId) (\<lambda>_ w.
                reopen nextId (lf_offset (w_file w)) (lf_enc_crc (w_file w)) w)))) w)))))"

section \<open>The public operations\<close>

definition wal_save :: "acquirer \<Rightarrow> raft_pb \<Rightarrow> hard_state \<Rightarrow> entry list \<Rightarrow> unit wal_op" where
  "wal_save acq pb state entries =
     wbind (if entries \<noteq> [] then save_entry acq entries else wret ()) (\<lambda>_.
     wbind (save_hard_state acq pb state) (\<lambda>_ w.
       if lf_do_cycle (w_file w) then cycle acq pb w
       else if raft_must_sync pb state (st_hardState (w_state w)) (length entries)
            then on_file (lf_sync (\<not> w_noSync w)) w
            else wret () w))"

definition wal_save_snapshot :: "acquirer \<Rightarrow> raft_pb \<Rightarrow> snapshot \<Rightarrow> unit wal_op" where
  "wal_save_snapshot acq pb snap =
     wbind (on_file (lf_snapshot acq pb
              \<lparr>ws_index = snap_index snap, ws_term = snap_term snap, ws_conf = Some (snap_conf snap)\<rparr>)) (\<lambda>_.
     wbind (on_state (\<lambda>s. if st_lastEntryIndex s < snap_index snap
                          then s\<lparr>st_lastEntryIndex := snap_index snap\<rparr> else s)) (\<lambda>_ w.
       on_file (lf_sync (\<not> w_noSync w)) w))"

definition wal_sync :: "unit wal_op" where
  "wal_sync w = on_file (lf_sync (\<not> w_noSync w)) w"

text \<open>\<^verbatim>\<open>Close\<close> syncs and then closes the file and the directory handle.\<close>

definition wal_close :: "unit wal_op" where
  "wal_close w = on_file (lf_sync (\<not> w_noSync w)) w"

definition set_unsafe_no_fsync :: "wal \<Rightarrow> wal" where
  "set_unsafe_no_fsync w = w\<lparr>w_noSync := True\<rparr>"

definition set_entry_index_storage :: "entry_meta entry_storage \<Rightarrow> wal \<Rightarrow> wal" where
  "set_entry_index_storage s w = w\<lparr>w_index := Some s\<rparr>"

definition empty_wal_snapshot :: wal_snapshot where
  "empty_wal_snapshot = \<lparr>ws_index = 0, ws_term = 0, ws_conf = None\<rparr>"

definition create_wal ::
  "acquirer \<Rightarrow> raft_pb \<Rightarrow> bytes \<Rightarrow> log_manager \<Rightarrow> wal_dir \<Rightarrow> (wal_error, wal) outcome option" where
  "create_wal acq pb metadata m dir =
     (case lm_create_next_temp 0 0 m of
        Fail e \<Rightarrow> Some (Fail e)
      | Panic \<Rightarrow> Some Panic
      | Ret (lf, m') \<Rightarrow>
          (let w = \<lparr>w_mgr = m', w_dir = dir,
                    w_state = \<lparr>st_metadata = metadata, st_nextEntry = \<lparr>nextTerm = 0, nextIndex = 0\<rparr>,
                               st_hardState = zero_hard_state, st_lastEntryIndex = 0\<rparr>,
                    w_file = lf, w_index = None, w_noSync = False\<rparr>
           in case
                wbind (on_file (lf_crc acq 0)) (\<lambda>_.
                wbind (on_file (lf_metadata acq metadata)) (\<lambda>_.
                wbind (on_file (lf_snapshot acq pb empty_wal_snapshot)) (\<lambda>_.
                wbind (on_file (lf_sync True)) (\<lambda>_.
                wbind (finalize_next 0) (\<lambda>_ w.
                  reopen 0 (lf_offset (w_file w)) (lf_enc_crc (w_file w)) w))))) w
              of None \<Rightarrow> None
               | Some (Ret _, w') \<Rightarrow> Some (Ret w')
               | Some (Fail e, _) \<Rightarrow> Some (Fail e)
               | Some (Panic, _) \<Rightarrow> Some Panic))"

text \<open>
  \<^verbatim>\<open>OpenWal\<close> takes the metadata, the next entry and the hard state from the replay; the index of
  the last entry starts at 0.
\<close>

definition open_wal :: "log_manager \<Rightarrow> wal_dir \<Rightarrow> replay_result \<Rightarrow> (wal_error, wal) outcome" where
  "open_wal m dir r =
     bind_outcome
       (lm_open_log_file (ld_id (rr_lastLogFileDesc r)) (rr_lastValidLogOffset r) (rr_lastValidLogCrc r) m dir)
       (\<lambda>lf. Ret \<lparr>w_mgr = m, w_dir = dir,
                 w_state = \<lparr>st_metadata = rr_metadata r, st_nextEntry = rr_nextEntry r,
                            st_hardState = rr_hardState r, st_lastEntryIndex = 0\<rparr>,
                 w_file = lf, w_index = None, w_noSync = False\<rparr>)"

section \<open>Finding snapshots and replaying\<close>

text \<open>
  \<^verbatim>\<open>names\<close> is the listing of the directory: the files with the suffix \<^verbatim>\<open>.wal\<close>.
\<close>

definition find_snapshots ::
  "acquirer \<Rightarrow> raft_pb \<Rightarrow> log_file_desc list \<Rightarrow> wal_dir \<Rightarrow> (wal_error, wal_snapshot list) outcome" where
  "find_snapshots acq pb names dir =
     bind_outcome (read_valid_log_files names 0) (\<lambda>fs.
       case player_replay acq pb 0 fs False dir (new_replay_result NopEntryStore) of
         (res, _, r) \<Rightarrow>
           (let snaps = filter (\<lambda>s. ws_index s \<le> hs_commit (rr_hardState r)) (rr_walSnapshots r)
            in case res of
                 Ret _ \<Rightarrow> Ret snaps
               | Fail e \<Rightarrow> if e = WIo UnexpectedEOF then Ret snaps else Fail e
               | Panic \<Rightarrow> Panic))"

definition zero_meta :: entry_meta where
  "zero_meta = \<lparr>em_file = 0, em_offset = 0, em_len = 0, em_cap = 0\<rparr>"

text \<open>
  \<^verbatim>\<open>createWalInternal\<close> and \<^verbatim>\<open>replayWalInternal\<close> with the entry index enabled (the default; without it
  the entries go to etcd's \<^verbatim>\<open>MemoryStorage\<close>). The result of \<^verbatim>\<open>ApplySnapshot\<close> is ignored.
\<close>

definition create_indexed_wal ::
  "acquirer \<Rightarrow> raft_pb \<Rightarrow> manager_config \<Rightarrow> bytes \<Rightarrow> (wal_error, wal) outcome option" where
  "create_indexed_wal acq pb cfg metadata =
     map_option (\<lambda>r. bind_outcome r (\<lambda>w. Ret (w\<lparr>w_index := Some (new_entry_storage zero_meta)\<rparr>)))
       (create_wal acq pb metadata (new_log_manager cfg) Map.empty)"

definition restart_storage ::
  "snapshot option \<Rightarrow> bool \<Rightarrow> replay_result \<Rightarrow>
   (wal_error, replay_result \<times> entry_meta entry_storage) outcome option" where
  "restart_storage snap deleteUncommitted r =
     Option.bind
       (case snap of
          None \<Rightarrow> Some (new_entry_storage zero_meta)
        | Some sn \<Rightarrow>
            (case es_apply_snapshot zero_meta (new_entry_storage zero_meta) sn of
               None \<Rightarrow> None
             | Some (Ret s) \<Rightarrow> Some s
             | Some _ \<Rightarrow> Some (new_entry_storage zero_meta)))
       (\<lambda>s0. Some (
          let s1 = es_set_hard_state s0 (rr_hardState r)
          in bind_outcome
               (if deleteUncommitted then coll_delete_uncommitted (hs_commit (rr_hardState r)) (rr_entries r)
                else Ret (rr_entries r))
               (\<lambda>c. case c of
                      IndexedEntryStore ps \<Rightarrow>
                        (case es_append_index s1 ps of
                           Ret s2 \<Rightarrow> Ret (r\<lparr>rr_entries := c\<rparr>, s2)
                         | Fail e \<Rightarrow> Fail (WStorage e)
                         | Panic \<Rightarrow> Panic)
                    | _ \<Rightarrow> Panic)))"

definition replay_indexed_wal ::
  "acquirer \<Rightarrow> raft_pb \<Rightarrow> manager_config \<Rightarrow> log_file_desc list \<Rightarrow> wal_dir \<Rightarrow> snapshot option \<Rightarrow> bool \<Rightarrow>
   (wal_error, replay_result \<times> wal) outcome option" where
  "replay_indexed_wal acq pb cfg names dir snap deleteUncommitted =
     (let idx = (case snap of None \<Rightarrow> 0 | Some sn \<Rightarrow> snap_index sn)
      in case read_valid_log_files names idx of
           Fail e \<Rightarrow> Some (Fail e)
         | Panic \<Rightarrow> Some Panic
         | Ret fs \<Rightarrow>
             (case player_replay acq pb idx fs True dir (new_replay_result (IndexedEntryStore [])) of
                (res, dir', r) \<Rightarrow>
                  if res \<noteq> Ret () \<and> res \<noteq> Fail (WIo UnexpectedEOF) then Some (bind_outcome res (\<lambda>_. Panic))
                  else
                    case bind_outcome (new_log_manager_with_scan cfg names idx) (\<lambda>m. open_wal m dir' r) of
                      Fail e \<Rightarrow> Some (Fail e)
                    | Panic \<Rightarrow> Some Panic
                    | Ret w \<Rightarrow>
                        map_option (\<lambda>x. bind_outcome x (\<lambda>(r', s). Ret (r', w\<lparr>w_index := Some s\<rparr>)))
                          (restart_storage snap deleteUncommitted r)))"

section \<open>The records a call writes\<close>

fun recs_crc :: "u32 \<Rightarrow> (u32 \<times> log_body) list \<Rightarrow> u32" where
  "recs_crc c [] = c"
| "recs_crc c ((t, b) # rs) = recs_crc (body_crc b c) rs"

fun recs_ok :: "acquirer \<Rightarrow> u32 \<Rightarrow> (u32 \<times> log_body) list \<Rightarrow> bool" where
  "recs_ok acq c [] \<longleftrightarrow> True"
| "recs_ok acq c ((t, b) # rs) \<longleftrightarrow> rec_ok acq c t b \<and> recs_ok acq (body_crc b c) rs"

lemma recs_append [simp]:
  "recs_crc c (xs @ ys) = recs_crc (recs_crc c xs) ys"
  "recs_ok acq c (xs @ ys) \<longleftrightarrow> recs_ok acq c xs \<and> recs_ok acq (recs_crc c xs) ys"
  "recs_bytes c (xs @ ys) = recs_bytes c xs @ recs_bytes (recs_crc c xs) ys"
  by (induction acq c xs rule: recs_ok.induct) simp_all

lemma run_recs_append:
  "run_recs acq pb i c (xs @ ys) s = Option.bind (run_recs acq pb i c xs s) (run_recs acq pb i (recs_crc c xs) ys)"
  by (induction xs arbitrary: c s) (auto split: prod.split outcome.split)

definition next_rec :: "wal_next_entry \<Rightarrow> u32 \<times> log_body" where
  "next_rec ne = (LogTypeNextEntry, MarshalledLog (next_entry_bytes ne))"

definition hs_rec :: "raft_pb \<Rightarrow> hard_state \<Rightarrow> u32 \<times> log_body" where
  "hs_rec pb h = (LogTypeHardState, MarshalledLog (pb_hs pb h))"

definition entry_rec :: "entry \<Rightarrow> u32 \<times> log_body" where
  "entry_rec e = (log_type_of (ent_type e), SliceBytes (ent_data e))"

text \<open>\<^verbatim>\<open>saveEntry\<close>: an entry that is not the expected one is announced by a next-entry record.\<close>

definition at_entry :: "entry \<Rightarrow> wal_next_entry" where
  "at_entry e = \<lparr>nextTerm = ent_term e, nextIndex = ent_index e\<rparr>"

definition after_entry :: "entry \<Rightarrow> wal_next_entry" where
  "after_entry e = \<lparr>nextTerm = ent_term e, nextIndex = ent_index e + 1\<rparr>"

fun entry_recs :: "wal_next_entry \<Rightarrow> entry list \<Rightarrow> (u32 \<times> log_body) list" where
  "entry_recs ne [] = []"
| "entry_recs ne (e # es) =
     (if ne \<noteq> at_entry e then [next_rec (at_entry e)] else []) @ entry_rec e # entry_recs (after_entry e) es"

fun next_after :: "wal_next_entry \<Rightarrow> entry list \<Rightarrow> wal_next_entry" where
  "next_after ne [] = ne"
| "next_after ne (e # es) = next_after (after_entry e) es"

definition hs_recs :: "raft_pb \<Rightarrow> hard_state \<Rightarrow> (u32 \<times> log_body) list" where
  "hs_recs pb h = (if raft_is_empty_hs pb h then [] else [hs_rec pb h])"

definition prologue_recs :: "raft_pb \<Rightarrow> u32 \<Rightarrow> wal_state \<Rightarrow> (u32 \<times> log_body) list" where
  "prologue_recs pb c s =
     [(LogTypeCrc, CrcLog c), (LogTypeMetadata, SliceBytes (st_metadata s)), hs_rec pb (st_hardState s)] @
     (if empty_next_entry s then [] else [next_rec (st_nextEntry s)])"

text \<open>Frames have a length that does not depend on the checksum.\<close>

definition rec_len :: "u32 \<times> log_body \<Rightarrow> nat" where
  "rec_len r = HeaderSize + length (body_bytes (snd r)) + calc_padding (length (body_bytes (snd r)))"

lemma length_rec_bytes: "length (rec_bytes c t b) = rec_len (t, b)"
  by (simp add: rec_bytes_def frame_bytes_def rec_len_def HeaderSize_def)

section \<open>Writing\<close>

text \<open>\<^verbatim>\<open>wrote lf rs lf'\<close>: the file has grown by exactly the records.\<close>

definition wrote :: "log_file \<Rightarrow> (u32 \<times> log_body) list \<Rightarrow> log_file \<Rightarrow> bool" where
  "wrote lf rs lf' \<longleftrightarrow> lf_ok lf' \<and> lf_stream lf' = lf_stream lf @ recs_bytes (lf_enc_crc lf) rs \<and>
     lf_enc_crc lf' = recs_crc (lf_enc_crc lf) rs \<and> segmentSize (lf_pw lf') = segmentSize (lf_pw lf)"

lemma wrote_Nil: "lf_ok lf \<Longrightarrow> wrote lf [] lf"
  by (simp add: wrote_def)

lemma wrote_append: "wrote lf xs lf1 \<Longrightarrow> wrote lf1 ys lf2 \<Longrightarrow> wrote lf (xs @ ys) lf2"
  by (simp add: wrote_def)

lemma lf_put_wrote:
  assumes "lf_ok lf" and "rec_ok acq (lf_enc_crc lf) t b" and "n = length (body_bytes b)"
  shows "\<exists>lf'. lf_put acq t n b lf = (Ret (), lf') \<and> wrote lf [(t, b)] lf'"
  using lf_put_ok [OF assms(1), of b acq t] assms(2,3) by (auto simp: wrote_def rec_ok_def rec_bytes_def)

lemma on_file_wrote:
  assumes "lf_ok (w_file w)" and "rec_ok acq (lf_enc_crc (w_file w)) t b" and "n = length (body_bytes b)"
  shows "\<exists>lf'. on_file (lf_put acq t n b) w = Some (Ret (), w\<lparr>w_file := lf'\<rparr>) \<and> wrote (w_file w) [(t, b)] lf'"
  using lf_put_wrote [OF assms] by (auto simp: on_file_def)

lemma next_entry_size_length: "next_entry_size ne = length (next_entry_bytes ne)"
  by (simp add: length_next_entry_bytes)

text \<open>The positions \<^verbatim>\<open>saveEntry\<close> puts into the index.\<close>

fun entry_positions :: "u64 \<Rightarrow> nat \<Rightarrow> wal_next_entry \<Rightarrow> entry list \<Rightarrow> entry_meta entry_pos list" where
  "entry_positions fid off ne [] = []"
| "entry_positions fid off ne (e # es) =
     (let off' = off + (if ne \<noteq> at_entry e then rec_len (next_rec (at_entry e)) else 0)
      in entry_pos_of fid off' e # entry_positions fid (off' + rec_len (entry_rec e)) (after_entry e) es)"

lemma at_entry_neq:
  "ne \<noteq> at_entry e \<longleftrightarrow> nextTerm ne \<noteq> ent_term e \<or> nextIndex ne \<noteq> ent_index e"
  by (cases ne) (simp add: at_entry_def)

lemma wrote_offset: "lf_ok lf \<Longrightarrow> wrote lf [r] lf' \<Longrightarrow> lf_offset lf' = lf_offset lf + rec_len r"
  by (cases r) (simp add: wrote_def lf_offset_stream length_rec_bytes)

lemma save_announce:
  assumes "lf_ok (w_file w)" and "ne = st_nextEntry (w_state w)"
    and "recs_ok acq (lf_enc_crc (w_file w)) (if ne \<noteq> at_entry e then [next_rec (at_entry e)] else [])"
  shows "\<exists>lf'. (\<lambda>w. if nextTerm (st_nextEntry (w_state w)) \<noteq> ent_term e \<or> nextIndex (st_nextEntry (w_state w)) \<noteq> ent_index e
                then wbind (on_state (\<lambda>s. s\<lparr>st_nextEntry := \<lparr>nextTerm = ent_term e, nextIndex = ent_index e\<rparr>\<rparr>))
                       (\<lambda>_. on_file (lf_next_entry acq \<lparr>nextTerm = ent_term e, nextIndex = ent_index e\<rparr>)) w
                else wret () w) w =
      Some (Ret (), w\<lparr>w_file := lf', w_state := (w_state w)\<lparr>st_nextEntry := at_entry e\<rparr>\<rparr>) \<and>
    wrote (w_file w) (if ne \<noteq> at_entry e then [next_rec (at_entry e)] else []) lf' \<and>
    lf_offset lf' = lf_offset (w_file w) + (if ne \<noteq> at_entry e then rec_len (next_rec (at_entry e)) else 0)"
proof (cases "ne \<noteq> at_entry e")
  case True
  let ?w = "w\<lparr>w_state := (w_state w)\<lparr>st_nextEntry := at_entry e\<rparr>\<rparr>"
  obtain lf' where "on_file (lf_next_entry acq (at_entry e)) ?w = Some (Ret (), ?w\<lparr>w_file := lf'\<rparr>)"
      "wrote (w_file w) [next_rec (at_entry e)] lf'"
    using on_file_wrote [of ?w acq LogTypeNextEntry "MarshalledLog (next_entry_bytes (at_entry e))"
        "next_entry_size (at_entry e)"] assms(1,3) True
    by (auto simp: next_rec_def lf_next_entry_def next_entry_size_length)
  then show ?thesis
    using True wrote_offset [OF assms(1)] assms(2) at_entry_neq [of ne e]
    by (intro exI [of _ lf']) (simp add: on_state_def at_entry_def)
next
  case False
  then show ?thesis
    using assms at_entry_neq [of ne e] by (intro exI [of _ "w_file w"]) (auto simp: wret_def wrote_Nil)
qed

lemma save_one_ok:
  assumes ok: "lf_ok (w_file w)" and ne: "ne = st_nextEntry (w_state w)"
    and recs: "recs_ok acq (lf_enc_crc (w_file w)) (entry_recs ne [e])"
    and d: "lm_last_desc (w_mgr w) = Ret d"
  shows "\<exists>lf'. save_one acq e w =
      Some (Ret (if w_index w = None then [] else entry_positions (ld_id d) (lf_offset (w_file w)) ne [e]),
            w\<lparr>w_file := lf', w_state := (w_state w)\<lparr>st_nextEntry := after_entry e, st_lastEntryIndex := ent_index e\<rparr>\<rparr>) \<and>
    wrote (w_file w) (entry_recs ne [e]) lf' \<and>
    lf_offset lf' = lf_offset (w_file w) + (if ne \<noteq> at_entry e then rec_len (next_rec (at_entry e)) else 0) + rec_len (entry_rec e)"
proof -
  let ?a = "if ne \<noteq> at_entry e then [next_rec (at_entry e)] else []"
  have r: "recs_ok acq (lf_enc_crc (w_file w)) ?a" "recs_ok acq (recs_crc (lf_enc_crc (w_file w)) ?a) [entry_rec e]"
    using recs unfolding entry_recs.simps recs_append by blast+
  from save_announce [OF ok ne r(1)] obtain lf1 where s1:
    "(\<lambda>w. if nextTerm (st_nextEntry (w_state w)) \<noteq> ent_term e \<or> nextIndex (st_nextEntry (w_state w)) \<noteq> ent_index e
                then wbind (on_state (\<lambda>s. s\<lparr>st_nextEntry := \<lparr>nextTerm = ent_term e, nextIndex = ent_index e\<rparr>\<rparr>))
                       (\<lambda>_. on_file (lf_next_entry acq \<lparr>nextTerm = ent_term e, nextIndex = ent_index e\<rparr>)) w
                else wret () w) w =
      Some (Ret (), w\<lparr>w_file := lf1, w_state := (w_state w)\<lparr>st_nextEntry := at_entry e\<rparr>\<rparr>)"
    and w1: "wrote (w_file w) ?a lf1"
    and off: "lf_offset lf1 = lf_offset (w_file w) + (if ne \<noteq> at_entry e then rec_len (next_rec (at_entry e)) else 0)"
    by blast
  let ?w = "w\<lparr>w_file := lf1, w_state := (w_state w)\<lparr>st_nextEntry := at_entry e\<rparr>\<rparr>"
  have ok1: "lf_ok lf1" "lf_enc_crc lf1 = recs_crc (lf_enc_crc (w_file w)) ?a" using w1 by (simp_all add: wrote_def)
  obtain lf2 where s2: "on_file (lf_entry acq (log_type_of (ent_type e)) (ent_data e)) ?w = Some (Ret (), ?w\<lparr>w_file := lf2\<rparr>)"
      "wrote lf1 [entry_rec e] lf2"
    using on_file_wrote [of ?w acq "log_type_of (ent_type e)" "SliceBytes (ent_data e)" "length (ent_data e)"] ok1 r(2)
    by (auto simp: entry_rec_def lf_entry_def)
  have "wrote (w_file w) (entry_recs ne [e]) lf2" using wrote_append [OF w1 s2(2)] by simp
  moreover have "lf_offset lf2 = lf_offset lf1 + rec_len (entry_rec e)" by (rule wrote_offset [OF ok1(1) s2(2)])
  ultimately show ?thesis
    using s1 s2(1) d off
    by (intro exI [of _ lf2])
       (simp add: save_one_def wret_def tail_desc_def on_state_def after_entry_def at_entry_def del: if_split)
qed

fun last_index_of :: "u64 \<Rightarrow> entry list \<Rightarrow> u64" where
  "last_index_of i [] = i"
| "last_index_of i (e # es) = last_index_of (ent_index e) es"

lemma save_loop_ok:
  assumes "lf_ok (w_file w)" and "ne = st_nextEntry (w_state w)"
    and "recs_ok acq (lf_enc_crc (w_file w)) (entry_recs ne es)" and "lm_last_desc (w_mgr w) = Ret d"
  shows "\<exists>lf'. save_loop acq es w =
      Some (Ret (if w_index w = None then [] else entry_positions (ld_id d) (lf_offset (w_file w)) ne es),
            w\<lparr>w_file := lf', w_state := (w_state w)\<lparr>st_nextEntry := next_after ne es,
               st_lastEntryIndex := last_index_of (st_lastEntryIndex (w_state w)) es\<rparr>\<rparr>) \<and>
    wrote (w_file w) (entry_recs ne es) lf'"
  using assms
proof (induction es arbitrary: w ne)
  case Nil
  then show ?case by (intro exI [of _ "w_file w"]) (simp add: wret_def wrote_Nil)
next
  case (Cons e es)
  have split: "entry_recs ne (e # es) = entry_recs ne [e] @ entry_recs (after_entry e) es" by simp
  have recs: "recs_ok acq (lf_enc_crc (w_file w)) (entry_recs ne [e])"
    "recs_ok acq (recs_crc (lf_enc_crc (w_file w)) (entry_recs ne [e])) (entry_recs (after_entry e) es)"
    using Cons.prems(3) unfolding split recs_append by blast+
  from save_one_ok [OF Cons.prems(1,2) recs(1) Cons.prems(4)] obtain lf1 where
    s1: "save_one acq e w =
      Some (Ret (if w_index w = None then [] else entry_positions (ld_id d) (lf_offset (w_file w)) ne [e]),
            w\<lparr>w_file := lf1, w_state := (w_state w)\<lparr>st_nextEntry := after_entry e, st_lastEntryIndex := ent_index e\<rparr>\<rparr>)"
    and w1: "wrote (w_file w) (entry_recs ne [e]) lf1"
    and off: "lf_offset lf1 = lf_offset (w_file w) + (if ne \<noteq> at_entry e then rec_len (next_rec (at_entry e)) else 0) + rec_len (entry_rec e)"
    by blast
  let ?w = "w\<lparr>w_file := lf1, w_state := (w_state w)\<lparr>st_nextEntry := after_entry e, st_lastEntryIndex := ent_index e\<rparr>\<rparr>"
  have "lf_ok (w_file ?w)" "recs_ok acq (lf_enc_crc (w_file ?w)) (entry_recs (after_entry e) es)"
    using w1 recs(2) by (simp_all add: wrote_def)
  with Cons.IH [of ?w "after_entry e"] Cons.prems(4) obtain lf2 where
    s2: "save_loop acq es ?w =
      Some (Ret (if w_index ?w = None then [] else entry_positions (ld_id d) (lf_offset (w_file ?w)) (after_entry e) es),
            ?w\<lparr>w_file := lf2, w_state := (w_state ?w)\<lparr>st_nextEntry := next_after (after_entry e) es,
               st_lastEntryIndex := last_index_of (st_lastEntryIndex (w_state ?w)) es\<rparr>\<rparr>)"
    and w2: "wrote (w_file ?w) (entry_recs (after_entry e) es) lf2" by fastforce
  have "wrote lf1 (entry_recs (after_entry e) es) lf2" using w2 by simp
  then have "wrote (w_file w) (entry_recs ne (e # es)) lf2" unfolding split by (rule wrote_append [OF w1])
  then show ?case using s1 s2 off by (intro exI [of _ lf2]) (simp add: wret_def Let_def)
qed

section \<open>Reading the records back\<close>

text \<open>What the collection of a replay makes of one saved entry, and of a batch.\<close>

definition coll_entry :: "u64 \<Rightarrow> u64 \<Rightarrow> nat \<Rightarrow> entry \<Rightarrow> entry_coll \<Rightarrow> (wal_error, entry_coll) outcome" where
  "coll_entry fid i off e coll =
     (case coll of
        NopEntryStore \<Rightarrow> Fail WNotImplemented
      | EntryStore es \<Rightarrow> bind_outcome (coll_put i (ent_index e) e es) (\<lambda>x. Ret (EntryStore x))
      | IndexedEntryStore es \<Rightarrow>
          bind_outcome (coll_put i (ent_index e) (entry_pos_of fid off e) es) (\<lambda>x. Ret (IndexedEntryStore x)))"

fun coll_entries ::
  "u64 \<Rightarrow> u64 \<Rightarrow> nat \<Rightarrow> wal_next_entry \<Rightarrow> entry list \<Rightarrow> entry_coll \<Rightarrow> (wal_error, entry_coll) outcome" where
  "coll_entries fid i off ne [] coll = Ret coll"
| "coll_entries fid i off ne (e # es) coll =
     (let off' = off + (if ne \<noteq> at_entry e then rec_len (next_rec (at_entry e)) else 0)
      in bind_outcome (coll_entry fid i off' e coll)
           (coll_entries fid i (off' + rec_len (entry_rec e)) (after_entry e) es))"

lemma entry_type_round: "entry_type_of (log_type_of t) = t"
  by (cases t) (simp_all add: entry_type_of_def log_type_of_def log_type_defs)

lemma entry_eta: "\<lparr>ent_term = ent_term e, ent_index = ent_index e, ent_type = ent_type e, ent_data = ent_data e\<rparr> = e"
  by (cases e) simp

lemma coll_decode_entry:
  assumes "rr_nextEntry r = at_entry e" and "coll_entry fid i (rr_lastValidLogOffset r) e (rr_entries r) = Ret coll"
    and "cap = length (ent_data e) + calc_padding (length (ent_data e))"
  shows "coll_decode fid i (log_type_of (ent_type e)) (ent_data e) cap r =
    Ret (r\<lparr>rr_entries := coll, rr_nextEntry := after_entry e\<rparr>)"
proof -
  have "calc_padding (length (ent_data e)) = (8 - length (ent_data e) mod 8) mod 8"
    by (simp add: calc_padding_def HeaderSize_def)
  then show ?thesis
    using assms
    by (auto simp: coll_decode_def coll_entry_def Let_def at_entry_def after_entry_def entry_type_round entry_eta
        entry_pos_of_def bind_outcome_Ret_iff split: entry_coll.splits)
qed

lemma coll_entry_not_Nop: "coll_entry fid i off e coll = Ret coll' \<Longrightarrow> coll \<noteq> NopEntryStore \<and> coll' \<noteq> NopEntryStore"
  by (auto simp: coll_entry_def bind_outcome_Ret_iff split: entry_coll.splits)

lemma fr_size_rec: "fr_size (rec_frame c t b) = rec_len (t, b)"
  using length_rec_bytes [of c t b] by (simp add: rec_frame_def rec_bytes_def)

text \<open>The effect of a batch on the parser.\<close>

definition parsed :: "parse_state \<Rightarrow> (u32 \<times> log_body) list \<Rightarrow> replay_result \<Rightarrow> replay_result" where
  "parsed s rs r = r\<lparr>rr_lastValidLogCrc := recs_crc (rr_lastValidLogCrc (ps_result s)) rs,
     rr_lastValidLogOffset := rr_lastValidLogOffset (ps_result s) + length (recs_bytes (rr_lastValidLogCrc (ps_result s)) rs)\<rparr>"

lemma run_next_rec:
  assumes "rr_lastValidLogCrc (ps_result s) = c" and "recs_ok acq c [next_rec ne]"
  shows "run_recs acq pb i c [next_rec ne] s =
    Some \<lparr>ps_result = parsed s [next_rec ne] ((ps_result s)\<lparr>rr_nextEntry := ne\<rparr>), ps_findNextEntry = True\<rparr>"
  using assms
  by (simp add: next_rec_def handler_next_entry fr_size_rec parsed_def advance_def length_rec_bytes)

lemma run_entry_rec:
  assumes c: "rr_lastValidLogCrc (ps_result s) = c" and ok: "recs_ok acq c [entry_rec e]" and f: "ps_findNextEntry s"
    and ne: "rr_nextEntry (ps_result s) = at_entry e"
    and coll: "coll_entry (ld_id (rr_lastLogFileDesc (ps_result s))) i (rr_lastValidLogOffset (ps_result s)) e
            (rr_entries (ps_result s)) = Ret coll"
  shows "run_recs acq pb i c [entry_rec e] s =
    Some (s\<lparr>ps_result := parsed s [entry_rec e] ((ps_result s)\<lparr>rr_entries := coll, rr_nextEntry := after_entry e\<rparr>)\<rparr>)"
proof -
  let ?t = "log_type_of (ent_type e)" and ?b = "SliceBytes (ent_data e)"
  have t: "?t = LogTypeNormalEntry \<or> ?t = LogTypeConfChangeEntry \<or> ?t = LogTypeConfChangeV2Entry"
    by (cases "ent_type e") (simp_all add: log_type_of_def)
  have "fr_size (rec_frame c ?t ?b) - HeaderSize = length (ent_data e) + calc_padding (length (ent_data e))"
    by (simp add: fr_size_rec rec_len_def)
  from coll_decode_entry [OF _ _ this, of "(ps_result s)\<lparr>rr_lastValidLogCrc := crc32_update c (ent_data e)\<rparr>"] ne coll
  have dec: "coll_decode (ld_id (rr_lastLogFileDesc (ps_result s))) i ?t (ent_data e) (fr_size (rec_frame c ?t ?b) - HeaderSize)
      ((ps_result s)\<lparr>rr_lastValidLogCrc := crc32_update c (ent_data e)\<rparr>) =
     Ret ((ps_result s)\<lparr>rr_lastValidLogCrc := crc32_update c (ent_data e), rr_entries := coll, rr_nextEntry := after_entry e\<rparr>)"
    by simp
  have nop: "rr_entries (ps_result s) \<noteq> NopEntryStore" using coll_entry_not_Nop [OF coll] by simp
  show ?thesis
    using handler_entry [OF c f t nop dec] ok c
    by (simp add: entry_rec_def fr_size_rec parsed_def advance_def length_rec_bytes)
qed

lemma parsed_append:
  assumes "run_recs acq pb i c xs s = Some s1" and "ps_result s1 = parsed s xs r"
  shows "parsed s1 ys r' = parsed s (xs @ ys) r'"
  using assms by (simp add: parsed_def)

lemma run_announce:
  assumes "rr_lastValidLogCrc (ps_result s) = c" and "rr_nextEntry (ps_result s) = ne"
    and "nextTerm ne \<noteq> 0 \<longrightarrow> ps_findNextEntry s" and "ent_term e \<noteq> 0"
    and "recs_ok acq c (if ne \<noteq> at_entry e then [next_rec (at_entry e)] else [])"
  shows "\<exists>s1. run_recs acq pb i c (if ne \<noteq> at_entry e then [next_rec (at_entry e)] else []) s = Some s1 \<and>
      ps_findNextEntry s1 \<and>
      ps_result s1 = parsed s (if ne \<noteq> at_entry e then [next_rec (at_entry e)] else [])
        ((ps_result s)\<lparr>rr_nextEntry := at_entry e\<rparr>)"
proof (cases "ne \<noteq> at_entry e")
  case True
  then show ?thesis using run_next_rec [OF assms(1), of acq "at_entry e" pb i] assms(5) by simp
next
  case False
  then have "ps_findNextEntry s" using assms(3,4) by (simp add: at_entry_def)
  moreover have "ps_result s = parsed s [] ((ps_result s)\<lparr>rr_nextEntry := at_entry e\<rparr>)"
    using False assms(1,2) by (simp add: parsed_def)
  ultimately show ?thesis using False by simp
qed

lemma run_entry_recs:
  assumes "rr_lastValidLogCrc (ps_result s) = c" and "rr_nextEntry (ps_result s) = ne"
    and "nextTerm ne \<noteq> 0 \<longrightarrow> ps_findNextEntry s" and "\<forall>e\<in>set es. ent_term e \<noteq> 0"
    and "recs_ok acq c (entry_recs ne es)"
    and "coll_entries (ld_id (rr_lastLogFileDesc (ps_result s))) i (rr_lastValidLogOffset (ps_result s)) ne es
            (rr_entries (ps_result s)) = Ret coll"
  shows "run_recs acq pb i c (entry_recs ne es) s =
    Some \<lparr>ps_result = parsed s (entry_recs ne es)
            ((ps_result s)\<lparr>rr_entries := coll, rr_nextEntry := next_after ne es\<rparr>),
          ps_findNextEntry = (ps_findNextEntry s \<or> es \<noteq> [])\<rparr>"
  using assms
proof (induction es arbitrary: s c ne)
  case Nil
  then show ?case by (cases s) (auto simp: parsed_def)
next
  case (Cons e es)
  let ?a = "if ne \<noteq> at_entry e then [next_rec (at_entry e)] else []"
  have split: "entry_recs ne (e # es) = ?a @ [entry_rec e] @ entry_recs (after_entry e) es" by simp
  have recs: "recs_ok acq c ?a" "recs_ok acq (recs_crc c ?a) [entry_rec e]"
    "recs_ok acq (recs_crc c (?a @ [entry_rec e])) (entry_recs (after_entry e) es)"
    using Cons.prems(5) unfolding split recs_append by auto
  have te: "ent_term e \<noteq> 0" using Cons.prems(4) by simp
  from run_announce [OF Cons.prems(1,2,3) te recs(1), of pb i] obtain s1 where s1:
      "run_recs acq pb i c ?a s = Some s1" "ps_findNextEntry s1"
      "ps_result s1 = parsed s ?a ((ps_result s)\<lparr>rr_nextEntry := at_entry e\<rparr>)" by blast
  let ?off = "rr_lastValidLogOffset (ps_result s) + (if ne \<noteq> at_entry e then rec_len (next_rec (at_entry e)) else 0)"
  let ?fid = "ld_id (rr_lastLogFileDesc (ps_result s))"
  have at1: "rr_lastValidLogCrc (ps_result s1) = recs_crc c ?a" "rr_lastValidLogOffset (ps_result s1) = ?off"
    "rr_nextEntry (ps_result s1) = at_entry e" "rr_lastLogFileDesc (ps_result s1) = rr_lastLogFileDesc (ps_result s)"
    "rr_entries (ps_result s1) = rr_entries (ps_result s)"
    using s1(3) Cons.prems(1) by (simp_all add: parsed_def next_rec_def length_rec_bytes)
  obtain c1 where c1: "coll_entry ?fid i ?off e (rr_entries (ps_result s)) = Ret c1"
      "coll_entries ?fid i (?off + rec_len (entry_rec e)) (after_entry e) es c1 = Ret coll"
    using Cons.prems(6) by (auto simp: Let_def bind_outcome_Ret_iff simp del: if_split)
  define s2 where "s2 = s1\<lparr>ps_result := parsed s1 [entry_rec e] ((ps_result s1)\<lparr>rr_entries := c1, rr_nextEntry := after_entry e\<rparr>)\<rparr>"
  have r2: "run_recs acq pb i (recs_crc c ?a) [entry_rec e] s1 = Some s2"
    unfolding s2_def using run_entry_rec [OF at1(1) recs(2) s1(2) at1(3)] c1(1) at1 by simp
  have at2: "rr_lastValidLogCrc (ps_result s2) = recs_crc c (?a @ [entry_rec e])"
    "rr_lastValidLogOffset (ps_result s2) = ?off + rec_len (entry_rec e)" "rr_nextEntry (ps_result s2) = after_entry e"
    "rr_lastLogFileDesc (ps_result s2) = rr_lastLogFileDesc (ps_result s)" "rr_entries (ps_result s2) = c1" "ps_findNextEntry s2"
    using at1 s1(2) by (simp_all add: s2_def parsed_def entry_rec_def length_rec_bytes)
  have "run_recs acq pb i (recs_crc c (?a @ [entry_rec e])) (entry_recs (after_entry e) es) s2 =
    Some \<lparr>ps_result = parsed s2 (entry_recs (after_entry e) es)
            ((ps_result s2)\<lparr>rr_entries := coll, rr_nextEntry := next_after (after_entry e) es\<rparr>),
          ps_findNextEntry = (ps_findNextEntry s2 \<or> es \<noteq> [])\<rparr>"
    using Cons.prems(4) at2 c1(2) by (intro Cons.IH recs(3)) auto
  moreover have "run_recs acq pb i c (entry_recs ne (e # es)) s =
      run_recs acq pb i (recs_crc c (?a @ [entry_rec e])) (entry_recs (after_entry e) es) s2"
    unfolding split by (simp only: run_recs_append s1(1) r2 Option.bind.simps recs_append(1))
  moreover have "parsed s2 (entry_recs (after_entry e) es)
            ((ps_result s2)\<lparr>rr_entries := coll, rr_nextEntry := next_after (after_entry e) es\<rparr>) =
      parsed s (entry_recs ne (e # es)) ((ps_result s)\<lparr>rr_entries := coll, rr_nextEntry := next_after ne (e # es)\<rparr>)"
    unfolding split using s1(3) Cons.prems(1)
    by (cases "ne = at_entry e") (simp_all add: s2_def parsed_def entry_rec_def next_rec_def add.assoc)
  ultimately show ?case using at2(6) by (simp del: if_split run_recs.simps entry_recs.simps)
qed

end
