(* ===== verification/Wal_Recovery.thy ===== *)
theory Wal_Recovery
  imports Wal
begin

text \<open>
  Recovery of the write-ahead log. The invariant \<open>wal_holds\<close> says that parsing the bytes handed to
  the files gives exactly the state the log has in memory; creating, saving, cycling, syncing and
  reopening keep it. From it follow what survives a crash, what does not (a vote saved without
  entries), and what a restart finds.
\<close>

section \<open>The log on disk determines the state\<close>

text \<open>
  \<^verbatim>\<open>file_at\<close>: parsing the bytes handed to the file so far takes the parser to \<^verbatim>\<open>s\<close>, in step with the
  encoder. \<^verbatim>\<open>agrees\<close>: what the parser knows then is what the log holds in memory.
\<close>

definition file_at :: "acquirer \<Rightarrow> raft_pb \<Rightarrow> u64 \<Rightarrow> log_file_desc \<Rightarrow> replay_result \<Rightarrow> log_file \<Rightarrow> parse_state \<Rightarrow> bool" where
  "file_at acq pb i d r0 lf s \<longleftrightarrow>
     (\<exists>rs. lf_stream lf = file_header @ recs_bytes 0 rs \<and> recs_crc 0 rs = lf_enc_crc lf \<and>
           run_recs acq pb i 0 rs (start_state d r0) = Some s) \<and>
     lf_ok lf \<and> rr_lastValidLogCrc (ps_result s) = lf_enc_crc lf"

definition agrees :: "log_file_desc \<Rightarrow> wal_state \<Rightarrow> entry_coll \<Rightarrow> parse_state \<Rightarrow> bool" where
  "agrees d st coll s \<longleftrightarrow>
     rr_lastLogFileDesc (ps_result s) = d \<and> rr_metadata (ps_result s) = st_metadata st \<and>
     rr_hardState (ps_result s) = st_hardState st \<and> rr_nextEntry (ps_result s) = st_nextEntry st \<and>
     rr_entries (ps_result s) = coll \<and> (nextTerm (st_nextEntry st) \<noteq> 0 \<longrightarrow> ps_findNextEntry s)"

lemma file_at_step:
  assumes "file_at acq pb i d r0 lf s" and "wrote lf rs lf'"
    and "run_recs acq pb i (lf_enc_crc lf) rs s = Some s'"
    and "rr_lastValidLogCrc (ps_result s') = recs_crc (lf_enc_crc lf) rs"
  shows "file_at acq pb i d r0 lf' s'"
proof -
  obtain rs0 where "lf_stream lf = file_header @ recs_bytes 0 rs0" "recs_crc 0 rs0 = lf_enc_crc lf"
      "run_recs acq pb i 0 rs0 (start_state d r0) = Some s"
    using assms(1) by (auto simp: file_at_def)
  then have "lf_stream lf' = file_header @ recs_bytes 0 (rs0 @ rs) \<and> recs_crc 0 (rs0 @ rs) = lf_enc_crc lf' \<and>
      run_recs acq pb i 0 (rs0 @ rs) (start_state d r0) = Some s'"
    using assms(2,3) by (simp add: wrote_def run_recs_append)
  then show ?thesis using assms(2,4) unfolding file_at_def wrote_def by metis
qed

lemma file_at_offset:
  assumes "file_at acq pb i d r0 lf s"
  shows "rr_lastValidLogOffset (ps_result s) = lf_offset lf"
proof -
  obtain rs where rs: "lf_stream lf = file_header @ recs_bytes 0 rs" "run_recs acq pb i 0 rs (start_state d r0) = Some s"
    using assms by (auto simp: file_at_def)
  have "lf_ok lf" using assms by (simp add: file_at_def)
  then show ?thesis using run_recs_keeps [OF rs(2)] rs(1) by (simp add: lf_offset_stream start_state_def)
qed

lemma file_at_entries:
  assumes at: "file_at acq pb i d r0 lf s" and ag: "agrees d st coll s" and w: "wrote lf (entry_recs (st_nextEntry st) es) lf'"
    and recs: "recs_ok acq (lf_enc_crc lf) (entry_recs (st_nextEntry st) es)" and tm: "\<forall>e\<in>set es. ent_term e \<noteq> 0"
    and coll: "coll_entries (ld_id d) i (lf_offset lf) (st_nextEntry st) es coll = Ret coll'"
  shows "\<exists>s'. file_at acq pb i d r0 lf' s' \<and>
    agrees d (st\<lparr>st_nextEntry := next_after (st_nextEntry st) es, st_lastEntryIndex := n\<rparr>) coll' s'"
proof -
  let ?ne = "st_nextEntry st"
  define s' where "s' = \<lparr>ps_result = parsed s (entry_recs ?ne es)
            ((ps_result s)\<lparr>rr_entries := coll', rr_nextEntry := next_after ?ne es\<rparr>),
          ps_findNextEntry = (ps_findNextEntry s \<or> es \<noteq> [])\<rparr>"
  have "run_recs acq pb i (lf_enc_crc lf) (entry_recs ?ne es) s = Some s'"
    unfolding s'_def
    using at ag tm recs coll file_at_offset [OF at] by (intro run_entry_recs) (auto simp: file_at_def agrees_def)
  moreover have "rr_lastValidLogCrc (ps_result s) = lf_enc_crc lf" using at by (simp add: file_at_def)
  ultimately have "file_at acq pb i d r0 lf' s'"
    by (intro file_at_step [OF at w]) (simp_all add: s'_def parsed_def)
  moreover have "agrees d (st\<lparr>st_nextEntry := next_after ?ne es, st_lastEntryIndex := n\<rparr>) coll' s'"
    using ag by (cases es) (auto simp: agrees_def s'_def parsed_def)
  ultimately show ?thesis by blast
qed

lemma run_hs_rec:
  assumes "rr_lastValidLogCrc (ps_result s) = c" and "recs_ok acq c [hs_rec pb h]" and "raft_pb_ok pb"
  shows "run_recs acq pb i c [hs_rec pb h] s =
    Some (s\<lparr>ps_result := parsed s [hs_rec pb h] ((ps_result s)\<lparr>rr_hardState := h\<rparr>)\<rparr>)"
  using assms
  by (simp add: hs_rec_def handler_hard_state fr_size_rec parsed_def advance_def length_rec_bytes)

lemma run_metadata_rec:
  assumes "rr_lastValidLogCrc (ps_result s) = c" and "recs_ok acq c [(LogTypeMetadata, SliceBytes m)]"
  shows "run_recs acq pb i c [(LogTypeMetadata, SliceBytes m)] s =
    Some (s\<lparr>ps_result := parsed s [(LogTypeMetadata, SliceBytes m)] ((ps_result s)\<lparr>rr_metadata := m\<rparr>)\<rparr>)"
  using assms by (simp add: handler_metadata fr_size_rec parsed_def advance_def length_rec_bytes)

lemma run_snapshot_rec:
  assumes "rr_lastValidLogCrc (ps_result s) = c" and "recs_ok acq c [(LogTypeSnapshot, MarshalledLog (pb_snap pb w))]"
    and "raft_pb_ok pb"
  shows "run_recs acq pb i c [(LogTypeSnapshot, MarshalledLog (pb_snap pb w))] s =
    Some (s\<lparr>ps_result := parsed s [(LogTypeSnapshot, MarshalledLog (pb_snap pb w))]
              ((ps_result s)\<lparr>rr_walSnapshots := rr_walSnapshots (ps_result s) @ [w]\<rparr>)\<rparr>)"
  using assms by (simp add: handler_snapshot fr_size_rec parsed_def advance_def length_rec_bytes)

lemma file_at_hs:
  assumes at: "file_at acq pb i d r0 lf s" and ag: "agrees d st coll s" and w: "wrote lf [hs_rec pb h] lf'"
    and recs: "recs_ok acq (lf_enc_crc lf) [hs_rec pb h]" and pb: "raft_pb_ok pb"
  shows "\<exists>s'. file_at acq pb i d r0 lf' s' \<and> agrees d (st\<lparr>st_hardState := h\<rparr>) coll s'"
proof -
  define s' where "s' = s\<lparr>ps_result := parsed s [hs_rec pb h] ((ps_result s)\<lparr>rr_hardState := h\<rparr>)\<rparr>"
  have c: "rr_lastValidLogCrc (ps_result s) = lf_enc_crc lf" using at by (simp add: file_at_def)
  have "run_recs acq pb i (lf_enc_crc lf) [hs_rec pb h] s = Some s'"
    unfolding s'_def by (rule run_hs_rec [OF c recs pb])
  then have "file_at acq pb i d r0 lf' s'"
    using c by (intro file_at_step [OF at w]) (simp_all add: s'_def parsed_def)
  moreover have "agrees d (st\<lparr>st_hardState := h\<rparr>) coll s'" using ag by (simp add: agrees_def s'_def parsed_def)
  ultimately show ?thesis by blast
qed

section \<open>Cycling keeps the log\<close>

lemma on_file_sync:
  assumes "lf_ok (w_file w)" and "wrote lf0 rs (w_file w)"
  shows "\<exists>lf' n. on_file (lf_sync b) w = Some (Ret (), w\<lparr>w_file := lf'\<rparr>) \<and> wrote lf0 rs lf' \<and>
     lf_offset lf' = lf_offset (w_file w) \<and>
     fl_data (pw_file (lf_pw lf')) = lf_stream lf' @ replicate n 0 \<and>
     fl_pos (pw_file (lf_pw lf')) = lf_offset lf' \<and> (lf_do_cycle lf' \<longrightarrow> n = 0) \<and>
     (b \<longrightarrow> fl_synced (pw_file (lf_pw lf')) = fl_data (pw_file (lf_pw lf')))"
  using lf_sync_ok [OF assms(1), of b] assms lf_offset_stream [of "w_file w"]
  by (auto simp: on_file_def wrote_def lf_offset_stream lf_do_cycle_def pw_check_cycle_def simp flip: lf_offset_def)

text \<open>The manager knows the current file under its final name, and the next id is free.\<close>

definition mgr_at :: "log_manager \<Rightarrow> log_file_desc \<Rightarrow> bool" where
  "mgr_at m d \<longleftrightarrow> lm_find m (ld_id d) = Some d \<and> lm_next m = ld_id d + 1 \<and> \<not> ld_temp d \<and>
     0 < mc_page (lm_cfg m) \<and> mc_page (lm_cfg m) \<le> mc_buf (lm_cfg m)"

lemma mgr_at_last: "mgr_at m d \<Longrightarrow> lm_last_desc m = Ret d"
  by (auto simp: mgr_at_def lm_last_desc_def lm_find_def)

lemma lm_find_set: "lm_find (lm_set m d) (ld_id d) = Some d"
proof -
  have "find (\<lambda>x. ld_id x = ld_id d) (filter (\<lambda>x. ld_id x \<noteq> ld_id d) xs @ [d]) = Some d" for xs
    by (induction xs) auto
  then show ?thesis by (simp add: lm_find_def lm_set_def desc_insert_def)
qed

lemma desc_final [simp]: "\<not> ld_temp d \<Longrightarrow> d\<lparr>ld_temp := False\<rparr> = d"
  by (cases d) simp

lemma fresh_file:
  assumes "0 < mc_page (lm_cfg m)" and "mc_page (lm_cfg m) \<le> mc_buf (lm_cfg m)"
  shows "\<exists>lf. lm_create_next_temp (lm_next m) k m =
      Ret (lf, (lm_set m \<lparr>ld_id = lm_next m, ld_start = k, ld_temp = True\<rparr>)\<lparr>lm_next := lm_next m + 1\<rparr>) \<and>
    lf_ok lf \<and> lf_stream lf = file_header \<and> lf_enc_crc lf = 0 \<and> segmentSize (lf_pw lf) = mc_chunk (lm_cfg m)"
proof -
  let ?cfg = "lm_cfg m" and ?f = "create_log_file_handle (mc_chunk (lm_cfg m))"
  let ?lf = "\<lparr>lf_pw = create_writer (mc_chunk ?cfg) (mc_page ?cfg) (mc_buf ?cfg) ?f, lf_enc_crc = 0\<rparr>"
  have d: "fl_data ?f = file_header @ replicate (mc_chunk ?cfg - LogFileHeaderLength) 0" "fl_pos ?f = LogFileHeaderLength"
    using create_handle by (simp_all add: file_header_def)
  have "lf_ok ?lf \<and> lf_stream ?lf = take (fl_pos ?f) (fl_data ?f)"
    by (rule lf_ok_create [OF assms]) (use d in auto)
  then show ?thesis using d by (simp add: lm_create_next_temp_def Let_def) (simp add: create_writer_def)
qed

lemma prologue_ok:
  assumes ok: "lf_ok (w_file w)" and recs: "recs_ok acq (lf_enc_crc (w_file w)) (prologue_recs pb c (w_state w))"
  shows "\<exists>lf' n. write_prologue acq pb c w = Some (Ret (), w\<lparr>w_file := lf'\<rparr>) \<and>
     wrote (w_file w) (prologue_recs pb c (w_state w)) lf' \<and>
     fl_data (pw_file (lf_pw lf')) = lf_stream lf' @ replicate n 0 \<and>
     fl_synced (pw_file (lf_pw lf')) = fl_data (pw_file (lf_pw lf'))"
proof -
  let ?s = "w_state w" and ?c0 = "lf_enc_crc (w_file w)"
  let ?m = "(LogTypeMetadata, SliceBytes (st_metadata ?s))" and ?n = "if empty_next_entry ?s then [] else [next_rec (st_nextEntry ?s)]"
  have r: "rec_ok acq ?c0 LogTypeCrc (CrcLog c)" "recs_ok acq c [?m]" "recs_ok acq (recs_crc c [?m]) [hs_rec pb (st_hardState ?s)]"
    "recs_ok acq (recs_crc c [?m, hs_rec pb (st_hardState ?s)]) ?n"
    using recs by (simp_all add: prologue_recs_def hs_rec_def)
  obtain lf1 where 1: "on_file (lf_crc acq c) w = Some (Ret (), w\<lparr>w_file := lf1\<rparr>)" "wrote (w_file w) [(LogTypeCrc, CrcLog c)] lf1"
    using on_file_wrote [OF ok r(1), of 4] by (auto simp: lf_crc_def)
  then obtain lf2 where 2: "on_file (lf_metadata acq (st_metadata ?s)) (w\<lparr>w_file := lf1\<rparr>) = Some (Ret (), w\<lparr>w_file := lf2\<rparr>)"
      "wrote lf1 [?m] lf2"
    using on_file_wrote [of "w\<lparr>w_file := lf1\<rparr>" acq LogTypeMetadata "SliceBytes (st_metadata ?s)" "length (st_metadata ?s)"] r(2)
    by (auto simp: lf_metadata_def wrote_def)
  have c2: "lf_ok lf2" "lf_enc_crc lf2 = recs_crc c [?m]" using 1(2) 2(2) by (simp_all add: wrote_def)
  then obtain lf3 where 3: "on_file (lf_hard_state acq pb (st_hardState ?s)) (w\<lparr>w_file := lf2\<rparr>) = Some (Ret (), w\<lparr>w_file := lf3\<rparr>)"
      "wrote lf2 [hs_rec pb (st_hardState ?s)] lf3"
    using on_file_wrote [of "w\<lparr>w_file := lf2\<rparr>" acq LogTypeHardState "MarshalledLog (pb_hs pb (st_hardState ?s))"
        "length (pb_hs pb (st_hardState ?s))"] r(3)
    by (auto simp: lf_hard_state_def hs_rec_def)
  have c3: "lf_ok lf3" "lf_enc_crc lf3 = recs_crc c [?m, hs_rec pb (st_hardState ?s)]"
    using 3(2) c2 by (simp_all add: wrote_def hs_rec_def)
  obtain lf4 where 4: "(if empty_next_entry ?s then wret () (w\<lparr>w_file := lf3\<rparr>)
        else on_file (lf_next_entry acq (st_nextEntry ?s)) (w\<lparr>w_file := lf3\<rparr>)) = Some (Ret (), w\<lparr>w_file := lf4\<rparr>)" "wrote lf3 ?n lf4"
    using on_file_wrote [of "w\<lparr>w_file := lf3\<rparr>" acq LogTypeNextEntry "MarshalledLog (next_entry_bytes (st_nextEntry ?s))"
        "next_entry_size (st_nextEntry ?s)"] r(4) c3
    by (cases "empty_next_entry ?s") (auto simp: wret_def wrote_Nil next_rec_def lf_next_entry_def next_entry_size_length)
  have w4: "wrote (w_file w) (prologue_recs pb c ?s) lf4"
    using wrote_append [OF wrote_append [OF wrote_append [OF 1(2) 2(2)] 3(2)] 4(2)] by (simp add: prologue_recs_def)
  obtain lf' n where "on_file (lf_sync True) (w\<lparr>w_file := lf4\<rparr>) = Some (Ret (), w\<lparr>w_file := lf'\<rparr>)"
      "wrote (w_file w) (prologue_recs pb c ?s) lf'" "fl_data (pw_file (lf_pw lf')) = lf_stream lf' @ replicate n 0"
      "fl_synced (pw_file (lf_pw lf')) = fl_data (pw_file (lf_pw lf'))"
    using on_file_sync [of "w\<lparr>w_file := lf4\<rparr>" "w_file w" _ True] w4 by (fastforce simp: wrote_def)
  then show ?thesis using 1(1) 2(1) 3(1) 4(1) by (auto simp: write_prologue_def simp del: if_split)
qed

lemma run_crc_rec:
  assumes "recs_ok acq c0 [(LogTypeCrc, CrcLog c)]"
  shows "run_recs acq pb i c0 [(LogTypeCrc, CrcLog c)] s =
    Some (s\<lparr>ps_result := parsed s [(LogTypeCrc, CrcLog c)] (ps_result s)\<rparr>)"
  using assms by (simp add: handler_crc fr_size_rec parsed_def advance_def length_rec_bytes)

lemma file_at_prologue:
  assumes lf0: "lf_stream lf0 = file_header" "lf_enc_crc lf0 = 0" and w: "wrote lf0 (prologue_recs pb c st) lf'"
    and recs: "recs_ok acq 0 (prologue_recs pb c st)" and pb: "raft_pb_ok pb" and ag: "agrees d0 st coll s0"
  shows "\<exists>s'. file_at acq pb i d' (ps_result s0) lf' s' \<and> agrees d' st coll s'"
proof -
  let ?k = "(LogTypeCrc, CrcLog c)" and ?m = "(LogTypeMetadata, SliceBytes (st_metadata st))"
    and ?h = "hs_rec pb (st_hardState st)" and ?n = "if empty_next_entry st then [] else [next_rec (st_nextEntry st)]"
  define s1 where "s1 = (let s = start_state d' (ps_result s0) in s\<lparr>ps_result := parsed s [?k] (ps_result s)\<rparr>)"
  define s2 where "s2 = s1\<lparr>ps_result := parsed s1 [?m] ((ps_result s1)\<lparr>rr_metadata := st_metadata st\<rparr>)\<rparr>"
  define s3 where "s3 = s2\<lparr>ps_result := parsed s2 [?h] ((ps_result s2)\<lparr>rr_hardState := st_hardState st\<rparr>)\<rparr>"
  have r: "recs_ok acq 0 [?k]" "recs_ok acq c [?m]" "recs_ok acq (recs_crc c [?m]) [?h]"
    "recs_ok acq (recs_crc c [?m, ?h]) ?n"
    using recs by (simp_all add: prologue_recs_def hs_rec_def)
  have c: "rr_lastValidLogCrc (ps_result s1) = c" "rr_lastValidLogCrc (ps_result s2) = recs_crc c [?m]"
    "rr_lastValidLogCrc (ps_result s3) = recs_crc c [?m, ?h]"
    by (simp_all add: s1_def s2_def s3_def parsed_def hs_rec_def Let_def)
  have run: "run_recs acq pb i 0 [?k] (start_state d' (ps_result s0)) = Some s1"
    "run_recs acq pb i c [?m] s1 = Some s2" "run_recs acq pb i (recs_crc c [?m]) [?h] s2 = Some s3"
    unfolding s1_def Let_def s2_def s3_def
    using run_crc_rec [OF r(1)] run_metadata_rec [OF c(1) r(2)] run_hs_rec [OF c(2) r(3) pb]
    by (simp_all only: s1_def s2_def Let_def)
  have ne3: "rr_nextEntry (ps_result s3) = st_nextEntry st"
    using ag by (simp add: agrees_def s3_def s2_def s1_def parsed_def start_state_def Let_def)
  have "\<exists>s4. run_recs acq pb i (recs_crc c [?m, ?h]) ?n s3 = Some s4 \<and>
      ps_result s4 = parsed s3 ?n ((ps_result s3)\<lparr>rr_nextEntry := st_nextEntry st\<rparr>) \<and> (\<not> empty_next_entry st \<longrightarrow> ps_findNextEntry s4)"
  proof (cases "empty_next_entry st")
    case True
    then show ?thesis using ne3 c(3) by (intro exI [of _ s3]) (simp add: parsed_def)
  next
    case False
    then show ?thesis using run_next_rec [OF c(3), of acq "st_nextEntry st" pb i] r(4) by simp
  qed
  then obtain s4 where 4: "run_recs acq pb i (recs_crc c [?m, ?h]) ?n s3 = Some s4"
      "ps_result s4 = parsed s3 ?n ((ps_result s3)\<lparr>rr_nextEntry := st_nextEntry st\<rparr>)" "\<not> empty_next_entry st \<longrightarrow> ps_findNextEntry s4"
    by blast
  have "run_recs acq pb i 0 ([?k] @ [?m] @ [?h] @ ?n) (start_state d' (ps_result s0)) = Some s4"
    unfolding run_recs_append run Option.bind.simps using run 4(1) by (simp add: hs_rec_def)
  then have "run_recs acq pb i 0 (prologue_recs pb c st) (start_state d' (ps_result s0)) = Some s4"
    by (simp only: prologue_recs_def append_Cons append_Nil)
  moreover have "rr_lastValidLogCrc (ps_result s4) = recs_crc 0 (prologue_recs pb c st)"
    using c(3) 4(2) by (simp add: parsed_def prologue_recs_def hs_rec_def)
  ultimately have "file_at acq pb i d' (ps_result s0) lf' s4"
    using w lf0 unfolding file_at_def wrote_def by (intro conjI exI [of _ "prologue_recs pb c st"]) auto
  moreover have "agrees d' st coll s4"
    using 4(2,3) ag by (auto simp: agrees_def parsed_def s3_def s2_def s1_def start_state_def Let_def empty_next_entry_def)
  ultimately show ?thesis by blast
qed

lemma reopen_ok:
  assumes m: "lm_find (w_mgr w) (ld_id d) = Some d" "\<not> ld_temp d" "0 < mc_page (lm_cfg (w_mgr w))"
      "mc_page (lm_cfg (w_mgr w)) \<le> mc_buf (lm_cfg (w_mgr w))" "segmentSize (lf_pw lf) = mc_chunk (lm_cfg (w_mgr w))"
    and f: "w_dir w d = Some f" "f = pw_file (lf_pw lf)" "fl_data f = lf_stream lf @ replicate n 0"
    and lf: "lf_ok lf" "lf_stream lf = file_header @ x" "off = lf_offset lf" "c = lf_enc_crc lf"
  shows "\<exists>lf'. reopen (ld_id d) off c w = Some (Ret (), w\<lparr>w_file := lf'\<rparr>) \<and> wrote lf [] lf' \<and>
    fl_synced (pw_file (lf_pw lf')) = fl_synced f \<and> fl_data (pw_file (lf_pw lf')) = fl_data f"
proof -
  let ?cfg = "lm_cfg (w_mgr w)"
  have off: "off = length (lf_stream lf)" using lf by (simp add: lf_offset_stream)
  have pos: "fl_pos f \<le> off" using lf_ok_parts [OF lf(1)] f(2) lf(3) by (simp add: pw_ok_def lf_offset_def)
  have "length (fl_data f) \<le> max (mc_chunk ?cfg) (fl_pos f)"
    using lf_ok_parts(2) [OF lf(1)] f(2) m(5) by (simp add: zero_tail_def)
  then have len: "n = 0 \<or> length (fl_data f) \<le> mc_chunk ?cfg" using pos off f(3) by (auto simp: max_def split: if_splits)
  have open': "open_log_file_handle f = Ret (f\<lparr>fl_pos := LogFileHeaderLength\<rparr>)"
    using f(3) lf(2) by (intro open_good_header) simp
  let ?f = "f\<lparr>fl_pos := off\<rparr>"
  let ?lf = "\<lparr>lf_pw = create_writer (mc_chunk ?cfg) (mc_page ?cfg) (mc_buf ?cfg) ?f, lf_enc_crc = c\<rparr>"
  have "lf_ok ?lf \<and> lf_stream ?lf = take (fl_pos ?f) (fl_data ?f)"
    by (rule lf_ok_create [OF m(3,4)]) (use f(3) off len in auto)
  then have "wrote lf [] ?lf" using f(3) off lf(4) m(5) by (simp add: wrote_def) (simp add: create_writer_def)
  moreover have "reopen (ld_id d) off c w = Some (Ret (), w\<lparr>w_file := ?lf\<rparr>)"
    using m f(1) open' by (simp add: reopen_def lm_open_log_file_def)
  moreover have "fl_synced (pw_file (lf_pw ?lf)) = fl_synced f \<and> fl_data (pw_file (lf_pw ?lf)) = fl_data f"
    by (simp add: create_writer_def)
  ultimately show ?thesis by blast
qed

text \<open>
  The invariant: the finished files \<^verbatim>\<open>ds\<close> are durable and replay to \<^verbatim>\<open>r0\<close>, and continuing with what
  has been handed to the current file \<^verbatim>\<open>d\<close> gives the state of the log and the entries \<^verbatim>\<open>coll\<close>.
\<close>

definition wal_holds ::
  "acquirer \<Rightarrow> raft_pb \<Rightarrow> u64 \<Rightarrow> entry_coll \<Rightarrow> log_file_desc list \<Rightarrow> log_file_desc \<Rightarrow> wal \<Rightarrow> entry_coll \<Rightarrow> bool" where
  "wal_holds acq pb i coll0 ds d w coll \<longleftrightarrow>
     (\<exists>r0 s. replay_files acq pb i (w_dir w) ds (new_replay_result coll0) = (Ret (), r0) \<and>
        clear_entries (rr_entries r0) = coll0 \<and>
        file_at acq pb i d r0 (w_file w) s \<and> agrees d (w_state w) coll s) \<and>
     mgr_at (w_mgr w) d \<and> segmentSize (lf_pw (w_file w)) = mc_chunk (lm_cfg (w_mgr w)) \<and> \<not> w_noSync w \<and>
     (\<forall>x\<in>set ds. ld_id x < ld_id d \<and> (\<exists>f. w_dir w x = Some f \<and> fl_synced f = fl_data f))"

text \<open>Everything handed to the current file is on stable storage.\<close>

definition wal_durable :: "wal \<Rightarrow> bool" where
  "wal_durable w \<longleftrightarrow>
     (let f = pw_file (lf_pw (w_file w))
      in fl_synced f = fl_data f \<and> (\<exists>n. fl_data f = lf_stream (w_file w) @ replicate n 0))"

lemma cycle_next_ok:
  fixes k :: u64
  assumes m: "mgr_at (w_mgr w) d" and id: "ld_id d < ld_id d + 1" and pb: "raft_pb_ok pb"
    and ag: "agrees d (w_state w) coll s" and recs: "recs_ok acq 0 (prologue_recs pb c (w_state w))"
  defines "d' \<equiv> \<lparr>ld_id = ld_id d + 1, ld_start = k, ld_temp = False\<rparr>"
  shows "\<exists>w' f' s'. wbind (open_next (ld_id d + 1) k) (\<lambda>_.
      wbind (write_prologue acq pb c) (\<lambda>_.
      wbind (finalize_next (ld_id d + 1)) (\<lambda>_ w.
        reopen (ld_id d + 1) (lf_offset (w_file w)) (lf_enc_crc (w_file w)) w))) w = Some (Ret (), w') \<and>
    w_dir w' = (w_dir w)(d' \<mapsto> f') \<and> w_state w' = w_state w \<and> w_index w' = w_index w \<and> w_noSync w' = w_noSync w \<and>
    mgr_at (w_mgr w') d' \<and> segmentSize (lf_pw (w_file w')) = mc_chunk (lm_cfg (w_mgr w')) \<and> wal_durable w' \<and>
    file_at acq pb i d' (ps_result s) (w_file w') s' \<and> agrees d' (w_state w) coll s'"
proof -
  let ?m = "w_mgr w" and ?t = "\<lparr>ld_id = ld_id d + 1, ld_start = k, ld_temp = True\<rparr>"
  have m': "lm_next ?m = ld_id d + 1" "0 < mc_page (lm_cfg ?m)" "mc_page (lm_cfg ?m) \<le> mc_buf (lm_cfg ?m)"
    using m by (simp_all add: mgr_at_def)
  let ?m1 = "(lm_set ?m ?t)\<lparr>lm_next := ld_id d + 1 + 1\<rparr>"
  from fresh_file [OF m'(2,3), of k] obtain lf0 where lf0: "lm_create_next_temp (ld_id d + 1) k ?m = Ret (lf0, ?m1)"
      "lf_ok lf0" "lf_stream lf0 = file_header" "lf_enc_crc lf0 = 0" "segmentSize (lf_pw lf0) = mc_chunk (lm_cfg ?m)"
    by (auto simp: m'(1))
  let ?w1 = "w\<lparr>w_file := lf0, w_mgr := ?m1\<rparr>"
  from prologue_ok [of ?w1 acq pb c] lf0 recs obtain lf1 n where p:
      "write_prologue acq pb c ?w1 = Some (Ret (), ?w1\<lparr>w_file := lf1\<rparr>)" "wrote lf0 (prologue_recs pb c (w_state w)) lf1"
      "fl_data (pw_file (lf_pw lf1)) = lf_stream lf1 @ replicate n 0"
      "fl_synced (pw_file (lf_pw lf1)) = fl_data (pw_file (lf_pw lf1))"
    by auto
  let ?m2 = "lm_set ?m1 d'" and ?f = "pw_file (lf_pw lf1)"
  have t: "?t\<lparr>ld_temp := False\<rparr> = d'" by (simp add: d'_def)
  have "lm_find (lm_set ?m ?t) (ld_id d + 1) = Some ?t" using lm_find_set [of ?m ?t] by simp
  then have fin: "lm_finalize_temp (ld_id d + 1) ?f ?m1 (w_dir w) = Ret (?m2, (w_dir w)(d' \<mapsto> ?f))"
    using t by (simp add: lm_finalize_temp_def lm_find_def)
  let ?w2 = "?w1\<lparr>w_file := lf1, w_mgr := ?m2, w_dir := (w_dir w)(d' \<mapsto> ?f)\<rparr>"
  have d': "ld_id d' = ld_id d + 1" "\<not> ld_temp d'" by (simp_all add: d'_def)
  have mg: "lm_find ?m2 (ld_id d') = Some d'" by (rule lm_find_set)
  have "lf_ok lf1" "segmentSize (lf_pw lf1) = mc_chunk (lm_cfg ?m)" "lf_stream lf1 = file_header @ recs_bytes 0 (prologue_recs pb c (w_state w))"
    using p(2) lf0 by (simp_all add: wrote_def)
  with reopen_ok [of ?w2 d' lf1 ?f n _ "lf_offset lf1" "lf_enc_crc lf1"] mg d' m' p(3) obtain lf' where r:
      "reopen (ld_id d') (lf_offset lf1) (lf_enc_crc lf1) ?w2 = Some (Ret (), ?w2\<lparr>w_file := lf'\<rparr>)" "wrote lf1 [] lf'"
      "fl_synced (pw_file (lf_pw lf')) = fl_synced ?f" "fl_data (pw_file (lf_pw lf')) = fl_data ?f"
    by (auto simp: lm_set_def)
  have w': "wrote lf0 (prologue_recs pb c (w_state w)) lf'" using wrote_append [OF p(2) r(2)] by simp
  obtain s' where s': "file_at acq pb i d' (ps_result s) lf' s'" "agrees d' (w_state w) coll s'"
    using file_at_prologue [OF lf0(3,4) w' recs pb ag] by blast
  have "lf_stream lf' = lf_stream lf1" "segmentSize (lf_pw lf') = mc_chunk (lm_cfg ?m)"
    using r(2) w' lf0(5) by (simp_all add: wrote_def)
  then have "wal_durable (?w2\<lparr>w_file := lf'\<rparr>)" "segmentSize (lf_pw lf') = mc_chunk (lm_cfg ?m2)"
    using p(3,4) r(3,4) by (auto simp: wal_durable_def lm_set_def Let_def)
  moreover have "mgr_at ?m2 d'" using mg m' d' by (simp add: mgr_at_def lm_set_def)
  ultimately show ?thesis
    using s' lf0(1) p(1) fin r(1) d'(1)
    by (intro exI [of _ "?w2\<lparr>w_file := lf'\<rparr>"] exI [of _ ?f] exI [of _ s']) (simp add: open_next_def finalize_next_def)
qed

lemma file_at_replay:
  assumes "file_at acq pb i d r0 lf s" and "dir d = Some f" and "fl_data f = lf_stream lf"
  shows "replay_files acq pb i dir [d] r0 = (Ret (), ps_result s)"
proof -
  obtain rs where rs: "lf_stream lf = file_header @ recs_bytes 0 rs" "run_recs acq pb i 0 rs (start_state d r0) = Some s"
    using assms(1) by (auto simp: file_at_def)
  have "parse_loop acq pb i (recs_bytes 0 rs) (start_state d r0) = (Fail (WIo EOF), s)"
    using reads_to_end [OF run_recs_reads_to [OF rs(2)], of "[]"] by (simp add: log_end_def)
  then show ?thesis
    using replay_file_step [of dir d f "recs_bytes 0 rs" acq pb i r0 _ s "[]"] assms(2,3) rs(1) by simp
qed

lemma file_at_kind:
  "file_at acq pb i d r0 lf s \<Longrightarrow> clear_entries (rr_entries (ps_result s)) = clear_entries (rr_entries r0)"
  unfolding file_at_def by (auto dest!: run_recs_keeps simp: start_state_def)

lemma lf_truncate_full:
  assumes "fl_data (pw_file (lf_pw lf)) = lf_stream lf" and "lf_ok lf"
  shows "lf_truncate lf = lf"
  using assms lf_offset_stream [of lf]
  by (simp add: lf_truncate_def pw_truncate_def os_truncate_def lf_offset_def)

lemma cycle_steps:
  assumes m: "mgr_at (w_mgr w) d" and ok: "lf_ok (w_file w)" and cyc: "lf_do_cycle (w_file w)" and ns: "\<not> w_noSync w"
  shows "\<exists>lf. wrote (w_file w) [] lf \<and> fl_data (pw_file (lf_pw lf)) = lf_stream (w_file w) \<and>
    fl_synced (pw_file (lf_pw lf)) = fl_data (pw_file (lf_pw lf)) \<and>
    cycle acq pb w = keeping_file lf
      (wbind (open_next (ld_id d + 1) (st_lastEntryIndex (w_state w) + 1)) (\<lambda>_.
       wbind (write_prologue acq pb (lf_enc_crc (w_file w))) (\<lambda>_.
       wbind (finalize_next (ld_id d + 1)) (\<lambda>_ w. reopen (ld_id d + 1) (lf_offset (w_file w)) (lf_enc_crc (w_file w)) w))))
      (w\<lparr>w_file := lf, w_dir := (w_dir w)(d \<mapsto> pw_file (lf_pw lf))\<rparr>)"
proof -
  from on_file_sync [OF ok wrote_Nil [OF ok], of True] obtain lf n where
    s: "on_file (lf_sync True) w = Some (Ret (), w\<lparr>w_file := lf\<rparr>)" "wrote (w_file w) [] lf" "lf_offset lf = lf_offset (w_file w)"
      "fl_data (pw_file (lf_pw lf)) = lf_stream lf @ replicate n 0" "lf_do_cycle lf \<longrightarrow> n = 0"
      "fl_synced (pw_file (lf_pw lf)) = fl_data (pw_file (lf_pw lf))"
    by auto
  have lf: "lf_stream lf = lf_stream (w_file w)" "lf_ok lf" "segmentSize (lf_pw lf) = segmentSize (lf_pw (w_file w))"
    "lf_enc_crc lf = lf_enc_crc (w_file w)"
    using s(2) by (simp_all add: wrote_def)
  have "lf_do_cycle lf" using cyc s(3) lf(3) by (simp add: lf_do_cycle_def pw_check_cycle_def lf_offset_def)
  then have data: "fl_data (pw_file (lf_pw lf)) = lf_stream lf" using s(4,5) by simp
  have "lf_truncate lf = lf" by (rule lf_truncate_full [OF data lf(2)])
  moreover have "\<not> ld_temp d" using m by (simp add: mgr_at_def)
  ultimately show ?thesis
    using s lf data mgr_at_last [OF m] ns
    by (intro exI [of _ lf]) (simp add: cycle_def on_file_def close_current_def tail_desc_def Let_def split: prod.splits)
qed

lemma cycle_ok:
  assumes H: "wal_holds acq pb i coll0 ds d w coll" and cyc: "lf_do_cycle (w_file w)" and id: "ld_id d < ld_id d + 1"
    and pb: "raft_pb_ok pb" and recs: "recs_ok acq 0 (prologue_recs pb (lf_enc_crc (w_file w)) (w_state w))"
  shows "\<exists>w' d'. cycle acq pb w = Some (Ret (), w') \<and> wal_holds acq pb i coll0 (ds @ [d]) d' w' coll \<and> wal_durable w' \<and>
     w_state w' = w_state w \<and> w_index w' = w_index w \<and> ld_id d' = ld_id d + 1 \<and>
     ld_start d' = st_lastEntryIndex (w_state w) + 1"
proof -
  obtain r0 s where r0: "replay_files acq pb i (w_dir w) ds (new_replay_result coll0) = (Ret (), r0)"
      "clear_entries (rr_entries r0) = coll0" and at: "file_at acq pb i d r0 (w_file w) s" and ag: "agrees d (w_state w) coll s"
    and m: "mgr_at (w_mgr w) d" and ns: "\<not> w_noSync w"
    and ds: "\<forall>x\<in>set ds. ld_id x < ld_id d \<and> (\<exists>f. w_dir w x = Some f \<and> fl_synced f = fl_data f)"
    using H unfolding wal_holds_def by blast
  have ok: "lf_ok (w_file w)" using at by (simp add: file_at_def)
  from cycle_steps [OF m ok cyc ns, of acq pb] obtain lf where lf: "wrote (w_file w) [] lf"
      "fl_data (pw_file (lf_pw lf)) = lf_stream (w_file w)" "fl_synced (pw_file (lf_pw lf)) = fl_data (pw_file (lf_pw lf))"
    and cy: "cycle acq pb w = keeping_file lf
      (wbind (open_next (ld_id d + 1) (st_lastEntryIndex (w_state w) + 1)) (\<lambda>_.
       wbind (write_prologue acq pb (lf_enc_crc (w_file w))) (\<lambda>_.
       wbind (finalize_next (ld_id d + 1)) (\<lambda>_ w. reopen (ld_id d + 1) (lf_offset (w_file w)) (lf_enc_crc (w_file w)) w))))
      (w\<lparr>w_file := lf, w_dir := (w_dir w)(d \<mapsto> pw_file (lf_pw lf))\<rparr>)" by blast
  let ?w = "w\<lparr>w_file := lf, w_dir := (w_dir w)(d \<mapsto> pw_file (lf_pw lf))\<rparr>"
  let ?d' = "\<lparr>ld_id = ld_id d + 1, ld_start = st_lastEntryIndex (w_state w) + 1, ld_temp = False\<rparr>"
  from cycle_next_ok [of ?w d pb coll s acq "lf_enc_crc (w_file w)" "st_lastEntryIndex (w_state w) + 1" i] m id pb ag recs
  obtain w' f' s' where n: "cycle acq pb w = Some (Ret (), w')" "w_dir w' = (w_dir w)(d \<mapsto> pw_file (lf_pw lf), ?d' \<mapsto> f')"
      "w_state w' = w_state w" "w_index w' = w_index w" "\<not> w_noSync w'" "mgr_at (w_mgr w') ?d'"
      "segmentSize (lf_pw (w_file w')) = mc_chunk (lm_cfg (w_mgr w'))" "wal_durable w'"
      "file_at acq pb i ?d' (ps_result s) (w_file w') s'" "agrees ?d' (w_state w) coll s'"
    using ns unfolding cy keeping_file_def by fastforce
  have new: "?d' \<notin> set (ds @ [d])" "d \<notin> set ds"
    using ds id by (cases d; auto dest: less_trans)+
  have "replay_files acq pb i ((w_dir w)(d \<mapsto> pw_file (lf_pw lf))) ds (new_replay_result coll0) = (Ret (), r0)"
    using r0(1) replay_files_cong [of ds "(w_dir w)(d \<mapsto> pw_file (lf_pw lf))" "w_dir w"] new by auto
  from replay_files_append [OF this, of "[d]"] file_at_replay [OF at, of "(w_dir w)(d \<mapsto> pw_file (lf_pw lf))"] lf(2)
  have "replay_files acq pb i ((w_dir w)(d \<mapsto> pw_file (lf_pw lf))) (ds @ [d]) (new_replay_result coll0) = (Ret (), ps_result s)"
    by simp
  then have "replay_files acq pb i (w_dir w') (ds @ [d]) (new_replay_result coll0) = (Ret (), ps_result s)"
    using replay_files_cong [of "ds @ [d]" "w_dir w'" "(w_dir w)(d \<mapsto> pw_file (lf_pw lf))"] new(1) n(2) by auto
  moreover have "\<forall>x\<in>set (ds @ [d]). ld_id x < ld_id ?d' \<and> (\<exists>f. w_dir w' x = Some f \<and> fl_synced f = fl_data f)"
    using ds id lf(3) new n(2) by (auto dest: less_trans)
  moreover have "clear_entries (rr_entries (ps_result s)) = coll0" using file_at_kind [OF at] r0(2) by simp
  ultimately have "wal_holds acq pb i coll0 (ds @ [d]) ?d' w' coll"
    unfolding wal_holds_def using n by auto
  then show ?thesis using n by (intro exI [of _ w'] exI [of _ ?d']) simp
qed

section \<open>Saving keeps the log\<close>

lemma wal_holdsD:
  assumes "wal_holds acq pb i coll0 ds d w coll"
  obtains r0 s where "replay_files acq pb i (w_dir w) ds (new_replay_result coll0) = (Ret (), r0)"
    "clear_entries (rr_entries r0) = coll0" "file_at acq pb i d r0 (w_file w) s" "agrees d (w_state w) coll s"
    "mgr_at (w_mgr w) d" "lf_ok (w_file w)"
  using assms unfolding wal_holds_def file_at_def by blast

text \<open>Replacing the file and the state by ones the parser agrees with.\<close>

lemma wal_holds_update:
  assumes H: "wal_holds acq pb i coll0 ds d w coll"
    and r0: "replay_files acq pb i (w_dir w) ds (new_replay_result coll0) = (Ret (), r0)" "clear_entries (rr_entries r0) = coll0"
    and at: "file_at acq pb i d r0 lf s'" and ag: "agrees d st coll' s'" and w: "wrote (w_file w) rs lf"
    and w': "w_dir w' = w_dir w" "w_mgr w' = w_mgr w" "w_noSync w' = w_noSync w" "w_file w' = lf" "w_state w' = st"
  shows "wal_holds acq pb i coll0 ds d w' coll'"
proof -
  have "segmentSize (lf_pw lf) = segmentSize (lf_pw (w_file w))" using w by (simp add: wrote_def)
  then show ?thesis using H r0 at ag w' unfolding wal_holds_def by auto
qed

text \<open>What the index must allow for a batch to be recorded; without an index nothing is asked.\<close>

definition index_accepts :: "wal \<Rightarrow> entry_meta entry_pos list \<Rightarrow> entry list \<Rightarrow> entry_meta entry_storage option \<Rightarrow> bool" where
  "index_accepts w ps es ix \<longleftrightarrow>
     (case w_index w of
        None \<Rightarrow> ix = None
      | Some s \<Rightarrow> \<exists>s1 s2. es_append_index s ps = Ret s1 \<and> es_append_cache s1 es = Some (Ret s2) \<and> ix = Some s2)"

lemma save_entry_ok:
  assumes H: "wal_holds acq pb i coll0 ds d w coll"
    and recs: "recs_ok acq (lf_enc_crc (w_file w)) (entry_recs (st_nextEntry (w_state w)) es)"
    and tm: "\<forall>e\<in>set es. ent_term e \<noteq> 0"
    and coll: "coll_entries (ld_id d) i (lf_offset (w_file w)) (st_nextEntry (w_state w)) es coll = Ret coll'"
    and ix: "index_accepts w (entry_positions (ld_id d) (lf_offset (w_file w)) (st_nextEntry (w_state w)) es) es ix"
  shows "\<exists>w'. save_entry acq es w = Some (Ret (), w') \<and> wal_holds acq pb i coll0 ds d w' coll' \<and> w_index w' = ix \<and>
    wrote (w_file w) (entry_recs (st_nextEntry (w_state w)) es) (w_file w') \<and>
    w_state w' = (w_state w)\<lparr>st_nextEntry := next_after (st_nextEntry (w_state w)) es,
                             st_lastEntryIndex := last_index_of (st_lastEntryIndex (w_state w)) es\<rparr>"
proof -
  let ?ne = "st_nextEntry (w_state w)"
  let ?st = "(w_state w)\<lparr>st_nextEntry := next_after ?ne es, st_lastEntryIndex := last_index_of (st_lastEntryIndex (w_state w)) es\<rparr>"
  obtain r0 s where h: "replay_files acq pb i (w_dir w) ds (new_replay_result coll0) = (Ret (), r0)"
      "clear_entries (rr_entries r0) = coll0" "file_at acq pb i d r0 (w_file w) s" "agrees d (w_state w) coll s"
      "mgr_at (w_mgr w) d" "lf_ok (w_file w)"
    by (rule wal_holdsD [OF H])
  from save_loop_ok [OF h(6) refl recs mgr_at_last [OF h(5)]] obtain lf where
    l: "save_loop acq es w = Some (Ret (if w_index w = None then [] else entry_positions (ld_id d) (lf_offset (w_file w)) ?ne es),
          w\<lparr>w_file := lf, w_state := ?st\<rparr>)" "wrote (w_file w) (entry_recs ?ne es) lf" by blast
  obtain s' where s': "file_at acq pb i d r0 lf s'" "agrees d ?st coll' s'"
    using file_at_entries [OF h(3,4) l(2) recs tm coll] by blast
  have "save_entry acq es w = Some (Ret (), w\<lparr>w_file := lf, w_state := ?st, w_index := ix\<rparr>)"
    using l(1) ix by (cases "w_index w") (auto simp: save_entry_def index_accepts_def wret_def)
  then show ?thesis
    using wal_holds_update [OF H h(1,2) s' l(2), of "w\<lparr>w_file := lf, w_state := ?st, w_index := ix\<rparr>"] l(2)
    by (intro exI [of _ "w\<lparr>w_file := lf, w_state := ?st, w_index := ix\<rparr>"]) simp
qed

definition next_hs :: "raft_pb \<Rightarrow> hard_state \<Rightarrow> hard_state \<Rightarrow> hard_state" where
  "next_hs pb h old = (if raft_is_empty_hs pb h then old else h)"

definition index_trimmed :: "raft_pb \<Rightarrow> hard_state \<Rightarrow> entry_meta entry_storage option \<Rightarrow> entry_meta entry_storage option \<Rightarrow> bool" where
  "index_trimmed pb h ix ix' \<longleftrightarrow>
     (case ix of
        None \<Rightarrow> ix' = None
      | Some s \<Rightarrow> if raft_is_empty_hs pb h then ix' = Some s
                  else ix' = es_delete_cache s (hs_commit h) \<and> ix' \<noteq> None)"

lemma save_hard_state_ok:
  assumes H: "wal_holds acq pb i coll0 ds d w coll" and pb: "raft_pb_ok pb"
    and recs: "recs_ok acq (lf_enc_crc (w_file w)) (hs_recs pb h)" and ix: "index_trimmed pb h (w_index w) ix"
  shows "\<exists>w'. save_hard_state acq pb h w = Some (Ret (), w') \<and> wal_holds acq pb i coll0 ds d w' coll \<and> w_index w' = ix \<and>
    wrote (w_file w) (hs_recs pb h) (w_file w') \<and>
    w_state w' = (w_state w)\<lparr>st_hardState := next_hs pb h (st_hardState (w_state w))\<rparr>"
proof (cases "raft_is_empty_hs pb h")
  case True
  have "lf_ok (w_file w)" using H by (auto simp: wal_holds_def file_at_def)
  then show ?thesis
    using True H ix
    by (intro exI [of _ w]) (auto simp: save_hard_state_def wret_def hs_recs_def wrote_Nil next_hs_def index_trimmed_def split: option.splits)
next
  case False
  let ?st = "(w_state w)\<lparr>st_hardState := h\<rparr>"
  obtain r0 s where hh: "replay_files acq pb i (w_dir w) ds (new_replay_result coll0) = (Ret (), r0)"
      "clear_entries (rr_entries r0) = coll0" "file_at acq pb i d r0 (w_file w) s" "agrees d (w_state w) coll s"
      "mgr_at (w_mgr w) d" "lf_ok (w_file w)"
    by (rule wal_holdsD [OF H])
  have recs': "recs_ok acq (lf_enc_crc (w_file w)) [hs_rec pb h]" using recs False by (simp add: hs_recs_def)
  then obtain lf where l: "on_file (lf_hard_state acq pb h) w = Some (Ret (), w\<lparr>w_file := lf\<rparr>)" "wrote (w_file w) [hs_rec pb h] lf"
    using on_file_wrote [OF hh(6), of acq LogTypeHardState "MarshalledLog (pb_hs pb h)" "length (pb_hs pb h)"]
    by (auto simp: lf_hard_state_def hs_rec_def)
  obtain s' where s': "file_at acq pb i d r0 lf s'" "agrees d ?st coll s'"
    using file_at_hs [OF hh(3,4) l(2) recs' pb] by blast
  have "save_hard_state acq pb h w = Some (Ret (), w\<lparr>w_file := lf, w_state := ?st, w_index := ix\<rparr>)"
    using l(1) ix False
    by (cases "w_index w") (auto simp: save_hard_state_def on_state_def index_trimmed_def wret_def split: option.splits)
  then show ?thesis
    using wal_holds_update [OF H hh(1,2) s' l(2), of "w\<lparr>w_file := lf, w_state := ?st, w_index := ix\<rparr>"] l(2) False
    by (intro exI [of _ "w\<lparr>w_file := lf, w_state := ?st, w_index := ix\<rparr>"]) (simp add: hs_recs_def next_hs_def)
qed

lemma wal_sync_holds:
  assumes H: "wal_holds acq pb i coll0 ds d w coll"
  shows "\<exists>w'. on_file (lf_sync (\<not> w_noSync w)) w = Some (Ret (), w') \<and> wal_holds acq pb i coll0 ds d w' coll \<and>
    wal_durable w' \<and> w_index w' = w_index w \<and> w_state w' = w_state w"
proof -
  obtain r0 s where h: "replay_files acq pb i (w_dir w) ds (new_replay_result coll0) = (Ret (), r0)"
      "clear_entries (rr_entries r0) = coll0" "file_at acq pb i d r0 (w_file w) s" "agrees d (w_state w) coll s"
      "mgr_at (w_mgr w) d" "lf_ok (w_file w)"
    by (rule wal_holdsD [OF H])
  have ns: "\<not> w_noSync w" using H by (simp add: wal_holds_def)
  from on_file_sync [OF h(6) wrote_Nil [OF h(6)], of True] obtain lf n where
    l: "on_file (lf_sync True) w = Some (Ret (), w\<lparr>w_file := lf\<rparr>)" "wrote (w_file w) [] lf"
      "fl_data (pw_file (lf_pw lf)) = lf_stream lf @ replicate n 0" "fl_synced (pw_file (lf_pw lf)) = fl_data (pw_file (lf_pw lf))"
    by auto
  have "file_at acq pb i d r0 lf s" using h(3) l(2) by (auto simp: file_at_def wrote_def)
  from wal_holds_update [OF H h(1,2) this h(4) l(2), of "w\<lparr>w_file := lf\<rparr>"]
  have "wal_holds acq pb i coll0 ds d (w\<lparr>w_file := lf\<rparr>) coll" by simp
  moreover have "wal_durable (w\<lparr>w_file := lf\<rparr>)" using l(3,4) by (auto simp: wal_durable_def Let_def)
  ultimately show ?thesis using l(1) ns by (intro exI [of _ "w\<lparr>w_file := lf\<rparr>"]) simp
qed

text \<open>The state after a call of \<^verbatim>\<open>Save\<close>, and the records the call writes.\<close>

definition saved_state :: "raft_pb \<Rightarrow> hard_state \<Rightarrow> entry list \<Rightarrow> wal_state \<Rightarrow> wal_state" where
  "saved_state pb h es st =
     st\<lparr>st_nextEntry := next_after (st_nextEntry st) es, st_lastEntryIndex := last_index_of (st_lastEntryIndex st) es,
        st_hardState := next_hs pb h (st_hardState st)\<rparr>"

definition save_recs :: "raft_pb \<Rightarrow> hard_state \<Rightarrow> entry list \<Rightarrow> wal_state \<Rightarrow> (u32 \<times> log_body) list" where
  "save_recs pb h es st = entry_recs (st_nextEntry st) es @ hs_recs pb h"

text \<open>
  The records fit: into the file, and into the next one when the file is full. An entry without
  data fits only while the running checksum is not 0.
\<close>

definition save_fits :: "acquirer \<Rightarrow> raft_pb \<Rightarrow> hard_state \<Rightarrow> entry list \<Rightarrow> wal \<Rightarrow> bool" where
  "save_fits acq pb h es w \<longleftrightarrow>
     (let c = lf_enc_crc (w_file w); rs = save_recs pb h es (w_state w)
      in recs_ok acq c rs \<and> recs_ok acq 0 (prologue_recs pb (recs_crc c rs) (saved_state pb h es (w_state w)))) \<and>
     (\<forall>e\<in>set es. ent_term e \<noteq> 0)"

lemma wal_save_ok:
  assumes H: "wal_holds acq pb i coll0 ds d w coll" and pb: "raft_pb_ok pb" and fits: "save_fits acq pb h es w"
    and id: "ld_id d < ld_id d + 1"
    and coll: "coll_entries (ld_id d) i (lf_offset (w_file w)) (st_nextEntry (w_state w)) es coll = Ret coll'"
    and ix: "index_accepts w (entry_positions (ld_id d) (lf_offset (w_file w)) (st_nextEntry (w_state w)) es) es ix1"
      "index_trimmed pb h ix1 ix2"
  shows "\<exists>w' ds' d'. wal_save acq pb h es w = Some (Ret (), w') \<and> wal_holds acq pb i coll0 ds' d' w' coll' \<and>
    w_index w' = ix2 \<and> w_state w' = saved_state pb h es (w_state w) \<and> (es \<noteq> [] \<longrightarrow> wal_durable w') \<and>
    (ds' = ds \<and> d' = d \<or> ds' = ds @ [d] \<and> ld_id d' = ld_id d + 1)"
proof -
  let ?st = "w_state w" and ?c = "lf_enc_crc (w_file w)"
  have r: "recs_ok acq ?c (entry_recs (st_nextEntry ?st) es)"
    "recs_ok acq (recs_crc ?c (entry_recs (st_nextEntry ?st) es)) (hs_recs pb h)"
    "recs_ok acq 0 (prologue_recs pb (recs_crc ?c (save_recs pb h es ?st)) (saved_state pb h es ?st))" "\<forall>e\<in>set es. ent_term e \<noteq> 0"
    using fits by (simp_all add: save_fits_def save_recs_def Let_def)
  from save_entry_ok [OF H r(1,4) coll ix(1)] obtain w1 where 1: "save_entry acq es w = Some (Ret (), w1)"
      "wal_holds acq pb i coll0 ds d w1 coll'" "w_index w1 = ix1" "wrote (w_file w) (entry_recs (st_nextEntry ?st) es) (w_file w1)"
      "w_state w1 = ?st\<lparr>st_nextEntry := next_after (st_nextEntry ?st) es, st_lastEntryIndex := last_index_of (st_lastEntryIndex ?st) es\<rparr>"
    by blast
  have "recs_ok acq (lf_enc_crc (w_file w1)) (hs_recs pb h)" using 1(4) r(2) by (simp add: wrote_def)
  from save_hard_state_ok [OF 1(2) pb this] ix(2) 1(3) obtain w2 where 2: "save_hard_state acq pb h w1 = Some (Ret (), w2)"
      "wal_holds acq pb i coll0 ds d w2 coll'" "w_index w2 = ix2" "wrote (w_file w1) (hs_recs pb h) (w_file w2)"
      "w_state w2 = saved_state pb h es ?st"
    unfolding 1(5) saved_state_def by auto
  have c2: "lf_enc_crc (w_file w2) = recs_crc ?c (save_recs pb h es ?st)"
    using wrote_append [OF 1(4) 2(4)] by (simp add: wrote_def save_recs_def)
  have "(if es \<noteq> [] then save_entry acq es else wret ()) w = Some (Ret (), w1)"
  proof (cases "es = []")
    case True
    then show ?thesis
      using 1(1)
      by (cases w) (auto simp: save_entry_def wret_def es_append_index_def es_append_cache_def cache_append_def
          split: option.splits outcome.splits)
  qed (simp add: 1(1))
  then have sv: "wal_save acq pb h es w =
      (if lf_do_cycle (w_file w2) then cycle acq pb w2
       else if raft_must_sync pb h (st_hardState (w_state w2)) (length es) then on_file (lf_sync (\<not> w_noSync w2)) w2 else wret () w2)"
    using 2(1) by (simp add: wal_save_def)
  consider "lf_do_cycle (w_file w2)" | "\<not> lf_do_cycle (w_file w2)" "raft_must_sync pb h (st_hardState (w_state w2)) (length es)"
    | "\<not> lf_do_cycle (w_file w2)" "\<not> raft_must_sync pb h (st_hardState (w_state w2)) (length es)" by blast
  then show ?thesis
  proof cases
    case 1
    have "recs_ok acq 0 (prologue_recs pb (lf_enc_crc (w_file w2)) (w_state w2))" using r(3) c2 2(5) by simp
    from cycle_ok [OF 2(2) 1 id pb this] show ?thesis using sv 1 2(3,5) by auto
  next
    case b: 2
    from wal_sync_holds [OF 2(2)] show ?thesis using sv b 2(3,5) by auto
  next
    case 3
    then have "es = []" using pb by (auto simp: raft_pb_ok_def)
    then show ?thesis using sv 3 2 by (intro exI [of _ w2]) (auto simp: wret_def)
  qed
qed

section \<open>Crashes\<close>

text \<open>A crash leaves of every file what the last sync made durable.\<close>

definition crash_dir :: "log_file_desc \<Rightarrow> wal \<Rightarrow> wal_dir" where
  "crash_dir d w x = map_option (\<lambda>f. f\<lparr>fl_data := fl_synced f\<rparr>) (((w_dir w)(d \<mapsto> pw_file (lf_pw (w_file w)))) x)"

lemma replay_written:
  assumes H: "wal_holds acq pb i coll0 ds d w coll" and dir: "\<forall>x\<in>set ds. dir x = w_dir w x"
    and f: "dir d = Some f" "fl_data f = lf_stream (w_file w) @ replicate n 0"
  shows "\<exists>f' n' r. player_replay acq pb i (ds @ [d]) True dir (new_replay_result coll0) = (Ret (), dir(d \<mapsto> f'), r) \<and>
    fl_data f' = lf_stream (w_file w) @ replicate n' 0 \<and> n' \<le> n \<and>
    rr_metadata r = st_metadata (w_state w) \<and> rr_hardState r = st_hardState (w_state w) \<and>
    rr_nextEntry r = st_nextEntry (w_state w) \<and> rr_entries r = coll \<and> rr_lastLogFileDesc r = d \<and>
    rr_lastValidLogOffset r = lf_offset (w_file w) \<and> rr_lastValidLogCrc r = lf_enc_crc (w_file w)"
proof -
  obtain r0 s where h: "replay_files acq pb i (w_dir w) ds (new_replay_result coll0) = (Ret (), r0)"
      "clear_entries (rr_entries r0) = coll0" "file_at acq pb i d r0 (w_file w) s" "agrees d (w_state w) coll s"
    by (rule wal_holdsD [OF H])
  have new: "d \<notin> set ds" using H by (auto simp: wal_holds_def)
  have prev: "replay_files acq pb i dir ds (new_replay_result coll0) = (Ret (), r0)"
    using h(1) dir replay_files_cong by metis
  obtain rs where rs: "lf_stream (w_file w) = file_header @ recs_bytes 0 rs" "run_recs acq pb i 0 rs (start_state d r0) = Some s"
    using h(3) by (auto simp: file_at_def)
  have "fl_data f = file_header @ recs_bytes 0 rs @ replicate n 0" using f(2) rs(1) by simp
  from replay_zero_tail [OF prev f(1) this rs(2) h(2) new] show ?thesis
    using h(3,4) file_at_offset [OF h(3)] rs(1) by (auto simp: agrees_def file_at_def)
qed

lemma crash_dir_old:
  assumes "wal_holds acq pb i coll0 ds d w coll" and "w_dir w' = w_dir w"
  shows "\<forall>x\<in>set ds. crash_dir d w' x = w_dir w x"
proof
  fix x assume x: "x \<in> set ds"
  have "ld_id x < ld_id d \<and> (\<exists>f. w_dir w x = Some f \<and> fl_synced f = fl_data f)"
    using assms(1) x by (simp add: wal_holds_def)
  then show "crash_dir d w' x = w_dir w x" using assms(2) by (auto simp: crash_dir_def)
qed

lemma crash_replay:
  assumes H: "wal_holds acq pb i coll0 ds d w coll" and dur: "wal_durable w"
  shows "\<exists>f n r. player_replay acq pb i (ds @ [d]) True (crash_dir d w) (new_replay_result coll0) = (Ret (), (crash_dir d w)(d \<mapsto> f), r) \<and>
    fl_data f = lf_stream (w_file w) @ replicate n 0 \<and> (n = 0 \<or> length (fl_data f) \<le> mc_chunk (lm_cfg (w_mgr w))) \<and>
    rr_metadata r = st_metadata (w_state w) \<and> rr_hardState r = st_hardState (w_state w) \<and>
    rr_nextEntry r = st_nextEntry (w_state w) \<and> rr_entries r = coll \<and> rr_lastLogFileDesc r = d \<and>
    rr_lastValidLogOffset r = lf_offset (w_file w) \<and> rr_lastValidLogCrc r = lf_enc_crc (w_file w)"
proof -
  let ?f = "pw_file (lf_pw (w_file w))"
  obtain n where n: "fl_synced ?f = fl_data ?f" "fl_data ?f = lf_stream (w_file w) @ replicate n 0"
    using dur by (auto simp: wal_durable_def Let_def)
  then obtain f where f: "crash_dir d w d = Some f" "fl_data f = lf_stream (w_file w) @ replicate n 0"
    by (simp add: crash_dir_def)
  have ok: "lf_ok (w_file w)" and seg: "segmentSize (lf_pw (w_file w)) = mc_chunk (lm_cfg (w_mgr w))"
    using H by (auto simp: wal_holds_def file_at_def)
  have "fl_pos ?f \<le> length (lf_stream (w_file w))"
    using lf_ok_parts(1) [OF ok] lf_offset_stream [OF ok] by (simp add: pw_ok_def lf_offset_def)
  then have len: "n = 0 \<or> length (fl_data ?f) \<le> mc_chunk (lm_cfg (w_mgr w))"
    using lf_ok_parts(2) [OF ok] n(2) by (auto simp: zero_tail_def seg max_def split: if_splits)
  from replay_written [OF H crash_dir_old [OF H refl] f] obtain f' n' r where
    r: "player_replay acq pb i (ds @ [d]) True (crash_dir d w) (new_replay_result coll0) = (Ret (), (crash_dir d w)(d \<mapsto> f'), r)"
      "fl_data f' = lf_stream (w_file w) @ replicate n' 0" "n' \<le> n"
      "rr_metadata r = st_metadata (w_state w)" "rr_hardState r = st_hardState (w_state w)"
      "rr_nextEntry r = st_nextEntry (w_state w)" "rr_entries r = coll" "rr_lastLogFileDesc r = d"
      "rr_lastValidLogOffset r = lf_offset (w_file w)" "rr_lastValidLogCrc r = lf_enc_crc (w_file w)" by blast
  have "n' = 0 \<or> length (fl_data f') \<le> mc_chunk (lm_cfg (w_mgr w))" using len r(2,3) n(2) by auto
  then show ?thesis using r by blast
qed

text \<open>
  \<^verbatim>\<open>OpenWal\<close> after the replay continues where the log stood; only the index of the last entry is
  not taken over.
\<close>

lemma open_after_replay:
  assumes H: "wal_holds acq pb i coll0 ds d w coll" and dir: "\<forall>x\<in>set ds. dir x = w_dir w x"
    and f: "dir d = Some f" "fl_data f = lf_stream (w_file w) @ replicate n 0" "n = 0 \<or> length (fl_data f) \<le> mc_chunk (lm_cfg m)"
    and m: "mgr_at m d"
    and r: "rr_metadata r = st_metadata (w_state w)" "rr_hardState r = st_hardState (w_state w)"
      "rr_nextEntry r = st_nextEntry (w_state w)" "rr_lastLogFileDesc r = d"
      "rr_lastValidLogOffset r = lf_offset (w_file w)" "rr_lastValidLogCrc r = lf_enc_crc (w_file w)"
  shows "\<exists>w'. open_wal m dir r = Ret w' \<and> wal_holds acq pb i coll0 ds d w' coll \<and>
    w_state w' = (w_state w)\<lparr>st_lastEntryIndex := 0\<rparr>"
proof -
  obtain r0 s where h: "replay_files acq pb i (w_dir w) ds (new_replay_result coll0) = (Ret (), r0)"
      "clear_entries (rr_entries r0) = coll0" "file_at acq pb i d r0 (w_file w) s" "agrees d (w_state w) coll s"
      "mgr_at (w_mgr w) d" "lf_ok (w_file w)"
    by (rule wal_holdsD [OF H])
  let ?cfg = "lm_cfg m" and ?f = "f\<lparr>fl_pos := lf_offset (w_file w)\<rparr>"
  let ?lf = "\<lparr>lf_pw = create_writer (mc_chunk ?cfg) (mc_page ?cfg) (mc_buf ?cfg) ?f, lf_enc_crc = lf_enc_crc (w_file w)\<rparr>"
  have cfg: "0 < mc_page ?cfg" "mc_page ?cfg \<le> mc_buf ?cfg" "lm_find m (ld_id d) = Some d" "\<not> ld_temp d"
    using m by (simp_all add: mgr_at_def)
  have off: "lf_offset (w_file w) = length (lf_stream (w_file w))" by (rule lf_offset_stream [OF h(6)])
  have lf: "lf_ok ?lf" "lf_stream ?lf = lf_stream (w_file w)"
    using lf_ok_create [OF cfg(1,2), of ?f n "lf_enc_crc (w_file w)"] f(2,3) off by auto
  have at: "file_at acq pb i d r0 ?lf s" using h(3) lf by (simp add: file_at_def)
  obtain x where "lf_stream (w_file w) = file_header @ x" using h(3) by (auto simp: file_at_def)
  then have "open_log_file_handle f = Ret (f\<lparr>fl_pos := LogFileHeaderLength\<rparr>)"
    using f(2) by (intro open_good_header) simp
  then have op: "lm_open_log_file (ld_id d) (lf_offset (w_file w)) (lf_enc_crc (w_file w)) m dir = Ret ?lf"
    using cfg f(1) by (simp add: lm_open_log_file_def)
  let ?w = "\<lparr>w_mgr = m, w_dir = dir, w_state = (w_state w)\<lparr>st_lastEntryIndex := 0\<rparr>, w_file = ?lf, w_index = None, w_noSync = False\<rparr>"
  have st: "\<lparr>st_metadata = st_metadata (w_state w), st_nextEntry = st_nextEntry (w_state w),
      st_hardState = st_hardState (w_state w), st_lastEntryIndex = 0\<rparr> = (w_state w)\<lparr>st_lastEntryIndex := 0\<rparr>"
    by (cases "w_state w") simp
  have "open_wal m dir r = Ret ?w" using op r st by (simp add: open_wal_def)
  moreover have "agrees d (w_state ?w) coll s" using h(4) by (simp add: agrees_def)
  moreover have "replay_files acq pb i dir ds (new_replay_result coll0) = (Ret (), r0)"
    using h(1) dir replay_files_cong by metis
  moreover have "segmentSize (lf_pw ?lf) = mc_chunk ?cfg" by (simp add: create_writer_def)
  ultimately have "open_wal m dir r = Ret ?w \<and> wal_holds acq pb i coll0 ds d ?w coll"
    using h(2) at m H dir by (auto simp: wal_holds_def)
  then show ?thesis by auto
qed

section \<open>Creating the log\<close>

definition first_recs :: "raft_pb \<Rightarrow> bytes \<Rightarrow> (u32 \<times> log_body) list" where
  "first_recs pb md = [(LogTypeCrc, CrcLog 0), (LogTypeMetadata, SliceBytes md),
     (LogTypeSnapshot, MarshalledLog (pb_snap pb empty_wal_snapshot))]"

lemma first_recs_written:
  assumes ok: "lf_ok (w_file w)" "lf_enc_crc (w_file w) = 0" and recs: "recs_ok acq 0 (first_recs pb md)"
    and v: "pb_snap_valid pb empty_wal_snapshot"
  shows "\<exists>lf n. wbind (on_file (lf_crc acq 0)) (\<lambda>_.
                wbind (on_file (lf_metadata acq md)) (\<lambda>_.
                wbind (on_file (lf_snapshot acq pb empty_wal_snapshot)) (\<lambda>_.
                wbind (on_file (lf_sync True)) k))) w = k () (w\<lparr>w_file := lf\<rparr>) \<and>
     wrote (w_file w) (first_recs pb md) lf \<and> fl_data (pw_file (lf_pw lf)) = lf_stream lf @ replicate n 0 \<and>
     fl_synced (pw_file (lf_pw lf)) = fl_data (pw_file (lf_pw lf))"
proof -
  let ?sn = "pb_snap pb empty_wal_snapshot"
  have r: "rec_ok acq 0 LogTypeCrc (CrcLog 0)" "rec_ok acq 0 LogTypeMetadata (SliceBytes md)"
    "rec_ok acq (crc32_update 0 md) LogTypeSnapshot (MarshalledLog ?sn)"
    using recs by (simp_all add: first_recs_def)
  obtain lf1 where 1: "on_file (lf_crc acq 0) w = Some (Ret (), w\<lparr>w_file := lf1\<rparr>)" "wrote (w_file w) [(LogTypeCrc, CrcLog 0)] lf1"
    using on_file_wrote [OF ok(1), of acq LogTypeCrc "CrcLog 0" 4] r(1) ok(2) by (auto simp: lf_crc_def)
  then obtain lf2 where 2: "on_file (lf_metadata acq md) (w\<lparr>w_file := lf1\<rparr>) = Some (Ret (), w\<lparr>w_file := lf2\<rparr>)"
      "wrote lf1 [(LogTypeMetadata, SliceBytes md)] lf2"
    using on_file_wrote [of "w\<lparr>w_file := lf1\<rparr>" acq LogTypeMetadata "SliceBytes md" "length md"] r(2)
    by (auto simp: lf_metadata_def wrote_def)
  have c2: "lf_ok lf2" "lf_enc_crc lf2 = crc32_update 0 md" using 1(2) 2(2) by (simp_all add: wrote_def)
  then obtain lf3 where 3: "on_file (lf_snapshot acq pb empty_wal_snapshot) (w\<lparr>w_file := lf2\<rparr>) = Some (Ret (), w\<lparr>w_file := lf3\<rparr>)"
      "wrote lf2 [(LogTypeSnapshot, MarshalledLog ?sn)] lf3"
    using on_file_wrote [of "w\<lparr>w_file := lf2\<rparr>" acq LogTypeSnapshot "MarshalledLog ?sn" "length ?sn"] r(3) v
    by (auto simp: lf_snapshot_def on_file_def)
  have w3: "wrote (w_file w) (first_recs pb md) lf3"
    using wrote_append [OF wrote_append [OF 1(2) 2(2)] 3(2)] by (simp add: first_recs_def)
  then have "lf_ok (w_file (w\<lparr>w_file := lf3\<rparr>))" by (simp add: wrote_def)
  from on_file_sync [OF this, of "w_file w" "first_recs pb md" True] w3 show ?thesis
    using 1(1) 2(1) 3(1) by fastforce
qed

definition first_desc :: log_file_desc where
  "first_desc = \<lparr>ld_id = 0, ld_start = 0, ld_temp = False\<rparr>"

lemma run_first_recs:
  assumes "recs_ok acq 0 (first_recs pb md)" and "raft_pb_ok pb"
  shows "\<exists>s. run_recs acq pb i 0 (first_recs pb md) (start_state first_desc (new_replay_result coll)) = Some s \<and>
    rr_lastValidLogCrc (ps_result s) = recs_crc 0 (first_recs pb md) \<and>
    rr_walSnapshots (ps_result s) = [empty_wal_snapshot] \<and>
    agrees first_desc \<lparr>st_metadata = md, st_nextEntry = \<lparr>nextTerm = 0, nextIndex = 0\<rparr>,
       st_hardState = zero_hard_state, st_lastEntryIndex = 0\<rparr> coll s"
proof -
  let ?s0 = "start_state first_desc (new_replay_result coll)"
  let ?k = "(LogTypeCrc, CrcLog 0)" and ?m = "(LogTypeMetadata, SliceBytes md)"
    and ?p = "(LogTypeSnapshot, MarshalledLog (pb_snap pb empty_wal_snapshot))"
  have r: "recs_ok acq 0 [?k]" "recs_ok acq 0 [?m]" "recs_ok acq (crc32_update 0 md) [?p]"
    using assms(1) by (simp_all add: first_recs_def)
  define s1 where "s1 = ?s0\<lparr>ps_result := parsed ?s0 [?k] (ps_result ?s0)\<rparr>"
  define s2 where "s2 = s1\<lparr>ps_result := parsed s1 [?m] ((ps_result s1)\<lparr>rr_metadata := md\<rparr>)\<rparr>"
  define s3 where "s3 = s2\<lparr>ps_result := parsed s2 [?p] ((ps_result s2)\<lparr>rr_walSnapshots := rr_walSnapshots (ps_result s2) @ [empty_wal_snapshot]\<rparr>)\<rparr>"
  have c: "rr_lastValidLogCrc (ps_result s1) = 0" "rr_lastValidLogCrc (ps_result s2) = crc32_update 0 md"
    by (simp_all add: s1_def s2_def parsed_def)
  have run: "run_recs acq pb i 0 [?k] ?s0 = Some s1" "run_recs acq pb i 0 [?m] s1 = Some s2"
    "run_recs acq pb i (crc32_update 0 md) [?p] s2 = Some s3"
    unfolding s1_def s2_def s3_def
    using run_crc_rec [OF r(1)] run_metadata_rec [OF c(1) r(2)] run_snapshot_rec [OF c(2) r(3) assms(2)]
    by (simp_all only: s1_def s2_def)
  have "run_recs acq pb i 0 ([?k] @ [?m] @ [?p]) ?s0 = Some s3"
    unfolding run_recs_append run Option.bind.simps using run by simp
  then show ?thesis
    by (intro exI [of _ s3])
       (simp add: first_recs_def s3_def s2_def s1_def parsed_def agrees_def start_state_def new_replay_result_def)
qed

lemma create_wal_ok:
  assumes m: "lm_next m = 0" "0 < mc_page (lm_cfg m)" "mc_page (lm_cfg m) \<le> mc_buf (lm_cfg m)"
    and pb: "raft_pb_ok pb" "pb_snap_valid pb empty_wal_snapshot" and recs: "recs_ok acq 0 (first_recs pb md)"
    and coll: "clear_entries coll = coll"
  shows "\<exists>w. create_wal acq pb md m dir = Some (Ret w) \<and> wal_holds acq pb i coll [] first_desc w coll \<and> wal_durable w \<and>
    w_state w = \<lparr>st_metadata = md, st_nextEntry = \<lparr>nextTerm = 0, nextIndex = 0\<rparr>,
                 st_hardState = zero_hard_state, st_lastEntryIndex = 0\<rparr> \<and> w_index w = None \<and>
    segmentSize (lf_pw (w_file w)) = mc_chunk (lm_cfg m) \<and> lf_stream (w_file w) = file_header @ recs_bytes 0 (first_recs pb md)"
proof -
  let ?t = "\<lparr>ld_id = 0, ld_start = 0, ld_temp = True\<rparr>" and ?st = "\<lparr>st_metadata = md, st_nextEntry = \<lparr>nextTerm = 0, nextIndex = 0\<rparr>,
                 st_hardState = zero_hard_state, st_lastEntryIndex = 0\<rparr>"
  let ?m1 = "(lm_set m ?t)\<lparr>lm_next := 1\<rparr>"
  from fresh_file [OF m(2,3), of 0] obtain lf0 where lf0: "lm_create_next_temp 0 0 m = Ret (lf0, ?m1)"
      "lf_ok lf0" "lf_stream lf0 = file_header" "lf_enc_crc lf0 = 0" "segmentSize (lf_pw lf0) = mc_chunk (lm_cfg m)"
    by (auto simp: m(1))
  let ?w1 = "\<lparr>w_mgr = ?m1, w_dir = dir, w_state = ?st, w_file = lf0, w_index = None, w_noSync = False\<rparr>"
  let ?k = "\<lambda>_. wbind (finalize_next 0) (\<lambda>_ w. reopen 0 (lf_offset (w_file w)) (lf_enc_crc (w_file w)) w)"
  from first_recs_written [of ?w1 acq pb md ?k] lf0 recs pb(2) obtain lf1 n where p:
      "wbind (on_file (lf_crc acq 0)) (\<lambda>_. wbind (on_file (lf_metadata acq md)) (\<lambda>_.
         wbind (on_file (lf_snapshot acq pb empty_wal_snapshot)) (\<lambda>_. wbind (on_file (lf_sync True)) ?k))) ?w1 = ?k () (?w1\<lparr>w_file := lf1\<rparr>)"
      "wrote lf0 (first_recs pb md) lf1" "fl_data (pw_file (lf_pw lf1)) = lf_stream lf1 @ replicate n 0"
      "fl_synced (pw_file (lf_pw lf1)) = fl_data (pw_file (lf_pw lf1))"
    by (auto simp del: wbind.simps)
  let ?m2 = "lm_set ?m1 first_desc" and ?f = "pw_file (lf_pw lf1)"
  have "lm_find (lm_set m ?t) 0 = Some ?t" using lm_find_set [of m ?t] by simp
  then have fin: "lm_finalize_temp 0 ?f ?m1 dir = Ret (?m2, dir(first_desc \<mapsto> ?f))"
    by (simp add: lm_finalize_temp_def lm_find_def first_desc_def)
  let ?w2 = "?w1\<lparr>w_file := lf1, w_mgr := ?m2, w_dir := dir(first_desc \<mapsto> ?f)\<rparr>"
  have d: "ld_id first_desc = 0" "\<not> ld_temp first_desc" by (simp_all add: first_desc_def)
  have mg: "lm_find ?m2 (ld_id first_desc) = Some first_desc" by (rule lm_find_set)
  have "lf_ok lf1" "segmentSize (lf_pw lf1) = mc_chunk (lm_cfg m)" "lf_stream lf1 = file_header @ recs_bytes 0 (first_recs pb md)"
    using p(2) lf0 by (simp_all add: wrote_def)
  with reopen_ok [of ?w2 first_desc lf1 ?f n _ "lf_offset lf1" "lf_enc_crc lf1"] mg d m p(3) obtain lf' where r:
      "reopen 0 (lf_offset lf1) (lf_enc_crc lf1) ?w2 = Some (Ret (), ?w2\<lparr>w_file := lf'\<rparr>)" "wrote lf1 [] lf'"
      "fl_synced (pw_file (lf_pw lf')) = fl_synced ?f" "fl_data (pw_file (lf_pw lf')) = fl_data ?f"
    by (auto simp: lm_set_def)
  let ?w = "?w2\<lparr>w_file := lf'\<rparr>"
  have cr: "create_wal acq pb md m dir = Some (Ret ?w)"
    using lf0(1) p(1) fin r(1) by (simp add: create_wal_def finalize_next_def del: wbind.simps) (simp add: finalize_next_def)
  have w': "wrote lf0 (first_recs pb md) lf'" using wrote_append [OF p(2) r(2)] by simp
  obtain s where s: "run_recs acq pb i 0 (first_recs pb md) (start_state first_desc (new_replay_result coll)) = Some s"
      "rr_lastValidLogCrc (ps_result s) = recs_crc 0 (first_recs pb md)" "agrees first_desc ?st coll s"
    using run_first_recs [OF recs pb(1)] by blast
  have "file_at acq pb i first_desc (new_replay_result coll) lf' s"
    using w' lf0 s(1,2) unfolding file_at_def wrote_def by auto
  moreover have "mgr_at ?m2 first_desc" using mg m d by (simp add: mgr_at_def lm_set_def)
  moreover have "segmentSize (lf_pw lf') = mc_chunk (lm_cfg ?m2)" using w' lf0(5) by (simp add: wrote_def lm_set_def)
  ultimately have "wal_holds acq pb i coll [] first_desc ?w coll" using s(3) coll by (auto simp: wal_holds_def)
  moreover have "wal_durable ?w" using p(3,4) r(2-4) by (auto simp: wal_durable_def wrote_def Let_def)
  moreover have "segmentSize (lf_pw lf') = mc_chunk (lm_cfg m)" "lf_stream lf' = file_header @ recs_bytes 0 (first_recs pb md)"
    using w' lf0(3-5) by (simp_all add: wrote_def)
  ultimately show ?thesis using cr by (intro exI [of _ ?w]) simp
qed

section \<open>Batches of consecutive entries\<close>

lemma ent_run_Cons: "ent_run m (e # es) \<Longrightarrow> unat (ent_index e) = m \<and> ent_run (Suc m) es"
  using ent_run_index [of m "e # es" 0] by (auto simp: ent_run_def nth_Cons split: nat.splits)

lemma coll_put_at:
  assumes "unat k = m" and "unat i < m" and "m \<le> Suc (unat i + length xs)"
  shows "coll_put i k x xs = Ret (take (m - Suc (unat i)) xs @ [x])"
proof -
  have "i < k" using assms(1,2) by (simp add: word_less_nat_alt)
  moreover from this have "unat (k - i - 1) = m - Suc (unat i)"
    using assms(1,2) by (simp add: unat_sub_if_size word_less_nat_alt word_le_nat_alt)
  ultimately show ?thesis using assms(3) by (simp add: coll_put_def Let_def)
qed

lemma coll_entries_store:
  assumes "ent_run m es" and "es \<noteq> []" and "unat i < m" and "m \<le> Suc (unat i + length xs)"
  shows "coll_entries fid i off ne es (EntryStore xs) = Ret (EntryStore (take (m - Suc (unat i)) xs @ es))"
  using assms
proof (induction es arbitrary: m xs off ne)
  case (Cons e es)
  let ?xs = "take (m - Suc (unat i)) xs @ [e]"
  have e: "unat (ent_index e) = m" "ent_run (Suc m) es" using ent_run_Cons [OF Cons.prems(1)] by auto
  have put: "coll_put i (ent_index e) e xs = Ret ?xs" by (rule coll_put_at [OF e(1) Cons.prems(3,4)])
  have len: "length ?xs = m - unat i" using Cons.prems(3,4) by simp
  show ?case
  proof (cases "es = []")
    case False
    then have "coll_entries fid i off' ne' es (EntryStore ?xs) = Ret (EntryStore (?xs @ es))" for off' ne'
      using Cons.IH [OF e(2) False, of ?xs off' ne'] Cons.prems(3) len by (simp add: take_Cons')
    then show ?thesis using put by (simp add: coll_entry_def)
  qed (simp add: coll_entry_def put)
qed simp

lemma coll_entries_indexed:
  assumes "ent_run m es" and "es \<noteq> []" and "unat i < m" and "m \<le> Suc (unat i + length xs)"
  shows "coll_entries fid i off ne es (IndexedEntryStore xs) =
    Ret (IndexedEntryStore (take (m - Suc (unat i)) xs @ entry_positions fid off ne es))"
  using assms
proof (induction es arbitrary: m xs off ne)
  case (Cons e es)
  define off1 where "off1 = off + (if ne \<noteq> at_entry e then rec_len (next_rec (at_entry e)) else 0)"
  let ?xs = "take (m - Suc (unat i)) xs @ [entry_pos_of fid off1 e]"
  have e: "unat (ent_index e) = m" "ent_run (Suc m) es" using ent_run_Cons [OF Cons.prems(1)] by auto
  have put: "coll_put i (ent_index e) (entry_pos_of fid off1 e) xs = Ret ?xs" by (rule coll_put_at [OF e(1) Cons.prems(3,4)])
  have len: "length ?xs = m - unat i" using Cons.prems(3,4) by simp
  have step: "coll_entries fid i off ne (e # es) (IndexedEntryStore xs) =
      coll_entries fid i (off1 + rec_len (entry_rec e)) (after_entry e) es (IndexedEntryStore ?xs)"
    using put by (simp add: coll_entry_def off1_def [symmetric] del: if_split)
  have pos: "entry_positions fid off ne (e # es) =
      entry_pos_of fid off1 e # entry_positions fid (off1 + rec_len (entry_rec e)) (after_entry e) es"
    by (simp add: off1_def Let_def)
  show ?case
  proof (cases "es = []")
    case False
    then have "coll_entries fid i off' ne' es (IndexedEntryStore ?xs) = Ret (IndexedEntryStore (?xs @ entry_positions fid off' ne' es))" for off' ne'
      using Cons.IH [OF e(2) False, of ?xs off' ne'] Cons.prems(3) len by (simp add: take_Cons')
    then show ?thesis unfolding step pos by simp
  next
    case True
    then show ?thesis unfolding step pos by simp
  qed
qed simp

lemma length_entry_positions [simp]: "length (entry_positions fid off ne es) = length es"
  by (induction es arbitrary: off ne) (simp_all add: Let_def)

lemma copy_entry_positions: "map copy_ent (entry_positions fid off ne es) = map (\<lambda>e. e\<lparr>ent_data := []\<rparr>) es"
proof (induction es arbitrary: off ne)
  case (Cons e es)
  have "copy_ent (entry_pos_of fid o' e) = e\<lparr>ent_data := []\<rparr>" for o'
    by (cases e) (simp add: copy_ent_def entry_pos_of_def)
  then show ?case using Cons by (simp add: Let_def)
qed simp

lemma entry_positions_batch: "same_batch (entry_positions fid off ne es) es"
  by (simp add: same_batch_def copy_entry_positions)

lemma entry_positions_run:
  assumes "ent_run m es" and "m + length es < 2 ^ 63"
  shows "pos_run m (entry_positions fid off ne es)"
proof -
  have "ep_index (entry_positions fid off ne es ! j) = ent_index (es ! j)" if "j < length es" for j
  proof -
    have "map copy_ent (entry_positions fid off ne es) ! j = map (\<lambda>e. e\<lparr>ent_data := []\<rparr>) es ! j"
      by (simp add: copy_entry_positions)
    then show ?thesis using that by (simp add: copy_ent_def) (cases "es ! j", simp)
  qed
  then show ?thesis using assms by (simp add: pos_run_def ent_run_def)
qed

section \<open>Properties of the log\<close>

text \<open>
  A log with its entry index: the bytes written determine the positions in the index, and the index
  with the payloads \<^verbatim>\<open>p\<close> represents the raft log after the snapshot at \<^verbatim>\<open>i\<close>.
\<close>

definition wal_indexed ::
  "acquirer \<Rightarrow> raft_pb \<Rightarrow> u64 \<Rightarrow> (nat \<Rightarrow> bytes) \<Rightarrow> log_file_desc list \<Rightarrow> log_file_desc \<Rightarrow> wal \<Rightarrow> entry_meta entry_storage \<Rightarrow> bool" where
  "wal_indexed acq pb i p ds d w s \<longleftrightarrow>
     wal_holds acq pb i (IndexedEntryStore []) ds d w (IndexedEntryStore (tl (es_ents s))) \<and>
     w_index w = Some s \<and> es_inv p s \<and> es_offset s = i"

lemma entry_positions_Nil_iff [simp]: "entry_positions fid off ne es = [] \<longleftrightarrow> es = []"
  by (cases es) (simp_all add: Let_def)

lemma es_append_cache_ents: "es_append_cache s es = Some (Ret s') \<Longrightarrow> es_ents s' = es_ents s"
  by (auto simp: es_append_cache_def bind_outcome_Ret_iff)

lemma es_delete_cache_total:
  assumes "cache_inv (es_cache s)"
  shows "\<exists>s'. es_delete_cache s t = Some s' \<and> es_ents s' = es_ents s"
proof -
  obtain c where "cache_delete t (es_cache s) = Some c" using ring.delete_law [OF assms] by blast
  then show ?thesis by (simp add: es_delete_cache_def)
qed

lemma index_append_any:
  assumes inv: "es_inv p s" and run: "ent_run m es" "m + length es < 2 ^ 63" "es \<noteq> []"
    and at: "unat (es_offset s) < m" "m \<le> unat (es_offset s) + length (es_ents s)"
    and size: "length (cache_abs (es_cache s)) + length es < 2 ^ 62"
    and ps: "ps = entry_positions fid off ne es"
  shows "\<exists>s1 s2. es_append_index s ps = Ret s1 \<and> es_append_cache s1 es = Some (Ret s2) \<and>
    cache_inv (es_cache s2) \<and> (cache_reaches m s \<longrightarrow> es_inv (put_payloads p m es) s2) \<and> es_offset s2 = es_offset s \<and>
    es_log (put_payloads p m es) s2 = take (m - unat (es_first_index s)) (es_log p s) @ es \<and>
    tl (es_ents s2) = take (m - Suc (unat (es_offset s))) (tl (es_ents s)) @ ps"
proof -
  have prun: "pos_run m ps" "ps \<noteq> []" "same_batch ps es"
    using entry_positions_run [OF run(1,2)] entry_positions_batch run(3) by (auto simp: ps)
  from es_append_any [OF inv prun at size] obtain s1 s2 where b: "es_append_index s ps = Ret s1"
      "es_append_cache s1 es = Some (Ret s2)" "cache_inv (es_cache s2)" "cache_reaches m s \<longrightarrow> es_inv (put_payloads p m es) s2"
      "es_offset s2 = es_offset s"
      "es_log (put_payloads p m es) s2 = take (m - unat (es_first_index s)) (es_log p s) @ es" by metis
  have wf: "es_wf s" and ne: "es_ents s \<noteq> []" using inv by (simp_all add: es_inv_def es_wf_def)
  have "\<not> m + length ps \<le> Suc (unat (es_offset s))" using at(1) prun(2) by (cases ps) auto
  then have "es_ents s1 = take (m - unat (es_offset s)) (es_ents s) @ ps"
    using b(1) es_append_index_cases [OF wf prun(1,2)] at by (auto split: if_splits)
  then have "es_ents s2 = take (m - unat (es_offset s)) (es_ents s) @ ps" using es_append_cache_ents [OF b(2)] by simp
  moreover have "tl (take (m - unat (es_offset s)) (es_ents s) @ ps) = take (m - Suc (unat (es_offset s))) (tl (es_ents s)) @ ps"
    using ne at(1) by (cases "es_ents s") (auto simp: take_Cons' Suc_diff_Suc)
  ultimately show ?thesis using b by auto
qed

lemma save_indexed:
  assumes W: "wal_indexed acq pb i p ds d w s" and pb: "raft_pb_ok pb" and fits: "save_fits acq pb h es w"
    and id: "ld_id d < ld_id d + 1" and run: "ent_run m es" "m + length es < 2 ^ 63" "es \<noteq> []"
    and at: "unat i < m" "m \<le> unat i + length (es_ents s)"
    and size: "length (cache_abs (es_cache s)) + length es < 2 ^ 62"
  shows "\<exists>w' s' ds' d'. wal_save acq pb h es w = Some (Ret (), w') \<and>
    wal_holds acq pb i (IndexedEntryStore []) ds' d' w' (IndexedEntryStore (tl (es_ents s'))) \<and> w_index w' = Some s' \<and>
    (cache_reaches m s \<longrightarrow> wal_indexed acq pb i (put_payloads p m es) ds' d' w' s') \<and> wal_durable w' \<and>
    w_state w' = saved_state pb h es (w_state w) \<and>
    es_log (put_payloads p m es) s' = take (m - unat (es_first_index s)) (es_log p s) @ es"
proof -
  let ?ne = "st_nextEntry (w_state w)" and ?p = "put_payloads p m es"
  let ?ps = "entry_positions (ld_id d) (lf_offset (w_file w)) ?ne es"
  have h: "wal_holds acq pb i (IndexedEntryStore []) ds d w (IndexedEntryStore (tl (es_ents s)))"
    "w_index w = Some s" "es_inv p s" "es_offset s = i" using W by (simp_all add: wal_indexed_def)
  have ne: "es_ents s \<noteq> []" using h(3) by (simp add: es_inv_def es_wf_def)
  from index_append_any [OF h(3) run at [folded h(4)] size refl] obtain s1 s2 where b: "es_append_index s ?ps = Ret s1"
      "es_append_cache s1 es = Some (Ret s2)" "cache_inv (es_cache s2)" "cache_reaches m s \<longrightarrow> es_inv ?p s2" "es_offset s2 = i"
      "es_log ?p s2 = take (m - unat (es_first_index s)) (es_log p s) @ es"
      "tl (es_ents s2) = take (m - Suc (unat i)) (tl (es_ents s)) @ ?ps" unfolding h(4) by blast
  obtain s3 where s3: "es_delete_cache s2 (hs_commit h) = Some s3" "es_ents s3 = es_ents s2"
    using es_delete_cache_total [OF b(3)] by blast
  define s' where "s' = (if raft_is_empty_hs pb h then s2 else s3)"
  have s': "cache_reaches m s \<longrightarrow> es_inv ?p s'" "es_ents s' = es_ents s2"
    using b(4) s3 es_delete_cache_inv [of ?p s2 "hs_commit h"] by (auto simp: s'_def)
  have "m \<le> Suc (unat i + length (tl (es_ents s)))" using at(2) ne by (cases "es_ents s") auto
  then have coll: "coll_entries (ld_id d) i (lf_offset (w_file w)) ?ne es (IndexedEntryStore (tl (es_ents s))) = Ret (IndexedEntryStore (tl (es_ents s2)))"
    using coll_entries_indexed [OF run(1,3) at(1)] b(7) by simp
  have ix: "index_accepts w ?ps es (Some s2)" "index_trimmed pb h (Some s2) (Some s')"
    using h(2) b(1,2) s3(1) by (auto simp: index_accepts_def index_trimmed_def s'_def)
  from wal_save_ok [OF h(1) pb fits id coll ix] run(3) obtain w' ds' d' where sv:
      "wal_save acq pb h es w = Some (Ret (), w')"
      "wal_holds acq pb i (IndexedEntryStore []) ds' d' w' (IndexedEntryStore (tl (es_ents s2)))"
      "w_index w' = Some s'" "w_state w' = saved_state pb h es (w_state w)" "wal_durable w'" by blast
  have "es_offset s' = i" "es_log ?p s' = es_log ?p s2" using b(5) s'(2) by (simp_all add: es_offset_def es_log_def)
  then show ?thesis using sv s' b(6) by (auto simp: wal_indexed_def)
qed

text \<open>
  C1. What \<^verbatim>\<open>Save\<close> has returned survives a crash. The log is in a consistent state (the bytes written
  determine the state, and the index and the cache represent the raft log), and the batch is consecutive, starts
  inside the log or right after it, and fits: its records and those that open a next file are within the limits of
  a frame, terms are not 0, and indices and file ids do not wrap around. Then \<^verbatim>\<open>Save\<close> succeeds, whether or not it
  has to start a new file; the files determine the new state, and the index holds the log with the entries from the
  first new index on replaced by the batch. If the machine stops right then and only what was synced
  remains, the replay of the directory succeeds and restores the metadata, the hard state, and the very index of
  entries (terms, indices, types, and the file, offset and length of each payload) held in memory. The log is left
  in a consistent state, cache included, when the batch does not start before the oldest cached entry. When it does,
  this last part is not claimed: the cache ignores the batch.
\<close>

theorem save_survives_crash:
  assumes "wal_indexed acq pb i p ds d w s" and "raft_pb_ok pb" and "save_fits acq pb h es w"
    and "ld_id d < ld_id d + 1" and "ent_run m es" and "m + length es < 2 ^ 63" and "es \<noteq> []"
    and "unat i < m" and "m \<le> unat i + length (es_ents s)"
    and "length (cache_abs (es_cache s)) + length es < 2 ^ 62"
  shows "\<exists>w' s' ds' d' dir' r. wal_save acq pb h es w = Some (Ret (), w') \<and>
    wal_holds acq pb i (IndexedEntryStore []) ds' d' w' (IndexedEntryStore (tl (es_ents s'))) \<and> w_index w' = Some s' \<and>
    es_log (put_payloads p m es) s' = take (m - unat (es_first_index s)) (es_log p s) @ es \<and>
    player_replay acq pb i (ds' @ [d']) True (crash_dir d' w') (new_replay_result (IndexedEntryStore [])) = (Ret (), dir', r) \<and>
    rr_metadata r = st_metadata (w_state w) \<and> rr_hardState r = next_hs pb h (st_hardState (w_state w)) \<and>
    rr_entries r = IndexedEntryStore (tl (es_ents s')) \<and>
    (cache_abs (es_cache s) = [] \<or> unat (ce_index (hd (cache_abs (es_cache s)))) \<le> m \<longrightarrow>
       wal_indexed acq pb i (put_payloads p m es) ds' d' w' s')"
proof -
  from save_indexed [OF assms] obtain w' s' ds' d' where sv: "wal_save acq pb h es w = Some (Ret (), w')"
      "wal_holds acq pb i (IndexedEntryStore []) ds' d' w' (IndexedEntryStore (tl (es_ents s')))" "w_index w' = Some s'"
      "cache_reaches m s \<longrightarrow> wal_indexed acq pb i (put_payloads p m es) ds' d' w' s'" "wal_durable w'"
      "w_state w' = saved_state pb h es (w_state w)"
      "es_log (put_payloads p m es) s' = take (m - unat (es_first_index s)) (es_log p s) @ es" by blast
  from crash_replay [OF sv(2,5)] obtain dir' r where
    "player_replay acq pb i (ds' @ [d']) True (crash_dir d' w') (new_replay_result (IndexedEntryStore [])) = (Ret (), dir', r)"
    "rr_metadata r = st_metadata (w_state w') \<and> rr_hardState r = st_hardState (w_state w') \<and>
     rr_entries r = IndexedEntryStore (tl (es_ents s'))" by blast
  then show ?thesis using sv unfolding cache_reaches_def [symmetric]
    by (intro exI [of _ w'] exI [of _ s'] exI [of _ ds'] exI [of _ d'] exI [of _ dir'] exI [of _ r]) (simp add: saved_state_def)
qed

definition sample_cfg :: manager_config where
  "sample_cfg = \<lparr>mc_chunk = 100, mc_page = 8, mc_buf = 64, mc_keep = 5\<rparr>"

definition sample_hs :: hard_state where
  "sample_hs = \<lparr>hs_term = 1, hs_vote = 1, hs_commit = 0\<rparr>"

lemma sample_small:
  "length (next_entry_bytes \<lparr>nextTerm = 1, nextIndex = 1\<rparr>) \<le> 100" "next_entry_bytes \<lparr>nextTerm = 1, nextIndex = 1\<rparr> \<noteq> []"
  "length (next_entry_bytes \<lparr>nextTerm = 1, nextIndex = 2\<rparr>) \<le> 100" "next_entry_bytes \<lparr>nextTerm = 1, nextIndex = 2\<rparr> \<noteq> []"
  "length (pb_hs sample_pb h) \<le> 100" "pb_hs sample_pb h \<noteq> []"
  "length (pb_snap sample_pb empty_wal_snapshot) \<le> 100" "pb_snap sample_pb empty_wal_snapshot \<noteq> []"
  using next_entry_size_le [of "\<lparr>nextTerm = 1, nextIndex = 1\<rparr>"] next_entry_size_le [of "\<lparr>nextTerm = 1, nextIndex = 2\<rparr>"]
  by (simp_all add: length_next_entry_bytes sample_pb_def empty_wal_snapshot_def)
     (simp_all add: next_entry_bytes_def varint_field_def)

lemma sample_created:
  "\<exists>w. create_indexed_wal sample_acq sample_pb sample_cfg [1, 2, 3] = Some (Ret w) \<and>
     wal_indexed sample_acq sample_pb 0 (\<lambda>_. []) [] first_desc w (new_entry_storage zero_meta) \<and>
     w_state w = \<lparr>st_metadata = [1, 2, 3], st_nextEntry = \<lparr>nextTerm = 0, nextIndex = 0\<rparr>,
                  st_hardState = zero_hard_state, st_lastEntryIndex = 0\<rparr>"
proof -
  let ?m = "new_log_manager sample_cfg"
  have m: "lm_next ?m = 0" "0 < mc_page (lm_cfg ?m)" "mc_page (lm_cfg ?m) \<le> mc_buf (lm_cfg ?m)"
    by (simp_all add: new_log_manager_def sample_cfg_def)
  have v: "pb_snap_valid sample_pb empty_wal_snapshot" by (simp add: sample_pb_def empty_wal_snapshot_def)
  have r: "recs_ok sample_acq 0 (first_recs sample_pb [1, 2, 3])"
    by (simp add: first_recs_def rec_ok_sample sample_small log_type_defs)
  from create_wal_ok [OF m sample_pb_ok v r, of "IndexedEntryStore []" Map.empty 0] obtain w where
    w: "create_wal sample_acq sample_pb [1, 2, 3] ?m Map.empty = Some (Ret w)"
      "wal_holds sample_acq sample_pb 0 (IndexedEntryStore []) [] first_desc w (IndexedEntryStore [])"
      "w_state w = \<lparr>st_metadata = [1, 2, 3], st_nextEntry = \<lparr>nextTerm = 0, nextIndex = 0\<rparr>,
                  st_hardState = zero_hard_state, st_lastEntryIndex = 0\<rparr>" by auto
  let ?s = "new_entry_storage zero_meta" and ?w = "w\<lparr>w_index := Some (new_entry_storage zero_meta)\<rparr>"
  have "tl (es_ents ?s) = []" "es_offset ?s = 0" by (simp_all add: new_entry_storage_def es_offset_def dummy_pos_def)
  moreover have "wal_holds sample_acq sample_pb 0 (IndexedEntryStore []) [] first_desc ?w (IndexedEntryStore [])"
    using w(2) by (simp add: wal_holds_def)
  ultimately have "wal_indexed sample_acq sample_pb 0 (\<lambda>_. []) [] first_desc ?w ?s"
    by (simp add: wal_indexed_def new_entry_storage_inv)
  then show ?thesis using w by (intro exI [of _ ?w]) (simp add: create_indexed_wal_def)
qed

theorem save_survives_crash_witness:
  "\<exists>w w' s' ds' d' dir' r. create_indexed_wal sample_acq sample_pb sample_cfg [1, 2, 3] = Some (Ret w) \<and>
    wal_save sample_acq sample_pb sample_hs [sample_entry 1 [9]] w = Some (Ret (), w') \<and>
    wal_indexed sample_acq sample_pb 0 (put_payloads (\<lambda>_. []) 1 [sample_entry 1 [9]]) ds' d' w' s' \<and>
    es_log (put_payloads (\<lambda>_. []) 1 [sample_entry 1 [9]]) s' = [sample_entry 1 [9]] \<and>
    player_replay sample_acq sample_pb 0 (ds' @ [d']) True (crash_dir d' w') (new_replay_result (IndexedEntryStore [])) = (Ret (), dir', r) \<and>
    rr_metadata r = [1, 2, 3] \<and> rr_hardState r = sample_hs"
proof -
  let ?es = "[sample_entry 1 [9]]" and ?s = "new_entry_storage zero_meta"
  obtain w where w: "create_indexed_wal sample_acq sample_pb sample_cfg [1, 2, 3] = Some (Ret w)"
     "wal_indexed sample_acq sample_pb 0 (\<lambda>_. []) [] first_desc w ?s"
     "w_state w = \<lparr>st_metadata = [1, 2, 3], st_nextEntry = \<lparr>nextTerm = 0, nextIndex = 0\<rparr>,
                  st_hardState = zero_hard_state, st_lastEntryIndex = 0\<rparr>"
    using sample_created by blast
  have hs: "next_hs sample_pb sample_hs zero_hard_state = sample_hs"
    by (simp add: next_hs_def sample_pb_def sample_hs_def zero_hard_state_def)
  have fits: "save_fits sample_acq sample_pb sample_hs ?es w"
    by (simp add: save_fits_def save_recs_def prologue_recs_def saved_state_def hs_recs_def w(3) next_rec_def hs_rec_def
        entry_rec_def at_entry_def after_entry_def sample_entry_def empty_next_entry_def rec_ok_sample sample_small log_type_defs
        log_type_of_def Let_def)
  have e: "ent_run 1 ?es" "es_ents ?s = [dummy_pos zero_meta 0 0]" "es_log (\<lambda>_. []) ?s = []" "cache_abs (es_cache ?s) = []"
    by (simp_all add: ent_run_def sample_entry_def new_entry_storage_def es_log_def)
  have "ld_id first_desc < ld_id first_desc + 1" by (simp add: first_desc_def)
  from save_survives_crash [OF w(2) sample_pb_ok fits this e(1)] e hs w(3) show ?thesis
    using w(1) by (simp del: cache_abs_Nil_iff) blast
qed

text \<open>Writing does not sync.\<close>

lemma os_write_synced [simp]: "fl_synced (os_write f d) = fl_synced f"
  by (simp add: os_write_def)

lemma pw_flush_synced: "pw_flush p = Ret p' \<Longrightarrow> fl_synced (pw_file p') = fl_synced (pw_file p)"
  by (auto simp: pw_flush_def split: if_splits)

lemma pw_write_pages_synced: "pw_write_pages p d n = Ret p' \<Longrightarrow> fl_synced (pw_file p') = fl_synced (pw_file p)"
  by (auto simp: pw_write_pages_def Let_def bind_outcome_Ret_iff dest!: pw_copy_grows split: if_splits)

lemma pw_write_synced: "pw_write p d = Ret p' \<Longrightarrow> fl_synced (pw_file p') = fl_synced (pw_file p)"
  by (auto simp: pw_write_def Let_def bind_outcome_Ret_iff
      dest!: pw_copy_grows pw_flush_synced pw_write_pages_synced split: if_splits)

lemma lf_put_synced:
  assumes "lf_put acq t n b lf = (Ret (), lf')"
  shows "fl_synced (pw_file (lf_pw lf')) = fl_synced (pw_file (lf_pw lf))"
proof -
  obtain c r where e: "encode acq (lf_enc_crc lf) t n b = (c, r)" by (cases "encode acq (lf_enc_crc lf) t n b")
  show ?thesis
  proof (cases r)
    case (Ret bs)
    then show ?thesis using assms pw_write_synced [of "lf_pw lf" bs] by (cases "pw_write (lf_pw lf) bs") (auto simp: lf_put_def e)
  qed (use assms in \<open>simp_all add: lf_put_def e\<close>)
qed

text \<open>
  C30. A vote can be lost, with the entry index (the default) and without: \<^verbatim>\<open>Save\<close> compares the hard state it was given with the one it has just
  stored, so that \<^verbatim>\<open>MustSync\<close> never sees a change of the vote or the term. A call without entries
  whose record does not fill the file (which would start a next file and sync) returns without a sync, whatever
  the vote was before, and a crash at that point restores the hard state before the call.
\<close>

theorem vote_lost_in_crash:
  assumes H: "wal_holds acq pb i coll0 ds d w coll" and dur: "wal_durable w"
    and cache: "\<forall>s. w_index w = Some s \<longrightarrow> cache_inv (es_cache s)"
    and pb: "raft_pb_ok pb" and h: "h \<noteq> zero_hard_state" and recs: "recs_ok acq (lf_enc_crc (w_file w)) [hs_rec pb h]"
    and room: "lf_offset (w_file w) + rec_len (hs_rec pb h) \<le> segmentSize (lf_pw (w_file w))"
  shows "\<exists>w' dir' r. wal_save acq pb h [] w = Some (Ret (), w') \<and> st_hardState (w_state w') = h \<and>
    player_replay acq pb i (ds @ [d]) True (crash_dir d w') (new_replay_result coll0) = (Ret (), dir', r) \<and>
    rr_hardState r = st_hardState (w_state w)"
proof -
  have ok: "lf_ok (w_file w)" using H by (auto simp: wal_holds_def file_at_def)
  obtain lf where put: "lf_put acq LogTypeHardState (length (pb_hs pb h)) (MarshalledLog (pb_hs pb h)) (w_file w) = (Ret (), lf)"
      "wrote (w_file w) [hs_rec pb h] lf"
    using lf_put_wrote [OF ok, of acq LogTypeHardState "MarshalledLog (pb_hs pb h)"] recs by (auto simp: hs_rec_def)
  obtain ix where ix: "w_index w = None \<and> ix = None \<or>
      (\<exists>s s'. w_index w = Some s \<and> es_delete_cache s (hs_commit h) = Some s' \<and> ix = Some s')"
    using cache es_delete_cache_total by (cases "w_index w") blast+
  let ?w = "w\<lparr>w_file := lf, w_state := (w_state w)\<lparr>st_hardState := h\<rparr>, w_index := ix\<rparr>"
  have "lf_offset lf \<le> segmentSize (lf_pw lf)"
    using wrote_offset [OF ok put(2)] room put(2) by (simp add: wrote_def)
  then have nc: "\<not> lf_do_cycle lf" by (simp add: lf_do_cycle_def pw_check_cycle_def lf_offset_def)
  have "save_hard_state acq pb h w = Some (Ret (), ?w)"
    using put(1) pb h ix
    by (auto simp: save_hard_state_def on_file_def lf_hard_state_def on_state_def wret_def raft_pb_ok_def)
  then have sv: "wal_save acq pb h [] w = Some (Ret (), ?w)"
    using pb nc by (simp add: wal_save_def wret_def raft_pb_ok_def)
  obtain n where "fl_synced (pw_file (lf_pw (w_file w))) = lf_stream (w_file w) @ replicate n 0"
    using dur by (auto simp: wal_durable_def Let_def)
  then obtain f where f: "crash_dir d ?w d = Some f" "fl_data f = lf_stream (w_file w) @ replicate n 0"
    using lf_put_synced [OF put(1)] by (simp add: crash_dir_def)
  have "\<forall>x\<in>set ds. crash_dir d ?w x = w_dir w x" by (rule crash_dir_old [OF H]) simp
  from replay_written [OF H this f] show ?thesis using sv by auto
qed

definition sample_chunk :: manager_config where
  "sample_chunk = sample_cfg\<lparr>mc_chunk := 1000\<rparr>"

lemma rec_len_bound: "length (body_bytes (snd r)) \<le> n \<Longrightarrow> rec_len r \<le> n + 16"
proof -
  have "calc_padding k \<le> 8" for k by (simp add: calc_padding_def less_imp_le)
  then show "length (body_bytes (snd r)) \<le> n \<Longrightarrow> rec_len r \<le> n + 16"
    using add_mono [of "length (body_bytes (snd r))" n "calc_padding (length (body_bytes (snd r)))" 8]
    by (simp add: rec_len_def HeaderSize_def)
qed

lemma sample_created_store:
  assumes "clear_entries coll = coll"
  shows "\<exists>w. create_wal sample_acq sample_pb [1, 2, 3] (new_log_manager sample_chunk) Map.empty = Some (Ret w) \<and>
     wal_holds sample_acq sample_pb 0 coll [] first_desc w coll \<and> wal_durable w \<and>
     w_state w = \<lparr>st_metadata = [1, 2, 3], st_nextEntry = \<lparr>nextTerm = 0, nextIndex = 0\<rparr>,
                  st_hardState = zero_hard_state, st_lastEntryIndex = 0\<rparr> \<and> w_index w = None \<and>
     segmentSize (lf_pw (w_file w)) = 1000 \<and> lf_offset (w_file w) \<le> 500"
proof -
  let ?m = "new_log_manager sample_chunk"
  have m: "lm_next ?m = 0" "0 < mc_page (lm_cfg ?m)" "mc_page (lm_cfg ?m) \<le> mc_buf (lm_cfg ?m)" "mc_chunk (lm_cfg ?m) = 1000"
    by (simp_all add: new_log_manager_def sample_chunk_def sample_cfg_def)
  have v: "pb_snap_valid sample_pb empty_wal_snapshot" by (simp add: sample_pb_def empty_wal_snapshot_def)
  have r: "recs_ok sample_acq 0 (first_recs sample_pb [1, 2, 3])"
    by (simp add: first_recs_def rec_ok_sample sample_small log_type_defs)
  from create_wal_ok [OF m(1-3) sample_pb_ok v r assms, of Map.empty 0] obtain w where
    w: "create_wal sample_acq sample_pb [1, 2, 3] ?m Map.empty = Some (Ret w)"
      "wal_holds sample_acq sample_pb 0 coll [] first_desc w coll" "wal_durable w"
      "w_state w = \<lparr>st_metadata = [1, 2, 3], st_nextEntry = \<lparr>nextTerm = 0, nextIndex = 0\<rparr>,
                  st_hardState = zero_hard_state, st_lastEntryIndex = 0\<rparr>" "w_index w = None"
      "segmentSize (lf_pw (w_file w)) = mc_chunk (lm_cfg ?m)"
      "lf_stream (w_file w) = file_header @ recs_bytes 0 (first_recs sample_pb [1, 2, 3])" by auto
  have "lf_ok (w_file w)" using w(2) by (auto simp: wal_holds_def file_at_def)
  then have "lf_offset (w_file w) \<le> 500"
    using w(7) rec_len_bound [of "(LogTypeSnapshot, MarshalledLog (pb_snap sample_pb empty_wal_snapshot))" 100] sample_small(7)
    by (simp add: lf_offset_stream first_recs_def length_rec_bytes LogFileHeaderLength_def logFileMagicHeader_def)
       (simp add: rec_len_def calc_padding_def HeaderSize_def)
  then show ?thesis using w m(4) by auto
qed

theorem vote_lost_in_crash_witness:
  "\<exists>w w' dir' r. create_indexed_wal sample_acq sample_pb sample_chunk [1, 2, 3] = Some (Ret w) \<and>
    wal_save sample_acq sample_pb sample_hs [] w = Some (Ret (), w') \<and> st_hardState (w_state w') = sample_hs \<and>
    player_replay sample_acq sample_pb 0 [first_desc] True (crash_dir first_desc w') (new_replay_result (IndexedEntryStore [])) = (Ret (), dir', r) \<and>
    rr_hardState r = zero_hard_state"
proof -
  obtain w0 where w0: "create_wal sample_acq sample_pb [1, 2, 3] (new_log_manager sample_chunk) Map.empty = Some (Ret w0)"
     "wal_holds sample_acq sample_pb 0 (IndexedEntryStore []) [] first_desc w0 (IndexedEntryStore [])" "wal_durable w0"
     "w_state w0 = \<lparr>st_metadata = [1, 2, 3], st_nextEntry = \<lparr>nextTerm = 0, nextIndex = 0\<rparr>,
                  st_hardState = zero_hard_state, st_lastEntryIndex = 0\<rparr>"
     "segmentSize (lf_pw (w_file w0)) = 1000" "lf_offset (w_file w0) \<le> 500"
    using sample_created_store [of "IndexedEntryStore []"] by auto
  let ?w = "w0\<lparr>w_index := Some (new_entry_storage zero_meta)\<rparr>"
  have "wal_holds sample_acq sample_pb 0 (IndexedEntryStore []) [] first_desc ?w (IndexedEntryStore [])" "wal_durable ?w"
    using w0(2,3) by (simp_all add: wal_holds_def wal_durable_def)
  moreover have "\<forall>s. w_index ?w = Some s \<longrightarrow> cache_inv (es_cache s)"
    using new_entry_storage_inv [of "\<lambda>_. []" zero_meta] by (simp add: es_inv_def)
  moreover have "sample_hs \<noteq> zero_hard_state" by (simp add: sample_hs_def zero_hard_state_def)
  moreover have "recs_ok sample_acq (lf_enc_crc (w_file ?w)) [hs_rec sample_pb sample_hs]"
    by (simp add: hs_rec_def rec_ok_sample sample_small log_type_defs)
  moreover have "lf_offset (w_file ?w) + rec_len (hs_rec sample_pb sample_hs) \<le> segmentSize (lf_pw (w_file ?w))"
    using w0(5,6) rec_len_bound [of "hs_rec sample_pb sample_hs" 100] sample_small(5) by (simp add: hs_rec_def)
  ultimately obtain w' dir' r where "wal_save sample_acq sample_pb sample_hs [] ?w = Some (Ret (), w')"
    "st_hardState (w_state w') = sample_hs" "rr_hardState r = st_hardState (w_state ?w)"
    "player_replay sample_acq sample_pb 0 ([] @ [first_desc]) True (crash_dir first_desc w') (new_replay_result (IndexedEntryStore [])) = (Ret (), dir', r)"
    using vote_lost_in_crash [OF _ _ _ sample_pb_ok, of sample_acq 0 "IndexedEntryStore []" "[]" first_desc ?w "IndexedEntryStore []" sample_hs] by blast
  then show ?thesis using w0(1,4) by (intro exI [of _ ?w] exI [of _ w'] exI [of _ dir'] exI [of _ r]) (simp add: create_indexed_wal_def)
qed

text \<open>
  C7. A restart continues the log: after a crash at a point where everything is synced, the replay
  succeeds, and \<^verbatim>\<open>OpenWal\<close> on its result returns a log in a consistent state again, with the same
  files, the same entries and the same metadata, hard state and position.
\<close>

theorem restart_continues:
  assumes "wal_holds acq pb i coll0 ds d w coll" and "wal_durable w" and "mgr_at m d"
    and "mc_chunk (lm_cfg m) = mc_chunk (lm_cfg (w_mgr w))"
  shows "\<exists>dir r w'. player_replay acq pb i (ds @ [d]) True (crash_dir d w) (new_replay_result coll0) = (Ret (), dir, r) \<and>
    rr_entries r = coll \<and> open_wal m dir r = Ret w' \<and> wal_holds acq pb i coll0 ds d w' coll \<and>
    st_metadata (w_state w') = st_metadata (w_state w) \<and> st_hardState (w_state w') = st_hardState (w_state w) \<and>
    st_nextEntry (w_state w') = st_nextEntry (w_state w)"
proof -
  from crash_replay [OF assms(1,2)] obtain f n r where
    r: "player_replay acq pb i (ds @ [d]) True (crash_dir d w) (new_replay_result coll0) = (Ret (), (crash_dir d w)(d \<mapsto> f), r)"
      "fl_data f = lf_stream (w_file w) @ replicate n 0" "n = 0 \<or> length (fl_data f) \<le> mc_chunk (lm_cfg m)"
      "rr_metadata r = st_metadata (w_state w)" "rr_hardState r = st_hardState (w_state w)"
      "rr_nextEntry r = st_nextEntry (w_state w)" "rr_entries r = coll" "rr_lastLogFileDesc r = d"
      "rr_lastValidLogOffset r = lf_offset (w_file w)" "rr_lastValidLogCrc r = lf_enc_crc (w_file w)"
    unfolding assms(4) by blast
  have "d \<notin> set ds" using assms(1) by (auto simp: wal_holds_def)
  then have "\<forall>x\<in>set ds. ((crash_dir d w)(d \<mapsto> f)) x = w_dir w x"
    using crash_dir_old [OF assms(1) refl] by auto
  from open_after_replay [OF assms(1) this _ r(2,3) assms(3) r(4-6,8-10)] show ?thesis
    using r(1,7) by fastforce
qed

theorem restart_continues_witness:
  "\<exists>w dir r w'. create_wal sample_acq sample_pb [1, 2, 3] (new_log_manager sample_chunk) Map.empty = Some (Ret w) \<and>
    player_replay sample_acq sample_pb 0 ([] @ [first_desc]) True (crash_dir first_desc w) (new_replay_result (EntryStore [])) = (Ret (), dir, r) \<and>
    open_wal (w_mgr w) dir r = Ret w' \<and> st_metadata (w_state w') = [1, 2, 3]"
proof -
  obtain w where w: "create_wal sample_acq sample_pb [1, 2, 3] (new_log_manager sample_chunk) Map.empty = Some (Ret w)"
     "wal_holds sample_acq sample_pb 0 (EntryStore []) [] first_desc w (EntryStore [])" "wal_durable w"
     "st_metadata (w_state w) = [1, 2, 3]"
    using sample_created_store [of "EntryStore []"] by auto
  have "mgr_at (w_mgr w) first_desc" using w(2) by (simp add: wal_holds_def)
  from restart_continues [OF w(2,3) this refl] w(1,4) show ?thesis by metis
qed

section \<open>File names after a restart\<close>

lemma insort_key_snoc: "f x < f y \<Longrightarrow> insort_key f x (ys @ [y]) = insort_key f x ys @ [y]" for f :: "'a \<Rightarrow> nat"
  by (induction ys) auto

lemma sort_key_snoc: "\<forall>x\<in>set xs. f x < f y \<Longrightarrow> sort_key f (xs @ [y]) = sort_key f xs @ [y]" for f :: "'a \<Rightarrow> nat"
  by (induction xs) (simp_all add: insort_key_snoc)

lemma scan_stops_at_newest:
  assumes "\<forall>x\<in>set ds. ld_id x < ld_id d" and "ld_start d \<le> n"
  shows "read_valid_log_files (ds @ [d]) n = Ret [d]"
  using assms sort_key_snoc [of ds "\<lambda>x. unat (ld_id x)" d]
  by (simp add: read_valid_log_files_def word_less_nat_alt)


lemma sample_reopened:
  "\<exists>m dir r w. open_wal m dir r = Ret w \<and> wal_holds sample_acq sample_pb 0 (EntryStore []) [] first_desc w (EntryStore []) \<and>
     lf_do_cycle (w_file w) \<and> save_fits sample_acq sample_pb zero_hard_state [] w"
proof -
  let ?m = "new_log_manager sample_cfg"
  have m: "lm_next ?m = 0" "0 < mc_page (lm_cfg ?m)" "mc_page (lm_cfg ?m) \<le> mc_buf (lm_cfg ?m)" "mc_chunk (lm_cfg ?m) = 100"
    by (simp_all add: new_log_manager_def sample_cfg_def)
  have v: "pb_snap_valid sample_pb empty_wal_snapshot" by (simp add: sample_pb_def empty_wal_snapshot_def)
  have rs: "recs_ok sample_acq 0 (first_recs sample_pb [1, 2, 3])"
    by (simp add: first_recs_def rec_ok_sample sample_small log_type_defs)
  from create_wal_ok [OF m(1-3) sample_pb_ok v rs, of "EntryStore []" Map.empty 0] obtain w0 where
    w0: "wal_holds sample_acq sample_pb 0 (EntryStore []) [] first_desc w0 (EntryStore [])"
      "w_state w0 = \<lparr>st_metadata = [1, 2, 3], st_nextEntry = \<lparr>nextTerm = 0, nextIndex = 0\<rparr>,
                  st_hardState = zero_hard_state, st_lastEntryIndex = 0\<rparr>"
      "segmentSize (lf_pw (w_file w0)) = 100"
      "lf_stream (w_file w0) = file_header @ recs_bytes 0 (first_recs sample_pb [1, 2, 3])"
    unfolding m(4) by auto
  let ?dir = "[first_desc \<mapsto> \<lparr>fl_data = lf_stream (w_file w0), fl_pos = 0, fl_synced = []\<rparr>]"
  let ?r = "(new_replay_result (EntryStore []))\<lparr>rr_metadata := st_metadata (w_state w0), rr_hardState := st_hardState (w_state w0),
      rr_nextEntry := st_nextEntry (w_state w0), rr_lastLogFileDesc := first_desc,
      rr_lastValidLogOffset := lf_offset (w_file w0), rr_lastValidLogCrc := lf_enc_crc (w_file w0)\<rparr>"
  have mg: "mgr_at (w_mgr w0) first_desc" "lf_ok (w_file w0)" "mc_chunk (lm_cfg (w_mgr w0)) = 100"
    using w0(1,3) by (auto simp: wal_holds_def file_at_def)
  from open_after_replay [OF w0(1), of ?dir _ 0 "w_mgr w0" ?r] mg(1) obtain w where
    w: "open_wal (w_mgr w0) ?dir ?r = Ret w" "wal_holds sample_acq sample_pb 0 (EntryStore []) [] first_desc w (EntryStore [])"
      "w_state w = (w_state w0)\<lparr>st_lastEntryIndex := 0\<rparr>" by auto
  have "lf_offset (w_file w0) = LogFileHeaderLength + length (recs_bytes 0 (first_recs sample_pb [1, 2, 3]))"
    using lf_offset_stream [OF mg(2)] w0(4) by simp
  moreover have "16 + 16 + 8 \<le> length (recs_bytes 0 (first_recs sample_pb [1, 2, 3]))"
    by (simp add: first_recs_def length_rec_bytes rec_len_def HeaderSize_def calc_padding_def)
  moreover have "LogFileHeaderLength = 67" by (simp add: LogFileHeaderLength_def logFileMagicHeader_def)
  ultimately have "100 < lf_offset (w_file w0)" by simp
  moreover have "lf_offset (w_file w) = lf_offset (w_file w0)" "segmentSize (lf_pw (w_file w)) = 100"
    using w(1) mg by (auto simp: open_wal_def lm_open_log_file_def bind_outcome_Ret_iff lf_offset_def create_writer_def mgr_at_def
        split: option.splits)
  ultimately have "lf_do_cycle (w_file w)" by (simp add: lf_do_cycle_def pw_check_cycle_def lf_offset_def)
  moreover have "save_fits sample_acq sample_pb zero_hard_state [] w"
    using w(3) w0(2)
    by (simp add: save_fits_def save_recs_def hs_recs_def prologue_recs_def saved_state_def empty_next_entry_def hs_rec_def
        rec_ok_sample sample_small log_type_defs Let_def)
  ultimately show ?thesis using w by blast
qed


end
