(* ===== verification/Session.thy ===== *)
theory Session
  imports Allocator
begin

unbundle bit_operations_syntax

text \<open>
  Client sessions, \<^verbatim>\<open>pkg/session\<close>: the results a session remembers, their on-disk format, and the
  three session managers (with expiry, with a bounded LRU list, and the one that does nothing). The
  theory shows that a snapshot restores what was saved, that the LRU manager refines a
  move-to-front list of bounded length, and when a session expires. The contract on which the
  application of requests rests is the locale \<open>session_manager\<close>, interpreted for all three.
\<close>

section \<open>Results and sessions\<close>

text \<open>\<^verbatim>\<open>Error\<close> is kept as its text, which is all that is ever stored of it.\<close>

record 'r apply_result =
  ar_logIndex :: u64
  ar_response :: "'r option"
  ar_error :: "bytes option"

definition zero_result :: "'r apply_result" where
  "zero_result = \<lparr>ar_logIndex = 0, ar_response = None, ar_error = None\<rparr>"

definition ar_is_empty :: "'r apply_result \<Rightarrow> bool" where
  "ar_is_empty ar \<longleftrightarrow> ar_logIndex ar = 0 \<and> Option.is_none (ar_response ar) \<and> Option.is_none (ar_error ar)"

record 'r session =
  se_id :: u64
  se_lastActive :: u64
  se_result :: "(u64 \<times> 'r apply_result) list"

datatype session_error = SIo io_error | SText bytes

definition NoOPSessionID :: u64 where "NoOPSessionID = 0"
definition fileVersion :: u32 where "fileVersion = 1"
definition expiredManagerType :: u32 where "expiredManagerType = 1"
definition lruManagerType :: u32 where "lruManagerType = 2"
definition noOpManagerType :: u32 where "noOpManagerType = 3"

definition new_session :: "u64 \<Rightarrow> u64 \<Rightarrow> 'r session" where
  "new_session sid lastActive = \<lparr>se_id = sid, se_lastActive = lastActive, se_result = []\<rparr>"

definition clear_result :: "u64 \<Rightarrow> 'r session \<Rightarrow> 'r session" where
  "clear_result lowest s = s\<lparr>se_result := filter (\<lambda>(seq, ar). \<not> seq < lowest) (se_result s)\<rparr>"

definition repeat_sequence_num :: "u64 \<Rightarrow> 'r session \<Rightarrow> bool" where
  "repeat_sequence_num seq s \<longleftrightarrow> \<not> Option.is_none (map_of (se_result s) seq)"

definition add_result ::
  "u64 \<Rightarrow> u64 \<Rightarrow> 'r apply_result \<Rightarrow> 'r session \<Rightarrow> (session_error, 'r session) outcome" where
  "add_result seq lastActive ar s =
     (case map_of (se_result s) seq of
        Some _ \<Rightarrow> Fail (SText (str ''session: sequence number ('' @ itoa (unat seq) @ str '') exists''))
      | None \<Rightarrow> Ret (s\<lparr>se_lastActive := lastActive, se_result := AList.update seq ar (se_result s)\<rparr>))"

definition get_result :: "u64 \<Rightarrow> 'r session \<Rightarrow> 'r apply_result \<times> bool" where
  "get_result seq s = (case map_of (se_result s) seq of Some ar \<Rightarrow> (ar, True) | None \<Rightarrow> (zero_result, False))"

section \<open>The format of results and sessions\<close>

text \<open>
  The state machine's own serializer is a parameter: the bytes it writes for a response, and the
  response it reads with the rest of the input.
\<close>

record 'r response_serializer =
  rs_serialize :: "'r \<Rightarrow> (session_error, bytes) outcome"
  rs_deserialize :: "bytes \<Rightarrow> (session_error, 'r \<times> bytes) outcome"

definition stateMachineResponse :: u64 where "stateMachineResponse = 1"
definition stateMachineResponseErr :: u64 where "stateMachineResponseErr = 2"
definition stateMachineResponseNil :: u64 where "stateMachineResponseNil = 3"

text \<open>
  \<^verbatim>\<open>bs := allocator.Acquire(n)\<close> followed by \<^verbatim>\<open>bs.Buffer[:n]\<close>. The acquirer stands for the pool as the
  call finds it and has no state of its own: what a release does to the pool, also the second release of the buffer
  of an error in \<^verbatim>\<open>Unmarshal\<close>, is the subject of the theory of the allocator.
\<close>

definition with_buffer :: "acquirer \<Rightarrow> nat \<Rightarrow> ('e, 'a) outcome \<Rightarrow> ('e, 'a) outcome" where
  "with_buffer acq n k =
     (case acq n of Ret buf \<Rightarrow> if length buf < n then Panic else k | _ \<Rightarrow> Panic)"

definition read_u64 :: "bytes \<Rightarrow> (session_error, u64 \<times> bytes) outcome" where
  "read_u64 r = (case file_read_uint64 r of Ret x \<Rightarrow> Ret x | Fail e \<Rightarrow> Fail (SIo e) | Panic \<Rightarrow> Panic)"

definition ar_marshal ::
  "acquirer \<Rightarrow> 'r response_serializer \<Rightarrow> bytes \<Rightarrow> 'r apply_result \<Rightarrow> (session_error, bytes) outcome" where
  "ar_marshal acq rs w ar =
     with_buffer acq 8
       (let w1 = file_write_uint64 w (ar_logIndex ar)
        in case (ar_response ar, ar_error ar) of
             (None, None) \<Rightarrow> Ret (file_write_uint64 w1 stateMachineResponseNil)
           | (_, Some e) \<Rightarrow>
               Ret (file_write_uint64 (file_write_uint64 w1 stateMachineResponseErr) (of_nat (length e)) @ e)
           | (Some x, None) \<Rightarrow>
               bind_outcome (rs_serialize rs x)
                 (\<lambda>b. Ret (file_write_uint64 w1 stateMachineResponse @ b)))"

definition ar_unmarshal ::
  "acquirer \<Rightarrow> 'r response_serializer \<Rightarrow> bytes \<Rightarrow> (session_error, 'r apply_result \<times> bytes) outcome" where
  "ar_unmarshal acq rs r =
     with_buffer acq 8
       (bind_outcome (read_u64 r) (\<lambda>(logIndex, r1).
        bind_outcome (read_u64 r1) (\<lambda>(responseType, r2).
          if responseType = stateMachineResponse then
            bind_outcome (rs_deserialize rs r2) (\<lambda>(res, r3).
              Ret (\<lparr>ar_logIndex = logIndex, ar_response = Some res, ar_error = None\<rparr>, r3))
          else if responseType = stateMachineResponseErr then
            bind_outcome (read_u64 r2) (\<lambda>(dataSize, r3).
              with_buffer acq (unat dataSize)
                (case read_full (unat dataSize) r3 of
                   Ret (errBuf, r4) \<Rightarrow>
                     Ret (\<lparr>ar_logIndex = logIndex, ar_response = None, ar_error = Some errBuf\<rparr>, r4)
                 | Fail e \<Rightarrow> Fail (SIo e)
                 | Panic \<Rightarrow> Panic))
          else if responseType = stateMachineResponseNil then
            Ret (\<lparr>ar_logIndex = logIndex, ar_response = None, ar_error = None\<rparr>, r2)
          else Fail (SText (str ''applyResultSerializer: unknown response type ('' @
                            itoa (unat responseType) @ str '')'')))))"

fun marshal_results ::
  "acquirer \<Rightarrow> 'r response_serializer \<Rightarrow> bytes \<Rightarrow> (u64 \<times> 'r apply_result) list \<Rightarrow> (session_error, bytes) outcome" where
  "marshal_results acq rs w [] = Ret w"
| "marshal_results acq rs w ((seqNum, ar) # m) =
     bind_outcome (ar_marshal acq rs (file_write_uint64 w seqNum) ar) (\<lambda>w'. marshal_results acq rs w' m)"

definition session_snapshot ::
  "acquirer \<Rightarrow> 'r response_serializer \<Rightarrow> bytes \<Rightarrow> 'r session \<Rightarrow> (session_error, bytes) outcome" where
  "session_snapshot acq rs w s =
     with_buffer acq 8
       (marshal_results acq rs
          (file_write_uint64
             (file_write_uint64 (file_write_uint64 w (se_id s)) (se_lastActive s))
             (of_nat (length (se_result s))))
          (se_result s))"

fun restore_results ::
  "acquirer \<Rightarrow> 'r response_serializer \<Rightarrow> nat \<Rightarrow> (u64 \<times> 'r apply_result) list \<Rightarrow> bytes \<Rightarrow>
   (session_error, (u64 \<times> 'r apply_result) list \<times> bytes) outcome" where
  "restore_results acq rs 0 m r = Ret (m, r)"
| "restore_results acq rs (Suc n) m r =
     bind_outcome (read_u64 r) (\<lambda>(seqNum, r1).
     bind_outcome (ar_unmarshal acq rs r1) (\<lambda>(ar, r2).
       restore_results acq rs n (AList.update seqNum ar m) r2))"

definition session_restore ::
  "acquirer \<Rightarrow> 'r response_serializer \<Rightarrow> bytes \<Rightarrow> (session_error, 'r session \<times> bytes) outcome" where
  "session_restore acq rs r =
     with_buffer acq 8
       (bind_outcome (read_u64 r) (\<lambda>(sid, r1).
        bind_outcome (read_u64 r1) (\<lambda>(n, r2).
        bind_outcome (read_u64 r2) (\<lambda>(count, r3).
        bind_outcome (restore_results acq rs (unat count) [] r3) (\<lambda>(m, r4).
          Ret (\<lparr>se_id = sid, se_lastActive = n, se_result = m\<rparr>, r4))))))"

section \<open>Round trip of a session\<close>

text \<open>
  A result is restorable when the pool has a buffer for the text of its error, and the serializer
  reads back its response. A response next to an error is not saved.
\<close>

definition ar_kept :: "'r apply_result \<Rightarrow> 'r apply_result" where
  "ar_kept ar = (if Option.is_none (ar_error ar) then ar else ar\<lparr>ar_response := None\<rparr>)"

definition rs_ok :: "'r response_serializer \<Rightarrow> 'r \<Rightarrow> bool" where
  "rs_ok rs x \<longleftrightarrow> (\<exists>b. rs_serialize rs x = Ret b \<and> (\<forall>rest. rs_deserialize rs (b @ rest) = Ret (x, rest)))"

definition ar_ok :: "acquirer \<Rightarrow> 'r response_serializer \<Rightarrow> 'r apply_result \<Rightarrow> bool" where
  "ar_ok acq rs ar \<longleftrightarrow>
     (case ar_error ar of
        Some e \<Rightarrow> acq_ok acq (length e) \<and> length e < 2 ^ 64
      | None \<Rightarrow> (case ar_response ar of Some x \<Rightarrow> rs_ok rs x | None \<Rightarrow> True))"

definition session_ok :: "acquirer \<Rightarrow> 'r response_serializer \<Rightarrow> 'r session \<Rightarrow> bool" where
  "session_ok acq rs s \<longleftrightarrow> map_ok (se_result s) \<and> length (se_result s) < 2 ^ 64 \<and>
     (\<forall>(seq, ar)\<in>set (se_result s). ar_ok acq rs ar)"

definition session_kept :: "'r session \<Rightarrow> 'r session" where
  "session_kept s = s\<lparr>se_result := map (apsnd ar_kept) (se_result s)\<rparr>"

lemma session_kept_simps [simp]:
  "se_id (session_kept s) = se_id s" "se_lastActive (session_kept s) = se_lastActive s"
  "se_result (session_kept s) = map (apsnd ar_kept) (se_result s)"
  by (simp_all add: session_kept_def)

lemma with_buffer_ok [simp]: "acq_ok acq n \<Longrightarrow> with_buffer acq n k = k"
  by (auto simp: with_buffer_def acq_ok_def)

lemma read_u64_put [simp, codec_simps]: "read_u64 (put_uint64 v @ r) = Ret (v, r)"
  by (simp add: read_u64_def)

text \<open>\<^verbatim>\<open>writes f b\<close>: whatever was written before, the call appends exactly \<^verbatim>\<open>b\<close>.\<close>

definition writes :: "(bytes \<Rightarrow> (session_error, bytes) outcome) \<Rightarrow> bytes \<Rightarrow> bool" where
  "writes f b \<longleftrightarrow> (\<forall>w. f w = Ret (w @ b))"

lemma ar_round_trip:
  assumes "acq_ok acq 8" and "ar_ok acq rs ar"
  shows "\<exists>b. writes (\<lambda>w. ar_marshal acq rs w ar) b \<and>
             (\<forall>rest. ar_unmarshal acq rs (b @ rest) = Ret (ar_kept ar, rest))"
proof (cases "ar_error ar")
  case (Some e)
  then have e: "acq_ok acq (length e)" "length e < 2 ^ 64" using assms(2) by (auto simp: ar_ok_def)
  have "unat (of_nat (length e) :: u64) = length e" using e(2) by (simp add: unat_of_nat)
  then show ?thesis using Some assms(1) e(1)
    by (intro exI [of _ "put_uint64 (ar_logIndex ar) @ put_uint64 stateMachineResponseErr @
          put_uint64 (of_nat (length e)) @ e"])
       (cases "ar_response ar", auto simp: writes_def ar_marshal_def ar_unmarshal_def file_write_uint64_def
          ar_kept_def Let_def stateMachineResponse_def stateMachineResponseErr_def)
next
  case None
  show ?thesis
  proof (cases "ar_response ar")
    case None
    then show ?thesis using \<open>ar_error ar = None\<close> assms(1)
      by (intro exI [of _ "put_uint64 (ar_logIndex ar) @ put_uint64 stateMachineResponseNil"])
         (auto simp: writes_def ar_marshal_def ar_unmarshal_def file_write_uint64_def ar_kept_def
            stateMachineResponse_def stateMachineResponseErr_def stateMachineResponseNil_def)
  next
    case (Some x)
    then obtain b where "rs_serialize rs x = Ret b" "\<And>rest. rs_deserialize rs (b @ rest) = Ret (x, rest)"
      using assms(2) \<open>ar_error ar = None\<close> by (auto simp: ar_ok_def rs_ok_def)
    then show ?thesis using Some \<open>ar_error ar = None\<close> assms(1)
      by (intro exI [of _ "put_uint64 (ar_logIndex ar) @ put_uint64 stateMachineResponse @ b"])
         (auto simp: writes_def ar_marshal_def ar_unmarshal_def file_write_uint64_def ar_kept_def)
  qed
qed

lemma results_round_trip:
  assumes "acq_ok acq 8" and "\<forall>(seq, ar)\<in>set m. ar_ok acq rs ar" and "map_ok (m0 @ m)"
  shows "\<exists>b. writes (\<lambda>w. marshal_results acq rs w m) b \<and>
     (\<forall>rest. restore_results acq rs (length m) m0 (b @ rest) = Ret (m0 @ map (apsnd ar_kept) m, rest))"
  using assms(2,3)
proof (induction m arbitrary: m0)
  case Nil
  then show ?case by (intro exI [of _ "[]"]) (simp add: writes_def)
next
  case (Cons x m)
  obtain seq ar where x: "x = (seq, ar)" by (cases x)
  have m: "\<forall>(seq, ar)\<in>set m. ar_ok acq rs ar" and "ar_ok acq rs ar" using Cons.prems(1) x by auto
  then obtain b where b: "writes (\<lambda>w. ar_marshal acq rs w ar) b"
      "\<And>rest. ar_unmarshal acq rs (b @ rest) = Ret (ar_kept ar, rest)"
    using ar_round_trip [OF assms(1)] by blast
  have ok: "map_ok ((m0 @ [(seq, ar_kept ar)]) @ m)" "map_of m0 seq = None"
    using Cons.prems(2) x by (auto simp: map_ok_def map_of_eq_None_iff)
  obtain c where c: "writes (\<lambda>w. marshal_results acq rs w m) c"
      "\<And>rest. restore_results acq rs (length m) (m0 @ [(seq, ar_kept ar)]) (c @ rest) =
         Ret ((m0 @ [(seq, ar_kept ar)]) @ map (apsnd ar_kept) m, rest)"
    using Cons.IH [OF m ok(1)] by blast
  show ?case using b c ok(2) x
    by (intro exI [of _ "put_uint64 seq @ b @ c"])
       (simp add: writes_def file_write_uint64_def update_absent)
qed

lemma session_round_trip:
  assumes "acq_ok acq 8" and "session_ok acq rs s"
  shows "\<exists>b. writes (\<lambda>w. session_snapshot acq rs w s) b \<and>
             (\<forall>rest. session_restore acq rs (b @ rest) = Ret (session_kept s, rest))"
proof -
  obtain b where b: "writes (\<lambda>w. marshal_results acq rs w (se_result s)) b"
      "\<And>rest. restore_results acq rs (length (se_result s)) [] (b @ rest) =
         Ret (map (apsnd ar_kept) (se_result s), rest)"
    using results_round_trip [OF assms(1), of "se_result s" rs "[]"] assms(2) by (auto simp: session_ok_def)
  have "unat (of_nat (length (se_result s)) :: u64) = length (se_result s)"
    using assms(2) by (simp add: unat_of_nat session_ok_def)
  then show ?thesis using b assms(1)
    by (intro exI [of _ "put_uint64 (se_id s) @ put_uint64 (se_lastActive s) @
          put_uint64 (of_nat (length (se_result s))) @ b"])
       (simp add: writes_def session_snapshot_def session_restore_def file_write_uint64_def session_kept_def)
qed

section \<open>The interface of a session\<close>

text \<open>
  \<^verbatim>\<open>ibabuza.Session\<close> has two implementations. A manager hands out a pointer; a client that changes
  the session it points to changes the manager's, which is the \<^verbatim>\<open>store\<close> operation of each manager.
\<close>

datatype 'r isession = NoOPSession | RealSession "'r session"

fun is_clear_result :: "u64 \<Rightarrow> 'r isession \<Rightarrow> 'r isession" where
  "is_clear_result lowest NoOPSession = NoOPSession"
| "is_clear_result lowest (RealSession s) = RealSession (clear_result lowest s)"

fun is_repeat_sequence_num :: "u64 \<Rightarrow> 'r isession \<Rightarrow> bool" where
  "is_repeat_sequence_num seq NoOPSession = False"
| "is_repeat_sequence_num seq (RealSession s) = repeat_sequence_num seq s"

fun is_add_result ::
  "u64 \<Rightarrow> u64 \<Rightarrow> 'r apply_result \<Rightarrow> 'r isession \<Rightarrow> (session_error, 'r isession) outcome" where
  "is_add_result seq t ar NoOPSession = Ret NoOPSession"
| "is_add_result seq t ar (RealSession s) = bind_outcome (add_result seq t ar s) (\<lambda>s'. Ret (RealSession s'))"

fun is_get_result :: "u64 \<Rightarrow> 'r isession \<Rightarrow> 'r apply_result \<times> bool" where
  "is_get_result seq NoOPSession = (zero_result, False)"
| "is_get_result seq (RealSession s) = get_result seq s"

section \<open>What the managers share\<close>

definition mgr_header :: "u32 \<Rightarrow> u64" where
  "mgr_header t = push_bit 32 (ucast fileVersion) OR ucast t"

definition check_header :: "string \<Rightarrow> u32 \<Rightarrow> u64 \<Rightarrow> (session_error, unit) outcome" where
  "check_header name t value =
     (let version = ucast (drop_bit 32 value) :: u32; fileType = ucast (value AND 0xffffffff) :: u32
      in if version \<noteq> fileVersion then
           Fail (SText (str (name @ '' session manager: mismatch file version (expected version='') @
                        itoa (unat fileVersion) @ str '' real version='' @ itoa (unat version) @ str '')''))
         else if fileType \<noteq> t then
           Fail (SText (str (name @ '' session manager: found invalid file fiype '') @ itoa (unat fileType)))
         else Ret ())"

fun snapshot_sessions ::
  "acquirer \<Rightarrow> 'r response_serializer \<Rightarrow> bytes \<Rightarrow> 'r session list \<Rightarrow> (session_error, bytes) outcome" where
  "snapshot_sessions acq rs w [] = Ret w"
| "snapshot_sessions acq rs w (s # ss) =
     bind_outcome (session_snapshot acq rs w s) (\<lambda>w'. snapshot_sessions acq rs w' ss)"

fun restore_sessions ::
  "acquirer \<Rightarrow> 'r response_serializer \<Rightarrow> nat \<Rightarrow> bytes \<Rightarrow> (session_error, 'r session list \<times> bytes) outcome" where
  "restore_sessions acq rs 0 r = Ret ([], r)"
| "restore_sessions acq rs (Suc n) r =
     bind_outcome (session_restore acq rs r) (\<lambda>(ns, r1).
     bind_outcome (restore_sessions acq rs n r1) (\<lambda>(ss, r2). Ret (ns # ss, r2)))"

definition count_error :: "string \<Rightarrow> nat \<Rightarrow> nat \<Rightarrow> session_error" where
  "count_error name expected real =
     SText (str (name @ '' session manager: mismatched session count (expectd='') @ itoa expected @
            str '') (real='' @ itoa real @ str '')'')"

definition session_text :: "string \<Rightarrow> u64 \<Rightarrow> string \<Rightarrow> session_error" where
  "session_text before sid after = SText (str before @ itoa (unat sid) @ str after)"

section \<open>The manager with expiry\<close>

record 'r expired_manager =
  em_expiredTime :: u64
  em_sessions :: "(u64 \<times> 'r session) list"

text \<open>\<^verbatim>\<open>NewExpiredManager\<close>: 30 minutes in nanoseconds unless an option sets the expiry time.\<close>

definition new_expired_manager :: "u64 option \<Rightarrow> 'r expired_manager" where
  "new_expired_manager opt =
     \<lparr>em_expiredTime = (case opt of None \<Rightarrow> 1800000000000 | Some d \<Rightarrow> d), em_sessions = []\<rparr>"

definition expired_get ::
  "u64 \<Rightarrow> 'r expired_manager \<Rightarrow> (session_error, 'r isession) outcome \<times> 'r expired_manager" where
  "expired_get sid m =
     (if sid = NoOPSessionID then (Ret NoOPSession, m)
      else case map_of (em_sessions m) sid of
             None \<Rightarrow> (Fail (session_text ''expired session manager: session '' sid '' not found''), m)
           | Some s \<Rightarrow> (Ret (RealSession s), m))"

definition expired_store :: "'r isession \<Rightarrow> 'r expired_manager \<Rightarrow> 'r expired_manager" where
  "expired_store s m =
     (case s of
        NoOPSession \<Rightarrow> m
      | RealSession s \<Rightarrow> m\<lparr>em_sessions := AList.update (se_id s) s (em_sessions m)\<rparr>)"

definition expired_register ::
  "u64 \<Rightarrow> u64 \<Rightarrow> 'r expired_manager \<Rightarrow> (session_error, 'r expired_manager) outcome" where
  "expired_register sid t m =
     (case map_of (em_sessions m) sid of
        Some _ \<Rightarrow> Fail (session_text ''expired session manager: session '' sid '' already exists'')
      | None \<Rightarrow> Ret (m\<lparr>em_sessions := AList.update sid (new_session sid t) (em_sessions m)\<rparr>))"

text \<open>The session that is removed is also cleared, but nothing refers to it any more.\<close>

definition expired_unregister ::
  "u64 \<Rightarrow> 'r expired_manager \<Rightarrow> (session_error, 'r expired_manager) outcome" where
  "expired_unregister sid m =
     (case map_of (em_sessions m) sid of
        None \<Rightarrow> Fail (session_text ''expired session manager: session '' sid '' not found'')
      | Some _ \<Rightarrow> Ret (m\<lparr>em_sessions := AList.delete sid (em_sessions m)\<rparr>))"

text \<open>Times are \<^verbatim>\<open>int64\<close>: the sum wraps and the comparison is signed.\<close>

definition expired_expire :: "u64 \<Rightarrow> 'r expired_manager \<Rightarrow> 'r expired_manager" where
  "expired_expire now m =
     m\<lparr>em_sessions := filter (\<lambda>(sid, s). \<not> (se_lastActive s + em_expiredTime m \<le>s now)) (em_sessions m)\<rparr>"

definition expired_snapshot ::
  "acquirer \<Rightarrow> 'r response_serializer \<Rightarrow> bytes \<Rightarrow> 'r expired_manager \<Rightarrow> (session_error, bytes) outcome" where
  "expired_snapshot acq rs w m =
     with_buffer acq 8
       (snapshot_sessions acq rs
          (file_write_uint64 (file_write_uint64 w (mgr_header expiredManagerType)) (of_nat (length (em_sessions m))))
          (map snd (em_sessions m)))"

definition expired_restore ::
  "acquirer \<Rightarrow> 'r response_serializer \<Rightarrow> bytes \<Rightarrow> 'r expired_manager \<Rightarrow> (session_error, 'r expired_manager) outcome" where
  "expired_restore acq rs r m =
     with_buffer acq 8
       (bind_outcome (read_u64 r) (\<lambda>(value, r1).
        bind_outcome (check_header ''expire'' expiredManagerType value) (\<lambda>_.
        bind_outcome (read_u64 r1) (\<lambda>(totalCount, r2).
        bind_outcome (restore_sessions acq rs (unat totalCount) r2) (\<lambda>(ss, r3).
          let sessions = fold (\<lambda>ns. AList.update (se_id ns) ns) ss []
          in if length sessions \<noteq> unat totalCount
             then Fail (count_error ''expired'' (unat totalCount) (length sessions))
             else Ret (m\<lparr>em_sessions := sessions\<rparr>))))))"

section \<open>The LRU manager\<close>

text \<open>
  The elements of the doubly linked list have identities, as the map of sessions holds pointers to
  elements: \<^verbatim>\<open>lru_list\<close> pairs each element's identity with its value, front first.
\<close>

record 'r lru_manager =
  lru_maxSessions :: int
  lru_sessions :: "(u64 \<times> nat) list"
  lru_list :: "(nat \<times> 'r session) list"
  lru_fresh :: nat

definition new_lru_manager :: "int option \<Rightarrow> 'r lru_manager" where
  "new_lru_manager opt =
     \<lparr>lru_maxSessions = (case opt of None \<Rightarrow> 128 | Some d \<Rightarrow> d), lru_sessions = [], lru_list = [], lru_fresh = 0\<rparr>"

definition list_move_to_front :: "nat \<Rightarrow> (nat \<times> 'x) list \<Rightarrow> (nat \<times> 'x) list" where
  "list_move_to_front h xs = (case map_of xs h of None \<Rightarrow> xs | Some v \<Rightarrow> (h, v) # AList.delete h xs)"

definition lru_get ::
  "u64 \<Rightarrow> 'r lru_manager \<Rightarrow> (session_error, 'r isession) outcome \<times> 'r lru_manager" where
  "lru_get sid m =
     (if sid = NoOPSessionID then (Ret NoOPSession, m)
      else case map_of (lru_sessions m) sid of
             None \<Rightarrow> (Fail (session_text ''lru session manager: session '' sid '' not found''), m)
           | Some h \<Rightarrow>
               (case map_of (lru_list m) h of
                  None \<Rightarrow> (Panic, m)
                | Some s \<Rightarrow> (Ret (RealSession s), m\<lparr>lru_list := list_move_to_front h (lru_list m)\<rparr>)))"

definition lru_store :: "'r isession \<Rightarrow> 'r lru_manager \<Rightarrow> 'r lru_manager" where
  "lru_store s m =
     (case s of
        NoOPSession \<Rightarrow> m
      | RealSession s \<Rightarrow>
          m\<lparr>lru_list := map (\<lambda>(h, s'). (h, if se_id s' = se_id s then s else s')) (lru_list m)\<rparr>)"

definition lru_register ::
  "u64 \<Rightarrow> u64 \<Rightarrow> 'r lru_manager \<Rightarrow> (session_error, 'r lru_manager) outcome" where
  "lru_register sid t m =
     (case map_of (lru_sessions m) sid of
        Some _ \<Rightarrow> Fail (session_text ''lru session manager: session id '' sid '' already registered'')
      | None \<Rightarrow>
          (let h = lru_fresh m;
               lru = (h, new_session sid t) # lru_list m;
               sessions = AList.update sid h (lru_sessions m);
               m' = m\<lparr>lru_fresh := Suc h\<rparr>
           in if lru_maxSessions m < int (length lru)
              then Ret (m'\<lparr>lru_list := butlast lru,
                           lru_sessions := AList.delete (se_id (snd (last lru))) sessions\<rparr>)
              else Ret (m'\<lparr>lru_list := lru, lru_sessions := sessions\<rparr>)))"

definition lru_unregister ::
  "u64 \<Rightarrow> 'r lru_manager \<Rightarrow> (session_error, 'r lru_manager) outcome" where
  "lru_unregister sid m =
     (case map_of (lru_sessions m) sid of
        None \<Rightarrow> Fail (session_text ''lru session manager: session id '' sid '' not registered'')
      | Some h \<Rightarrow> Ret (m\<lparr>lru_list := AList.delete h (lru_list m),
                        lru_sessions := AList.delete sid (lru_sessions m)\<rparr>))"

definition lru_expire :: "u64 \<Rightarrow> 'r lru_manager \<Rightarrow> 'r lru_manager" where
  "lru_expire now m = m"

definition lru_snapshot ::
  "acquirer \<Rightarrow> 'r response_serializer \<Rightarrow> bytes \<Rightarrow> 'r lru_manager \<Rightarrow> (session_error, bytes) outcome" where
  "lru_snapshot acq rs w m =
     with_buffer acq 8
       (snapshot_sessions acq rs
          (file_write_uint64 (file_write_uint64 w (mgr_header lruManagerType)) (of_nat (length (lru_list m))))
          (map snd (lru_list m)))"

text \<open>The elements pushed to the back of a new list, and the map of sessions built next to it.\<close>

fun push_back_all :: "'r session list \<Rightarrow> nat \<Rightarrow> (u64 \<times> nat) list \<Rightarrow> (u64 \<times> nat) list \<times> (nat \<times> 'r session) list" where
  "push_back_all [] h sessions = (sessions, [])"
| "push_back_all (ns # ss) h sessions =
     (let (sessions', lru) = push_back_all ss (Suc h) (AList.update (se_id ns) h sessions)
      in (sessions', (h, ns) # lru))"

definition lru_restore ::
  "acquirer \<Rightarrow> 'r response_serializer \<Rightarrow> bytes \<Rightarrow> 'r lru_manager \<Rightarrow> (session_error, 'r lru_manager) outcome" where
  "lru_restore acq rs r m =
     with_buffer acq 8
       (bind_outcome (read_u64 r) (\<lambda>(value, r1).
        bind_outcome (check_header ''lru'' lruManagerType value) (\<lambda>_.
        bind_outcome (read_u64 r1) (\<lambda>(totalCount, r2).
        bind_outcome (restore_sessions acq rs (unat totalCount) r2) (\<lambda>(ss, r3).
          let (sessions, lru) = push_back_all ss (lru_fresh m) []
          in if length lru \<noteq> unat totalCount
             then Fail (count_error ''lru'' (unat totalCount) (length sessions))
             else Ret (m\<lparr>lru_list := lru, lru_sessions := sessions,
                         lru_fresh := lru_fresh m + length lru\<rparr>))))))"

section \<open>The manager that does nothing\<close>

definition noop_snapshot :: "bytes \<Rightarrow> bytes" where
  "noop_snapshot w = file_write_uint64 w (mgr_header noOpManagerType)"

definition noop_restore :: "bytes \<Rightarrow> (session_error, unit) outcome" where
  "noop_restore r =
     bind_outcome (read_u64 r) (\<lambda>(value, _). check_header ''no operation'' noOpManagerType value)"

section \<open>Invariants\<close>

definition expired_ok :: "'r expired_manager \<Rightarrow> bool" where
  "expired_ok m \<longleftrightarrow> map_ok (em_sessions m) \<and> (\<forall>(sid, s)\<in>set (em_sessions m). se_id s = sid)"

text \<open>
  The map of the LRU manager points exactly at the elements of the list, each under the id of its
  session.
\<close>

definition lru_match :: "(u64 \<Rightarrow> nat option) \<Rightarrow> (nat \<Rightarrow> 'r session option) \<Rightarrow> bool" where
  "lru_match M L \<longleftrightarrow> (\<forall>sid h. M sid = Some h \<longleftrightarrow> (\<exists>s. L h = Some s \<and> se_id s = sid))"

definition lru_ok :: "'r lru_manager \<Rightarrow> bool" where
  "lru_ok m \<longleftrightarrow> map_ok (lru_list m) \<and> map_ok (lru_sessions m) \<and> (\<forall>h\<in>fst ` set (lru_list m). h < lru_fresh m) \<and>
     lru_match (map_of (lru_sessions m)) (map_of (lru_list m))"

definition expired_lookup :: "'r expired_manager \<Rightarrow> u64 \<Rightarrow> 'r session option" where
  "expired_lookup m = map_of (em_sessions m)"

definition lru_lookup :: "'r lru_manager \<Rightarrow> u64 \<Rightarrow> 'r session option" where
  "lru_lookup m sid = Option.bind (map_of (lru_sessions m) sid) (map_of (lru_list m))"

lemma lru_matchD: "lru_match M L \<Longrightarrow> L h = Some s \<Longrightarrow> M (se_id s) = Some h"
  by (simp add: lru_match_def)

lemma lru_matchE: "lru_match M L \<Longrightarrow> M sid = Some h \<Longrightarrow> \<exists>s. L h = Some s \<and> se_id s = sid"
  by (simp add: lru_match_def)

lemma lru_match_insert:
  assumes "lru_match M L" and "L h = None" and "M (se_id s) = None"
  shows "lru_match (M(se_id s \<mapsto> h)) (L(h \<mapsto> s))"
  using assms(2,3) unfolding lru_match_def [of "M(se_id s \<mapsto> h)"]
  by (auto dest: lru_matchD [OF assms(1)] lru_matchE [OF assms(1)])

lemma lru_match_remove:
  assumes "lru_match M L" and "L h = Some s"
  shows "lru_match (M(se_id s := None)) (L(h := None))"
  using assms(2) lru_matchD [OF assms] unfolding lru_match_def [of "M(se_id s := None)"]
  by (auto dest: lru_matchD [OF assms(1)] lru_matchE [OF assms(1)])

lemma lru_match_replace:
  assumes "lru_match M L" and "\<And>s. se_id (f s) = se_id s"
  shows "lru_match M (\<lambda>h. map_option f (L h))"
  using assms by (auto simp: lru_match_def)

lemma lru_lookup_Some:
  assumes "lru_ok m"
  shows "lru_lookup m sid = Some s \<longleftrightarrow> (\<exists>h. map_of (lru_sessions m) sid = Some h \<and> map_of (lru_list m) h = Some s \<and> se_id s = sid)"
  using assms by (auto simp: lru_lookup_def lru_ok_def lru_match_def bind_eq_Some_conv)

lemma move_to_front [simp]:
  assumes "map_ok xs"
  shows "map_of (list_move_to_front h xs) = map_of xs" "map_ok (list_move_to_front h xs)"
    "set (list_move_to_front h xs) = set xs" "length (list_move_to_front h xs) = length xs"
proof -
  show m: "map_of (list_move_to_front h xs) = map_of xs"
    by (auto simp: list_move_to_front_def fun_eq_iff split: option.split)
  show k: "map_ok (list_move_to_front h xs)"
    using assms by (auto simp: list_move_to_front_def split: option.split)
  show s: "set (list_move_to_front h xs) = set xs"
    using m k assms by (simp add: map_ok_def flip: map_of_inject_set)
  show "length (list_move_to_front h xs) = length xs"
    using k assms s by (metis distinct_card distinct_map map_ok_def)
qed

lemma map_of_butlast:
  assumes "map_ok xs" and "xs \<noteq> []"
  shows "map_of (butlast xs) = (map_of xs)(fst (last xs) := None)" "map_ok (butlast xs)"
    "map_of xs (fst (last xs)) = Some (snd (last xs))"
proof -
  obtain ys k v where xs: "xs = ys @ [(k, v)]" using assms(2) by (metis rev_exhaust surj_pair)
  then have "map_of ys k = None" using assms(1) by (auto simp: map_ok_def map_of_eq_None_iff)
  then show "map_of (butlast xs) = (map_of xs)(fst (last xs) := None)"
    by (auto simp: xs fun_eq_iff map_add_def split: option.split)
  show "map_ok (butlast xs)" using assms(1) by (simp add: xs map_ok_def)
  show "map_of xs (fst (last xs)) = Some (snd (last xs))"
    using \<open>map_of ys k = None\<close> by (simp add: xs map_add_def)
qed

lemma lru_get_ok:
  assumes "lru_ok m" and "lru_lookup m sid = Some s" and "sid \<noteq> NoOPSessionID"
  shows "\<exists>m'. lru_get sid m = (Ret (RealSession s), m') \<and> lru_ok m' \<and> lru_lookup m' = lru_lookup m"
proof -
  obtain h where h: "map_of (lru_sessions m) sid = Some h" "map_of (lru_list m) h = Some s"
    using assms(1,2) by (auto simp: lru_lookup_Some)
  have "map_ok (lru_list m)" using assms(1) by (simp add: lru_ok_def)
  then show ?thesis using assms(1,3) h
    by (auto simp: lru_get_def lru_ok_def lru_lookup_def fun_eq_iff)
qed

lemma new_managers_ok: "lru_ok (new_lru_manager opt)" "expired_ok (new_expired_manager t)"
  by (simp_all add: lru_ok_def new_lru_manager_def lru_match_def expired_ok_def new_expired_manager_def)

lemma lru_lookup_None: "lru_ok m \<Longrightarrow> lru_lookup m sid = None \<longleftrightarrow> map_of (lru_sessions m) sid = None"
  by (cases "map_of (lru_sessions m) sid") (auto simp: lru_ok_def lru_lookup_def dest: lru_matchE)

lemma map_of_store:
  "map_of (map (\<lambda>(h, s'). (h, f s')) xs) = (\<lambda>h. map_option f (map_of xs h))"
  by (induction xs) (auto simp: fun_eq_iff)

lemma lru_store_ok:
  assumes "lru_ok m" and "lru_lookup m (se_id s) = Some s0"
  shows "lru_ok (lru_store (RealSession s) m) \<and>
    lru_lookup (lru_store (RealSession s) m) = (lru_lookup m)(se_id s \<mapsto> s)"
proof -
  let ?f = "\<lambda>s'. if se_id s' = se_id s then s else s'"
  let ?m = "lru_store (RealSession s) m"
  have L: "map_of (lru_list ?m) = (\<lambda>h. map_option ?f (map_of (lru_list m) h))"
    by (simp add: lru_store_def map_of_store)
  have "lru_ok ?m"
    using assms(1) lru_match_replace [of "map_of (lru_sessions m)" "map_of (lru_list m)" ?f] L
    by (auto simp: lru_ok_def lru_store_def map_ok_def comp_def case_prod_beta image_image)
  moreover have "lru_lookup ?m sid = ((lru_lookup m)(se_id s \<mapsto> s)) sid" for sid
  proof (cases "lru_lookup m sid")
    case None
    then show ?thesis using assms lru_lookup_None [OF assms(1), of sid]
      by (auto simp: lru_lookup_def lru_store_def)
  next
    case (Some s')
    then obtain h where "map_of (lru_sessions m) sid = Some h" "map_of (lru_list m) h = Some s'" "se_id s' = sid"
      using assms(1) by (auto simp: lru_lookup_Some)
    then show ?thesis using Some L by (auto simp: lru_lookup_def lru_store_def)
  qed
  ultimately show ?thesis by blast
qed

lemma set_update_subset: "set (AList.update k v al) \<subseteq> insert (k, v) (set al)"
  by (induction al) auto

lemma lru_lookup_cong:
  "map_of (lru_sessions m) = M \<Longrightarrow> map_of (lru_list m) = L \<Longrightarrow> lru_lookup m sid = Option.bind (M sid) L"
  by (simp add: lru_lookup_def)

lemma lru_ok_insert:
  assumes "lru_ok m" and "map_of (lru_sessions m) sid = None"
  shows "lru_ok (m\<lparr>lru_fresh := Suc (lru_fresh m), lru_list := (lru_fresh m, new_session sid t) # lru_list m,
                   lru_sessions := AList.update sid (lru_fresh m) (lru_sessions m)\<rparr>)"
proof -
  have f: "map_of (lru_list m) (lru_fresh m) = None"
    using assms(1) by (auto simp: lru_ok_def map_of_eq_None_iff)
  have "se_id (new_session sid t :: 'a session) = sid" by (simp add: new_session_def)
  then have "lru_match ((map_of (lru_sessions m))(sid \<mapsto> lru_fresh m))
      ((map_of (lru_list m))(lru_fresh m \<mapsto> new_session sid t))"
    using lru_match_insert [of "map_of (lru_sessions m)" "map_of (lru_list m)" "lru_fresh m" "new_session sid t"]
      assms f by (simp add: lru_ok_def)
  then show ?thesis using assms(1) f by (auto simp: lru_ok_def less_Suc_eq)
qed

lemma lru_ok_delete:
  assumes "lru_ok m" and "map_of (lru_list m) h = Some s"
    and "map_of L = (map_of (lru_list m))(h := None)" and "map_ok L" and "set L \<subseteq> set (lru_list m)"
  shows "lru_ok (m\<lparr>lru_list := L, lru_sessions := AList.delete (se_id s) (lru_sessions m)\<rparr>)"
  using assms lru_match_remove [of "map_of (lru_sessions m)" "map_of (lru_list m)" h s]
  by (auto simp: lru_ok_def)

text \<open>A lookup after removing one element is a lookup before.\<close>

lemma lru_lookup_delete:
  assumes "lru_ok m" and "map_of (lru_list m) h = Some s" and "map_of L = (map_of (lru_list m))(h := None)"
  shows "lru_lookup (m\<lparr>lru_list := L, lru_sessions := AList.delete (se_id s) (lru_sessions m)\<rparr>) =
    (lru_lookup m)(se_id s := None)"
proof
  fix sid
  have h: "map_of (lru_sessions m) sid = Some h \<Longrightarrow> sid = se_id s" for sid
    using assms(1,2) by (auto simp: lru_ok_def dest!: lru_matchE)
  show "lru_lookup (m\<lparr>lru_list := L, lru_sessions := AList.delete (se_id s) (lru_sessions m)\<rparr>) sid =
      ((lru_lookup m)(se_id s := None)) sid"
    using h [of sid] assms(3) by (cases "map_of (lru_sessions m) sid") (auto simp: lru_lookup_def)
qed

lemma lru_register_ok:
  assumes "lru_ok m"
  shows "lru_register sid t m \<noteq> Panic"
    and "lru_register sid t m = Ret m' \<Longrightarrow> lru_ok m' \<and> lru_lookup m sid = None \<and>
       lru_lookup m' \<subseteq>\<^sub>m (lru_lookup m)(sid \<mapsto> new_session sid t)"
proof -
  show "lru_register sid t m \<noteq> Panic" by (simp add: lru_register_def Let_def split: option.split)
  assume r: "lru_register sid t m = Ret m'"
  then have none: "map_of (lru_sessions m) sid = None"
    by (auto simp: lru_register_def split: option.splits)
  let ?lru = "(lru_fresh m, new_session sid t) # lru_list m"
  let ?m = "m\<lparr>lru_fresh := Suc (lru_fresh m), lru_list := ?lru,
              lru_sessions := AList.update sid (lru_fresh m) (lru_sessions m)\<rparr>"
  have ok: "lru_ok ?m" by (rule lru_ok_insert [OF assms none])
  have f: "map_of (lru_list m) (lru_fresh m) = None"
    using assms by (auto simp: lru_ok_def map_of_eq_None_iff)
  have look: "lru_lookup ?m = (lru_lookup m)(sid \<mapsto> new_session sid t)"
  proof
    fix x
    have "map_of (lru_sessions m) x \<noteq> Some (lru_fresh m)" using f assms
      by (auto simp: lru_ok_def dest!: lru_matchE)
    then show "lru_lookup ?m x = ((lru_lookup m)(sid \<mapsto> new_session sid t)) x"
      by (cases "map_of (lru_sessions m) x") (auto simp: lru_lookup_def)
  qed
  have last: "map_of (butlast ?lru) = (map_of ?lru)(fst (last ?lru) := None)" "map_ok (butlast ?lru)"
      "map_of ?lru (fst (last ?lru)) = Some (snd (last ?lru))"
    using map_of_butlast [of ?lru] ok by (simp_all add: lru_ok_def del: last.simps butlast.simps)
  have sub: "set (butlast ?lru) \<subseteq> set (lru_list ?m)" by (auto dest: in_set_butlastD simp del: butlast.simps)
  note cut = lru_ok_delete [OF ok, of "fst (last ?lru)" "snd (last ?lru)" "butlast ?lru"]
    lru_lookup_delete [OF ok, of "fst (last ?lru)" "snd (last ?lru)" "butlast ?lru"]
  have m': "m' = (if lru_maxSessions m < int (length ?lru)
      then ?m\<lparr>lru_list := butlast ?lru,
             lru_sessions := AList.delete (se_id (snd (last ?lru))) (lru_sessions ?m)\<rparr> else ?m)"
    using r none by (auto simp: lru_register_def Let_def simp del: butlast.simps last.simps split: if_splits)
  show "lru_ok m' \<and> lru_lookup m sid = None \<and> lru_lookup m' \<subseteq>\<^sub>m (lru_lookup m)(sid \<mapsto> new_session sid t)"
  proof (cases "lru_maxSessions m < int (length ?lru)")
    case True
    then show ?thesis using m' cut last sub look none assms
      by (simp add: lru_lookup_None map_le_def del: butlast.simps last.simps)
  next
    case False
    then show ?thesis using m' ok look none assms by (simp add: lru_lookup_None map_le_def)
  qed
qed

lemma lru_unregister_ok:
  assumes "lru_ok m"
  shows "lru_unregister sid m \<noteq> Panic"
    and "lru_unregister sid m = Ret m' \<Longrightarrow> lru_ok m' \<and> lru_lookup m' = (lru_lookup m)(sid := None)"
proof -
  show "lru_unregister sid m \<noteq> Panic" by (simp add: lru_unregister_def split: option.split)
  assume r: "lru_unregister sid m = Ret m'"
  then obtain h where h: "map_of (lru_sessions m) sid = Some h"
    by (auto simp: lru_unregister_def split: option.splits)
  then obtain s where s: "map_of (lru_list m) h = Some s" "se_id s = sid"
    using assms by (auto simp: lru_ok_def dest: lru_matchE)
  have ok: "map_ok (AList.delete h (lru_list m))" "set (AList.delete h (lru_list m)) \<subseteq> set (lru_list m)"
    using assms by (auto simp: lru_ok_def AList.delete_eq)
  show "lru_ok m' \<and> lru_lookup m' = (lru_lookup m)(sid := None)"
    using r h s(2) ok lru_ok_delete [OF assms s(1), of "AList.delete h (lru_list m)"]
      lru_lookup_delete [OF assms s(1), of "AList.delete h (lru_list m)"]
    by (auto simp: lru_unregister_def)
qed

lemma expired_lookup_id: "expired_ok m \<Longrightarrow> expired_lookup m sid = Some s \<Longrightarrow> se_id s = sid"
  by (auto simp: expired_ok_def expired_lookup_def dest: map_of_SomeD)

lemma expired_ok_update:
  assumes "expired_ok m" and "se_id s = sid"
  shows "expired_ok (m\<lparr>em_sessions := AList.update sid s (em_sessions m)\<rparr>)"
proof -
  have "set (AList.update sid s (em_sessions m)) \<subseteq> insert (sid, s) (set (em_sessions m))"
    by (rule set_update_subset)
  then show ?thesis using assms by (auto simp: expired_ok_def)
qed

lemma expired_ok_subset:
  "expired_ok m \<Longrightarrow> set xs \<subseteq> set (em_sessions m) \<Longrightarrow> map_ok xs \<Longrightarrow> expired_ok (m\<lparr>em_sessions := xs\<rparr>)"
  by (auto simp: expired_ok_def)

lemma map_le_subset: "map_ok ys \<Longrightarrow> map_ok xs \<Longrightarrow> set xs \<subseteq> set ys \<Longrightarrow> map_of xs \<subseteq>\<^sub>m map_of ys"
  by (auto simp: map_le_def map_ok_def dom_map_of_conv_image_fst map_of_is_SomeI subset_iff)

section \<open>The contract of a session manager\<close>

text \<open>\<^verbatim>\<open>ibabuza.SessionManager\<close> as a record of its methods, one instance for each implementation.\<close>

record ('m, 'r) session_ops =
  so_get :: "u64 \<Rightarrow> 'm \<Rightarrow> (session_error, 'r isession) outcome \<times> 'm"
  so_store :: "'r isession \<Rightarrow> 'm \<Rightarrow> 'm"
  so_register :: "u64 \<Rightarrow> u64 \<Rightarrow> 'm \<Rightarrow> (session_error, 'm) outcome"
  so_unregister :: "u64 \<Rightarrow> 'm \<Rightarrow> (session_error, 'm) outcome"
  so_expire :: "u64 \<Rightarrow> 'm \<Rightarrow> 'm"
  so_snapshot :: "bytes \<Rightarrow> 'm \<Rightarrow> (session_error, bytes) outcome"
  so_restore :: "bytes \<Rightarrow> 'm \<Rightarrow> (session_error, 'm) outcome"

definition expired_ops :: "acquirer \<Rightarrow> 'r response_serializer \<Rightarrow> ('r expired_manager, 'r) session_ops" where
  "expired_ops acq rs = \<lparr>so_get = expired_get, so_store = expired_store, so_register = expired_register,
     so_unregister = expired_unregister, so_expire = expired_expire,
     so_snapshot = expired_snapshot acq rs, so_restore = expired_restore acq rs\<rparr>"

definition lru_ops :: "acquirer \<Rightarrow> 'r response_serializer \<Rightarrow> ('r lru_manager, 'r) session_ops" where
  "lru_ops acq rs = \<lparr>so_get = lru_get, so_store = lru_store, so_register = lru_register,
     so_unregister = lru_unregister, so_expire = lru_expire,
     so_snapshot = lru_snapshot acq rs, so_restore = lru_restore acq rs\<rparr>"

definition noop_ops :: "(unit, 'r) session_ops" where
  "noop_ops = \<lparr>so_get = (\<lambda>sid m. (Ret NoOPSession, m)), so_store = (\<lambda>s m. m), so_register = (\<lambda>sid t m. Ret m),
     so_unregister = (\<lambda>sid m. Ret m), so_expire = (\<lambda>t m. m),
     so_snapshot = (\<lambda>w m. Ret (noop_snapshot w)), so_restore = (\<lambda>r m. noop_restore r)\<rparr>"

text \<open>
  \<^verbatim>\<open>lookup\<close> is the set of live sessions. A manager may drop sessions when it expires or registers
  one, but it never invents or changes one.
\<close>

locale session_manager =
  fixes ops :: "('m, 'r) session_ops" and ok :: "'m \<Rightarrow> bool" and lookup :: "'m \<Rightarrow> u64 \<Rightarrow> 'r session option"
  assumes get_noop: "ok m \<Longrightarrow> so_get ops NoOPSessionID m = (Ret NoOPSession, m)"
    and get_found: "ok m \<Longrightarrow> sid \<noteq> NoOPSessionID \<Longrightarrow> lookup m sid = Some s \<Longrightarrow>
      \<exists>m'. so_get ops sid m = (Ret (RealSession s), m') \<and> ok m' \<and> lookup m' = lookup m"
    and get_absent: "ok m \<Longrightarrow> sid \<noteq> NoOPSessionID \<Longrightarrow> lookup m sid = None \<Longrightarrow>
      so_get ops sid m = (Ret NoOPSession, m) \<or> (\<exists>e. so_get ops sid m = (Fail e, m))"
    and lookup_id: "ok m \<Longrightarrow> lookup m sid = Some s \<Longrightarrow> se_id s = sid"
    and store_noop: "so_store ops NoOPSession m = m"
    and store_real: "ok m \<Longrightarrow> lookup m (se_id s) = Some s0 \<Longrightarrow>
      ok (so_store ops (RealSession s) m) \<and> lookup (so_store ops (RealSession s) m) = (lookup m)(se_id s \<mapsto> s)"
    and register_total: "ok m \<Longrightarrow> so_register ops sid t m \<noteq> Panic"
    and register_law: "ok m \<Longrightarrow> so_register ops sid t m = Ret m' \<Longrightarrow>
      ok m' \<and> lookup m sid = None \<and> lookup m' \<subseteq>\<^sub>m (lookup m)(sid \<mapsto> new_session sid t)"
    and unregister_total: "ok m \<Longrightarrow> so_unregister ops sid m \<noteq> Panic"
    and unregister_law: "ok m \<Longrightarrow> so_unregister ops sid m = Ret m' \<Longrightarrow> ok m' \<and> lookup m' \<subseteq>\<^sub>m lookup m"
    and expire_law: "ok m \<Longrightarrow> ok (so_expire ops t m) \<and> lookup (so_expire ops t m) \<subseteq>\<^sub>m lookup m"
begin

lemma get_cases:
  assumes "ok m"
  obtains (found) s m' where "so_get ops sid m = (Ret (RealSession s), m')" "lookup m sid = Some s" "ok m'" "lookup m' = lookup m"
  | (noop) "so_get ops sid m = (Ret NoOPSession, m)"
  | (missing) e where "so_get ops sid m = (Fail e, m)" "sid \<noteq> NoOPSessionID" "lookup m sid = None"
proof (cases "sid = NoOPSessionID")
  case True
  then show thesis using noop get_noop [OF assms] by simp
next
  case False
  show thesis
  proof (cases "lookup m sid")
    case None
    then show thesis using get_absent [OF assms False] noop missing False by blast
  next
    case (Some s)
    then show thesis using get_found [OF assms False] found by blast
  qed
qed

end

text \<open>The managers that keep sessions report a session they do not have.\<close>

locale tracking_sessions = session_manager +
  assumes absent_fails: "ok m \<Longrightarrow> sid \<noteq> NoOPSessionID \<Longrightarrow> lookup m sid = None \<Longrightarrow> \<exists>e. so_get ops sid m = (Fail e, m)"

lemma map_le_delete: "m(k := None) \<subseteq>\<^sub>m m"
  by (simp add: map_le_def)

lemma lru_get_laws:
  "lru_ok m \<Longrightarrow> lru_get NoOPSessionID m = (Ret NoOPSession, m)"
  "lru_ok m \<Longrightarrow> sid \<noteq> NoOPSessionID \<Longrightarrow> lru_lookup m sid = Some s \<Longrightarrow>
     \<exists>m'. lru_get sid m = (Ret (RealSession s), m') \<and> lru_ok m' \<and> lru_lookup m' = lru_lookup m"
  "lru_ok m \<Longrightarrow> sid \<noteq> NoOPSessionID \<Longrightarrow> lru_lookup m sid = None \<Longrightarrow> \<exists>e. lru_get sid m = (Fail e, m)"
  "lru_ok m \<Longrightarrow> lru_lookup m sid = Some s \<Longrightarrow> se_id s = sid"
proof -
  show "lru_ok m \<Longrightarrow> lru_get NoOPSessionID m = (Ret NoOPSession, m)" by (simp add: lru_get_def)
  show "lru_ok m \<Longrightarrow> sid \<noteq> NoOPSessionID \<Longrightarrow> lru_lookup m sid = Some s \<Longrightarrow>
     \<exists>m'. lru_get sid m = (Ret (RealSession s), m') \<and> lru_ok m' \<and> lru_lookup m' = lru_lookup m"
    using lru_get_ok [of m sid s] by simp
  show "lru_ok m \<Longrightarrow> sid \<noteq> NoOPSessionID \<Longrightarrow> lru_lookup m sid = None \<Longrightarrow> \<exists>e. lru_get sid m = (Fail e, m)"
    by (simp add: lru_get_def lru_lookup_None)
  show "lru_ok m \<Longrightarrow> lru_lookup m sid = Some s \<Longrightarrow> se_id s = sid" by (simp add: lru_lookup_Some) metis
qed

lemma lru_change_laws:
  "lru_store NoOPSession m = m"
  "lru_ok m \<Longrightarrow> lru_unregister sid m = Ret m' \<Longrightarrow> lru_ok m' \<and> lru_lookup m' \<subseteq>\<^sub>m lru_lookup m"
  "lru_ok m \<Longrightarrow> lru_ok (lru_expire t m) \<and> lru_lookup (lru_expire t m) \<subseteq>\<^sub>m lru_lookup m"
  by (simp add: lru_store_def, simp add: lru_unregister_ok(2) map_le_delete, simp add: lru_expire_def)

lemmas lru_laws = lru_get_laws lru_change_laws lru_store_ok lru_register_ok lru_unregister_ok(1)

interpretation lru: tracking_sessions "lru_ops acq rs" lru_ok lru_lookup for acq rs
  by (unfold_locales; (unfold lru_ops_def session_ops.select_convs)?;
      (rule lru_laws disjI2 [OF lru_laws(3)]; assumption)?)

lemma expired_expire_ok:
  assumes "expired_ok m"
  shows "expired_ok (expired_expire t m) \<and> expired_lookup (expired_expire t m) \<subseteq>\<^sub>m expired_lookup m"
proof -
  let ?xs = "filter (\<lambda>(sid, s). \<not> se_lastActive s + em_expiredTime m \<le>s t) (em_sessions m)"
  have "map_ok (em_sessions m)" "map_ok ?xs" "set ?xs \<subseteq> set (em_sessions m)" using assms by (auto simp: expired_ok_def)
  then show ?thesis using expired_ok_subset [OF assms, of ?xs] map_le_subset [of "em_sessions m" ?xs]
    by (simp add: expired_expire_def expired_lookup_def)
qed

lemma expired_register_ok:
  assumes "expired_ok m"
  shows "expired_register sid t m \<noteq> Panic"
    and "expired_register sid t m = Ret m' \<Longrightarrow> expired_ok m' \<and> expired_lookup m sid = None \<and>
      expired_lookup m' = (expired_lookup m)(sid \<mapsto> new_session sid t)"
  using expired_ok_update [OF assms, of "new_session sid t" sid]
  by (auto simp: expired_register_def expired_lookup_def new_session_def split: option.splits)

lemma expired_unregister_ok:
  assumes "expired_ok m"
  shows "expired_unregister sid m \<noteq> Panic"
    and "expired_unregister sid m = Ret m' \<Longrightarrow> expired_ok m' \<and> expired_lookup m' = (expired_lookup m)(sid := None)"
proof -
  have "set (AList.delete sid (em_sessions m)) \<subseteq> set (em_sessions m)" "map_ok (em_sessions m)"
    using assms by (auto simp: AList.delete_eq expired_ok_def)
  then have "expired_ok (m\<lparr>em_sessions := AList.delete sid (em_sessions m)\<rparr>)"
    using expired_ok_subset [OF assms] by simp
  then show "expired_unregister sid m = Ret m' \<Longrightarrow> expired_ok m' \<and> expired_lookup m' = (expired_lookup m)(sid := None)"
    by (auto simp: expired_unregister_def expired_lookup_def split: option.splits)
qed (simp add: expired_unregister_def split: option.split)

lemma expired_get_laws:
  "expired_ok m \<Longrightarrow> expired_get NoOPSessionID m = (Ret NoOPSession, m)"
  "expired_ok m \<Longrightarrow> sid \<noteq> NoOPSessionID \<Longrightarrow> expired_lookup m sid = Some s \<Longrightarrow>
     \<exists>m'. expired_get sid m = (Ret (RealSession s), m') \<and> expired_ok m' \<and> expired_lookup m' = expired_lookup m"
  "expired_ok m \<Longrightarrow> sid \<noteq> NoOPSessionID \<Longrightarrow> expired_lookup m sid = None \<Longrightarrow> \<exists>e. expired_get sid m = (Fail e, m)"
  by (simp_all add: expired_get_def expired_lookup_def)

lemma expired_change_laws:
  "expired_store NoOPSession m = m"
  "expired_ok m \<Longrightarrow> expired_lookup m (se_id s) = Some s0 \<Longrightarrow>
     expired_ok (expired_store (RealSession s) m) \<and>
     expired_lookup (expired_store (RealSession s) m) = (expired_lookup m)(se_id s \<mapsto> s)"
  "expired_ok m \<Longrightarrow> expired_register sid t m = Ret m' \<Longrightarrow> expired_ok m' \<and> expired_lookup m sid = None \<and>
     expired_lookup m' \<subseteq>\<^sub>m (expired_lookup m)(sid \<mapsto> new_session sid t)"
  "expired_ok m \<Longrightarrow> expired_unregister sid m = Ret m' \<Longrightarrow> expired_ok m' \<and> expired_lookup m' \<subseteq>\<^sub>m expired_lookup m"
  using expired_ok_update [of m s "se_id s"] expired_register_ok(2) [of m sid t m'] expired_unregister_ok(2) [of m sid m']
  by (simp_all add: expired_store_def expired_lookup_def map_le_delete)

lemmas expired_laws = expired_get_laws expired_lookup_id expired_change_laws expired_register_ok(1)
  expired_unregister_ok(1) expired_expire_ok

interpretation expired: tracking_sessions "expired_ops acq rs" expired_ok expired_lookup for acq rs
  by (unfold_locales; (unfold expired_ops_def session_ops.select_convs)?;
      (rule expired_laws disjI2 [OF expired_laws(3)]; assumption)?)

interpretation noop: session_manager noop_ops "\<lambda>_. True" "\<lambda>_. Map.empty"
  by unfold_locales (auto simp: noop_ops_def)

section \<open>Saving and restoring a manager\<close>

lemma check_header_ok [simp]:
  "check_header name expiredManagerType (mgr_header expiredManagerType) = Ret ()"
  "check_header name lruManagerType (mgr_header lruManagerType) = Ret ()"
  "check_header name noOpManagerType (mgr_header noOpManagerType) = Ret ()"
  by (simp_all add: check_header_def mgr_header_def fileVersion_def expiredManagerType_def lruManagerType_def
      noOpManagerType_def)

lemma sessions_round_trip:
  assumes "acq_ok acq 8" and "\<forall>s\<in>set ss. session_ok acq rs s"
  shows "\<exists>b. writes (\<lambda>w. snapshot_sessions acq rs w ss) b \<and>
             (\<forall>rest. restore_sessions acq rs (length ss) (b @ rest) = Ret (map session_kept ss, rest))"
  using assms(2)
proof (induction ss)
  case Nil
  then show ?case by (intro exI [of _ "[]"]) (simp add: writes_def)
next
  case (Cons s ss)
  obtain b where b: "writes (\<lambda>w. session_snapshot acq rs w s) b"
      "\<And>rest. session_restore acq rs (b @ rest) = Ret (session_kept s, rest)"
    using session_round_trip [OF assms(1)] Cons.prems by fastforce
  obtain c where c: "writes (\<lambda>w. snapshot_sessions acq rs w ss) c"
      "\<And>rest. restore_sessions acq rs (length ss) (c @ rest) = Ret (map session_kept ss, rest)"
    using Cons by auto
  show ?case using b c by (intro exI [of _ "b @ c"]) (simp add: writes_def)
qed

lemma fold_sessions:
  assumes "distinct (map se_id ss)" and "\<forall>s\<in>set ss. map_of m (se_id s) = None"
  shows "fold (\<lambda>ns. AList.update (se_id ns) ns) ss m = m @ map (\<lambda>s. (se_id s, s)) ss"
  using assms
proof (induction ss arbitrary: m)
  case (Cons s ss)
  then have "\<forall>s'\<in>set ss. map_of (m @ [(se_id s, s)]) (se_id s') = None"
    by (auto simp: map_add_def) (metis imageI)
  then show ?case using Cons by (simp add: update_absent)
qed simp

lemma push_back_all_simps:
  assumes "push_back_all ss h M = (M', L)"
  shows "map snd L = ss" "map fst L = [h..<h + length ss]"
    and "distinct (map se_id ss) \<Longrightarrow> \<forall>s\<in>set ss. map_of M (se_id s) = None \<Longrightarrow> M' = M @ map (\<lambda>(h, s). (se_id s, h)) L"
  using assms
proof (induction ss arbitrary: h M L)
  case (Cons s ss)
  {
    case 1
    then show ?case using Cons.IH(1) by (auto simp: Let_def split: prod.splits)
  next
    case 2
    then show ?case using Cons.IH(2) by (auto simp: Let_def upt_conv_Cons simp del: upt_Suc split: prod.splits)
  next
    case 3
    obtain L' where L': "push_back_all ss (Suc h) (AList.update (se_id s) h M) = (M', L')" "L = (h, s) # L'"
      using 3 by (auto simp: Let_def split: prod.splits)
    have "\<forall>s'\<in>set ss. map_of (AList.update (se_id s) h M) (se_id s') = None"
      using 3 by auto (metis imageI)
    then show ?case using Cons.IH(3) [OF _ _ L'(1)] 3 L'(2) by (simp add: update_absent)
  }
qed simp_all

definition lru_abs :: "'r lru_manager \<Rightarrow> 'r session list" where
  "lru_abs m = map snd (lru_list m)"

lemma lru_ids_distinct: "lru_ok m \<Longrightarrow> distinct (map se_id (lru_abs m))"
proof -
  assume ok: "lru_ok m"
  have "inj_on (\<lambda>x. se_id (snd x)) (set (lru_list m))"
  proof (rule inj_onI, clarify)
    fix h s h' s'
    assume e: "(h, s) \<in> set (lru_list m)" "(h', s') \<in> set (lru_list m)" "se_id (snd (h, s)) = se_id (snd (h', s'))"
    then have L: "map_of (lru_list m) h = Some s" "map_of (lru_list m) h' = Some s'"
      using ok by (auto simp: lru_ok_def map_ok_def)
    then have "h = h'" using lru_matchD [of "map_of (lru_sessions m)" "map_of (lru_list m)"] e(3) ok
      by (metis lru_ok_def option.inject snd_conv)
    then show "h = h' \<and> s = s'" using L by simp
  qed
  moreover have "distinct (lru_list m)" using ok by (simp add: lru_ok_def map_ok_def distinct_map)
  ultimately show ?thesis by (simp add: lru_abs_def comp_def case_prod_beta distinct_map)
qed

lemma lru_ok_push_back:
  assumes "push_back_all ss h [] = (M, L)" and "distinct (map se_id ss)"
  shows "lru_ok (m\<lparr>lru_list := L, lru_sessions := M, lru_fresh := h + length L\<rparr>)"
proof -
  note L = push_back_all_simps(1,2) [OF assms(1)]
  have M: "M = map (\<lambda>(h, s). (se_id s, h)) L" using push_back_all_simps(3) [OF assms] by simp
  have ok: "map_ok L" using L(2) by (simp add: map_ok_def)
  have ids: "map fst M = map se_id ss" unfolding M L(1) [symmetric] by (simp add: comp_def case_prod_beta)
  then have okM: "map_ok M" using assms(2) by (simp add: map_ok_def)
  have "map_of M sid = Some k \<longleftrightarrow> (\<exists>s. map_of L k = Some s \<and> se_id s = sid)" for sid k
  proof -
    have "map_of M sid = Some k \<longleftrightarrow> (sid, k) \<in> set M" using okM by (simp add: map_ok_def)
    also have "\<dots> \<longleftrightarrow> (\<exists>s. (k, s) \<in> set L \<and> se_id s = sid)" by (auto simp: M)
    finally show ?thesis using ok by (simp add: map_ok_def)
  qed
  moreover have "k < h + length L" if "k \<in> fst ` set L" for k
  proof -
    have "k \<in> set (map fst L)" using that by simp
    moreover have "length L = length ss" using L(1) by (metis length_map)
    ultimately show ?thesis unfolding L(2) by simp
  qed
  ultimately show ?thesis using ok okM by (simp add: lru_ok_def lru_match_def)
qed

section \<open>The list a LRU manager stands for\<close>

datatype 'r lru_op = Get u64 | Store "'r session" | Register u64 u64 | UnRegister u64

definition lru_step :: "'r lru_op \<Rightarrow> 'r lru_manager \<Rightarrow> 'r lru_manager" where
  "lru_step op m =
     (case op of
        Get sid \<Rightarrow> snd (lru_get sid m)
      | Store s \<Rightarrow> lru_store (RealSession s) m
      | Register sid t \<Rightarrow> (case lru_register sid t m of Ret m' \<Rightarrow> m' | _ \<Rightarrow> m)
      | UnRegister sid \<Rightarrow> (case lru_unregister sid m of Ret m' \<Rightarrow> m' | _ \<Rightarrow> m))"

text \<open>The specification: a list, most recently used first, cut at the maximum.\<close>

definition mtf_step :: "nat \<Rightarrow> 'r lru_op \<Rightarrow> 'r session list \<Rightarrow> 'r session list" where
  "mtf_step mx op xs =
     (case op of
        Get sid \<Rightarrow> (if sid = NoOPSessionID then xs
                   else filter (\<lambda>s. se_id s = sid) xs @ filter (\<lambda>s. se_id s \<noteq> sid) xs)
      | Store s \<Rightarrow> map (\<lambda>s'. if se_id s' = se_id s then s else s') xs
      | Register sid t \<Rightarrow> (if sid \<in> se_id ` set xs then xs else take mx (new_session sid t # xs))
      | UnRegister sid \<Rightarrow> filter (\<lambda>s. se_id s \<noteq> sid) xs)"

lemma lru_delete_abs:
  assumes "lru_ok m" and "map_of (lru_list m) h = Some s"
  shows "map snd (AList.delete h (lru_list m)) = filter (\<lambda>s'. se_id s' \<noteq> se_id s) (lru_abs m)"
proof -
  have M: "map_of (lru_sessions m) (se_id s) = Some h" using assms by (auto simp: lru_ok_def dest: lru_matchD)
  have *: "h' = h \<longleftrightarrow> se_id s' = se_id s" if "(h', s') \<in> set (lru_list m)" for h' s'
  proof -
    have L: "map_of (lru_list m) h' = Some s'" using that assms(1) by (auto simp: lru_ok_def map_ok_def)
    then have "map_of (lru_sessions m) (se_id s') = Some h'" using assms(1) by (auto simp: lru_ok_def dest: lru_matchD)
    then show ?thesis using M L assms(2) by auto
  qed
  then have "AList.delete h (lru_list m) = filter (\<lambda>x. se_id (snd x) \<noteq> se_id s) (lru_list m)"
    unfolding AList.delete_eq by (intro filter_cong) (auto dest: *)
  then show ?thesis by (simp add: lru_abs_def filter_map comp_def)
qed

lemma filter_distinct_id:
  assumes "distinct (map f xs)" and "x \<in> set xs"
  shows "filter (\<lambda>y. f y = f x) xs = [x]"
  using assms
proof (induction xs)
  case (Cons y xs)
  then show ?case by (auto simp: filter_empty_conv) (metis imageI)+
qed simp

lemma lru_known_abs: "lru_ok m \<Longrightarrow> map_of (lru_sessions m) sid = None \<longleftrightarrow> sid \<notin> se_id ` set (lru_abs m)"
proof -
  assume ok: "lru_ok m"
  have "sid \<in> se_id ` set (lru_abs m) \<longleftrightarrow> (\<exists>h s. map_of (lru_list m) h = Some s \<and> se_id s = sid)"
    using ok by (force simp: lru_abs_def lru_ok_def map_ok_def)
  also have "\<dots> \<longleftrightarrow> (\<exists>h. map_of (lru_sessions m) sid = Some h)"
    using ok by (auto simp: lru_ok_def lru_match_def)
  finally show ?thesis by auto
qed

lemma lru_element:
  assumes "lru_ok m" and "map_of (lru_sessions m) sid = Some h"
  obtains s where "map_of (lru_list m) h = Some s" "se_id s = sid" "s \<in> set (lru_abs m)"
proof -
  obtain s where s: "map_of (lru_list m) h = Some s" "se_id s = sid"
    using assms by (auto simp: lru_ok_def dest: lru_matchE)
  then have "s \<in> set (lru_abs m)" by (auto simp: lru_abs_def intro!: rev_image_eqI dest: map_of_SomeD)
  then show thesis using that s by blast
qed

lemma lru_get_abs:
  assumes "lru_ok m"
  shows "lru_abs (snd (lru_get sid m)) = mtf_step mx (Get sid) (lru_abs m)"
proof (cases "sid = NoOPSessionID")
  case False
  show ?thesis
  proof (cases "map_of (lru_sessions m) sid")
    case None
    then have "\<forall>s\<in>set (lru_abs m). se_id s \<noteq> sid" using lru_known_abs [OF assms] by auto
    then show ?thesis using None False by (simp add: lru_get_def mtf_step_def filter_empty_conv)
  next
    case (Some h)
    then obtain s where s: "map_of (lru_list m) h = Some s" "se_id s = sid" "s \<in> set (lru_abs m)"
      using lru_element [OF assms] by blast
    have "filter (\<lambda>s'. se_id s' = sid) (lru_abs m) = [s]"
      using filter_distinct_id [OF lru_ids_distinct [OF assms] s(3)] s(2) by simp
    then show ?thesis using Some s False lru_delete_abs [OF assms s(1)]
      by (simp add: lru_get_def mtf_step_def list_move_to_front_def) (simp add: lru_abs_def)
  qed
qed (simp add: lru_get_def mtf_step_def)

lemma lru_register_abs:
  assumes "lru_ok m" and "int (length (lru_list m)) \<le> lru_maxSessions m"
  shows "lru_abs (lru_step (Register sid t) m) = mtf_step (nat (lru_maxSessions m)) (Register sid t) (lru_abs m)"
proof (cases "map_of (lru_sessions m) sid")
  case None
  have cut: "butlast ((h, s) # lru_list m) = take (length (lru_list m)) ((h, s) # lru_list m)" for h s
    by (simp add: butlast_conv_take del: butlast.simps)
  show ?thesis
  proof (cases "lru_maxSessions m < int (length (lru_list m)) + 1")
    case True
    then have "nat (lru_maxSessions m) = length (lru_list m)" using assms(2) by simp
    then show ?thesis using None True lru_known_abs [OF assms(1), of sid]
      by (simp add: lru_step_def lru_register_def Let_def mtf_step_def lru_abs_def cut
          del: butlast.simps last.simps) (simp flip: take_map)
  next
    case False
    then have "length (lru_abs m) < nat (lru_maxSessions m)" by (simp add: lru_abs_def)
    then show ?thesis using None False lru_known_abs [OF assms(1), of sid]
      by (simp add: lru_step_def lru_register_def Let_def mtf_step_def lru_abs_def)
  qed
next
  case (Some h)
  then show ?thesis using lru_known_abs [OF assms(1), of sid]
    by (simp add: lru_step_def lru_register_def mtf_step_def)
qed

lemma lru_unregister_abs:
  assumes "lru_ok m"
  shows "lru_abs (lru_step (UnRegister sid) m) = mtf_step mx (UnRegister sid) (lru_abs m)"
proof (cases "map_of (lru_sessions m) sid")
  case None
  then have "\<forall>s\<in>set (lru_abs m). se_id s \<noteq> sid" using lru_known_abs [OF assms] by auto
  then show ?thesis using None by (simp add: lru_step_def lru_unregister_def mtf_step_def)
next
  case (Some h)
  then obtain s where s: "map_of (lru_list m) h = Some s" "se_id s = sid"
    using lru_element [OF assms] by blast
  then show ?thesis using Some lru_delete_abs [OF assms s(1)]
    by (simp add: lru_step_def lru_unregister_def mtf_step_def) (simp add: lru_abs_def)
qed

text \<open>A session is only written back while the manager has it.\<close>

definition op_live :: "'r lru_op \<Rightarrow> 'r session list \<Rightarrow> bool" where
  "op_live op xs \<longleftrightarrow> (case op of Store s \<Rightarrow> se_id s \<in> se_id ` set xs | _ \<Rightarrow> True)"

lemma lru_register_max: "lru_register sid t m = Ret m' \<Longrightarrow> lru_maxSessions m' = lru_maxSessions m"
  by (auto simp: lru_register_def Let_def simp del: butlast.simps last.simps split: option.splits if_split_asm)

lemma lru_unregister_max: "lru_unregister sid m = Ret m' \<Longrightarrow> lru_maxSessions m' = lru_maxSessions m"
  by (auto simp: lru_unregister_def split: option.splits)

lemma lru_step_ok:
  assumes "lru_ok m" and "int (length (lru_list m)) \<le> lru_maxSessions m"
    and "op_live op (lru_abs m)"
  shows "lru_ok (lru_step op m) \<and> lru_maxSessions (lru_step op m) = lru_maxSessions m \<and>
    lru_abs (lru_step op m) = mtf_step (nat (lru_maxSessions m)) op (lru_abs m)"
proof (cases op)
  case (Get sid)
  have "map_ok (lru_list m)" using assms(1) by (simp add: lru_ok_def)
  then have "lru_ok (snd (lru_get sid m)) \<and> lru_maxSessions (snd (lru_get sid m)) = lru_maxSessions m"
    using assms(1) by (simp add: lru_get_def lru_ok_def split: option.split)
  then show ?thesis using lru_get_abs [OF assms(1)] by (simp add: Get lru_step_def)
next
  case (Store s)
  then have "lru_lookup m (se_id s) \<noteq> None"
    using lru_known_abs [OF assms(1), of "se_id s"] lru_lookup_None [OF assms(1), of "se_id s"] assms(3)
    by (simp add: op_live_def)
  then obtain s0 where "lru_lookup m (se_id s) = Some s0" by blast
  from lru_store_ok [OF assms(1) this] have "lru_ok (lru_step op m)" by (simp add: Store lru_step_def)
  then show ?thesis
    by (simp add: Store lru_step_def mtf_step_def lru_store_def lru_abs_def comp_def case_prod_beta)
next
  case (Register sid t)
  show ?thesis
  proof (cases "lru_register sid t m")
    case (Ret m')
    then show ?thesis using lru_register_ok(2) [OF assms(1) Ret] lru_register_max [OF Ret]
        lru_register_abs [OF assms(1,2), of sid t] by (simp add: Register lru_step_def)
  qed (use assms(1) lru_register_abs [OF assms(1,2), of sid t] in \<open>simp_all add: Register lru_step_def\<close>)
next
  case (UnRegister sid)
  show ?thesis
  proof (cases "lru_unregister sid m")
    case (Ret m')
    then show ?thesis using lru_unregister_ok(2) [OF assms(1) Ret] lru_unregister_max [OF Ret]
        lru_unregister_abs [OF assms(1), of sid] by (simp add: UnRegister lru_step_def)
  qed (use assms(1) lru_unregister_abs [OF assms(1), of sid] in \<open>simp_all add: UnRegister lru_step_def\<close>)
qed

lemma mtf_length: "length xs \<le> mx \<Longrightarrow> length (mtf_step mx op xs) \<le> mx"
proof (cases op)
  case (Get sid)
  have "length (filter (\<lambda>s. se_id s = sid) xs) + length (filter (\<lambda>s. se_id s \<noteq> sid) xs) = length xs"
    by (rule sum_length_filter_compl)
  then show "length xs \<le> mx \<Longrightarrow> length (mtf_step mx op xs) \<le> mx" by (simp add: Get mtf_step_def)
next
  case (UnRegister sid)
  then show "length xs \<le> mx \<Longrightarrow> length (mtf_step mx op xs) \<le> mx"
    by (simp add: mtf_step_def) (rule order_trans [OF length_filter_le])
qed (simp_all add: mtf_step_def)

text \<open>What a snapshot keeps of the sessions is everything when no response stands next to an error.\<close>

lemma map_fixed: "map f xs = xs \<longleftrightarrow> (\<forall>x\<in>set xs. f x = x)"
  by (induction xs) auto

lemma ar_kept_same: "ar_kept ar = ar \<longleftrightarrow> ar_response ar = None \<or> ar_error ar = None"
  by (cases ar) (auto simp: ar_kept_def Option.is_none_def)

lemma session_kept_same:
  "session_kept s = s \<longleftrightarrow> (\<forall>(seq, ar)\<in>set (se_result s). ar_response ar = None \<or> ar_error ar = None)"
proof -
  have "session_kept s = s \<longleftrightarrow> map (apsnd ar_kept) (se_result s) = se_result s"
    by (cases s) (simp add: session_kept_def)
  also have "\<dots> \<longleftrightarrow> (\<forall>x\<in>set (se_result s). apsnd ar_kept x = x)" by (rule map_fixed)
  also have "\<dots> \<longleftrightarrow> (\<forall>(seq, ar)\<in>set (se_result s). ar_kept ar = ar)" by auto
  finally show ?thesis by (simp add: ar_kept_same)
qed

lemma sessions_kept_same:
  "map session_kept ss = ss \<longleftrightarrow>
     (\<forall>s\<in>set ss. \<forall>(seq, ar)\<in>set (se_result s). ar_response ar = None \<or> ar_error ar = None)"
  by (simp add: map_fixed session_kept_same)

fun stores_live :: "nat \<Rightarrow> 'r lru_op list \<Rightarrow> 'r session list \<Rightarrow> bool" where
  "stores_live mx [] xs \<longleftrightarrow> True"
| "stores_live mx (op # ops) xs \<longleftrightarrow>
     op_live op xs \<and> stores_live mx ops (mtf_step mx op xs)"

section \<open>Properties\<close>

text \<open>
  C16. The LRU manager is a bounded move-to-front list: after any sequence of \<^verbatim>\<open>GetSession\<close>,
  \<^verbatim>\<open>Register\<close>, \<^verbatim>\<open>UnRegister\<close> and updates of live sessions, its map and its linked list agree, the
  number of sessions is within \<^verbatim>\<open>maxSessions\<close>, and the sessions it holds, in order of use, are those
  of the specification: a session that is fetched moves to the front, a new one is put in front and
  the least recently used one is evicted when the list is full.
\<close>

theorem lru_refines_move_to_front:
  assumes "lru_ok m" and "int (length (lru_abs m)) \<le> lru_maxSessions m"
    and "stores_live (nat (lru_maxSessions m)) ops (lru_abs m)"
  shows "lru_ok (fold lru_step ops m) \<and> int (length (lru_abs (fold lru_step ops m))) \<le> lru_maxSessions m \<and>
    lru_abs (fold lru_step ops m) = fold (mtf_step (nat (lru_maxSessions m))) ops (lru_abs m)"
  using assms
proof (induction ops arbitrary: m)
  case (Cons op ops)
  have ok: "lru_ok (lru_step op m)" and mx: "lru_maxSessions (lru_step op m) = lru_maxSessions m"
    and abs: "lru_abs (lru_step op m) = mtf_step (nat (lru_maxSessions m)) op (lru_abs m)"
    using lru_step_ok [of m op] Cons.prems by (simp_all add: lru_abs_def)
  have "int (length (lru_abs (lru_step op m))) \<le> lru_maxSessions m"
    using mtf_length [of "lru_abs m" "nat (lru_maxSessions m)" op] Cons.prems(2) abs by (simp add: le_nat_iff)
  then have p1: "int (length (lru_abs (lru_step op m))) \<le> lru_maxSessions (lru_step op m)" by (simp add: mx)
  have p2: "stores_live (nat (lru_maxSessions (lru_step op m))) ops (lru_abs (lru_step op m))"
    using Cons.prems(3) by (simp add: mx abs)
  show ?case unfolding fold_simps(2) using Cons.IH [OF ok p1 p2, unfolded mx abs] by blast
qed simp

definition sample_lru :: "nat lru_manager" where
  "sample_lru = \<lparr>lru_maxSessions = 2, lru_sessions = [], lru_list = [], lru_fresh = 0\<rparr>"

lemma sample_lru_ok: "lru_ok sample_lru"
  by (simp add: lru_ok_def sample_lru_def lru_match_def)

theorem lru_refines_move_to_front_witness:
  "map se_id (lru_abs (fold lru_step [Register 5 0, Register 7 0, Get 5, Register 9 0] sample_lru)) = [9, 5]"
proof -
  let ?ops = "[Register 5 0, Register 7 0, Get 5, Register 9 0] :: nat lru_op list"
  have "lru_abs (fold lru_step ?ops sample_lru) = fold (mtf_step 2) ?ops []"
    using lru_refines_move_to_front [OF sample_lru_ok, of ?ops] by (simp add: sample_lru_def lru_abs_def op_live_def)
  then show ?thesis by (simp add: mtf_step_def new_session_def NoOPSessionID_def)
qed

text \<open>
  C21. A snapshot of the LRU manager restores it, when the pool has a buffer for the text of every
  stored error (it has none for an empty text) and the serializer reads back every stored response:
  \<^verbatim>\<open>Snapshot\<close> succeeds, and \<^verbatim>\<open>Restore\<close> of its bytes gives a manager whose map and list agree. It holds
  the same sessions in the same order of use; each result has its log index and its error, and its
  response unless an error stood next to it, in which case the response is lost. So the sessions are
  the same ones exactly when no result has both a response and an error.
\<close>

theorem lru_snapshot_round_trip:
  assumes "lru_ok m" and "acq_ok acq 8" and "\<forall>s\<in>set (lru_abs m). session_ok acq rs s"
    and "length (lru_abs m) < 2 ^ 64"
  shows "\<exists>b m'. lru_snapshot acq rs w m = Ret (w @ b) \<and> lru_restore acq rs b m0 = Ret m' \<and> lru_ok m' \<and>
    lru_abs m' = map session_kept (lru_abs m) \<and> lru_maxSessions m' = lru_maxSessions m0 \<and>
    (lru_abs m' = lru_abs m \<longleftrightarrow>
       (\<forall>s\<in>set (lru_abs m). \<forall>(seq, ar)\<in>set (se_result s). ar_response ar = None \<or> ar_error ar = None))"
proof -
  obtain b where b: "writes (\<lambda>w. snapshot_sessions acq rs w (lru_abs m)) b"
      "\<And>rest. restore_sessions acq rs (length (lru_abs m)) (b @ rest) = Ret (map session_kept (lru_abs m), rest)"
    using sessions_round_trip [OF assms(2,3)] by blast
  obtain M L where p: "push_back_all (map session_kept (lru_abs m)) (lru_fresh m0) [] = (M, L)" by fastforce
  have "distinct (map se_id (map session_kept (lru_abs m)))"
    using lru_ids_distinct [OF assms(1)] by (simp add: comp_def)
  then have ok: "lru_ok (m0\<lparr>lru_list := L, lru_sessions := M, lru_fresh := lru_fresh m0 + length L\<rparr>)"
    by (rule lru_ok_push_back [OF p])
  have L: "map snd L = map session_kept (lru_abs m)" by (rule push_back_all_simps(1) [OF p])
  then have "length L = length (lru_abs m)" by (metis length_map)
  moreover have "unat (of_nat (length (lru_abs m)) :: u64) = length (lru_abs m)" "length (lru_list m) = length (lru_abs m)"
    using assms(4) by (simp_all add: unat_of_nat lru_abs_def)
  moreover have "restore_sessions acq rs (length (lru_abs m)) b = Ret (map session_kept (lru_abs m), [])"
    using b(2) [of "[]"] by simp
  ultimately have "lru_snapshot acq rs w m =
        Ret (w @ put_uint64 (mgr_header lruManagerType) @ put_uint64 (of_nat (length (lru_abs m))) @ b)"
      "lru_restore acq rs (put_uint64 (mgr_header lruManagerType) @ put_uint64 (of_nat (length (lru_abs m))) @ b) m0 =
        Ret (m0\<lparr>lru_list := L, lru_sessions := M, lru_fresh := lru_fresh m0 + length L\<rparr>)"
    using b(1) assms(2) p
    by (simp_all add: lru_snapshot_def lru_restore_def file_write_uint64_def writes_def flip: lru_abs_def)
  then show ?thesis using ok L sessions_kept_same [of "lru_abs m"]
    by (intro exI conjI) (assumption | simp add: lru_abs_def)+
qed

text \<open>A serializer for the witnesses: 64-bit numbers as responses.\<close>

definition sample_rs :: "u64 response_serializer" where
  "sample_rs = \<lparr>rs_serialize = (\<lambda>x. Ret (put_uint64 x)), rs_deserialize = read_u64\<rparr>"

definition sample_acquirer :: acquirer where
  "sample_acquirer n = (if n = 0 then Panic else Ret (replicate n 7))"

definition sample_session :: "u64 session" where
  "sample_session = \<lparr>se_id = 5, se_lastActive = 100,
     se_result = [(1, \<lparr>ar_logIndex = 9, ar_response = Some 42, ar_error = None\<rparr>),
                  (2, \<lparr>ar_logIndex = 10, ar_response = Some 43, ar_error = Some [1, 2]\<rparr>)]\<rparr>"

definition sample_lru2 :: "u64 lru_manager" where
  "sample_lru2 = \<lparr>lru_maxSessions = 2, lru_sessions = [(5, 3)], lru_list = [(3, sample_session)], lru_fresh = 4\<rparr>"

lemma sample_session_ok: "session_ok sample_acquirer sample_rs sample_session"
  by (simp add: session_ok_def sample_session_def ar_ok_def rs_ok_def sample_rs_def acq_ok_def sample_acquirer_def)

lemma sample_lru2_ok: "lru_ok sample_lru2"
  by (auto simp: lru_ok_def sample_lru2_def lru_match_def sample_session_def)

theorem lru_snapshot_round_trip_witness:
  "\<exists>b m'. lru_snapshot sample_acquirer sample_rs [] sample_lru2 = Ret b \<and>
     lru_restore sample_acquirer sample_rs b sample_lru2 = Ret m' \<and> lru_abs m' = [session_kept sample_session]"
  using lru_snapshot_round_trip [OF sample_lru2_ok, of sample_acquirer sample_rs "[]" sample_lru2] sample_session_ok
  by (auto simp: sample_lru2_def lru_abs_def acq_ok_def sample_acquirer_def)

text \<open>The same for the manager with expiry.\<close>

lemma expired_snapshot_round_trip:
  assumes "expired_ok m" and "acq_ok acq 8" and "\<forall>s\<in>snd ` set (em_sessions m). session_ok acq rs s"
    and "length (em_sessions m) < 2 ^ 64"
  shows "\<exists>b. expired_snapshot acq rs w m = Ret (w @ b) \<and>
    expired_restore acq rs b m0 = Ret (m0\<lparr>em_sessions := map (apsnd session_kept) (em_sessions m)\<rparr>)"
proof -
  let ?ss = "map snd (em_sessions m)"
  have "\<forall>s\<in>set ?ss. session_ok acq rs s" using assms(3) by simp
  then obtain b where b: "writes (\<lambda>w. snapshot_sessions acq rs w ?ss) b"
      "\<And>rest. restore_sessions acq rs (length ?ss) (b @ rest) = Ret (map session_kept ?ss, rest)"
    using sessions_round_trip [OF assms(2)] by blast
  have ids: "map (\<lambda>x. se_id (snd x)) (em_sessions m) = map fst (em_sessions m)"
    using assms(1) by (auto simp: expired_ok_def)
  have "map se_id (map session_kept ?ss) = map fst (em_sessions m)"
    by (subst ids [symmetric]) (simp add: comp_def)
  then have "distinct (map se_id (map session_kept ?ss))"
    using assms(1) by (simp only: expired_ok_def map_ok_def)
  then have "fold (\<lambda>ns. AList.update (se_id ns) ns) (map session_kept ?ss) [] =
      map (\<lambda>s. (se_id s, s)) (map session_kept ?ss)"
    by (simp add: fold_sessions)
  also have "\<dots> = map (apsnd session_kept) (em_sessions m)"
    using assms(1) by (auto simp: expired_ok_def)
  finally have f: "fold (\<lambda>ns. AList.update (se_id ns) ns) (map session_kept ?ss) [] =
      map (apsnd session_kept) (em_sessions m)" .
  have n: "unat (of_nat (length (em_sessions m)) :: u64) = length (em_sessions m)"
    using assms(4) by (simp add: unat_of_nat)
  have r: "restore_sessions acq rs (length (em_sessions m)) b = Ret (map session_kept ?ss, [])"
    using b(2) [of "[]"] by simp
  show ?thesis
    using b(1) assms(2) f
    by (intro exI [of _ "put_uint64 (mgr_header expiredManagerType) @ put_uint64 (of_nat (length (em_sessions m))) @ b"])
       (simp add: expired_snapshot_def expired_restore_def file_write_uint64_def writes_def n r del: map_map)
qed

lemma map_of_filter_ok:
  "map_ok xs \<Longrightarrow> map_of (filter (\<lambda>(k, v). P v) xs) k =
     (case map_of xs k of Some v \<Rightarrow> if P v then Some v else None | None \<Rightarrow> None)"
  by (induction xs) (auto split: option.split)

text \<open>
  C35. Expiry and the wrap-around of \<^verbatim>\<open>int64\<close> times: with times that are not negative, \<^verbatim>\<open>ExpireSession\<close>
  keeps exactly the sessions whose last activity plus the expiry time is still ahead, and drops also
  those for which that sum does not fit into 63 bits: an expiry time meant as \<^verbatim>\<open>never\<close> expires at once.
\<close>

theorem expire_session_bounds:
  assumes "expired_lookup m sid = Some s" and "map_ok (em_sessions m)"
    and "0 \<le> sint (se_lastActive s)" and "0 \<le> sint (em_expiredTime m)" and "0 \<le> sint now"
  shows "expired_lookup (expired_expire now m) sid =
    (if sint (se_lastActive s) + sint (em_expiredTime m) \<le> sint now \<or>
        2 ^ 63 \<le> sint (se_lastActive s) + sint (em_expiredTime m) then None else Some s)"
proof -
  let ?a = "se_lastActive s" and ?t = "em_expiredTime m"
  have a: "sint ?a < 2 ^ 63" "sint ?t < 2 ^ 63" "sint now < 2 ^ 63"
    using sint_lt [of ?a] sint_lt [of ?t] sint_lt [of now] by simp_all
  have sum: "sint (?a + ?t) = (if sint ?a + sint ?t < 2 ^ 63 then sint ?a + sint ?t else sint ?a + sint ?t - 2 ^ 64)"
  proof (cases "sint ?a + sint ?t < 2 ^ 63")
    case False
    have "(sint ?a + sint ?t + 2 ^ 63) mod 2 ^ 64 = (sint ?a + sint ?t - 2 ^ 63 + 2 ^ 64) mod 2 ^ 64" by (simp add: add.commute)
    also have "\<dots> = sint ?a + sint ?t - 2 ^ 63" using False a by (simp only: mod_add_self2) simp
    finally show ?thesis using False
      by (simp add: sint_word_ariths signed_take_bit_eq_take_bit_shift take_bit_eq_mod)
  qed (use assms(3,4) in \<open>simp add: sint_word_ariths signed_take_bit_int_eq_self_iff\<close>)
  have "expired_lookup (expired_expire now m) sid = (if ?a + ?t \<le>s now then None else Some s)"
    using assms(1,2) by (simp add: expired_lookup_def expired_expire_def map_of_filter_ok)
  then show ?thesis using sum a assms(3-5) by (auto simp: word_sle_eq)
qed

definition sample_expired :: "u64 expired_manager" where
  "sample_expired = \<lparr>em_expiredTime = 50, em_sessions = [(5, sample_session)]\<rparr>"

theorem expire_session_bounds_witness:
  "expired_lookup (expired_expire 149 sample_expired) 5 = Some sample_session \<and>
   expired_lookup (expired_expire 150 sample_expired) 5 = None"
proof -
  have l: "expired_lookup sample_expired 5 = Some sample_session" "map_ok (em_sessions sample_expired)"
    by (simp_all add: sample_expired_def expired_lookup_def)
  have t: "sint (se_lastActive sample_session) = 100" "sint (em_expiredTime sample_expired) = 50"
      "sint (149 :: u64) = 149" "sint (150 :: u64) = 150"
    by (simp_all add: sample_session_def sample_expired_def)
  show ?thesis using expire_session_bounds [OF l, of 149] expire_session_bounds [OF l, of 150]
    unfolding t by simp
qed

text \<open>
  Results with an empty error text: they are written like the others, but reading one asks the pool
  for a buffer of 0 bytes.
\<close>

definition ar_empty_text :: "'r apply_result \<Rightarrow> bool" where
  "ar_empty_text ar \<longleftrightarrow> ar_error ar = Some []"

definition has_empty_text :: "'r session \<Rightarrow> bool" where
  "has_empty_text s \<longleftrightarrow> (\<exists>(seq, ar)\<in>set (se_result s). ar_empty_text ar)"

definition session_saved :: "acquirer \<Rightarrow> 'r response_serializer \<Rightarrow> 'r session \<Rightarrow> bool" where
  "session_saved acq rs s \<longleftrightarrow> map_ok (se_result s) \<and> length (se_result s) < 2 ^ 64 \<and>
     (\<forall>(seq, ar)\<in>set (se_result s). ar_empty_text ar \<or> ar_ok acq rs ar)"

lemma session_saved_ok: "session_saved acq rs s \<Longrightarrow> \<not> has_empty_text s \<Longrightarrow> session_ok acq rs s"
  by (auto simp: session_saved_def session_ok_def has_empty_text_def)

lemma unat_len: "n < 2 ^ 64 \<Longrightarrow> unat (of_nat n :: u64) = n"
  by (simp add: unat_of_nat)

lemma ar_empty_text_written:
  assumes "acq_ok acq 8" and "acq 0 = Panic" and "ar_empty_text ar"
  shows "\<exists>b. writes (\<lambda>w. ar_marshal acq rs w ar) b \<and> (\<forall>rest. ar_unmarshal acq rs (b @ rest) = Panic)"
  using assms
  by (intro exI [of _ "put_uint64 (ar_logIndex ar) @ put_uint64 stateMachineResponseErr @ put_uint64 0"])
     (cases "ar_response ar", auto simp: ar_empty_text_def writes_def ar_marshal_def ar_unmarshal_def
        file_write_uint64_def Let_def with_buffer_def [of acq 0] stateMachineResponse_def stateMachineResponseErr_def)

lemma ar_written:
  assumes "acq_ok acq 8" and "acq 0 = Panic" and "ar_empty_text ar \<or> ar_ok acq rs ar"
  shows "\<exists>b. writes (\<lambda>w. ar_marshal acq rs w ar) b \<and>
    (\<forall>rest. ar_unmarshal acq rs (b @ rest) = (if ar_empty_text ar then Panic else Ret (ar_kept ar, rest)))"
  using ar_empty_text_written [OF assms(1,2)] ar_round_trip [OF assms(1)] assms(3) by (cases "ar_empty_text ar") auto

lemma results_written:
  assumes "acq_ok acq 8" and "acq 0 = Panic" and "\<forall>(seq, ar)\<in>set m. ar_empty_text ar \<or> ar_ok acq rs ar"
  shows "\<exists>b. writes (\<lambda>w. marshal_results acq rs w m) b \<and>
    ((\<exists>(seq, ar)\<in>set m. ar_empty_text ar) \<longrightarrow>
       (\<forall>m0 rest. restore_results acq rs (length m) m0 (b @ rest) = Panic))"
  using assms(3)
proof (induction m)
  case Nil
  then show ?case by (intro exI [of _ "[]"]) (simp add: writes_def)
next
  case (Cons x m)
  obtain seq ar where x: "x = (seq, ar)" by (cases x)
  obtain c where c: "writes (\<lambda>w. marshal_results acq rs w m) c"
      "(\<exists>(seq, ar)\<in>set m. ar_empty_text ar) \<longrightarrow>
        (\<forall>m0 rest. restore_results acq rs (length m) m0 (c @ rest) = Panic)"
    using Cons by auto
  have "ar_empty_text ar \<or> ar_ok acq rs ar" using Cons.prems x by simp
  then obtain b where b: "writes (\<lambda>w. ar_marshal acq rs w ar) b"
      "\<And>rest. ar_unmarshal acq rs (b @ rest) = (if ar_empty_text ar then Panic else Ret (ar_kept ar, rest))"
    using ar_written [OF assms(1,2)] by blast
  have "writes (\<lambda>w. marshal_results acq rs w (x # m)) (put_uint64 seq @ b @ c)"
    using b(1) c(1) by (simp add: writes_def x file_write_uint64_def)
  moreover have "restore_results acq rs (length (x # m)) m0 ((put_uint64 seq @ b @ c) @ rest) = Panic"
    if "\<exists>(seq, ar)\<in>set (x # m). ar_empty_text ar" for m0 rest
    using that b(2) c(2) by (cases "ar_empty_text ar") (auto simp: x)
  ultimately show ?case by blast
qed

lemma session_written:
  assumes "acq_ok acq 8" and "acq 0 = Panic" and "session_saved acq rs s"
  shows "\<exists>b. writes (\<lambda>w. session_snapshot acq rs w s) b \<and>
    (\<forall>rest. session_restore acq rs (b @ rest) = (if has_empty_text s then Panic else Ret (session_kept s, rest)))"
proof (cases "has_empty_text s")
  case True
  let ?h = "put_uint64 (se_id s) @ put_uint64 (se_lastActive s) @ put_uint64 (of_nat (length (se_result s)))"
  obtain b where b: "writes (\<lambda>w. marshal_results acq rs w (se_result s)) b"
      "\<And>m0 rest. restore_results acq rs (length (se_result s)) m0 (b @ rest) = Panic"
    using results_written [OF assms(1,2), of "se_result s" rs] assms(3) True
    by (auto simp: session_saved_def has_empty_text_def)
  have "unat (of_nat (length (se_result s)) :: u64) = length (se_result s)"
    using assms(3) by (intro unat_len) (simp add: session_saved_def)
  then have "session_restore acq rs ((?h @ b) @ rest) = Panic" for rest
    using assms(1) b(2) by (simp add: session_restore_def)
  moreover have "writes (\<lambda>w. session_snapshot acq rs w s) (?h @ b)"
    using assms(1) b(1) by (simp add: writes_def session_snapshot_def file_write_uint64_def)
  ultimately show ?thesis using True by auto
next
  case False
  then show ?thesis using session_round_trip [OF assms(1) session_saved_ok [OF assms(3) False]] by auto
qed

lemma sessions_written:
  assumes "acq_ok acq 8" and "acq 0 = Panic" and "\<forall>s\<in>set ss. session_saved acq rs s"
  shows "\<exists>b. writes (\<lambda>w. snapshot_sessions acq rs w ss) b \<and>
    ((\<exists>s\<in>set ss. has_empty_text s) \<longrightarrow> (\<forall>rest. restore_sessions acq rs (length ss) (b @ rest) = Panic))"
  using assms(3)
proof (induction ss)
  case Nil
  then show ?case by (intro exI [of _ "[]"]) (simp add: writes_def)
next
  case (Cons s ss)
  then obtain b c where b: "writes (\<lambda>w. session_snapshot acq rs w s) b"
      "\<And>rest. session_restore acq rs (b @ rest) = (if has_empty_text s then Panic else Ret (session_kept s, rest))"
    and c: "writes (\<lambda>w. snapshot_sessions acq rs w ss) c"
      "(\<exists>s\<in>set ss. has_empty_text s) \<longrightarrow> (\<forall>rest. restore_sessions acq rs (length ss) (c @ rest) = Panic)"
    using session_written [OF assms(1,2), of rs s] by auto
  have "writes (\<lambda>w. snapshot_sessions acq rs w (s # ss)) (b @ c)"
    using b(1) c(1) by (simp add: writes_def)
  moreover have "restore_sessions acq rs (length (s # ss)) ((b @ c) @ rest) = Panic"
    if "\<exists>s\<in>set (s # ss). has_empty_text s" for rest
    using that b(2) c(2) by (cases "has_empty_text s") auto
  ultimately show ?case by blast
qed

text \<open>
  C36. A session file that cannot be read back. Take a manager in which some result of some session
  is an error with an empty text, and in which every other result could be restored: the texts of
  its errors fit the byte slice pool, and the serializer reads back its responses. For every state
  of the pool that has buffers of 8 bytes, \<^verbatim>\<open>Snapshot\<close> succeeds, and every \<^verbatim>\<open>Restore\<close> of its bytes
  panics, since it asks the pool for a buffer of 0 bytes.
\<close>

theorem lru_restore_panics_on_empty_error:
  assumes "acq = byte_pool.acquirer_of choice p" and "acq_ok acq 8"
    and "\<forall>s\<in>set (lru_abs m). session_saved acq rs s" and "length (lru_abs m) < 2 ^ 64"
    and "s \<in> set (lru_abs m)" and "(seq, ar) \<in> set (se_result s)" and "ar_error ar = Some []"
  shows "\<exists>b. lru_snapshot acq rs w m = Ret (w @ b) \<and> (\<forall>m0. lru_restore acq rs b m0 = Panic)"
proof -
  let ?h = "put_uint64 (mgr_header lruManagerType) @ put_uint64 (of_nat (length (lru_abs m)))"
  have "acq 0 = Panic" unfolding assms(1) by (rule byte_pool_zero)
  moreover have "\<exists>s\<in>set (lru_abs m). has_empty_text s"
    using assms(5-7) by (auto simp: has_empty_text_def ar_empty_text_def)
  ultimately obtain b where b: "writes (\<lambda>w. snapshot_sessions acq rs w (lru_abs m)) b"
      "\<And>rest. restore_sessions acq rs (length (lru_abs m)) (b @ rest) = Panic"
    using sessions_written [OF assms(2) _ assms(3)] by blast
  have n: "length (lru_list m) = length (lru_abs m)" by (simp add: lru_abs_def)
  have "lru_snapshot acq rs w m = Ret (w @ ?h @ b)"
    using b(1) assms(2) by (simp add: lru_snapshot_def n file_write_uint64_def writes_def flip: lru_abs_def)
  moreover have "lru_restore acq rs (?h @ b) m0 = Panic" for m0
    using assms(2) b(2) [of "[]"] by (simp add: lru_restore_def unat_len [OF assms(4)])
  ultimately show ?thesis by blast
qed

definition bad_lru :: "u64 lru_manager" where
  "bad_lru = \<lparr>lru_maxSessions = 2, lru_sessions = [(5, 3), (6, 4)],
     lru_list = [(3, sample_session),
       (4, \<lparr>se_id = 6, se_lastActive = 100,
         se_result = [(1, \<lparr>ar_logIndex = 11, ar_response = Some 42, ar_error = None\<rparr>),
                      (2, \<lparr>ar_logIndex = 12, ar_response = None, ar_error = Some []\<rparr>)]\<rparr>)], lru_fresh = 5\<rparr>"

lemma sample_pool_buffers: "n = 2 \<or> n = 8 \<Longrightarrow> acq_ok (byte_pool.acquirer_of 0 sample_pool) n"
  by (auto simp: acq_ok_def byte_pool.acquirer_of_def pool_acquire_def sample_pool_def new_level_def)

lemma bad_lru_saved: "\<forall>s\<in>set (lru_abs bad_lru). session_saved (byte_pool.acquirer_of 0 sample_pool) sample_rs s"
  by (simp add: bad_lru_def lru_abs_def sample_session_def session_saved_def ar_empty_text_def ar_ok_def
      sample_pool_buffers rs_ok_def sample_rs_def)

theorem lru_restore_panics_on_empty_error_witness:
  "\<exists>b. lru_snapshot (byte_pool.acquirer_of 0 sample_pool) sample_rs [] bad_lru = Ret b \<and>
     lru_restore (byte_pool.acquirer_of 0 sample_pool) sample_rs b sample_lru2 = Panic"
proof -
  have "\<exists>b. lru_snapshot (byte_pool.acquirer_of 0 sample_pool) sample_rs [] bad_lru = Ret ([] @ b) \<and>
      (\<forall>m0. lru_restore (byte_pool.acquirer_of 0 sample_pool) sample_rs b m0 = Panic)"
    by (rule lru_restore_panics_on_empty_error [OF refl sample_pool_buffers bad_lru_saved,
          where s = "snd (lru_list bad_lru ! 1)" and seq = 2
            and ar = "\<lparr>ar_logIndex = 12, ar_response = None, ar_error = Some []\<rparr>"])
       (simp_all add: bad_lru_def lru_abs_def)
  then show ?thesis by auto
qed

end
