(* ===== verification/Request_Pb.thy ===== *)
theory Request_Pb
  imports Proto_Wire
begin

unbundle bit_operations_syntax

text \<open>
  The messages of \<^verbatim>\<open>ibabuza/babuzapb/babuza.pb.go\<close> that requests and the cluster configuration are made
  of: for each one its fields, \<^verbatim>\<open>Size\<close>, \<^verbatim>\<open>MarshalTo\<close> and \<^verbatim>\<open>Unmarshal\<close>. Each is an interpretation of the contract
  \<open>proto_message\<close>: what is marshalled is as long as announced and reads back, and decoding never
  panics. Strings are byte lists.
\<close>

section \<open>RaftPeerAttribute\<close>

record raft_peer_attribute =
  rp_peerID :: u64
  rp_raftListenAddr :: bytes
  rp_isLearner :: bool
  rp_storeID :: u64

definition zero_attr :: raft_peer_attribute where
  "zero_attr = \<lparr>rp_peerID = 0, rp_raftListenAddr = [], rp_isLearner = False, rp_storeID = 0\<rparr>"

definition attr_marshal_to :: "raft_peer_attribute \<Rightarrow> bytes" where
  "attr_marshal_to m =
     varint_field 0x08 (rp_peerID m) @ opt_bytes_field 0x12 (rp_raftListenAddr m) @
     bool_field 0x18 (rp_isLearner m) @ varint_field 0x20 (rp_storeID m)"

definition attr_size :: "raft_peer_attribute \<Rightarrow> nat" where
  "attr_size m =
     varint_field_size (rp_peerID m) + opt_bytes_field_size (rp_raftListenAddr m) +
     bool_field_size (rp_isLearner m) + varint_field_size (rp_storeID m)"

definition attr_switch :: "u32 \<Rightarrow> raft_peer_attribute field" where
  "attr_switch f =
     (if f = 1 then Varint (\<lambda>v m. m\<lparr>rp_peerID := v\<rparr>)
      else if f = 2 then Delimited (\<lambda>b m. Ret (m\<lparr>rp_raftListenAddr := b\<rparr>))
      else if f = 3 then Varint (\<lambda>v m. m\<lparr>rp_isLearner := (v \<noteq> 0)\<rparr>)
      else if f = 4 then Varint (\<lambda>v m. m\<lparr>rp_storeID := v\<rparr>)
      else Unknown)"

definition attr_unmarshal :: "raft_peer_attribute \<Rightarrow> bytes \<Rightarrow> (pb_error, raft_peer_attribute) outcome" where
  "attr_unmarshal = pb_unmarshal attr_switch"

lemma attr_fields: "fields_to attr_switch (attr_marshal_to m) zero_attr m"
  unfolding attr_marshal_to_def
  by (rule fields_to_eq, (rule reads_fields | simp add: attr_switch_def; fail)+)
     (cases m, simp add: zero_attr_def)

interpretation attr: proto_message attr_switch attr_marshal_to attr_size zero_attr "\<lambda>_. True"
  by unfold_locales (simp add: attr_size_def attr_marshal_to_def, rule attr_fields, simp add: no_panic_def attr_switch_def)

section \<open>Peer\<close>

record peer =
  pe_raftPeerAttr :: raft_peer_attribute
  pe_appServiceAddresses :: "bytes list"

definition zero_peer :: peer where
  "zero_peer = \<lparr>pe_raftPeerAttr = zero_attr, pe_appServiceAddresses = []\<rparr>"

definition peer_marshal_to :: "peer \<Rightarrow> bytes" where
  "peer_marshal_to m =
     (0x0a # encode_varint (of_nat (attr_size (pe_raftPeerAttr m))) @ attr_marshal_to (pe_raftPeerAttr m)) @
     repeated_field 0x12 (pe_appServiceAddresses m)"

definition peer_size :: "peer \<Rightarrow> nat" where
  "peer_size m = bytes_field_size (attr_size (pe_raftPeerAttr m)) + repeated_field_size (pe_appServiceAddresses m)"

definition peer_switch :: "u32 \<Rightarrow> peer field" where
  "peer_switch f =
     (if f = 1 then Delimited (\<lambda>b m. bind_outcome (attr_unmarshal (pe_raftPeerAttr m) b)
                                   (\<lambda>x. Ret (m\<lparr>pe_raftPeerAttr := x\<rparr>)))
      else if f = 2 then Delimited (\<lambda>b m. Ret (m\<lparr>pe_appServiceAddresses := pe_appServiceAddresses m @ [b]\<rparr>))
      else Unknown)"

definition peer_unmarshal :: "peer \<Rightarrow> bytes \<Rightarrow> (pb_error, peer) outcome" where
  "peer_unmarshal = pb_unmarshal peer_switch"

lemma fold_addresses:
  "fold (\<lambda>b m. m\<lparr>pe_appServiceAddresses := pe_appServiceAddresses m @ [b]\<rparr>) bs m =
     m\<lparr>pe_appServiceAddresses := pe_appServiceAddresses m @ bs\<rparr>"
  by (induction bs arbitrary: m) simp_all

lemma peer_fields: "fields_to peer_switch (peer_marshal_to m) zero_peer m"
  unfolding peer_marshal_to_def
proof (rule fields_to_eq, rule fields_to_append)
  show "fields_to peer_switch (0x0a # encode_varint (of_nat (attr_size (pe_raftPeerAttr m))) @
      attr_marshal_to (pe_raftPeerAttr m)) zero_peer (zero_peer\<lparr>pe_raftPeerAttr := pe_raftPeerAttr m\<rparr>)"
    by (rule attr.nested_field, rule one_byte_tags, simp add: peer_switch_def)
       (simp_all add: attr_unmarshal_def zero_peer_def)
  show "fields_to peer_switch (repeated_field 0x12 (pe_appServiceAddresses m))
      (zero_peer\<lparr>pe_raftPeerAttr := pe_raftPeerAttr m\<rparr>)
      (fold (\<lambda>b m. m\<lparr>pe_appServiceAddresses := pe_appServiceAddresses m @ [b]\<rparr>) (pe_appServiceAddresses m)
        (zero_peer\<lparr>pe_raftPeerAttr := pe_raftPeerAttr m\<rparr>))"
    by (rule reads_repeated_field, rule one_byte_tags, simp add: peer_switch_def)
qed (simp add: fold_addresses zero_peer_def)

lemma bind_no_panic: "m \<noteq> Panic \<Longrightarrow> (\<And>x. f x \<noteq> Panic) \<Longrightarrow> bind_outcome m f \<noteq> Panic"
  by (cases m) simp_all

interpretation peer: proto_message peer_switch peer_marshal_to peer_size zero_peer "\<lambda>_. True"
  by unfold_locales
     (simp add: peer_size_def peer_marshal_to_def bytes_field_size_def length_encode_varint attr.size_law, rule peer_fields,
      simp add: no_panic_def peer_switch_def attr_unmarshal_def bind_no_panic attr.unmarshal_total)

section \<open>RegisterSessionRequest\<close>

record register_session_request =
  rg_unregister :: bool
  rg_sessionID :: u64

definition zero_register :: register_session_request where
  "zero_register = \<lparr>rg_unregister = False, rg_sessionID = 0\<rparr>"

definition register_marshal_to :: "register_session_request \<Rightarrow> bytes" where
  "register_marshal_to m = bool_field 0x08 (rg_unregister m) @ varint_field 0x10 (rg_sessionID m)"

definition register_size :: "register_session_request \<Rightarrow> nat" where
  "register_size m = bool_field_size (rg_unregister m) + varint_field_size (rg_sessionID m)"

definition register_switch :: "u32 \<Rightarrow> register_session_request field" where
  "register_switch f =
     (if f = 1 then Varint (\<lambda>v m. m\<lparr>rg_unregister := (v \<noteq> 0)\<rparr>)
      else if f = 2 then Varint (\<lambda>v m. m\<lparr>rg_sessionID := v\<rparr>)
      else Unknown)"

definition register_unmarshal ::
  "register_session_request \<Rightarrow> bytes \<Rightarrow> (pb_error, register_session_request) outcome" where
  "register_unmarshal = pb_unmarshal register_switch"

lemma register_fields: "fields_to register_switch (register_marshal_to m) zero_register m"
  unfolding register_marshal_to_def
  by (rule fields_to_eq, (rule reads_fields | simp add: register_switch_def; fail)+)
     (cases m, simp add: zero_register_def)

interpretation register: proto_message register_switch register_marshal_to register_size zero_register "\<lambda>_. True"
  by unfold_locales (simp add: register_size_def register_marshal_to_def, rule register_fields, simp add: no_panic_def register_switch_def)

section \<open>RequestContext\<close>

record request_context =
  rc_replyID :: u64
  rc_sessionID :: u64
  rc_sequenceNum :: u64
  rc_lowestSeqNumNotYetReplied :: u64

definition zero_context :: request_context where
  "zero_context = \<lparr>rc_replyID = 0, rc_sessionID = 0, rc_sequenceNum = 0, rc_lowestSeqNumNotYetReplied = 0\<rparr>"

definition context_marshal_to :: "request_context \<Rightarrow> bytes" where
  "context_marshal_to m =
     varint_field 0x08 (rc_replyID m) @ varint_field 0x10 (rc_sessionID m) @
     varint_field 0x18 (rc_sequenceNum m) @ varint_field 0x20 (rc_lowestSeqNumNotYetReplied m)"

definition context_size :: "request_context \<Rightarrow> nat" where
  "context_size m =
     varint_field_size (rc_replyID m) + varint_field_size (rc_sessionID m) +
     varint_field_size (rc_sequenceNum m) + varint_field_size (rc_lowestSeqNumNotYetReplied m)"

definition context_switch :: "u32 \<Rightarrow> request_context field" where
  "context_switch f =
     (if f = 1 then Varint (\<lambda>v m. m\<lparr>rc_replyID := v\<rparr>)
      else if f = 2 then Varint (\<lambda>v m. m\<lparr>rc_sessionID := v\<rparr>)
      else if f = 3 then Varint (\<lambda>v m. m\<lparr>rc_sequenceNum := v\<rparr>)
      else if f = 4 then Varint (\<lambda>v m. m\<lparr>rc_lowestSeqNumNotYetReplied := v\<rparr>)
      else Unknown)"

definition context_unmarshal :: "request_context \<Rightarrow> bytes \<Rightarrow> (pb_error, request_context) outcome" where
  "context_unmarshal = pb_unmarshal context_switch"

lemma context_fields: "fields_to context_switch (context_marshal_to m) zero_context m"
  unfolding context_marshal_to_def
  by (rule fields_to_eq, (rule reads_fields | simp add: context_switch_def; fail)+)
     (cases m, simp add: zero_context_def)

interpretation reqctx: proto_message context_switch context_marshal_to context_size zero_context "\<lambda>_. True"
  by unfold_locales (simp add: context_size_def context_marshal_to_def, rule context_fields, simp add: no_panic_def context_switch_def)

section \<open>WalMetadata\<close>

record wal_metadata =
  wm_clusterID :: u64
  wm_localPeerID :: u64
  wm_groupID :: u64

definition zero_wal_metadata :: wal_metadata where
  "zero_wal_metadata = \<lparr>wm_clusterID = 0, wm_localPeerID = 0, wm_groupID = 0\<rparr>"

definition walmeta_marshal_to :: "wal_metadata \<Rightarrow> bytes" where
  "walmeta_marshal_to m =
     varint_field 0x08 (wm_clusterID m) @ varint_field 0x10 (wm_localPeerID m) @ varint_field 0x18 (wm_groupID m)"

definition walmeta_size :: "wal_metadata \<Rightarrow> nat" where
  "walmeta_size m =
     varint_field_size (wm_clusterID m) + varint_field_size (wm_localPeerID m) + varint_field_size (wm_groupID m)"

definition walmeta_switch :: "u32 \<Rightarrow> wal_metadata field" where
  "walmeta_switch f =
     (if f = 1 then Varint (\<lambda>v m. m\<lparr>wm_clusterID := v\<rparr>)
      else if f = 2 then Varint (\<lambda>v m. m\<lparr>wm_localPeerID := v\<rparr>)
      else if f = 3 then Varint (\<lambda>v m. m\<lparr>wm_groupID := v\<rparr>)
      else Unknown)"

definition walmeta_unmarshal :: "wal_metadata \<Rightarrow> bytes \<Rightarrow> (pb_error, wal_metadata) outcome" where
  "walmeta_unmarshal = pb_unmarshal walmeta_switch"

lemma walmeta_fields: "fields_to walmeta_switch (walmeta_marshal_to m) zero_wal_metadata m"
  unfolding walmeta_marshal_to_def
  by (rule fields_to_eq, (rule reads_fields | simp add: walmeta_switch_def; fail)+)
     (cases m, simp add: zero_wal_metadata_def)

interpretation walmeta: proto_message walmeta_switch walmeta_marshal_to walmeta_size zero_wal_metadata "\<lambda>_. True"
  by unfold_locales (simp add: walmeta_size_def walmeta_marshal_to_def, rule walmeta_fields, simp add: no_panic_def walmeta_switch_def)

section \<open>PubAppServiceRequest\<close>

record pub_app_service_request =
  pa_pubServicePeerID :: u64
  pa_appServiceAddresses :: "bytes list"

definition zero_pub :: pub_app_service_request where
  "zero_pub = \<lparr>pa_pubServicePeerID = 0, pa_appServiceAddresses = []\<rparr>"

definition pub_marshal_to :: "pub_app_service_request \<Rightarrow> bytes" where
  "pub_marshal_to m = varint_field 0x08 (pa_pubServicePeerID m) @ repeated_field 0x1a (pa_appServiceAddresses m)"

definition pub_size :: "pub_app_service_request \<Rightarrow> nat" where
  "pub_size m = varint_field_size (pa_pubServicePeerID m) + repeated_field_size (pa_appServiceAddresses m)"

definition pub_switch :: "u32 \<Rightarrow> pub_app_service_request field" where
  "pub_switch f =
     (if f = 1 then Varint (\<lambda>v m. m\<lparr>pa_pubServicePeerID := v\<rparr>)
      else if f = 3 then Delimited (\<lambda>b m. Ret (m\<lparr>pa_appServiceAddresses := pa_appServiceAddresses m @ [b]\<rparr>))
      else Unknown)"

definition pub_unmarshal ::
  "pub_app_service_request \<Rightarrow> bytes \<Rightarrow> (pb_error, pub_app_service_request) outcome" where
  "pub_unmarshal = pb_unmarshal pub_switch"

lemma fold_pub_addresses:
  "fold (\<lambda>b m. m\<lparr>pa_appServiceAddresses := pa_appServiceAddresses m @ [b]\<rparr>) bs m =
     m\<lparr>pa_appServiceAddresses := pa_appServiceAddresses m @ bs\<rparr>"
  by (induction bs arbitrary: m) simp_all

lemma pub_fields: "fields_to pub_switch (pub_marshal_to m) zero_pub m"
  unfolding pub_marshal_to_def
  by (rule fields_to_eq, (rule reads_fields | simp add: pub_switch_def; fail)+)
     (cases m, simp add: fold_pub_addresses zero_pub_def)

interpretation pub: proto_message pub_switch pub_marshal_to pub_size zero_pub "\<lambda>_. True"
  by unfold_locales (simp add: pub_size_def pub_marshal_to_def, rule pub_fields, simp add: no_panic_def pub_switch_def)

section \<open>NormalRequest\<close>

text \<open>The two pointers are options; an empty command and a missing one are the same.\<close>

record normal_request =
  nr_context :: request_context
  nr_register :: "register_session_request option"
  nr_pubAppService :: "pub_app_service_request option"
  nr_stateMachineLog :: bytes

definition zero_normal :: normal_request where
  "zero_normal = \<lparr>nr_context = zero_context, nr_register = None, nr_pubAppService = None, nr_stateMachineLog = []\<rparr>"

definition normal_marshal_to :: "normal_request \<Rightarrow> bytes" where
  "normal_marshal_to m =
     (0x0a # encode_varint (of_nat (context_size (nr_context m))) @ context_marshal_to (nr_context m)) @
     (case nr_register m of None \<Rightarrow> []
      | Some r \<Rightarrow> 0x12 # encode_varint (of_nat (register_size r)) @ register_marshal_to r) @
     (case nr_pubAppService m of None \<Rightarrow> []
      | Some p \<Rightarrow> 0x1a # encode_varint (of_nat (pub_size p)) @ pub_marshal_to p) @
     opt_bytes_field 0x22 (nr_stateMachineLog m)"

definition normal_size :: "normal_request \<Rightarrow> nat" where
  "normal_size m =
     bytes_field_size (context_size (nr_context m)) +
     (case nr_register m of None \<Rightarrow> 0 | Some r \<Rightarrow> bytes_field_size (register_size r)) +
     (case nr_pubAppService m of None \<Rightarrow> 0 | Some p \<Rightarrow> bytes_field_size (pub_size p)) +
     opt_bytes_field_size (nr_stateMachineLog m)"

definition normal_switch :: "u32 \<Rightarrow> normal_request field" where
  "normal_switch f =
     (if f = 1 then Delimited (\<lambda>b m. bind_outcome (context_unmarshal (nr_context m) b)
                                   (\<lambda>x. Ret (m\<lparr>nr_context := x\<rparr>)))
      else if f = 2 then Delimited (\<lambda>b m. bind_outcome
                (register_unmarshal (case nr_register m of None \<Rightarrow> zero_register | Some x \<Rightarrow> x) b)
                (\<lambda>x. Ret (m\<lparr>nr_register := Some x\<rparr>)))
      else if f = 3 then Delimited (\<lambda>b m. bind_outcome
                (pub_unmarshal (case nr_pubAppService m of None \<Rightarrow> zero_pub | Some x \<Rightarrow> x) b)
                (\<lambda>x. Ret (m\<lparr>nr_pubAppService := Some x\<rparr>)))
      else if f = 4 then Delimited (\<lambda>b m. Ret (m\<lparr>nr_stateMachineLog := b\<rparr>))
      else Unknown)"

definition normal_unmarshal :: "normal_request \<Rightarrow> bytes \<Rightarrow> (pb_error, normal_request) outcome" where
  "normal_unmarshal = pb_unmarshal normal_switch"

lemma normal_nested:
  "nr_context m = zero_context \<Longrightarrow>
     fields_to normal_switch (0x0a # encode_varint (of_nat (context_size c)) @ context_marshal_to c) m (m\<lparr>nr_context := c\<rparr>)"
  "nr_register m = None \<Longrightarrow>
     fields_to normal_switch (case r of None \<Rightarrow> [] | Some r \<Rightarrow> 0x12 # encode_varint (of_nat (register_size r)) @ register_marshal_to r)
       m (m\<lparr>nr_register := r\<rparr>)"
  "nr_pubAppService m = None \<Longrightarrow>
     fields_to normal_switch (case p of None \<Rightarrow> [] | Some p \<Rightarrow> 0x1a # encode_varint (of_nat (pub_size p)) @ pub_marshal_to p)
       m (m\<lparr>nr_pubAppService := p\<rparr>)"
proof -
  show "fields_to normal_switch (0x0a # encode_varint (of_nat (context_size c)) @ context_marshal_to c) m (m\<lparr>nr_context := c\<rparr>)"
    if "nr_context m = zero_context"
    by (rule reqctx.nested_field, rule one_byte_tags, simp add: normal_switch_def)
       (simp_all add: context_unmarshal_def that)
  show "fields_to normal_switch (case r of None \<Rightarrow> [] | Some r \<Rightarrow> 0x12 # encode_varint (of_nat (register_size r)) @ register_marshal_to r)
       m (m\<lparr>nr_register := r\<rparr>)" if "nr_register m = None"
  proof (cases r)
    case None
    then show ?thesis using that by (cases m) (simp add: fields_to_Nil)
  next
    case (Some x)
    show ?thesis unfolding Some option.case
      by (rule register.nested_field, rule one_byte_tags, simp add: normal_switch_def)
         (simp_all add: register_unmarshal_def that)
  qed
  show "fields_to normal_switch (case p of None \<Rightarrow> [] | Some p \<Rightarrow> 0x1a # encode_varint (of_nat (pub_size p)) @ pub_marshal_to p)
       m (m\<lparr>nr_pubAppService := p\<rparr>)" if "nr_pubAppService m = None"
  proof (cases p)
    case None
    then show ?thesis using that by (cases m) (simp add: fields_to_Nil)
  next
    case (Some x)
    show ?thesis unfolding Some option.case
      by (rule pub.nested_field, rule one_byte_tags, simp add: normal_switch_def)
         (simp_all add: pub_unmarshal_def that)
  qed
qed

lemma normal_fields: "fields_to normal_switch (normal_marshal_to m) zero_normal m"
  unfolding normal_marshal_to_def
  by (rule fields_to_eq, rule fields_to_append, rule normal_nested(1), simp add: zero_normal_def,
      rule fields_to_append, rule normal_nested(2), simp add: zero_normal_def,
      rule fields_to_append, rule normal_nested(3), simp add: zero_normal_def,
      rule reads_opt_bytes_field, rule one_byte_tags, simp add: normal_switch_def)
     (cases m, simp add: zero_normal_def)

interpretation normal: proto_message normal_switch normal_marshal_to normal_size zero_normal "\<lambda>_. True"
  by unfold_locales
     (simp add: normal_size_def normal_marshal_to_def bytes_field_size_def length_encode_varint reqctx.size_law
        register.size_law pub.size_law split: option.split, rule normal_fields,
      simp add: no_panic_def normal_switch_def context_unmarshal_def register_unmarshal_def pub_unmarshal_def bind_no_panic
        reqctx.unmarshal_total register.unmarshal_total pub.unmarshal_total)

section \<open>ConfChangeRequest\<close>

record conf_change_request =
  cr_context :: request_context
  cr_groupID :: u64
  cr_raftPeerAttr :: raft_peer_attribute
  cr_promoteLearner :: bool

definition zero_conf_req :: conf_change_request where
  "zero_conf_req = \<lparr>cr_context = zero_context, cr_groupID = 0, cr_raftPeerAttr = zero_attr, cr_promoteLearner = False\<rparr>"

definition conf_req_marshal_to :: "conf_change_request \<Rightarrow> bytes" where
  "conf_req_marshal_to m =
     (0x0a # encode_varint (of_nat (context_size (cr_context m))) @ context_marshal_to (cr_context m)) @
     varint_field 0x10 (cr_groupID m) @
     (0x1a # encode_varint (of_nat (attr_size (cr_raftPeerAttr m))) @ attr_marshal_to (cr_raftPeerAttr m)) @
     bool_field 0x20 (cr_promoteLearner m)"

definition conf_req_size :: "conf_change_request \<Rightarrow> nat" where
  "conf_req_size m =
     bytes_field_size (context_size (cr_context m)) + varint_field_size (cr_groupID m) +
     bytes_field_size (attr_size (cr_raftPeerAttr m)) + bool_field_size (cr_promoteLearner m)"

definition conf_req_switch :: "u32 \<Rightarrow> conf_change_request field" where
  "conf_req_switch f =
     (if f = 1 then Delimited (\<lambda>b m. bind_outcome (context_unmarshal (cr_context m) b)
                                   (\<lambda>x. Ret (m\<lparr>cr_context := x\<rparr>)))
      else if f = 2 then Varint (\<lambda>v m. m\<lparr>cr_groupID := v\<rparr>)
      else if f = 3 then Delimited (\<lambda>b m. bind_outcome (attr_unmarshal (cr_raftPeerAttr m) b)
                                   (\<lambda>x. Ret (m\<lparr>cr_raftPeerAttr := x\<rparr>)))
      else if f = 4 then Varint (\<lambda>v m. m\<lparr>cr_promoteLearner := (v \<noteq> 0)\<rparr>)
      else Unknown)"

definition conf_req_unmarshal :: "conf_change_request \<Rightarrow> bytes \<Rightarrow> (pb_error, conf_change_request) outcome" where
  "conf_req_unmarshal = pb_unmarshal conf_req_switch"

lemma conf_req_context:
  assumes "cr_context m = zero_context"
  shows "fields_to conf_req_switch (0x0a # encode_varint (of_nat (context_size c)) @ context_marshal_to c) m (m\<lparr>cr_context := c\<rparr>)"
  by (rule reqctx.nested_field, rule one_byte_tags, simp add: conf_req_switch_def)
     (simp_all add: context_unmarshal_def assms)

lemma conf_req_attr:
  assumes "cr_raftPeerAttr m = zero_attr"
  shows "fields_to conf_req_switch (0x1a # encode_varint (of_nat (attr_size a)) @ attr_marshal_to a) m (m\<lparr>cr_raftPeerAttr := a\<rparr>)"
  by (rule attr.nested_field, rule one_byte_tags, simp add: conf_req_switch_def)
     (simp_all add: attr_unmarshal_def assms)

lemma conf_req_fields: "fields_to conf_req_switch (conf_req_marshal_to m) zero_conf_req m"
  unfolding conf_req_marshal_to_def
  by (rule fields_to_eq, rule fields_to_append, rule conf_req_context, simp add: zero_conf_req_def,
      rule fields_to_append, rule reads_varint_field, rule one_byte_tags, simp add: conf_req_switch_def,
      rule fields_to_append, rule conf_req_attr, simp add: zero_conf_req_def,
      rule reads_bool_field, rule one_byte_tags, simp add: conf_req_switch_def)
     (cases m, simp add: zero_conf_req_def)

interpretation conf_req: proto_message conf_req_switch conf_req_marshal_to conf_req_size zero_conf_req "\<lambda>_. True"
  by unfold_locales
     (simp add: conf_req_size_def conf_req_marshal_to_def bytes_field_size_def length_encode_varint reqctx.size_law
        attr.size_law, rule conf_req_fields,
      simp add: no_panic_def conf_req_switch_def context_unmarshal_def attr_unmarshal_def bind_no_panic
        reqctx.unmarshal_total attr.unmarshal_total)

section \<open>SnapshotFileDesc\<close>

text \<open>The two enumerations are 32-bit integers, extended with their sign when they are written.\<close>

record snapshot_file_desc =
  sf_fileType :: u32
  sf_compressionType :: u32
  sf_tag :: bytes
  sf_fileSize :: u64
  sf_fileCrc64 :: u64
  sf_metadata :: bytes
  sf_isExternal :: bool
  sf_locationUri :: bytes

definition zero_file_desc :: snapshot_file_desc where
  "zero_file_desc = \<lparr>sf_fileType = 0, sf_compressionType = 0, sf_tag = [], sf_fileSize = 0, sf_fileCrc64 = 0,
     sf_metadata = [], sf_isExternal = False, sf_locationUri = []\<rparr>"

definition file_desc_marshal_to :: "snapshot_file_desc \<Rightarrow> bytes" where
  "file_desc_marshal_to m =
     varint_field 0x08 (scast (sf_fileType m)) @ varint_field 0x10 (scast (sf_compressionType m)) @
     opt_bytes_field 0x1a (sf_tag m) @ varint_field 0x20 (sf_fileSize m) @ varint_field 0x28 (sf_fileCrc64 m) @
     opt_bytes_field 0x32 (sf_metadata m) @ bool_field 0x38 (sf_isExternal m) @
     opt_bytes_field 0x42 (sf_locationUri m)"

definition file_desc_size :: "snapshot_file_desc \<Rightarrow> nat" where
  "file_desc_size m =
     varint_field_size (scast (sf_fileType m)) + varint_field_size (scast (sf_compressionType m)) +
     opt_bytes_field_size (sf_tag m) + varint_field_size (sf_fileSize m) + varint_field_size (sf_fileCrc64 m) +
     opt_bytes_field_size (sf_metadata m) + bool_field_size (sf_isExternal m) +
     opt_bytes_field_size (sf_locationUri m)"

definition file_desc_switch :: "u32 \<Rightarrow> snapshot_file_desc field" where
  "file_desc_switch f =
     (if f = 1 then Varint (\<lambda>v m. m\<lparr>sf_fileType := ucast v\<rparr>)
      else if f = 2 then Varint (\<lambda>v m. m\<lparr>sf_compressionType := ucast v\<rparr>)
      else if f = 3 then Delimited (\<lambda>b m. Ret (m\<lparr>sf_tag := b\<rparr>))
      else if f = 4 then Varint (\<lambda>v m. m\<lparr>sf_fileSize := v\<rparr>)
      else if f = 5 then Varint (\<lambda>v m. m\<lparr>sf_fileCrc64 := v\<rparr>)
      else if f = 6 then Delimited (\<lambda>b m. Ret (m\<lparr>sf_metadata := b\<rparr>))
      else if f = 7 then Varint (\<lambda>v m. m\<lparr>sf_isExternal := (v \<noteq> 0)\<rparr>)
      else if f = 8 then Delimited (\<lambda>b m. Ret (m\<lparr>sf_locationUri := b\<rparr>))
      else Unknown)"

definition file_desc_unmarshal :: "snapshot_file_desc \<Rightarrow> bytes \<Rightarrow> (pb_error, snapshot_file_desc) outcome" where
  "file_desc_unmarshal = pb_unmarshal file_desc_switch"

lemma ucast_scast [simp]: "ucast (scast (x :: u32) :: u64) = x"
  by (rule bit_word_eqI) (auto simp: bit_simps)

lemma scast_eq_0 [simp]: "(scast (x :: u32) :: u64) = 0 \<longleftrightarrow> x = 0"
  by (metis ucast_scast ucast_0 scast_0)

lemma file_desc_fields: "fields_to file_desc_switch (file_desc_marshal_to m) zero_file_desc m"
  unfolding file_desc_marshal_to_def
  by (rule fields_to_eq, (rule reads_fields | simp add: file_desc_switch_def; fail)+)
     (cases m, simp add: zero_file_desc_def)

interpretation file_desc: proto_message file_desc_switch file_desc_marshal_to file_desc_size zero_file_desc "\<lambda>_. True"
  by unfold_locales
     (simp add: file_desc_size_def file_desc_marshal_to_def, rule file_desc_fields,
      simp add: no_panic_def file_desc_switch_def)

section \<open>SnapshotMetadata\<close>

text \<open>
  The raft snapshot inside is a message of etcd; its codec is a parameter: the bytes it writes, their
  announced size, and its \<^verbatim>\<open>Unmarshal\<close> into a receiver.
\<close>

record 's snapshot_codec =
  sc_marshal :: "'s \<Rightarrow> bytes"
  sc_size :: "'s \<Rightarrow> nat"
  sc_unmarshal :: "'s \<Rightarrow> bytes \<Rightarrow> (pb_error, 's) outcome"

record 's snapshot_metadata =
  sm_version :: u64
  sm_snapshot :: 's
  sm_files :: "(bytes \<times> snapshot_file_desc) list"

definition file_entry_size :: "bytes \<Rightarrow> snapshot_file_desc \<Rightarrow> nat" where
  "file_entry_size k v =
     (let msgSize = file_desc_size v + 1 + sov (of_nat (file_desc_size v))
      in 1 + length k + sov (of_nat (length k)) + msgSize)"

definition file_entry :: "bytes \<times> snapshot_file_desc \<Rightarrow> bytes" where
  "file_entry e =
     (case e of (k, v) \<Rightarrow>
        0x1a # encode_varint (of_nat (file_entry_size k v)) @
        (0x0a # (encode_varint (of_nat (length k)) @ k) @
         0x12 # encode_varint (of_nat (file_desc_size v)) @ file_desc_marshal_to v))"

definition metadata_marshal_to :: "'s snapshot_codec \<Rightarrow> 's snapshot_metadata \<Rightarrow> bytes" where
  "metadata_marshal_to sc m =
     varint_field 0x08 (sm_version m) @
     (0x12 # encode_varint (of_nat (sc_size sc (sm_snapshot m))) @ sc_marshal sc (sm_snapshot m)) @
     concat (map file_entry (sm_files m))"

definition metadata_size :: "'s snapshot_codec \<Rightarrow> 's snapshot_metadata \<Rightarrow> nat" where
  "metadata_size sc m =
     varint_field_size (sm_version m) + bytes_field_size (sc_size sc (sm_snapshot m)) +
     sum_list (map (\<lambda>(k, v). file_entry_size k v + 1 + sov (of_nat (file_entry_size k v))) (sm_files m))"

definition metadata_switch :: "'s snapshot_codec \<Rightarrow> u32 \<Rightarrow> 's snapshot_metadata field" where
  "metadata_switch sc f =
     (if f = 1 then Varint (\<lambda>v m. m\<lparr>sm_version := v\<rparr>)
      else if f = 2 then Delimited (\<lambda>b m. bind_outcome (sc_unmarshal sc (sm_snapshot m) b)
                                   (\<lambda>x. Ret (m\<lparr>sm_snapshot := x\<rparr>)))
      else if f = 3 then MapEntry (\<lambda>l stop d m.
             bind_outcome
               (map_entry_loop (BytesPart (\<lambda>b k. Ret b)) (BytesPart (\<lambda>b v. file_desc_unmarshal zero_file_desc b))
                  l stop [] zero_file_desc d)
               (\<lambda>(k, v). Ret (m\<lparr>sm_files := AList.update k v (sm_files m)\<rparr>)))
      else Unknown)"

definition metadata_unmarshal ::
  "'s snapshot_codec \<Rightarrow> 's snapshot_metadata \<Rightarrow> bytes \<Rightarrow> (pb_error, 's snapshot_metadata) outcome" where
  "metadata_unmarshal sc = pb_unmarshal (metadata_switch sc)"

lemma file_entry_reads:
  "fields_to (metadata_switch sc) (file_entry e) m (m\<lparr>sm_files := AList.update (fst e) (snd e) (sm_files m)\<rparr>)"
proof -
  obtain k v where e: "e = (k, v)" by (cases e)
  let ?kb = "encode_varint (of_nat (length k)) @ k" and ?vb = "encode_varint (of_nat (file_desc_size v)) @ file_desc_marshal_to v"
  let ?e = "0x0a # ?kb @ 0x12 # ?vb"
  have len: "length ?e = file_entry_size k v"
    by (simp add: file_entry_size_def length_encode_varint file_desc.size_law)
  have k: "part_reads (BytesPart (\<lambda>b k. Ret b)) ?kb [] k" by (rule part_reads_bytes) simp
  have v: "part_reads (BytesPart (\<lambda>b v. file_desc_unmarshal zero_file_desc b)) ?vb zero_file_desc v"
    using part_reads_bytes [of "file_desc_marshal_to v" "\<lambda>b v. file_desc_unmarshal zero_file_desc b" zero_file_desc v]
      file_desc.unmarshal_enc [of v] by (simp add: file_desc_unmarshal_def file_desc.size_law)
  have loop: "map_entry_loop (BytesPart (\<lambda>b k. Ret b)) (BytesPart (\<lambda>b v. file_desc_unmarshal zero_file_desc b))
      l (length rest) [] zero_file_desc (?e @ rest) = Ret (k, v)" if "l < 2 ^ 63" "length (?e @ rest) \<le> l" for l rest
    using that by (rule map_entry_reads [OF one_byte_tags(7) one_byte_tags(8) k v])
  have "fields_to (metadata_switch sc) (0x1a # encode_varint (of_nat (length ?e)) @ ?e) m
      (m\<lparr>sm_files := AList.update k v (sm_files m)\<rparr>)"
    by (rule reads_map_entry, rule one_byte_tags, simp add: metadata_switch_def) (simp only: loop bind_outcome.simps prod.case)
  then show ?thesis unfolding len by (simp add: e file_entry_def)
qed

lemma metadata_fields:
  assumes "map_ok (sm_files m)" and "length (sc_marshal sc (sm_snapshot m)) = sc_size sc (sm_snapshot m)"
    and "sc_unmarshal sc z (sc_marshal sc (sm_snapshot m)) = Ret (sm_snapshot m)"
  shows "fields_to (metadata_switch sc) (metadata_marshal_to sc m) \<lparr>sm_version = 0, sm_snapshot = z, sm_files = []\<rparr> m"
proof -
  let ?z = "\<lparr>sm_version = 0, sm_snapshot = z, sm_files = []\<rparr>"
  let ?m1 = "?z\<lparr>sm_version := sm_version m\<rparr>" and ?g = "\<lambda>(k, v) m. m\<lparr>sm_files := AList.update k v (sm_files m)\<rparr>"
  have f1: "fields_to (metadata_switch sc) (varint_field 0x08 (sm_version m)) ?z ?m1"
    by (rule fields_to_eq, rule reads_varint_field, rule one_byte_tags, simp add: metadata_switch_def) simp
  have f2: "fields_to (metadata_switch sc)
      (0x12 # encode_varint (of_nat (sc_size sc (sm_snapshot m))) @ sc_marshal sc (sm_snapshot m)) ?m1
      (?m1\<lparr>sm_snapshot := sm_snapshot m\<rparr>)"
    unfolding assms(2) [symmetric]
    by (rule reads_delimited, rule one_byte_tags, simp add: metadata_switch_def) (simp add: assms(3))
  have f3: "fields_to (metadata_switch sc) (concat (map file_entry (sm_files m))) m' (fold ?g (sm_files m) m')" for m'
    by (rule reads_entries, rule fields_to_eq, rule file_entry_reads) (simp add: case_prod_beta)
  have upd: "fold ?g es m' = m'\<lparr>sm_files := fold (\<lambda>(k, v). AList.update k v) es (sm_files m')\<rparr>" for es m'
    by (induction es arbitrary: m') (auto simp: case_prod_beta)
  have "fold ?g (sm_files m) (?m1\<lparr>sm_snapshot := sm_snapshot m\<rparr>) = m"
    unfolding upd using fold_update_entries [of "[]" "sm_files m"] assms(1) by (cases m) simp
  then show ?thesis unfolding metadata_marshal_to_def
    by (metis fields_to_append [OF f1 fields_to_append [OF f2 f3]])
qed

lemma file_entry_length:
  "length (file_entry (k, v)) = file_entry_size k v + 1 + sov (of_nat (file_entry_size k v))"
proof -
  have "length (0x0a # (encode_varint (of_nat (length k)) @ k) @
      0x12 # encode_varint (of_nat (file_desc_size v)) @ file_desc_marshal_to v) = file_entry_size k v"
    by (simp add: file_entry_size_def length_encode_varint file_desc.size_law)
  then show ?thesis by (simp add: file_entry_def) (simp add: length_encode_varint)
qed

lemma metadata_length:
  "length (sc_marshal sc (sm_snapshot m)) = sc_size sc (sm_snapshot m) \<Longrightarrow>
     length (metadata_marshal_to sc m) = metadata_size sc m"
proof -
  have "sum_list (map (length \<circ> file_entry) es) =
      sum_list (map (\<lambda>(k, v). file_entry_size k v + 1 + sov (of_nat (file_entry_size k v))) es)" for es
    by (induction es) (auto simp: file_entry_length)
  then show "length (sc_marshal sc (sm_snapshot m)) = sc_size sc (sm_snapshot m) \<Longrightarrow>
     length (metadata_marshal_to sc m) = metadata_size sc m"
    by (simp add: metadata_marshal_to_def metadata_size_def bytes_field_size_def length_encode_varint length_concat)
qed

section \<open>Properties\<close>

text \<open>
  C28. Requests survive the log: a client request that is marshalled for a proposal is exactly as long
  as announced, and unmarshalling the entry's data gives the same request back, with the session,
  the sequence number and the command; decoding any other bytes gives a request or an error, never
  a panic.
\<close>

theorem normal_request_round_trip:
  assumes "normal_size m < 2 ^ 63"
  shows "\<exists>b. pb_marshal (normal_size m) (normal_marshal_to m) = Ret b \<and> length b = normal_size m \<and>
     normal_unmarshal zero_normal b = Ret m \<and> (\<forall>d. normal_unmarshal zero_normal d \<noteq> Panic)"
  using normal.message_round_trip [OF _ assms] normal.unmarshal_total by (auto simp: normal_unmarshal_def)

definition sample_request :: normal_request where
  "sample_request = \<lparr>nr_context = \<lparr>rc_replyID = 9, rc_sessionID = 300, rc_sequenceNum = 2, rc_lowestSeqNumNotYetReplied = 1\<rparr>,
     nr_register = None, nr_pubAppService = None, nr_stateMachineLog = [1, 2, 3]\<rparr>"

theorem normal_request_round_trip_witness:
  "\<exists>b. pb_marshal (normal_size sample_request) (normal_marshal_to sample_request) = Ret b \<and>
     normal_unmarshal zero_normal b = Ret sample_request"
proof -
  have "context_size (nr_context sample_request) \<le> 44"
    using varint_field_size_le [of 9] varint_field_size_le [of 300] varint_field_size_le [of 2] varint_field_size_le [of 1]
    by (simp add: context_size_def sample_request_def)
  then have "normal_size sample_request < 2 ^ 63"
    using bytes_field_size_le [of "context_size (nr_context sample_request)"] bytes_field_size_le [of "Suc (Suc (Suc 0))"]
    by (simp add: normal_size_def opt_bytes_field_size_def) (simp add: sample_request_def)
  from normal_request_round_trip [OF this] show ?thesis by blast
qed

text \<open>
  The description of a snapshot survives its message, whatever the order in which the map of files
  is written, given a codec for the raft snapshot that reads back what it wrote.
\<close>

theorem snapshot_metadata_round_trip:
  assumes "map_ok (sm_files m)" and "length (sc_marshal sc (sm_snapshot m)) = sc_size sc (sm_snapshot m)"
    and "sc_unmarshal sc z (sc_marshal sc (sm_snapshot m)) = Ret (sm_snapshot m)" and "metadata_size sc m < 2 ^ 63"
  shows "\<exists>b. pb_marshal (metadata_size sc m) (metadata_marshal_to sc m) = Ret b \<and> length b = metadata_size sc m \<and>
     metadata_unmarshal sc \<lparr>sm_version = 0, sm_snapshot = z, sm_files = []\<rparr> b = Ret m"
  using unmarshal_fields [OF metadata_fields [OF assms(1-3)]] metadata_length [OF assms(2)] assms(4)
  by (simp add: pb_marshal_def metadata_unmarshal_def)

definition sample_codec :: "u64 snapshot_codec" where
  "sample_codec = \<lparr>sc_marshal = put_uint64, sc_size = (\<lambda>_. 8), sc_unmarshal = (\<lambda>s b. Ret (get_uint64 b))\<rparr>"

theorem snapshot_metadata_round_trip_witness:
  "\<exists>b. pb_marshal (metadata_size sample_codec \<lparr>sm_version = 1, sm_snapshot = 7, sm_files = [([97], zero_file_desc)]\<rparr>)
          (metadata_marshal_to sample_codec \<lparr>sm_version = 1, sm_snapshot = 7, sm_files = [([97], zero_file_desc)]\<rparr>) = Ret b \<and>
     metadata_unmarshal sample_codec \<lparr>sm_version = 0, sm_snapshot = 0, sm_files = []\<rparr> b =
       Ret \<lparr>sm_version = 1, sm_snapshot = 7, sm_files = [([97], zero_file_desc)]\<rparr>"
proof -
  let ?m = "\<lparr>sm_version = 1, sm_snapshot = 7, sm_files = [([97], zero_file_desc)]\<rparr> :: u64 snapshot_metadata"
  have z: "file_desc_size zero_file_desc = 0"
    by (simp add: file_desc_size_def zero_file_desc_def varint_field_size_def opt_bytes_field_size_def bool_field_size_def)
  have "file_entry_size [97] zero_file_desc \<le> 23"
    using sov_le [of 1] sov_le [of 0] by (simp add: file_entry_size_def z)
  then have "metadata_size sample_codec ?m < 2 ^ 63"
    using varint_field_size_le [of 1] bytes_field_size_le [of 8] sov_le [of "of_nat (file_entry_size [97] zero_file_desc)"]
    by (simp add: metadata_size_def sample_codec_def)
  moreover have "map_ok (sm_files ?m)" by (simp add: map_ok_def)
  moreover have "length (sc_marshal sample_codec (sm_snapshot ?m)) = sc_size sample_codec (sm_snapshot ?m)"
    "sc_unmarshal sample_codec 0 (sc_marshal sample_codec (sm_snapshot ?m)) = Ret (sm_snapshot ?m)"
    by (simp_all add: sample_codec_def)
  ultimately show ?thesis using snapshot_metadata_round_trip [of ?m sample_codec 0] by blast
qed

text \<open>
  A message can crash its reader: the code for the entries of the map of files skips an unknown
  field without checking that the index does not overflow. Twelve bytes are enough to make
  \<^verbatim>\<open>SnapshotMetadata.Unmarshal\<close> panic, although they only announce a field that is too long, an error
  the code reports everywhere else.
\<close>

theorem snapshot_metadata_unmarshal_panics:
  "metadata_unmarshal sc m (0x1a # 0x0a # 0x1a # encode_varint huge_length) = Panic \<and>
   length (0x1a # 0x0a # 0x1a # encode_varint huge_length) = 12"
proof -
  have "metadata_unmarshal sc m (0x1a # 0x0a # 0x1a # encode_varint huge_length) = Panic"
    unfolding metadata_unmarshal_def
    by (rule unmarshal_overflow, rule one_byte_tags, simp add: metadata_switch_def) (simp add: map_entry_overflow)
  then show ?thesis using length_huge by simp
qed

end
