(* ===== verification/Bufio.thy ===== *)
theory Bufio
  imports Babuza_Prelude
begin

text \<open>
  The reader that snapshot files are read through: a \<^verbatim>\<open>bufio.Reader\<close> of the default size over a
  regular file, as \<^verbatim>\<open>CreateDeCompressor\<close> (\<^verbatim>\<open>pkg/snapshot/fs/codec/compressor.go\<close>) makes it. A single
  \<^verbatim>\<open>Read\<close> returns what is left in its buffer, which may be less than asked for; \<^verbatim>\<open>io.ReadFull\<close> loops
  until it has everything. The theory shows that the loop gives what reading the file as a whole
  gives, and how much a single \<^verbatim>\<open>Read\<close> returns.
\<close>

record bufio =
  br_buf :: bytes
  br_rd :: bytes

abbreviation bufioSize :: nat where
  "bufioSize \<equiv> 4096"

definition new_bufio :: "bytes \<Rightarrow> bufio" where
  "new_bufio f = \<lparr>br_buf = [], br_rd = f\<rparr>"

definition bufio_bytes :: "bufio \<Rightarrow> bytes" where
  "bufio_bytes b = br_buf b @ br_rd b"

text \<open>\<^verbatim>\<open>Reader.Read\<close> with a slice of \<^verbatim>\<open>n\<close> bytes: the bytes it returns, or \<^verbatim>\<open>EOF\<close>.\<close>

definition bufio_read :: "nat \<Rightarrow> bufio \<Rightarrow> (io_error, bytes) outcome \<times> bufio" where
  "bufio_read n b =
     (if n = 0 then (Ret [], b)
      else if br_buf b \<noteq> [] then (Ret (take n (br_buf b)), b\<lparr>br_buf := drop n (br_buf b)\<rparr>)
      else if br_rd b = [] then (Fail EOF, b)
      else if bufioSize \<le> n then (Ret (take n (br_rd b)), b\<lparr>br_rd := drop n (br_rd b)\<rparr>)
      else let buf = take bufioSize (br_rd b)
           in (Ret (take n buf), b\<lparr>br_buf := drop n buf, br_rd := drop bufioSize (br_rd b)\<rparr>))"

lemma take_drop_buffer: "n \<le> m \<Longrightarrow> take n xs @ drop n (take m xs) @ drop m xs = xs"
  by (metis append_assoc append_take_drop_id min.absorb1 take_take)

lemma bufio_read_some:
  "bufio_read n b = (Ret d, b') \<Longrightarrow> bufio_bytes b = d @ bufio_bytes b' \<and> length d \<le> n"
  by (auto simp: bufio_read_def bufio_bytes_def Let_def take_drop_buffer split: if_splits)

lemma bufio_read_nonempty: "bufio_read n b = (Ret d, b') \<Longrightarrow> 0 < n \<Longrightarrow> d \<noteq> []"
  by (auto simp: bufio_read_def Let_def split: if_splits)

lemma bufio_read_eof: "bufio_read n b = (Fail e, b') \<Longrightarrow> bufio_bytes b = [] \<and> e = EOF \<and> b' = b"
  by (auto simp: bufio_read_def bufio_bytes_def Let_def split: if_splits)

lemma bufio_read_no_panic: "fst (bufio_read n b) \<noteq> Panic"
  by (simp add: bufio_read_def Let_def)

lemma bufio_read_less:
  assumes "\<not> n \<le> length got" and "(Ret d, b') = bufio_read (n - length got) b"
  shows "n - (length got + length d) < n - length got"
proof -
  have "length d \<noteq> 0" using assms bufio_read_nonempty [of "n - length got" b d b'] by auto
  then show ?thesis using assms(1) by linarith
qed

text \<open>\<^verbatim>\<open>io.ReadFull\<close>: read until \<^verbatim>\<open>n\<close> bytes are there; \<^verbatim>\<open>got\<close> are the bytes read so far.\<close>

function bufio_read_full :: "nat \<Rightarrow> bytes \<Rightarrow> bufio \<Rightarrow> (io_error, bytes) outcome \<times> bufio" where
  "bufio_read_full n got b =
     (if n \<le> length got then (Ret got, b)
      else case bufio_read (n - length got) b of
             (Ret d, b') \<Rightarrow> bufio_read_full n (got @ d) b'
           | (Fail e, b') \<Rightarrow> (if got = [] then (Fail EOF, b') else (Fail UnexpectedEOF, b'))
           | (Panic, b') \<Rightarrow> (Panic, b'))"
  by pat_completeness auto
termination
  by (relation "measure (\<lambda>(n, got, b). n - length got)") (auto simp: bufio_read_less)

declare bufio_read_full.simps [simp del]

lemma bufio_read_full_enough:
  "length got \<le> n \<Longrightarrow> n \<le> length got + length (bufio_bytes b) \<Longrightarrow>
   \<exists>b'. bufio_read_full n got b = (Ret (got @ take (n - length got) (bufio_bytes b)), b') \<and>
        bufio_bytes b' = drop (n - length got) (bufio_bytes b)"
proof (induction n got b rule: bufio_read_full.induct)
  case (1 n got b)
  show ?case
  proof (cases "n \<le> length got")
    case False
    obtain r b' where rd: "bufio_read (n - length got) b = (r, b')" by fastforce
    with False 1(3) obtain d where r: "r = Ret d"
      using bufio_read_no_panic [of "n - length got" b] by (cases r) (auto dest: bufio_read_eof)
    have d: "bufio_bytes b = d @ bufio_bytes b'" "length d \<le> n - length got"
      using bufio_read_some rd r by auto
    have "length (got @ d) \<le> n" "n \<le> length (got @ d) + length (bufio_bytes b')" using d False 1(3) by auto
    from 1(1) [OF False rd [symmetric] r this]
    obtain b'' where "bufio_read_full n (got @ d) b' = (Ret (got @ d @ take (n - length got - length d) (bufio_bytes b')), b'')"
        "bufio_bytes b'' = drop (n - length got - length d) (bufio_bytes b')" by auto
    then show ?thesis using rd r d False by (subst bufio_read_full.simps) simp
  qed (use 1(2) in \<open>simp add: bufio_read_full.simps\<close>)
qed

lemma bufio_read_full_short:
  "length got + length (bufio_bytes b) < n \<Longrightarrow>
   \<exists>b'. bufio_read_full n got b = (Fail (if got = [] \<and> bufio_bytes b = [] then EOF else UnexpectedEOF), b')"
proof (induction n got b rule: bufio_read_full.induct)
  case (1 n got b)
  then have less: "\<not> n \<le> length got" by simp
  obtain r b' where rd: "bufio_read (n - length got) b = (r, b')" by fastforce
  show ?case
  proof (cases r)
    case (Ret d)
    have d: "bufio_bytes b = d @ bufio_bytes b'" "d \<noteq> []"
      using bufio_read_some [of "n - length got" b d b'] bufio_read_nonempty [of "n - length got" b d b'] rd Ret less by auto
    from 1(1) [OF less rd [symmetric] Ret] d 1(2) show ?thesis
      using rd Ret less by (subst bufio_read_full.simps) auto
  next
    case (Fail e)
    then show ?thesis using rd less bufio_read_eof [of "n - length got" b e b']
      by (subst bufio_read_full.simps) auto
  next
    case Panic
    then show ?thesis using bufio_read_no_panic [of "n - length got" b] rd by simp
  qed
qed

text \<open>
  Through the buffer or not, \<^verbatim>\<open>ReadFull\<close> gives the same bytes, leaves the same rest and fails with the
  same error.
\<close>

lemma bufio_read_full_equiv:
  "bind_outcome (fst (bufio_read_full n [] b)) (\<lambda>d. Ret (d, bufio_bytes (snd (bufio_read_full n [] b)))) =
     read_full n (bufio_bytes b)"
  using bufio_read_full_enough [of "[]" n b] bufio_read_full_short [of "[]" b n]
  by (cases "n \<le> length (bufio_bytes b)") (auto simp: read_full_def)

text \<open>\<^verbatim>\<open>FileReadUint64\<close> through the buffer; on an error the value is 0.\<close>

definition bufio_uint64 :: "bufio \<Rightarrow> (io_error, u64) outcome \<times> bufio" where
  "bufio_uint64 b =
     (case bufio_read_full 8 [] b of
        (Ret buf, b') \<Rightarrow> (if length buf \<noteq> 8 then Fail UnexpectedEOF else Ret (get_uint64 buf), b')
      | (Fail e, b') \<Rightarrow> (Fail e, b')
      | (Panic, b') \<Rightarrow> (Panic, b'))"

lemma bufio_uint64_put:
  assumes "bufio_bytes b = put_uint64 v @ r"
  obtains b' where "bufio_uint64 b = (Ret v, b')" and "bufio_bytes b' = r"
  using bufio_read_full_enough [of "[]" 8 b] assms that by (auto simp: bufio_uint64_def)

text \<open>The bytes that are left in the buffer after reads from a file shorter than the buffer or longer.\<close>

definition filled :: "nat \<Rightarrow> bytes \<Rightarrow> bufio" where
  "filled k f = \<lparr>br_buf = drop k (take bufioSize f), br_rd = drop bufioSize f\<rparr>"

lemma bufio_bytes_filled: "k \<le> bufioSize \<Longrightarrow> bufio_bytes (filled k f) = drop k f"
proof -
  assume k: "k \<le> bufioSize"
  have "drop k f = drop k (take bufioSize f @ drop bufioSize f)" by simp
  also have "\<dots> = drop k (take bufioSize f) @ drop bufioSize f"
    using k by (cases "bufioSize \<le> length f") (simp_all only: drop_append, simp_all)
  finally show ?thesis by (simp add: bufio_bytes_def filled_def)
qed

lemma bufio_read_first:
  "f \<noteq> [] \<Longrightarrow> 0 < n \<Longrightarrow> n < bufioSize \<Longrightarrow> bufio_read n (new_bufio f) = (Ret (take n f), filled n f)"
  by (simp add: bufio_read_def new_bufio_def filled_def min_def)

lemma bufio_read_filled:
  "k < min bufioSize (length f) \<Longrightarrow> 0 < n \<Longrightarrow>
   bufio_read n (filled k f) = (Ret (take n (drop k (take bufioSize f))), filled (k + n) f)"
  by (auto simp: bufio_read_def filled_def add.commute)

end
