(* ===== verification/Cluster.thy ===== *)
theory Cluster
  imports Request_Pb Bufio
begin

text \<open>
  The membership of a raft group: \<^verbatim>\<open>pkg/cluster/cluster.go\<close> with its errors, and the message it is
  stored in, \<^verbatim>\<open>Store\<close> of \<^verbatim>\<open>pkg/cluster/pb/cluster.pb.go\<close>. The operations return the error and the
  cluster after the call; the locale \<^verbatim>\<open>membership\<close> is the contract the apply loop relies on. The
  snapshot is read back through the buffered reader of the snapshot files.
\<close>

section \<open>Maps that may be nil\<close>

text \<open>A nil map reads as an empty one; an assignment to it panics.\<close>

fun entries_of :: "'a list option \<Rightarrow> 'a list" where
  "entries_of None = []"
| "entries_of (Some es) = es"

definition make_if_nil :: "'a list option \<Rightarrow> 'a list option" where
  "make_if_nil m = Some (entries_of m)"

fun map_assign :: "'k \<Rightarrow> 'v \<Rightarrow> ('k \<times> 'v) list option \<Rightarrow> ('e, ('k \<times> 'v) list option) outcome" where
  "map_assign k v None = Panic"
| "map_assign k v (Some m) = Ret (Some (AList.update k v m))"

definition go_lookup :: "('k \<times> 'v) list option \<Rightarrow> 'k \<Rightarrow> 'v option" where
  "go_lookup m = map_of (entries_of m)"

lemma go_lookup_simps [simp]:
  "go_lookup None k = None" "go_lookup (Some m) k = map_of m k"
  by (simp_all add: go_lookup_def)

section \<open>The Store message\<close>

record store =
  so_peers :: "(u64 \<times> peer) list option"
  so_removedIds :: "(u64 \<times> bool) list option"

definition zero_store :: store where
  "zero_store = \<lparr>so_peers = None, so_removedIds = None\<rparr>"

definition peer_entry_size :: "u64 \<Rightarrow> peer \<Rightarrow> nat" where
  "peer_entry_size k v = 1 + sov k + (peer_size v + 1 + sov (of_nat (peer_size v)))"

definition peer_entry :: "u64 \<times> peer \<Rightarrow> bytes" where
  "peer_entry e =
     (case e of (k, v) \<Rightarrow>
        0x0a # encode_varint (of_nat (peer_entry_size k v)) @
        (0x08 # encode_varint k @
         0x12 # encode_varint (of_nat (peer_size v)) @ peer_marshal_to v))"

definition removed_entry_size :: "u64 \<Rightarrow> nat" where
  "removed_entry_size k = 1 + sov k + 1 + 1"

definition removed_entry :: "u64 \<times> bool \<Rightarrow> bytes" where
  "removed_entry e =
     (case e of (k, v) \<Rightarrow>
        0x12 # encode_varint (of_nat (removed_entry_size k)) @
        (0x08 # encode_varint k @ 0x10 # [if v then 1 else 0]))"

definition store_marshal_to :: "store \<Rightarrow> bytes" where
  "store_marshal_to s =
     concat (map peer_entry (entries_of (so_peers s))) @ concat (map removed_entry (entries_of (so_removedIds s)))"

definition store_size :: "store \<Rightarrow> nat" where
  "store_size s =
     sum_list (map (\<lambda>(k, v). peer_entry_size k v + 1 + sov (of_nat (peer_entry_size k v))) (entries_of (so_peers s))) +
     sum_list (map (\<lambda>(k, v). removed_entry_size k + 1 + sov (of_nat (removed_entry_size k))) (entries_of (so_removedIds s)))"

definition store_switch :: "u32 \<Rightarrow> store field" where
  "store_switch f =
     (if f = 1 then MapEntry (\<lambda>l stop d m.
             bind_outcome
               (map_entry_loop (VarintPart (\<lambda>v k. k OR v)) (BytesPart (\<lambda>b v. peer_unmarshal zero_peer b))
                  l stop 0 zero_peer d)
               (\<lambda>(k, v). Ret (m\<lparr>so_peers := Some (AList.update k v (entries_of (so_peers m)))\<rparr>)))
      else if f = 2 then MapEntry (\<lambda>l stop d m.
             bind_outcome
               (map_entry_loop (VarintPart (\<lambda>v k. k OR v)) (VarintPart (\<lambda>v _. v \<noteq> 0)) l stop 0 False d)
               (\<lambda>(k, v). Ret (m\<lparr>so_removedIds := Some (AList.update k v (entries_of (so_removedIds m)))\<rparr>)))
      else Unknown)"

definition store_unmarshal :: "store \<Rightarrow> bytes \<Rightarrow> (pb_error, store) outcome" where
  "store_unmarshal = pb_unmarshal store_switch"

lemma peer_entry_reads:
  "fields_to store_switch (peer_entry (k, v)) m (m\<lparr>so_peers := Some (AList.update k v (entries_of (so_peers m)))\<rparr>)"
proof -
  let ?vb = "encode_varint (of_nat (peer_size v)) @ peer_marshal_to v"
  let ?e = "0x08 # encode_varint k @ 0x12 # ?vb"
  have len: "length ?e = peer_entry_size k v"
    by (simp add: peer_entry_size_def length_encode_varint peer.size_law)
  have k: "part_reads (VarintPart (\<lambda>v k. k OR v)) (encode_varint k) 0 k"
    using part_reads_varint [of "\<lambda>v k. k OR v" k 0] by simp
  have v: "part_reads (BytesPart (\<lambda>b v. peer_unmarshal zero_peer b)) ?vb zero_peer v"
    using part_reads_bytes [of "peer_marshal_to v" "\<lambda>b v. peer_unmarshal zero_peer b" zero_peer v]
      peer.unmarshal_enc [of v] by (simp add: peer_unmarshal_def peer.size_law)
  have loop: "map_entry_loop (VarintPart (\<lambda>v k. k OR v)) (BytesPart (\<lambda>b v. peer_unmarshal zero_peer b))
      l (length rest) 0 zero_peer (?e @ rest) = Ret (k, v)" if "l < 2 ^ 63" "length (?e @ rest) \<le> l" for l rest
    using that by (rule map_entry_reads [OF one_byte_tags(1) one_byte_tags(8) k v])
  have "fields_to store_switch (0x0a # encode_varint (of_nat (length ?e)) @ ?e) m
      (m\<lparr>so_peers := Some (AList.update k v (entries_of (so_peers m)))\<rparr>)"
    by (rule reads_map_entry, rule one_byte_tags, simp add: store_switch_def) (simp only: loop bind_outcome.simps prod.case)
  then show ?thesis unfolding len by (simp add: peer_entry_def)
qed

lemma encode_varint_bool: "[if v then 1 else 0] = encode_varint (if v then 1 else 0)"
  by (simp add: encode_varint_one) (subst encode_varint.simps, simp)

lemma sov_bool: "sov (if v then 1 else 0) = 1"
  using arg_cong [OF encode_varint_bool [of v], of length] by (simp only: length_encode_varint) simp

lemma removed_entry_reads:
  "fields_to store_switch (removed_entry (k, v)) m
     (m\<lparr>so_removedIds := Some (AList.update k v (entries_of (so_removedIds m)))\<rparr>)"
proof -
  let ?vb = "encode_varint (if v then 1 else 0)"
  let ?e = "0x08 # encode_varint k @ 0x10 # ?vb"
  have len: "length ?e = removed_entry_size k"
    by (simp add: removed_entry_size_def length_encode_varint sov_bool)
  have k: "part_reads (VarintPart (\<lambda>v k. k OR v)) (encode_varint k) 0 k"
    using part_reads_varint [of "\<lambda>v k. k OR v" k 0] by simp
  have v: "part_reads (VarintPart (\<lambda>v _. v \<noteq> 0)) ?vb False v"
    using part_reads_varint [of "\<lambda>v _. v \<noteq> 0" "if v then 1 else 0" False] by (cases v) simp_all
  have loop: "map_entry_loop (VarintPart (\<lambda>v k. k OR v)) (VarintPart (\<lambda>v _. v \<noteq> 0))
      l (length rest) 0 False (?e @ rest) = Ret (k, v)" if "l < 2 ^ 63" "length (?e @ rest) \<le> l" for l rest
    using that by (rule map_entry_reads [OF one_byte_tags(1) one_byte_tags(2) k v])
  have "fields_to store_switch (0x12 # encode_varint (of_nat (length ?e)) @ ?e) m
      (m\<lparr>so_removedIds := Some (AList.update k v (entries_of (so_removedIds m)))\<rparr>)"
    by (rule reads_map_entry, rule one_byte_tags, simp add: store_switch_def) (simp only: loop bind_outcome.simps prod.case)
  then show ?thesis unfolding len by (simp add: removed_entry_def encode_varint_bool)
qed


lemma fold_peers:
  "fold (\<lambda>(k, v) m. m\<lparr>so_peers := Some (AList.update k v (entries_of (so_peers m)))\<rparr>) es m =
     (if es = [] then m else m\<lparr>so_peers := Some (fold (\<lambda>(k, v). AList.update k v) es (entries_of (so_peers m)))\<rparr>)"
  by (induction es arbitrary: m) (auto simp: case_prod_beta)

lemma fold_removed:
  "fold (\<lambda>(k, v) m. m\<lparr>so_removedIds := Some (AList.update k v (entries_of (so_removedIds m)))\<rparr>) es m =
     (if es = [] then m
      else m\<lparr>so_removedIds := Some (fold (\<lambda>(k, v). AList.update k v) es (entries_of (so_removedIds m)))\<rparr>)"
  by (induction es arbitrary: m) (auto simp: case_prod_beta)

text \<open>What a stored \<^verbatim>\<open>Store\<close> is after reading it back: an empty map comes back as nil.\<close>

definition nil_if_empty :: "'a list option \<Rightarrow> 'a list option" where
  "nil_if_empty m = (if entries_of m = [] then None else m)"

definition store_kept :: "store \<Rightarrow> store" where
  "store_kept s = \<lparr>so_peers = nil_if_empty (so_peers s), so_removedIds = nil_if_empty (so_removedIds s)\<rparr>"

lemma entries_nil_if_empty [simp]: "entries_of (nil_if_empty m) = entries_of m"
  by (cases m) (simp_all add: nil_if_empty_def)

lemma store_fields:
  assumes "map_ok (entries_of (so_peers s))" and "map_ok (entries_of (so_removedIds s))"
  shows "fields_to store_switch (store_marshal_to s) zero_store (store_kept s)"
proof -
  let ?p = "\<lambda>(k, v) m. m\<lparr>so_peers := Some (AList.update k v (entries_of (so_peers m)))\<rparr>"
  let ?r = "\<lambda>(k, v) m. m\<lparr>so_removedIds := Some (AList.update k v (entries_of (so_removedIds m)))\<rparr>"
  let ?P = "entries_of (so_peers s)" and ?R = "entries_of (so_removedIds s)"
  have f1: "fields_to store_switch (concat (map peer_entry ?P)) m (fold ?p ?P m)" for m
    by (rule reads_entries) (auto simp: peer_entry_reads)
  have f2: "fields_to store_switch (concat (map removed_entry ?R)) m (fold ?r ?R m)" for m
    by (rule reads_entries) (auto simp: removed_entry_reads)
  have p: "fold ?p ?P zero_store = zero_store\<lparr>so_peers := nil_if_empty (so_peers s)\<rparr>"
    using fold_update_entries [of "[]" ?P] assms(1)
    by (cases "so_peers s") (simp_all add: fold_peers nil_if_empty_def zero_store_def)
  have r: "fold ?r ?R m = m\<lparr>so_removedIds := nil_if_empty (so_removedIds s)\<rparr>" if "so_removedIds m = None" for m
    using fold_update_entries [of "[]" ?R] assms(2) that
    by (cases "so_removedIds s") (simp_all add: fold_removed nil_if_empty_def)
  have "fold ?r ?R (fold ?p ?P zero_store) = store_kept s"
    unfolding p by (subst r) (simp_all add: zero_store_def store_kept_def)
  with fields_to_append [OF f1 [of zero_store] f2] show ?thesis unfolding store_marshal_to_def by (simp only:)
qed

lemma store_length: "length (store_marshal_to s) = store_size s"
proof -
  have p: "length (peer_entry (k, v)) = peer_entry_size k v + 1 + sov (of_nat (peer_entry_size k v))" for k v
  proof -
    have "length (0x08 # encode_varint k @ 0x12 # encode_varint (of_nat (peer_size v)) @ peer_marshal_to v) =
        peer_entry_size k v"
      by (simp add: peer_entry_size_def length_encode_varint peer.size_law)
    then show ?thesis by (simp add: peer_entry_def) (simp add: length_encode_varint)
  qed
  have r: "length (removed_entry (k, v)) = removed_entry_size k + 1 + sov (of_nat (removed_entry_size k))" for k v
    by (simp add: removed_entry_def length_encode_varint) (simp add: removed_entry_size_def)
  have "sum_list (map (length \<circ> peer_entry) es) =
      sum_list (map (\<lambda>(k, v). peer_entry_size k v + 1 + sov (of_nat (peer_entry_size k v))) es)" for es
    by (induction es) (auto simp: p)
  moreover have "sum_list (map (length \<circ> removed_entry) es) =
      sum_list (map (\<lambda>(k, v). removed_entry_size k + 1 + sov (of_nat (removed_entry_size k))) es)" for es
    by (induction es) (auto simp: r)
  ultimately show ?thesis by (simp add: store_marshal_to_def store_size_def length_concat)
qed

lemma store_round_trip:
  assumes "map_ok (entries_of (so_peers s))" and "map_ok (entries_of (so_removedIds s))" and "store_size s < 2 ^ 63"
  shows "store_unmarshal zero_store (store_marshal_to s) = Ret (store_kept s)"
  unfolding store_unmarshal_def using unmarshal_fields [OF store_fields] assms by (simp add: store_length)

section \<open>The cluster\<close>

datatype cluster_error =
    ErrPeerIDRemoved
  | ErrPeerIDExists
  | ErrPeerIDNotFound
  | ErrPeerNotLearner
  | ErrPeerRaftListenAddrExists
  | ClusterStoreVersion u64
  | ClusterIo io_error
  | ClusterPb pb_error

record cluster =
  cl_clusterID :: u64
  cl_groupID :: u64
  cl_localPeerID :: u64
  cl_store :: store

definition new_cluster :: cluster where
  "new_cluster = \<lparr>cl_clusterID = 0, cl_groupID = 0, cl_localPeerID = 0,
     cl_store = \<lparr>so_peers = Some [], so_removedIds = Some []\<rparr>\<rparr>"

definition storeVersion :: u64 where
  "storeVersion = 1"

abbreviation cl_peers :: "cluster \<Rightarrow> (u64 \<times> peer) list option" where
  "cl_peers c \<equiv> so_peers (cl_store c)"

abbreviation cl_removed :: "cluster \<Rightarrow> (u64 \<times> bool) list option" where
  "cl_removed c \<equiv> so_removedIds (cl_store c)"

definition set_cluster_id :: "u64 \<Rightarrow> cluster \<Rightarrow> cluster" where
  "set_cluster_id v c = c\<lparr>cl_clusterID := v\<rparr>"

definition set_group_id :: "u64 \<Rightarrow> cluster \<Rightarrow> cluster" where
  "set_group_id v c = c\<lparr>cl_groupID := v\<rparr>"

definition set_local_peer_id :: "u64 \<Rightarrow> cluster \<Rightarrow> cluster" where
  "set_local_peer_id v c = c\<lparr>cl_localPeerID := v\<rparr>"

definition cluster_peer :: "u64 \<Rightarrow> cluster \<Rightarrow> (cluster_error, peer) outcome" where
  "cluster_peer peerID c =
     (case go_lookup (cl_peers c) peerID of None \<Rightarrow> Fail ErrPeerIDNotFound | Some p \<Rightarrow> Ret p)"

text \<open>\<^verbatim>\<open>Peers\<close>: the members ordered by their id.\<close>

definition cluster_list :: "cluster \<Rightarrow> peer list" where
  "cluster_list c = sort_key (\<lambda>p. rp_peerID (pe_raftPeerAttr p)) (map snd (entries_of (cl_peers c)))"

text \<open>The assignment \<^verbatim>\<open>c.store.Peers[k] = p\<close> and what it leaves behind.\<close>

definition put_peer :: "u64 \<Rightarrow> peer \<Rightarrow> cluster \<Rightarrow> (cluster_error, unit) outcome \<times> cluster" where
  "put_peer k p c =
     (case map_assign k p (cl_peers c) of
        Ret m \<Rightarrow> (Ret (), c\<lparr>cl_store := (cl_store c)\<lparr>so_peers := m\<rparr>\<rparr>)
      | Fail e \<Rightarrow> (Fail e, c)
      | Panic \<Rightarrow> (Panic, c))"

definition cluster_add :: "raft_peer_attribute \<Rightarrow> cluster \<Rightarrow> (cluster_error, unit) outcome \<times> cluster" where
  "cluster_add peer c =
     (if go_lookup (cl_peers c) (rp_peerID peer) \<noteq> None then (Fail ErrPeerIDExists, c)
      else if go_lookup (cl_removed c) (rp_peerID peer) \<noteq> None then (Fail ErrPeerIDRemoved, c)
      else if \<exists>(k, p)\<in>set (entries_of (cl_peers c)). rp_raftListenAddr (pe_raftPeerAttr p) = rp_raftListenAddr peer
           then (Fail ErrPeerRaftListenAddrExists, c)
      else put_peer (rp_peerID peer) \<lparr>pe_raftPeerAttr = peer, pe_appServiceAddresses = []\<rparr> c)"

definition cluster_update :: "u64 \<Rightarrow> raft_peer_attribute \<Rightarrow> cluster \<Rightarrow> (cluster_error, unit) outcome \<times> cluster" where
  "cluster_update peerID peer c =
     (case go_lookup (cl_peers c) peerID of
        None \<Rightarrow> (Fail ErrPeerIDNotFound, c)
      | Some p \<Rightarrow>
          put_peer (rp_peerID peer)
            (p\<lparr>pe_raftPeerAttr := (pe_raftPeerAttr p)\<lparr>rp_raftListenAddr := rp_raftListenAddr peer,
                 rp_isLearner := rp_isLearner peer, rp_storeID := rp_storeID peer\<rparr>\<rparr>) c)"

definition cluster_update_addresses :: "u64 \<Rightarrow> bytes list \<Rightarrow> cluster \<Rightarrow> (cluster_error, unit) outcome \<times> cluster" where
  "cluster_update_addresses peerID addresses c =
     (case go_lookup (cl_peers c) peerID of
        None \<Rightarrow> (Fail ErrPeerIDNotFound, c)
      | Some p \<Rightarrow> put_peer peerID (p\<lparr>pe_appServiceAddresses := addresses\<rparr>) c)"

definition cluster_remove :: "u64 \<Rightarrow> cluster \<Rightarrow> (cluster_error, unit) outcome \<times> cluster" where
  "cluster_remove peerID c =
     (if go_lookup (cl_peers c) peerID = None then (Fail ErrPeerIDNotFound, c)
      else
        let c1 = c\<lparr>cl_store := (cl_store c)\<lparr>so_peers := map_option (AList.delete peerID) (cl_peers c)\<rparr>\<rparr>
        in case map_assign peerID True (cl_removed c1) of
             Ret m \<Rightarrow> (Ret (), c1\<lparr>cl_store := (cl_store c1)\<lparr>so_removedIds := m\<rparr>\<rparr>)
           | Fail e \<Rightarrow> (Fail e, c1)
           | Panic \<Rightarrow> (Panic, c1))"

definition cluster_promote :: "u64 \<Rightarrow> cluster \<Rightarrow> (cluster_error, unit) outcome \<times> cluster" where
  "cluster_promote peerID c =
     (case go_lookup (cl_peers c) peerID of
        None \<Rightarrow> (Fail ErrPeerIDNotFound, c)
      | Some p \<Rightarrow>
          if \<not> rp_isLearner (pe_raftPeerAttr p) then (Fail ErrPeerNotLearner, c)
          else put_peer peerID (p\<lparr>pe_raftPeerAttr := (pe_raftPeerAttr p)\<lparr>rp_isLearner := False\<rparr>\<rparr>) c)"

section \<open>Snapshot and Restore\<close>

definition cluster_snapshot :: "bytes \<Rightarrow> cluster \<Rightarrow> (unit, bytes) outcome" where
  "cluster_snapshot w c =
     bind_outcome (pb_marshal (store_size (cl_store c)) (store_marshal_to (cl_store c))) (\<lambda>storeData.
       Ret (file_write_uint64
              (file_write_uint64 (file_write_uint64 (file_write_uint64 w storeVersion) (cl_clusterID c)) (cl_groupID c))
              (of_nat (length storeData)) @ storeData))"

text \<open>
  \<^verbatim>\<open>Restore\<close> changes the ids before it knows whether the rest can be read. \<^verbatim>\<open>make\<close> panics on a size
  above \<^verbatim>\<open>2^48\<close>; the slice starts as zeros and one \<^verbatim>\<open>Read\<close> fills a part of it, and when that read
  fails the call returns no error.
\<close>

definition cluster_restore :: "bufio \<Rightarrow> cluster \<Rightarrow> (cluster_error, unit) outcome \<times> cluster" where
  "cluster_restore r c =
     (case bufio_uint64 r of
        (Fail e, _) \<Rightarrow> (Fail (ClusterIo e), c)
      | (Panic, _) \<Rightarrow> (Panic, c)
      | (Ret ver, r1) \<Rightarrow>
     if ver \<noteq> storeVersion then (Fail (ClusterStoreVersion ver), c)
     else case bufio_uint64 r1 of
        (Fail e, _) \<Rightarrow> (Fail (ClusterIo e), c\<lparr>cl_clusterID := 0\<rparr>)
      | (Panic, _) \<Rightarrow> (Panic, c)
      | (Ret clusterID, r2) \<Rightarrow>
     let c1 = c\<lparr>cl_clusterID := clusterID\<rparr>
     in case bufio_uint64 r2 of
        (Fail e, _) \<Rightarrow> (Fail (ClusterIo e), c1)
      | (Panic, _) \<Rightarrow> (Panic, c1)
      | (Ret groupID, r3) \<Rightarrow>
     let c2 = c1\<lparr>cl_groupID := groupID\<rparr>
     in case bufio_uint64 r3 of
        (Fail e, _) \<Rightarrow> (Fail (ClusterIo e), c2)
      | (Panic, _) \<Rightarrow> (Panic, c2)
      | (Ret dataSize, r4) \<Rightarrow>
     if 2 ^ 48 < unat dataSize then (Panic, c2)
     else case bufio_read (unat dataSize) r4 of
        (Fail _, _) \<Rightarrow> (Ret (), c2)
      | (Panic, _) \<Rightarrow> (Panic, c2)
      | (Ret d, _) \<Rightarrow>
     (case store_unmarshal zero_store (d @ replicate (unat dataSize - length d) 0) of
        Fail e \<Rightarrow> (Fail (ClusterPb e), c2)
      | Panic \<Rightarrow> (Panic, c2)
      | Ret s \<Rightarrow>
          (Ret (), c2\<lparr>cl_store :=
             (if length (entries_of (so_removedIds s)) = 0 then s\<lparr>so_removedIds := Some []\<rparr> else s)\<rparr>)))"

text \<open>The first 32 bytes of the file are read into the buffer together with what follows them.\<close>

lemma bufio_uint64_first:
  "f = put_uint64 v @ r \<Longrightarrow> bufio_uint64 (new_bufio f) = (Ret v, filled 8 f)"
proof -
  assume f: "f = put_uint64 v @ r"
  then have "bufio_read 8 (new_bufio f) = (Ret (take 8 f), filled 8 f)"
    by (intro bufio_read_first) (auto simp: put_uint64_def)
  then have "bufio_read_full 8 [] (new_bufio f) = (Ret (take 8 f), filled 8 f)"
    using f by (subst bufio_read_full.simps, simp) (subst bufio_read_full.simps, simp)
  then show ?thesis using f by (simp add: bufio_uint64_def)
qed

lemma bufio_uint64_next:
  assumes "drop k f = put_uint64 v @ r" and "k + 8 \<le> bufioSize"
  shows "bufio_uint64 (filled k f) = (Ret v, filled (k + 8) f)"
proof -
  have len: "k + 8 \<le> length f" using arg_cong [OF assms(1), of length] by simp
  have "take 8 (drop k (take bufioSize f)) = take 8 (drop k f)"
    using assms(2) by (simp add: drop_take min_def)
  then have d: "take 8 (drop k (take bufioSize f)) = put_uint64 v" using assms(1) by simp
  have "bufio_read 8 (filled k f) = (Ret (put_uint64 v), filled (k + 8) f)"
    using bufio_read_filled [of k f 8] assms(2) len d by simp
  then have "bufio_read_full 8 [] (filled k f) = (Ret (put_uint64 v), filled (k + 8) f)"
    by (subst bufio_read_full.simps, simp) (subst bufio_read_full.simps, simp)
  then show ?thesis by (simp add: bufio_uint64_def)
qed

text \<open>
  The room for the store in the buffer of the reader, after the four integers in front of it, and
  what \<^verbatim>\<open>Restore\<close> makes of a snapshot: it decodes the bytes that were in the buffer, and zeros for the
  others.
\<close>

definition store_room :: nat where
  "store_room = bufioSize - 32"

definition after_restore :: "cluster \<Rightarrow> cluster \<Rightarrow> store \<Rightarrow> cluster" where
  "after_restore c0 c s =
     c0\<lparr>cl_clusterID := cl_clusterID c, cl_groupID := cl_groupID c,
        cl_store := s\<lparr>so_removedIds := make_if_nil (so_removedIds s)\<rparr>\<rparr>"

lemma cluster_restore_snapshot:
  assumes "cluster_snapshot [] c = Ret f" and "store_size (cl_store c) \<le> 2 ^ 48"
    and "store_marshal_to (cl_store c) \<noteq> []"
    and "store_unmarshal zero_store (take store_room (store_marshal_to (cl_store c)) @
           replicate (store_size (cl_store c) - store_room) 0) = Ret s"
  shows "cluster_restore (new_bufio f) c0 = (Ret (), after_restore c0 c s)"
proof -
  let ?d = "store_marshal_to (cl_store c)"
  have f: "f = put_uint64 storeVersion @ put_uint64 (cl_clusterID c) @ put_uint64 (cl_groupID c) @
      put_uint64 (of_nat (length ?d)) @ ?d"
    using assms(1) by (simp add: cluster_snapshot_def pb_marshal_def store_length file_write_uint64_def)
  have n: "unat (of_nat (store_size (cl_store c)) :: u64) = store_size (cl_store c)"
    using assms(2) by (simp add: store_length unat_of_nat take_bit_nat_eq_self_iff)
  have rest: "drop 32 f = ?d" "drop 8 f = put_uint64 (cl_clusterID c) @ put_uint64 (cl_groupID c) @
      put_uint64 (of_nat (length ?d)) @ ?d" "drop 16 f = put_uint64 (cl_groupID c) @ put_uint64 (of_nat (length ?d)) @ ?d"
      "drop 24 f = put_uint64 (of_nat (length ?d)) @ ?d"
    by (simp_all add: f)
  have u: "bufio_uint64 (new_bufio f) = (Ret storeVersion, filled 8 f)"
      "bufio_uint64 (filled 8 f) = (Ret (cl_clusterID c), filled 16 f)"
      "bufio_uint64 (filled 16 f) = (Ret (cl_groupID c), filled 24 f)"
      "bufio_uint64 (filled 24 f) = (Ret (of_nat (length ?d)), filled 32 f)"
    using bufio_uint64_first [OF f] bufio_uint64_next [OF rest(2)] bufio_uint64_next [OF rest(3)]
      bufio_uint64_next [OF rest(4)] by simp_all
  have "length f = 32 + length ?d" by (simp add: f)
  then have "bufio_read (length ?d) (filled 32 f) = (Ret (take store_room ?d), filled (32 + length ?d) f)"
    using bufio_read_filled [of 32 f "length ?d"] assms(3) rest(1)
    by (simp add: store_room_def drop_take min_def)
  moreover have "i - min i j = i - (j :: nat)" for i j by simp
  ultimately show ?thesis
    using u assms(2,4) by (cases s; cases "so_removedIds s")
      (simp_all add: cluster_restore_def Let_def n store_length after_restore_def make_if_nil_def)
qed


section \<open>The contract of a membership\<close>

text \<open>\<^verbatim>\<open>AppliedCluster\<close> of \<^verbatim>\<open>raft/applied_facade.go\<close>: what the apply loop calls.\<close>

record 'c applied_cluster =
  ac_groupID :: "'c \<Rightarrow> u64"
  ac_localPeerID :: "'c \<Rightarrow> u64"
  ac_peer :: "u64 \<Rightarrow> 'c \<Rightarrow> (cluster_error, peer) outcome"
  ac_add :: "raft_peer_attribute \<Rightarrow> 'c \<Rightarrow> (cluster_error, unit) outcome \<times> 'c"
  ac_update :: "u64 \<Rightarrow> raft_peer_attribute \<Rightarrow> 'c \<Rightarrow> (cluster_error, unit) outcome \<times> 'c"
  ac_remove :: "u64 \<Rightarrow> 'c \<Rightarrow> (cluster_error, unit) outcome \<times> 'c"
  ac_promote :: "u64 \<Rightarrow> 'c \<Rightarrow> (cluster_error, unit) outcome \<times> 'c"
  ac_update_addresses :: "u64 \<Rightarrow> bytes list \<Rightarrow> 'c \<Rightarrow> (cluster_error, unit) outcome \<times> 'c"

definition cluster_applied :: "cluster applied_cluster" where
  "cluster_applied =
     \<lparr>ac_groupID = cl_groupID, ac_localPeerID = cl_localPeerID, ac_peer = cluster_peer, ac_add = cluster_add,
      ac_update = cluster_update, ac_remove = cluster_remove, ac_promote = cluster_promote,
      ac_update_addresses = cluster_update_addresses\<rparr>"

text \<open>
  A membership never hands out an id twice: \<^verbatim>\<open>gone\<close> are the ids that were removed, and an id is a
  member under its own number or not at all.
\<close>

locale membership =
  fixes ac :: "'c applied_cluster"
    and ok :: "'c \<Rightarrow> bool"
    and gone :: "'c \<Rightarrow> u64 set"
  assumes peer_law: "ok c \<Longrightarrow> ac_peer ac k c = Ret p \<Longrightarrow> rp_peerID (pe_raftPeerAttr p) = k \<and> k \<notin> gone c"
    and failed:
      "fst (ac_add ac a c) \<noteq> Ret () \<Longrightarrow> snd (ac_add ac a c) = c"
      "fst (ac_update ac k a c) \<noteq> Ret () \<Longrightarrow> snd (ac_update ac k a c) = c"
      "ok c \<Longrightarrow> fst (ac_remove ac k c) \<noteq> Ret () \<Longrightarrow> snd (ac_remove ac k c) = c"
      "fst (ac_promote ac k c) \<noteq> Ret () \<Longrightarrow> snd (ac_promote ac k c) = c"
      "fst (ac_update_addresses ac k as c) \<noteq> Ret () \<Longrightarrow> snd (ac_update_addresses ac k as c) = c"
    and add_law: "ok c \<Longrightarrow> ac_add ac a c = (Ret (), c') \<Longrightarrow>
      ok c' \<and> gone c' = gone c \<and> rp_peerID a \<notin> gone c \<and> ac_peer ac (rp_peerID a) c = Fail ErrPeerIDNotFound \<and>
      ac_peer ac k c' = (if k = rp_peerID a then Ret \<lparr>pe_raftPeerAttr = a, pe_appServiceAddresses = []\<rparr> else ac_peer ac k c)"
    and update_law: "ok c \<Longrightarrow> ac_update ac (rp_peerID a) a c = (Ret (), c') \<Longrightarrow>
      ok c' \<and> gone c' = gone c \<and> (\<exists>p. ac_peer ac (rp_peerID a) c = Ret p \<and>
        ac_peer ac k c' = (if k = rp_peerID a then Ret (p\<lparr>pe_raftPeerAttr := a\<rparr>) else ac_peer ac k c))"
    and remove_law: "ok c \<Longrightarrow> ac_remove ac j c = (Ret (), c') \<Longrightarrow>
      ok c' \<and> gone c' = insert j (gone c) \<and>
      ac_peer ac k c' = (if k = j then Fail ErrPeerIDNotFound else ac_peer ac k c)"
    and promote_law: "ok c \<Longrightarrow> ac_promote ac j c = (Ret (), c') \<Longrightarrow>
      ok c' \<and> gone c' = gone c \<and> (\<exists>p. ac_peer ac j c = Ret p \<and> rp_isLearner (pe_raftPeerAttr p) \<and>
        ac_peer ac k c' = (if k = j then Ret (p\<lparr>pe_raftPeerAttr := (pe_raftPeerAttr p)\<lparr>rp_isLearner := False\<rparr>\<rparr>)
                           else ac_peer ac k c))"
    and addresses_law: "ok c \<Longrightarrow> ac_update_addresses ac j as c = (Ret (), c') \<Longrightarrow>
      ok c' \<and> gone c' = gone c \<and> (\<exists>p. ac_peer ac j c = Ret p \<and>
        ac_peer ac k c' = (if k = j then Ret (p\<lparr>pe_appServiceAddresses := as\<rparr>) else ac_peer ac k c))"

section \<open>The cluster keeps the contract\<close>

definition cluster_ok :: "cluster \<Rightarrow> bool" where
  "cluster_ok c \<longleftrightarrow>
     map_ok (entries_of (cl_peers c)) \<and> map_ok (entries_of (cl_removed c)) \<and> cl_removed c \<noteq> None \<and>
     (\<forall>k p. go_lookup (cl_peers c) k = Some p \<longrightarrow>
        rp_peerID (pe_raftPeerAttr p) = k \<and> go_lookup (cl_removed c) k = None)"

definition cluster_gone :: "cluster \<Rightarrow> u64 set" where
  "cluster_gone c = {k. go_lookup (cl_removed c) k \<noteq> None}"

lemma new_cluster_ok: "cluster_ok new_cluster"
  by (simp add: cluster_ok_def new_cluster_def)

lemma new_cluster_gone: "cluster_gone new_cluster = {}"
  by (simp add: cluster_gone_def new_cluster_def)

lemma put_peer_failed: "fst (put_peer k p c) \<noteq> Ret () \<Longrightarrow> snd (put_peer k p c) = c"
  by (cases "cl_peers c") (simp_all add: put_peer_def)

lemma put_peer_Ret:
  "put_peer k p c = (Ret (), c') \<Longrightarrow>
   \<exists>m. cl_peers c = Some m \<and> c' = c\<lparr>cl_store := (cl_store c)\<lparr>so_peers := Some (AList.update k p m)\<rparr>\<rparr>"
  by (cases "cl_peers c") (auto simp: put_peer_def)

lemma put_peer_law:
  assumes "cluster_ok c" and "put_peer k p c = (Ret (), c')"
    and "rp_peerID (pe_raftPeerAttr p) = k" and "k \<notin> cluster_gone c"
  shows "cluster_ok c'" and "cluster_gone c' = cluster_gone c"
    and "cluster_peer j c' = (if j = k then Ret p else cluster_peer j c)"
  using put_peer_Ret [OF assms(2)] assms(1,3,4) by (auto simp: cluster_ok_def cluster_gone_def cluster_peer_def split: if_splits)

lemma cluster_peer_Ret: "cluster_peer k c = Ret p \<longleftrightarrow> go_lookup (cl_peers c) k = Some p"
  by (simp add: cluster_peer_def split: option.splits)

lemma cluster_ok_peer:
  "cluster_ok c \<Longrightarrow> go_lookup (cl_peers c) k = Some p \<Longrightarrow> rp_peerID (pe_raftPeerAttr p) = k \<and> k \<notin> cluster_gone c"
  by (simp add: cluster_ok_def cluster_gone_def)

lemma cluster_remove_law:
  assumes "cluster_ok c" and "cluster_remove j c = (Ret (), c')"
  shows "cluster_ok c' \<and> cluster_gone c' = insert j (cluster_gone c) \<and>
    cluster_peer k c' = (if k = j then Fail ErrPeerIDNotFound else cluster_peer k c)"
proof -
  obtain ps rs where m: "cl_peers c = Some ps" "cl_removed c = Some rs" "map_of ps j \<noteq> None"
    using assms by (cases "cl_peers c"; cases "cl_removed c") (auto simp: cluster_remove_def cluster_ok_def split: if_splits)
  then have c': "c' = c\<lparr>cl_store := \<lparr>so_peers = Some (AList.delete j ps), so_removedIds = Some (AList.update j True rs)\<rparr>\<rparr>"
    using assms(2) by (cases "cl_store c") (auto simp: cluster_remove_def Let_def)
  have "cluster_ok c'" using assms(1) m by (auto simp: c' cluster_ok_def split: if_splits)
  moreover have "cluster_gone c' = insert j (cluster_gone c)" using m by (auto simp: c' cluster_gone_def)
  moreover have "cluster_peer k c' = (if k = j then Fail ErrPeerIDNotFound else cluster_peer k c)"
    using m by (auto simp: c' cluster_peer_def)
  ultimately show ?thesis by blast
qed

lemma cluster_remove_failed:
  "cluster_ok c \<Longrightarrow> fst (cluster_remove k c) \<noteq> Ret () \<Longrightarrow> snd (cluster_remove k c) = c"
  by (cases "cl_removed c") (auto simp: cluster_remove_def cluster_ok_def Let_def)

lemma cluster_failed:
  "fst (cluster_add a c) \<noteq> Ret () \<Longrightarrow> snd (cluster_add a c) = c"
  "fst (cluster_update k a c) \<noteq> Ret () \<Longrightarrow> snd (cluster_update k a c) = c"
  "fst (cluster_promote k c) \<noteq> Ret () \<Longrightarrow> snd (cluster_promote k c) = c"
  "fst (cluster_update_addresses k as c) \<noteq> Ret () \<Longrightarrow> snd (cluster_update_addresses k as c) = c"
  using put_peer_failed
  by (auto simp: cluster_add_def cluster_update_def cluster_promote_def cluster_update_addresses_def
      split: if_splits option.splits)

lemma cluster_add_law:
  assumes "cluster_ok c" and "cluster_add a c = (Ret (), c')"
  shows "cluster_ok c' \<and> cluster_gone c' = cluster_gone c \<and> rp_peerID a \<notin> cluster_gone c \<and>
    cluster_peer (rp_peerID a) c = Fail ErrPeerIDNotFound \<and>
    cluster_peer k c' = (if k = rp_peerID a then Ret \<lparr>pe_raftPeerAttr = a, pe_appServiceAddresses = []\<rparr> else cluster_peer k c)"
proof -
  let ?p = "\<lparr>pe_raftPeerAttr = a, pe_appServiceAddresses = []\<rparr>"
  have put: "put_peer (rp_peerID a) ?p c = (Ret (), c')" "go_lookup (cl_peers c) (rp_peerID a) = None"
      "rp_peerID a \<notin> cluster_gone c"
    using assms(2) by (auto simp: cluster_add_def cluster_gone_def split: if_splits)
  show ?thesis using put_peer_law [OF assms(1) put(1) _ put(3)] put by (simp add: cluster_peer_def)
qed

lemma cluster_update_law:
  assumes "cluster_ok c" and "cluster_update (rp_peerID a) a c = (Ret (), c')"
  shows "cluster_ok c' \<and> cluster_gone c' = cluster_gone c \<and> (\<exists>p. cluster_peer (rp_peerID a) c = Ret p \<and>
    cluster_peer k c' = (if k = rp_peerID a then Ret (p\<lparr>pe_raftPeerAttr := a\<rparr>) else cluster_peer k c))"
proof -
  obtain p where p: "go_lookup (cl_peers c) (rp_peerID a) = Some p"
    using assms(2) by (auto simp: cluster_update_def split: option.splits)
  note id = cluster_ok_peer [OF assms(1) p]
  have "(pe_raftPeerAttr p)\<lparr>rp_raftListenAddr := rp_raftListenAddr a, rp_isLearner := rp_isLearner a,
      rp_storeID := rp_storeID a\<rparr> = a"
    using id by (cases a; cases "pe_raftPeerAttr p") simp
  then have put: "put_peer (rp_peerID a) (p\<lparr>pe_raftPeerAttr := a\<rparr>) c = (Ret (), c')"
    using assms(2) p by (simp add: cluster_update_def)
  show ?thesis using put_peer_law [OF assms(1) put] p id by (simp add: cluster_peer_Ret)
qed

lemma cluster_promote_law:
  assumes "cluster_ok c" and "cluster_promote j c = (Ret (), c')"
  shows "cluster_ok c' \<and> cluster_gone c' = cluster_gone c \<and> (\<exists>p. cluster_peer j c = Ret p \<and>
    rp_isLearner (pe_raftPeerAttr p) \<and>
    cluster_peer k c' = (if k = j then Ret (p\<lparr>pe_raftPeerAttr := (pe_raftPeerAttr p)\<lparr>rp_isLearner := False\<rparr>\<rparr>)
                         else cluster_peer k c))"
proof -
  obtain p where p: "go_lookup (cl_peers c) j = Some p" "rp_isLearner (pe_raftPeerAttr p)"
      "put_peer j (p\<lparr>pe_raftPeerAttr := (pe_raftPeerAttr p)\<lparr>rp_isLearner := False\<rparr>\<rparr>) c = (Ret (), c')"
    using assms(2) by (auto simp: cluster_promote_def split: option.splits if_splits)
  then show ?thesis
    using put_peer_law [OF assms(1) p(3)] cluster_ok_peer [OF assms(1) p(1)] by (simp add: cluster_peer_Ret)
qed

lemma cluster_addresses_law:
  assumes "cluster_ok c" and "cluster_update_addresses j as c = (Ret (), c')"
  shows "cluster_ok c' \<and> cluster_gone c' = cluster_gone c \<and> (\<exists>p. cluster_peer j c = Ret p \<and>
    cluster_peer k c' = (if k = j then Ret (p\<lparr>pe_appServiceAddresses := as\<rparr>) else cluster_peer k c))"
proof -
  obtain p where p: "go_lookup (cl_peers c) j = Some p" "put_peer j (p\<lparr>pe_appServiceAddresses := as\<rparr>) c = (Ret (), c')"
    using assms(2) by (auto simp: cluster_update_addresses_def split: option.splits)
  then show ?thesis
    using put_peer_law [OF assms(1) p(2)] cluster_ok_peer [OF assms(1) p(1)] by (simp add: cluster_peer_Ret)
qed

interpretation members: membership cluster_applied cluster_ok cluster_gone
proof (unfold_locales, unfold cluster_applied_def applied_cluster.select_convs)
  fix c k p
  show "cluster_ok c \<Longrightarrow> cluster_peer k c = Ret p \<Longrightarrow> rp_peerID (pe_raftPeerAttr p) = k \<and> k \<notin> cluster_gone c"
    using cluster_ok_peer by (simp add: cluster_peer_Ret)
qed (rule cluster_failed cluster_remove_failed cluster_add_law cluster_update_law cluster_remove_law cluster_promote_law
    cluster_addresses_law; assumption)+


section \<open>Reading a snapshot back\<close>

lemma peer_entry_not_empty: "peer_entry e \<noteq> []"
  by (cases e) (simp add: peer_entry_def)

lemma store_bytes_not_empty: "entries_of (so_peers s) \<noteq> [] \<Longrightarrow> store_marshal_to s \<noteq> []"
  by (cases "entries_of (so_peers s)") (simp_all add: store_marshal_to_def peer_entry_not_empty)

lemma cluster_snapshot_returns: "\<exists>f. cluster_snapshot w c = Ret f"
  by (simp add: cluster_snapshot_def pb_marshal_def store_length)

text \<open>
  C20. The membership survives a snapshot: \<^verbatim>\<open>Restore\<close> of what \<^verbatim>\<open>Snapshot\<close> wrote, through the buffered reader
  of the snapshot files, gives back the ids of the cluster and of the group, the members with their
  addresses and the removed ids, for every order in which the maps are written, as long as the
  store fits into what is left of the reader's buffer.
\<close>

theorem cluster_snapshot_round_trip:
  assumes "cluster_ok c" and "entries_of (cl_peers c) \<noteq> []" and "store_size (cl_store c) \<le> store_room"
  shows "\<exists>f. cluster_snapshot [] c = Ret f \<and>
    cluster_restore (new_bufio f) c0 =
      (Ret (), c0\<lparr>cl_clusterID := cl_clusterID c, cl_groupID := cl_groupID c, cl_store := cl_store c\<rparr>)"
proof -
  obtain f where f: "cluster_snapshot [] c = Ret f" using cluster_snapshot_returns by blast
  have size: "store_size (cl_store c) \<le> 2 ^ 48" using assms(3) by (simp add: store_room_def)
  have "store_unmarshal zero_store (store_marshal_to (cl_store c)) = Ret (store_kept (cl_store c))"
    using store_round_trip [of "cl_store c"] assms(1) size by (simp add: cluster_ok_def)
  then have "cluster_restore (new_bufio f) c0 = (Ret (), after_restore c0 c (store_kept (cl_store c)))"
    using cluster_restore_snapshot [OF f size store_bytes_not_empty, of "store_kept (cl_store c)" c0] assms(2,3)
    by (simp add: store_length)
  moreover have "after_restore c0 c (store_kept (cl_store c)) =
      c0\<lparr>cl_clusterID := cl_clusterID c, cl_groupID := cl_groupID c, cl_store := cl_store c\<rparr>"
    using assms(1,2) by (cases "cl_store c"; cases "cl_removed c")
      (auto simp: after_restore_def store_kept_def make_if_nil_def nil_if_empty_def cluster_ok_def)
  ultimately show ?thesis using f by simp
qed

definition sample_peer :: peer where
  "sample_peer = \<lparr>pe_raftPeerAttr = \<lparr>rp_peerID = 1, rp_raftListenAddr = [104, 58, 49], rp_isLearner = False, rp_storeID = 0\<rparr>,
     pe_appServiceAddresses = []\<rparr>"

definition sample_cluster :: cluster where
  "sample_cluster = \<lparr>cl_clusterID = 7, cl_groupID = 9, cl_localPeerID = 1,
     cl_store = \<lparr>so_peers = Some [(1, sample_peer)], so_removedIds = Some []\<rparr>\<rparr>"

lemma sample_cluster_ok: "cluster_ok sample_cluster"
  by (simp add: cluster_ok_def sample_cluster_def sample_peer_def)

lemma sample_attr_size: "attr_size (pe_raftPeerAttr sample_peer) \<le> 25"
  using varint_field_size_le [of 1] bytes_field_size_le [of "Suc (Suc (Suc 0))"]
  by (simp add: attr_size_def sample_peer_def opt_bytes_field_size_def bool_field_size_def varint_field_size_def)

theorem cluster_snapshot_round_trip_witness:
  "\<exists>f. cluster_snapshot [] sample_cluster = Ret f \<and>
     cluster_restore (new_bufio f) new_cluster = (Ret (), sample_cluster\<lparr>cl_localPeerID := 0\<rparr>)"
proof -
  have "peer_size sample_peer \<le> 36"
    using sample_attr_size bytes_field_size_le [of "attr_size (pe_raftPeerAttr sample_peer)"]
    by (simp add: peer_size_def) (simp add: sample_peer_def repeated_field_size_def)
  then have "peer_entry_size 1 sample_peer \<le> 58"
    using sov_le [of 1] sov_le [of "of_nat (peer_size sample_peer)"] by (simp add: peer_entry_size_def)
  then have "store_size (cl_store sample_cluster) \<le> store_room"
    using sov_le [of "of_nat (peer_entry_size 1 sample_peer)"]
    by (simp add: store_size_def sample_cluster_def store_room_def)
  then show ?thesis
    using cluster_snapshot_round_trip [OF sample_cluster_ok, of new_cluster]
    by (auto simp: sample_cluster_def new_cluster_def)
qed

text \<open>The bytes of a store end with the last address of the last member.\<close>

definition with_last_address :: "cluster \<Rightarrow> bytes \<Rightarrow> cluster" where
  "with_last_address c a =
     c\<lparr>cl_store := (cl_store c)\<lparr>so_peers := map_option (\<lambda>ps. butlast ps @
        [(fst (last ps), (snd (last ps))\<lparr>pe_appServiceAddresses :=
            butlast (pe_appServiceAddresses (snd (last ps))) @ [a]\<rparr>)]) (cl_peers c)\<rparr>\<rparr>"

lemma store_bytes_last_address:
  assumes "cl_peers c = Some (ps @ [(k, p)])" and "cl_removed c = Some []"
  shows "\<exists>pre. \<forall>b. length b = n \<longrightarrow> store_marshal_to (cl_store (with_last_address c b)) = pre @ b"
proof -
  let ?as = "butlast (pe_appServiceAddresses p)"
  define q where "q b = p\<lparr>pe_appServiceAddresses := ?as @ [b]\<rparr>" for b
  have size: "peer_size (q b) = peer_size (q (replicate n 0))" if "length b = n" for b
    using that by (simp add: q_def peer_size_def repeated_field_size_def)
  let ?e = "peer_size (q (replicate n 0))"
  let ?pre = "0x0a # encode_varint (of_nat (1 + sov k + (?e + 1 + sov (of_nat ?e)))) @ 0x08 # encode_varint k @
     0x12 # encode_varint (of_nat ?e) @ (0x0a # encode_varint (of_nat (attr_size (pe_raftPeerAttr p))) @
     attr_marshal_to (pe_raftPeerAttr p)) @ repeated_field 0x12 ?as @ 0x12 # encode_varint (of_nat n)"
  have "peer_entry (k, q b) = ?pre @ b" if "length b = n" for b
    using size [OF that] that
    by (simp add: peer_entry_def peer_entry_size_def) (simp add: q_def peer_marshal_to_def repeated_field_def bytes_field_def)
  then show ?thesis
    using assms by (intro exI [of _ "concat (map peer_entry ps) @ ?pre"])
      (auto simp: with_last_address_def store_marshal_to_def q_def)
qed


lemma with_last_address_ok:
  assumes "cluster_ok c" and "cl_peers c = Some (ps @ [(k, p)])"
  shows "map_ok (entries_of (cl_peers (with_last_address c b)))"
  using assms by (simp add: with_last_address_def cluster_ok_def map_ok_def)

text \<open>
  A membership that is too large is restored wrongly, without an error: \<^verbatim>\<open>Restore\<close> reads the store with
  a single \<^verbatim>\<open>Read\<close>, which returns only what is left in the reader's buffer, 4064 bytes. When the rest
  is the tail of the last address, \<^verbatim>\<open>Restore\<close> returns nil and the address of that member ends in
  zeros.
\<close>

theorem cluster_restore_zeroes_long_store:
  assumes "cluster_ok c" and "cl_peers c = Some (ps @ [(k, p)])" and "cl_removed c = Some []"
    and "pe_appServiceAddresses p = as @ [a]" and "store_room < store_size (cl_store c)"
    and "store_size (cl_store c) \<le> store_room + length a" and "store_size (cl_store c) \<le> 2 ^ 48"
  shows "\<exists>f c'. cluster_snapshot [] c = Ret f \<and> cluster_restore (new_bufio f) c0 = (Ret (), c') \<and>
    cluster_peer k c' = Ret (p\<lparr>pe_appServiceAddresses := as @
      [take (store_room + length a - store_size (cl_store c)) a @ replicate (store_size (cl_store c) - store_room) 0]\<rparr>)"
proof -
  let ?n = "store_size (cl_store c)"
  let ?a = "take (store_room + length a - ?n) a @ replicate (?n - store_room) 0"
  let ?c = "with_last_address c ?a"
  obtain f where f: "cluster_snapshot [] c = Ret f" using cluster_snapshot_returns by blast
  have c: "with_last_address c a = c"
    using assms(2,4) by (cases c; cases "cl_store c"; cases p) (simp add: with_last_address_def)
  have la: "length ?a = length a" using assms(5,6) by simp
  obtain pre where pre: "\<And>b. length b = length a \<Longrightarrow> store_marshal_to (cl_store (with_last_address c b)) = pre @ b"
    using store_bytes_last_address [OF assms(2,3)] by blast
  have d: "store_marshal_to (cl_store c) = pre @ a" "store_marshal_to (cl_store ?c) = pre @ ?a"
    using pre [of a] pre [OF la] c by simp_all
  have n: "?n = length pre + length a" using d(1) store_length [of "cl_store c"] by simp
  have "take store_room (store_marshal_to (cl_store c)) @ replicate (?n - store_room) 0 = store_marshal_to (cl_store ?c)"
    using assms(6) unfolding d by (simp add: n)
  moreover have "store_unmarshal zero_store (store_marshal_to (cl_store ?c)) = Ret (store_kept (cl_store ?c))"
  proof (rule store_round_trip)
    show "store_size (cl_store ?c) < 2 ^ 63"
      using arg_cong [OF d(2), of length] la n assms(7) by (simp add: store_length)
  qed (use with_last_address_ok [OF assms(1,2)] assms(1,3) in \<open>simp_all add: with_last_address_def\<close>)
  moreover have "store_marshal_to (cl_store c) \<noteq> []" by (rule store_bytes_not_empty) (simp add: assms(2))
  ultimately have r: "cluster_restore (new_bufio f) c0 = (Ret (), after_restore c0 c (store_kept (cl_store ?c)))"
    using cluster_restore_snapshot [OF f assms(7)] by simp
  have "map_of ps k = None" using assms(1,2) by (auto simp: cluster_ok_def map_ok_def map_of_eq_None_iff)
  then have "cluster_peer k (after_restore c0 c (store_kept (cl_store ?c))) =
      Ret (p\<lparr>pe_appServiceAddresses := as @ [?a]\<rparr>)"
    using assms(2,4) by (simp add: cluster_peer_def after_restore_def store_kept_def nil_if_empty_def with_last_address_def
        map_add_def)
  with f r show ?thesis by blast
qed

definition long_cluster :: cluster where
  "long_cluster = \<lparr>cl_clusterID = 7, cl_groupID = 9, cl_localPeerID = 1,
     cl_store = \<lparr>so_peers = Some [(1, sample_peer\<lparr>pe_appServiceAddresses := [replicate 4200 97]\<rparr>)], so_removedIds = Some []\<rparr>\<rparr>"

lemma long_cluster_size: "4200 \<le> store_size (cl_store long_cluster) \<and> store_size (cl_store long_cluster) \<le> 4300"
proof -
  let ?p = "sample_peer\<lparr>pe_appServiceAddresses := [replicate 4200 97]\<rparr>"
  have p: "4200 \<le> peer_size ?p" "peer_size ?p \<le> 4250"
    using sample_attr_size bytes_field_size_le [of "attr_size (pe_raftPeerAttr sample_peer)"] sov_le [of 4200]
    by (simp_all add: peer_size_def repeated_field_size_def bytes_field_size_def)
  then have "4200 \<le> peer_entry_size 1 ?p" "peer_entry_size 1 ?p \<le> 4275"
    using sov_le [of 1] sov_le [of "of_nat (peer_size ?p)"] by (simp_all add: peer_entry_size_def)
  then show ?thesis
    using sov_le [of "of_nat (peer_entry_size 1 ?p)"] by (simp add: store_size_def long_cluster_def)
qed

theorem cluster_restore_zeroes_long_store_witness:
  "\<exists>f c' p. cluster_snapshot [] long_cluster = Ret f \<and> cluster_restore (new_bufio f) new_cluster = (Ret (), c') \<and>
     cluster_peer 1 c' = Ret p \<and> last (hd (pe_appServiceAddresses p)) = 0"
proof -
  let ?p = "sample_peer\<lparr>pe_appServiceAddresses := [replicate 4200 97]\<rparr>"
  have ok: "cluster_ok long_cluster" "cl_peers long_cluster = Some ([] @ [(1, ?p)])" "cl_removed long_cluster = Some []"
    by (simp_all add: cluster_ok_def long_cluster_def sample_peer_def)
  have a: "pe_appServiceAddresses ?p = [] @ [replicate 4200 97]" by simp
  have s: "store_room < store_size (cl_store long_cluster)"
      "store_size (cl_store long_cluster) \<le> store_room + length (replicate 4200 (97 :: byte))"
      "store_size (cl_store long_cluster) \<le> 2 ^ 48"
    using long_cluster_size by (simp_all add: store_room_def)
  have "last (x @ replicate n (0 :: byte)) = 0" if "0 < n" for x n
    using that by (cases n) (simp_all add: last_append)
  then show ?thesis
    using cluster_restore_zeroes_long_store [OF ok a s, of new_cluster] s(1) by auto
qed

text \<open>
  A cluster without members comes back with a nil map, and the next \<^verbatim>\<open>Add\<close> panics.
\<close>

lemma restored_empty_cluster_add_panics:
  assumes "cl_removed c = Some [(7, True)]" and "cl_peers c = Some []" and "rp_peerID a \<noteq> 7"
  shows "\<exists>f c'. cluster_snapshot [] c = Ret f \<and> cluster_restore (new_bufio f) c0 = (Ret (), c') \<and>
    fst (cluster_add a c') = Panic"
proof -
  obtain f where f: "cluster_snapshot [] c = Ret f" using cluster_snapshot_returns by blast
  have "removed_entry_size 7 \<le> 13" using sov_le [of 7] by (simp add: removed_entry_size_def)
  then have size: "store_size (cl_store c) \<le> 100"
    using sov_le [of "of_nat (removed_entry_size 7)"] by (simp add: store_size_def assms(1,2))
  moreover have "store_marshal_to (cl_store c) \<noteq> []"
    using assms(1,2) by (simp add: store_marshal_to_def removed_entry_def)
  moreover have "store_unmarshal zero_store (store_marshal_to (cl_store c)) = Ret (store_kept (cl_store c))"
    using store_round_trip [of "cl_store c"] size assms(1,2) by simp
  ultimately have "cluster_restore (new_bufio f) c0 = (Ret (), after_restore c0 c (store_kept (cl_store c)))"
    using cluster_restore_snapshot [OF f] by (simp add: store_room_def store_length)
  moreover have "fst (cluster_add a (after_restore c0 c (store_kept (cl_store c)))) = Panic"
    using assms by (simp add: cluster_add_def after_restore_def store_kept_def nil_if_empty_def make_if_nil_def put_peer_def)
  ultimately show ?thesis using f by blast
qed

end
