(* ===== verification/Apply.thy ===== *)
theory Apply
  imports Session Cluster Entry_Storage "HOL-Library.Sublist"
begin

text \<open>
  Applying committed entries: \<^verbatim>\<open>raft/applied_facade.go\<close> (\<^verbatim>\<open>ApplyNormalEntry\<close>, \<^verbatim>\<open>doExactlyOnce\<close> and the
  handlers of the internal requests), \<^verbatim>\<open>applyEntries\<close> of \<^verbatim>\<open>raft/raft_apply.go\<close> and the requests of
  \<^verbatim>\<open>raft/encode_proposal.go\<close>. The managers of sessions and the membership are the interfaces the code
  declares, \<^const>\<open>so_get\<close> and the other fields of a \<^typ>\<open>('m, 'r) session_ops\<close> and an
  \<^typ>\<open>'c applied_cluster\<close>; the user's state machine is a function. The times that \<^verbatim>\<open>time.Now\<close> returns are
  arguments of each entry. The central result is that a request of a session is executed at most
  once however often it stands in the log, and what it depends on.
\<close>

section \<open>Results\<close>

text \<open>
  \<^verbatim>\<open>ApplyResult.Response\<close> is \<^verbatim>\<open>any\<close>: a response of the state machine, a pointer to a \<^verbatim>\<open>ConfState\<close> or an
  \<^verbatim>\<open>error\<close>. Errors are kept as their texts; of the errors of a cluster only the five of its operations
  reach a result, the others are returned by \<^verbatim>\<open>Restore\<close>.
\<close>

datatype 'r response =
    FsmResponse 'r
  | ConfStateResponse "conf_state option"
  | ErrorResponse bytes

type_synonym 'r any_result = "'r response apply_result"

fun session_err_text :: "session_error \<Rightarrow> bytes" where
  "session_err_text (SText t) = t"
| "session_err_text (SIo EOF) = str ''EOF''"
| "session_err_text (SIo UnexpectedEOF) = str ''unexpected EOF''"

fun cluster_err_text :: "cluster_error \<Rightarrow> bytes" where
  "cluster_err_text ErrPeerIDRemoved = str ''cluster: node id removed''"
| "cluster_err_text ErrPeerIDExists = str ''cluster: node id exists''"
| "cluster_err_text ErrPeerIDNotFound = str ''cluster: node id not found''"
| "cluster_err_text ErrPeerNotLearner = str ''cluster: peer is not a learner''"
| "cluster_err_text ErrPeerRaftListenAddrExists = str ''cluster: peer raft listen address already exists''"
| "cluster_err_text _ = []"

section \<open>Requests\<close>

record client_session =
  cs_sessionID :: u64
  cs_sequenceNumber :: u64
  cs_lowestSequenceNumberNotYetReplied :: u64

definition session_context :: "u64 \<Rightarrow> client_session \<Rightarrow> request_context" where
  "session_context replyID s =
     (if cs_sessionID s \<noteq> 0 then
        \<lparr>rc_replyID = replyID, rc_sessionID = cs_sessionID s, rc_sequenceNum = cs_sequenceNumber s,
         rc_lowestSeqNumNotYetReplied = cs_lowestSequenceNumberNotYetReplied s\<rparr>
      else zero_context\<lparr>rc_replyID := replyID\<rparr>)"

definition register_session_req :: "u64 \<Rightarrow> u64 \<Rightarrow> normal_request" where
  "register_session_req replyID unregisterSessionID =
     zero_normal\<lparr>nr_context := zero_context\<lparr>rc_replyID := replyID\<rparr>,
       nr_register := Some (if unregisterSessionID \<noteq> 0
         then \<lparr>rg_unregister = True, rg_sessionID = unregisterSessionID\<rparr> else zero_register)\<rparr>"

definition encode_register_session :: "u64 \<Rightarrow> u64 \<Rightarrow> (unit, bytes) outcome" where
  "encode_register_session replyID unregisterSessionID =
     (let req = register_session_req replyID unregisterSessionID
      in pb_marshal (normal_size req) (normal_marshal_to req))"

definition pub_addresses_req :: "u64 \<Rightarrow> u64 \<Rightarrow> bytes list \<Rightarrow> normal_request" where
  "pub_addresses_req replyID peerID addresses =
     zero_normal\<lparr>nr_context := zero_context\<lparr>rc_replyID := replyID\<rparr>,
       nr_pubAppService := Some \<lparr>pa_pubServicePeerID = peerID, pa_appServiceAddresses = addresses\<rparr>\<rparr>"

definition encode_pub_addresses :: "u64 \<Rightarrow> u64 \<Rightarrow> bytes list \<Rightarrow> (unit, bytes) outcome" where
  "encode_pub_addresses replyID peerID addresses =
     (let req = pub_addresses_req replyID peerID addresses
      in pb_marshal (normal_size req) (normal_marshal_to req))"

definition proposed_log_req :: "u64 \<Rightarrow> client_session \<Rightarrow> bytes \<Rightarrow> normal_request" where
  "proposed_log_req replyID s log =
     zero_normal\<lparr>nr_context := session_context replyID s, nr_stateMachineLog := log\<rparr>"

definition encode_proposed_log :: "u64 \<Rightarrow> client_session \<Rightarrow> bytes \<Rightarrow> (unit, bytes) outcome" where
  "encode_proposed_log replyID s log =
     (let req = proposed_log_req replyID s log in pb_marshal (normal_size req) (normal_marshal_to req))"

text \<open>What is proposed is what is applied: the entry decodes to the request.\<close>

lemma normal_encode_decode:
  "normal_size req < 2 ^ 63 \<Longrightarrow>
   \<exists>b. pb_marshal (normal_size req) (normal_marshal_to req) = Ret b \<and> normal_unmarshal zero_normal b = Ret req"
  using normal.message_round_trip [of req] by (auto simp: normal_unmarshal_def)

lemma encode_requests_decode:
  "normal_size (proposed_log_req replyID s log) < 2 ^ 63 \<Longrightarrow>
     \<exists>b. encode_proposed_log replyID s log = Ret b \<and>
       normal_unmarshal zero_normal b = Ret (proposed_log_req replyID s log)"
  "normal_size (register_session_req replyID sid) < 2 ^ 63 \<Longrightarrow>
     \<exists>b. encode_register_session replyID sid = Ret b \<and>
       normal_unmarshal zero_normal b = Ret (register_session_req replyID sid)"
  "normal_size (pub_addresses_req replyID k as) < 2 ^ 63 \<Longrightarrow>
     \<exists>b. encode_pub_addresses replyID k as = Ret b \<and>
       normal_unmarshal zero_normal b = Ret (pub_addresses_req replyID k as)"
  unfolding encode_proposed_log_def encode_register_session_def encode_pub_addresses_def Let_def
  by (rule normal_encode_decode; assumption)+

section \<open>The facade\<close>

definition noop_session :: "('m, 'r) session_ops \<Rightarrow> 'm \<Rightarrow> (unit, 'r isession option \<times> 'm) outcome" where
  "noop_session ops m =
     (case so_get ops 0 m of
        (Ret s, m') \<Rightarrow> Ret (Some s, m')
      | (Fail _, m') \<Rightarrow> Ret (None, m')
      | (Panic, _) \<Rightarrow> Panic)"

definition handle_session_register ::
  "('m, 'r) session_ops \<Rightarrow> entry \<Rightarrow> u64 \<Rightarrow> register_session_request \<Rightarrow> 'm \<Rightarrow> (unit, 'r apply_result \<times> 'm) outcome" where
  "handle_session_register ops e reqTime req m =
     (case (if rg_unregister req then so_unregister ops (rg_sessionID req) m
            else so_register ops (ent_index e) reqTime m) of
        Ret m' \<Rightarrow> Ret (\<lparr>ar_logIndex = ent_index e, ar_response = None, ar_error = None\<rparr>, m')
      | Fail err \<Rightarrow> Ret (\<lparr>ar_logIndex = ent_index e, ar_response = None, ar_error = Some (session_err_text err)\<rparr>, m)
      | Panic \<Rightarrow> Panic)"

definition handle_pub_app_service ::
  "'c applied_cluster \<Rightarrow> entry \<Rightarrow> pub_app_service_request \<Rightarrow> 'c \<Rightarrow> (unit, 'r any_result \<times> 'c) outcome" where
  "handle_pub_app_service ac e req c =
     (case ac_update_addresses ac (pa_pubServicePeerID req) (pa_appServiceAddresses req) c of
        (Ret _, c') \<Rightarrow> Ret (\<lparr>ar_logIndex = ent_index e, ar_response = None, ar_error = None\<rparr>, c')
      | (Fail err, c') \<Rightarrow>
          Ret (\<lparr>ar_logIndex = ent_index e, ar_response = Some (ErrorResponse (cluster_err_text err)), ar_error = None\<rparr>, c')
      | (Panic, _) \<Rightarrow> Panic)"

text \<open>
  \<^verbatim>\<open>doExactlyOnce\<close>: whether to apply, the stored result, and the session after the deferred
  \<^verbatim>\<open>ClearResult\<close>, which runs after the result was looked up.
\<close>

definition do_exactly_once ::
  "u64 \<Rightarrow> request_context \<Rightarrow> 'r isession \<Rightarrow> (bool \<times> 'r apply_result) \<times> 'r isession" where
  "do_exactly_once index ctx session =
     ((if is_repeat_sequence_num (rc_sequenceNum ctx) session then
         (case is_get_result (rc_sequenceNum ctx) session of
            (ar, ok) \<Rightarrow>
              if \<not> ok then
                (False, \<lparr>ar_logIndex = index, ar_response = None,
                  ar_error = Some (str ''seesion id('' @ itoa (unat (rc_sessionID ctx)) @ str '') seqence nume('' @
                    itoa (unat (rc_sequenceNum ctx)) @ str ''): not found apply result'')\<rparr>)
              else (False, ar))
       else (True, zero_result)),
      is_clear_result (rc_lowestSeqNumNotYetReplied ctx) session)"

definition apply_normal_entry ::
  "('m, 'r response) session_ops \<Rightarrow> 'c applied_cluster \<Rightarrow> u64 \<Rightarrow> entry \<Rightarrow> 'm \<Rightarrow> 'c \<Rightarrow>
   (unit, normal_request \<times> 'r any_result \<times> 'r response isession option \<times> 'm \<times> 'c) outcome" where
  "apply_normal_entry ops ac reqTime e m c =
     (case normal_unmarshal zero_normal (ent_data e) of
        Ret req \<Rightarrow>
          (case nr_register req of
             Some reg \<Rightarrow>
               bind_outcome (noop_session ops m) (\<lambda>(s, m1).
               bind_outcome (handle_session_register ops e reqTime reg m1) (\<lambda>(ar, m2). Ret (req, ar, s, m2, c)))
           | None \<Rightarrow>
          (case nr_pubAppService req of
             Some p \<Rightarrow>
               bind_outcome (noop_session ops m) (\<lambda>(s, m1).
               bind_outcome (handle_pub_app_service ac e p c) (\<lambda>(ar, c'). Ret (req, ar, s, m1, c')))
           | None \<Rightarrow>
               (case so_get ops (rc_sessionID (nr_context req)) (so_expire ops reqTime m) of
                  (Fail err, m1) \<Rightarrow>
                    bind_outcome (noop_session ops m1) (\<lambda>(s, m2).
                      Ret (req, \<lparr>ar_logIndex = ent_index e, ar_response = None, ar_error = Some (session_err_text err)\<rparr>,
                           s, m2, c))
                | (Panic, _) \<Rightarrow> Panic
                | (Ret session, m1) \<Rightarrow>
                    (case do_exactly_once (ent_index e) (nr_context req) session of
                       ((toApply, ar), session') \<Rightarrow>
                         Ret (req, if \<not> toApply then ar else zero_result, Some session', so_store ops session' m1, c)))))
      | _ \<Rightarrow> Panic)"

section \<open>applyEntries\<close>

text \<open>
  What \<^verbatim>\<open>applyEntries\<close> reads and changes: the sessions, the membership, the user's state machine, the
  replies handed to the waiting callers, the number of notified first commits of a term, the applied
  position, and the indices reported as completed. \<^verbatim>\<open>bsm\<close> is the index at which the state machine
  was opened and whether it is kept on disk.
\<close>

record ('m, 'c, 's, 'r) raft_state =
  rf_sessions :: 'm
  rf_cluster :: 'c
  rf_fsm :: 's
  rf_replies :: "(u64 \<times> 'r any_result) list"
  rf_firstCommits :: nat
  rf_appliedTerm :: u64
  rf_appliedIndex :: u64
  rf_completed :: "u64 list"

record bsm_info =
  bsm_openAppliedIndex :: u64
  bsm_isDiskType :: bool

record fsm_entry =
  fe_term :: u64
  fe_index :: u64
  fe_command :: bytes

type_synonym ('s, 'r) fsm = "fsm_entry \<Rightarrow> 's \<Rightarrow> 'r any_result \<times> 's"

text \<open>\<^verbatim>\<open>r.storage.Apply\<close>: the call of the user's state machine for an entry.\<close>

definition storage_apply ::
  "('s, 'r) fsm \<Rightarrow> entry \<Rightarrow> normal_request \<Rightarrow> ('m, 'c, 's, 'r) raft_state \<Rightarrow> 'r any_result \<times> ('m, 'c, 's, 'r) raft_state" where
  "storage_apply fsm e req st =
     (case fsm \<lparr>fe_term = ent_term e, fe_index = ent_index e, fe_command = nr_stateMachineLog req\<rparr> (rf_fsm st) of
        (ar, s') \<Rightarrow> (ar, st\<lparr>rf_fsm := s'\<rparr>))"

definition apply_entry ::
  "('m, 'r response) session_ops \<Rightarrow> 'c applied_cluster \<Rightarrow> ('s, 'r) fsm \<Rightarrow> bsm_info \<Rightarrow> entry \<times> u64 \<times> u64 \<Rightarrow>
   ('m, 'c, 's, 'r) raft_state \<Rightarrow> (unit, ('m, 'c, 's, 'r) raft_state) outcome" where
  "apply_entry ops ac fsm bsm te st =
     (case te of (e, reqTime, now) \<Rightarrow>
        if ent_data e = [] then Ret (st\<lparr>rf_firstCommits := Suc (rf_firstCommits st)\<rparr>)
        else case ent_type e of
          EntryNormal \<Rightarrow>
            if ent_index e \<le> bsm_openAppliedIndex bsm then (if \<not> bsm_isDiskType bsm then Panic else Ret st)
            else bind_outcome (apply_normal_entry ops ac reqTime e (rf_sessions st) (rf_cluster st))
              (\<lambda>(req, ar, session, m, c).
                if ar_is_empty ar then
                  (case storage_apply fsm e req st of
                     (ar', st1) \<Rightarrow>
                       (case session of
                          None \<Rightarrow> Panic
                        | Some ses \<Rightarrow>
                            (case is_add_result (rc_sequenceNum (nr_context req)) now ar' ses of
                               Ret ses' \<Rightarrow>
                                 Ret (st1\<lparr>rf_sessions := so_store ops ses' m, rf_cluster := c,
                                     rf_replies := rf_replies st1 @ [(rc_replyID (nr_context req), ar')]\<rparr>)
                             | _ \<Rightarrow> Panic)))
                else Ret (st\<lparr>rf_sessions := m, rf_cluster := c,
                       rf_replies := rf_replies st @ [(rc_replyID (nr_context req), ar)]\<rparr>))
        | EntryConfChange \<Rightarrow> Ret st
        | EntryConfChangeV2 \<Rightarrow> Panic)"

fun apply_loop ::
  "('m, 'r response) session_ops \<Rightarrow> 'c applied_cluster \<Rightarrow> ('s, 'r) fsm \<Rightarrow> bsm_info \<Rightarrow> (entry \<times> u64 \<times> u64) list \<Rightarrow>
   ('m, 'c, 's, 'r) raft_state \<Rightarrow> (unit, ('m, 'c, 's, 'r) raft_state) outcome" where
  "apply_loop ops ac fsm bsm [] st = Ret st"
| "apply_loop ops ac fsm bsm (e # es) st = bind_outcome (apply_entry ops ac fsm bsm e st) (apply_loop ops ac fsm bsm es)"

definition apply_entries ::
  "('m, 'r response) session_ops \<Rightarrow> 'c applied_cluster \<Rightarrow> ('s, 'r) fsm \<Rightarrow> bsm_info \<Rightarrow> (entry \<times> u64 \<times> u64) list \<Rightarrow>
   ('m, 'c, 's, 'r) raft_state \<Rightarrow> (unit, ('m, 'c, 's, 'r) raft_state) outcome" where
  "apply_entries ops ac fsm bsm es st =
     bind_outcome (apply_loop ops ac fsm bsm es st) (\<lambda>st1.
       let st2 = (if 0 < length es then
                    st1\<lparr>rf_appliedTerm := ent_term (fst (last es)), rf_appliedIndex := ent_index (fst (last es))\<rparr>
                  else st1)
       in Ret (st2\<lparr>rf_completed := rf_completed st2 @ [rf_appliedIndex st2]\<rparr>))"

section \<open>At most once\<close>

text \<open>
  The request an entry holds, if it is a request of a client for the state machine, and what names
  it: the session and the sequence number.
\<close>

definition client_request :: "entry \<Rightarrow> normal_request option" where
  "client_request e =
     (if ent_data e = [] \<or> ent_type e \<noteq> EntryNormal then None
      else case normal_unmarshal zero_normal (ent_data e) of
             Ret req \<Rightarrow> if nr_register req = None \<and> nr_pubAppService req = None then Some req else None
           | _ \<Rightarrow> None)"

definition request_id :: "entry \<Rightarrow> (u64 \<times> u64) option" where
  "request_id e = map_option (\<lambda>req. (rc_sessionID (nr_context req), rc_sequenceNum (nr_context req))) (client_request e)"

text \<open>The entries a log can hold: no-ops, requests that decode, and changes of the membership.\<close>

definition entry_ok :: "bsm_info \<Rightarrow> entry \<Rightarrow> bool" where
  "entry_ok bsm e \<longleftrightarrow> ent_data e = [] \<or> ent_type e = EntryConfChange \<or>
     (ent_type e = EntryNormal \<and> bsm_openAppliedIndex bsm < ent_index e \<and>
      (\<exists>req. normal_unmarshal zero_normal (ent_data e) = Ret req))"

text \<open>
  The rule for clients: a session never uses a sequence number below one it has announced as the
  lowest without a reply.
\<close>

definition follows_lowest :: "entry \<Rightarrow> entry \<Rightarrow> bool" where
  "follows_lowest e e' \<longleftrightarrow>
     (\<forall>req req'. client_request e = Some req \<longrightarrow> client_request e' = Some req' \<longrightarrow>
        rc_sessionID (nr_context req) = rc_sessionID (nr_context req') \<longrightarrow>
        rc_lowestSeqNumNotYetReplied (nr_context req) \<le> rc_sequenceNum (nr_context req'))"

definition log_ok :: "bsm_info \<Rightarrow> entry list \<Rightarrow> bool" where
  "log_ok bsm es \<longleftrightarrow> (\<forall>e\<in>set es. entry_ok bsm e) \<and> sorted_wrt (<) (map ent_index es) \<and> sorted_wrt follows_lowest es"

text \<open>A state machine that also keeps the list of the indices it was called for.\<close>

definition logging :: "('s, 'r) fsm \<Rightarrow> ('s \<times> u64 list, 'r) fsm" where
  "logging fsm e st = (case fsm e (fst st) of (ar, s') \<Rightarrow> (ar, (s', snd st @ [fe_index e])))"

text \<open>
  The invariant between the sessions, the entries that are still to come and the requests \<^verbatim>\<open>E\<close> that
  were executed: sessions that live are not registered again, no stored result is empty, and an
  executed request is either still stored, or its session is gone for good, or no entry to come
  repeats it.
\<close>

definition once_inv :: "(u64 \<Rightarrow> 'r session option) \<Rightarrow> entry list \<Rightarrow> (u64 \<times> u64) set \<Rightarrow> bool" where
  "once_inv live es E \<longleftrightarrow>
     (\<forall>sid. live sid \<noteq> None \<longrightarrow> sid \<notin> ent_index ` set es) \<and>
     (\<forall>sid s seq ar. live sid = Some s \<longrightarrow> map_of (se_result s) seq = Some ar \<longrightarrow> \<not> ar_is_empty ar) \<and>
     (\<forall>sid seq. (sid, seq) \<in> E \<longrightarrow> sid \<notin> ent_index ` set es \<and>
        (\<forall>s. live sid = Some s \<longrightarrow> map_of (se_result s) seq \<noteq> None \<or> (\<forall>e\<in>set es. request_id e \<noteq> Some (sid, seq))))"

lemma once_invI:
  assumes "\<And>sid s. live sid = Some s \<Longrightarrow> sid \<notin> ent_index ` set es"
    and "\<And>sid s seq ar. live sid = Some s \<Longrightarrow> map_of (se_result s) seq = Some ar \<Longrightarrow> \<not> ar_is_empty ar"
    and "\<And>sid seq. (sid, seq) \<in> E \<Longrightarrow> sid \<notin> ent_index ` set es"
    and "\<And>sid seq s e. (sid, seq) \<in> E \<Longrightarrow> live sid = Some s \<Longrightarrow> map_of (se_result s) seq = None \<Longrightarrow>
      e \<in> set es \<Longrightarrow> request_id e = Some (sid, seq) \<Longrightarrow> False"
  shows "once_inv live es E"
  unfolding once_inv_def using assms by blast

lemma once_invD:
  assumes "once_inv live es E"
  shows "live sid = Some s \<Longrightarrow> sid \<notin> ent_index ` set es"
    and "live sid = Some s \<Longrightarrow> map_of (se_result s) seq = Some ar \<Longrightarrow> \<not> ar_is_empty ar"
    and "(sid, seq) \<in> E \<Longrightarrow> sid \<notin> ent_index ` set es"
    and "(sid, seq) \<in> E \<Longrightarrow> live sid = Some s \<Longrightarrow> map_of (se_result s) seq = None \<Longrightarrow>
      e \<in> set es \<Longrightarrow> request_id e = Some (sid, seq) \<Longrightarrow> False"
  using assms unfolding once_inv_def by (simp, blast, blast, blast)

lemma once_inv_less:
  assumes "once_inv live es E" and "live' \<subseteq>\<^sub>m live"
  shows "once_inv live' es E"
proof -
  have le: "live sid = Some s" if "live' sid = Some s" for sid s using assms(2) that by (auto simp: map_le_def dom_def)
  show ?thesis by (rule once_invI) (use le once_invD [OF assms(1)] in blast)+
qed

lemma once_inv_tail:
  assumes "once_inv live (e # es) E"
  shows "once_inv live es E"
proof -
  note inv = once_invD [OF assms]
  show ?thesis
  proof (rule once_invI)
    fix sid seq s e'
    assume "(sid, seq) \<in> E" "live sid = Some s" "map_of (se_result s) seq = None" "e' \<in> set es" "request_id e' = Some (sid, seq)"
    then show False using inv(4) [of sid seq s e'] by simp
  qed (use inv(1-3) in auto)
qed

lemma once_inv_register:
  assumes "once_inv live (e # es) E" and "live' \<subseteq>\<^sub>m live(ent_index e \<mapsto> new_session (ent_index e) t)"
    and "ent_index e \<notin> ent_index ` set es"
  shows "once_inv live' es E"
proof -
  note tail = once_invD [OF once_inv_tail [OF assms(1)]]
  have "sid \<noteq> ent_index e" if "(sid, seq) \<in> E" for sid seq using once_invD(3) [OF assms(1) that] by auto
  then have "once_inv (live(ent_index e \<mapsto> new_session (ent_index e) t)) es E"
    by (intro once_invI) (use tail assms(3) in \<open>auto simp: new_session_def split: if_splits\<close>)
  then show ?thesis using assms(2) by (rule once_inv_less)
qed

lemma map_of_clear:
  "map_of (se_result (clear_result lowest s)) seq = (if seq < lowest then None else map_of (se_result s) seq)"
  using map_of_filter_key [of "\<lambda>k. \<not> k < lowest" "se_result s" seq] by (simp add: clear_result_def)

lemma clear_result_id [simp]: "se_id (clear_result lowest s) = se_id s"
  by (simp add: clear_result_def)

lemma once_inv_clear:
  assumes "once_inv live (e # es) E" and "client_request e = Some req" and "\<forall>e'\<in>set es. follows_lowest e e'"
    and "sid = rc_sessionID (nr_context req)" and "live sid = Some s"
  shows "once_inv (live(sid \<mapsto> clear_result (rc_lowestSeqNumNotYetReplied (nr_context req)) s)) es E"
proof -
  let ?low = "rc_lowestSeqNumNotYetReplied (nr_context req)"
  note tail = once_invD [OF once_inv_tail [OF assms(1)]]
  have later: "\<not> seq < ?low" if "e' \<in> set es" "request_id e' = Some (sid, seq)" for e' seq
    using assms(2-4) that by (auto simp: request_id_def follows_lowest_def not_less)
  show ?thesis
  proof (rule once_invI)
    fix sid' seq s' e'
    assume "(sid', seq) \<in> E" "(live(sid \<mapsto> clear_result ?low s)) sid' = Some s'" "map_of (se_result s') seq = None"
      "e' \<in> set es" "request_id e' = Some (sid', seq)"
    then show False using tail(4) [of sid' seq _ e'] assms(5) later
      by (cases "sid' = sid") (auto simp: map_of_clear split: if_splits)
  qed (use tail(1-3) assms(5) in \<open>auto simp: map_of_clear split: if_splits\<close>)
qed

lemma once_inv_add:
  assumes "once_inv (live(sid \<mapsto> s)) es E" and "\<not> ar_is_empty ar"
  shows "once_inv (live(sid \<mapsto> s\<lparr>se_lastActive := t, se_result := AList.update seq ar (se_result s)\<rparr>)) es (insert (sid, seq) E)"
proof -
  note inv = once_invD [OF assms(1)]
  have self: "sid \<notin> ent_index ` set es" "\<And>seq ar. map_of (se_result s) seq = Some ar \<Longrightarrow> \<not> ar_is_empty ar"
      "\<And>seq e. (sid, seq) \<in> E \<Longrightarrow> map_of (se_result s) seq = None \<Longrightarrow> e \<in> set es \<Longrightarrow> request_id e \<noteq> Some (sid, seq)"
    using inv(1) [of sid s] inv(2) [of sid s] inv(4) [of sid _ s] by auto
  have other: "sid' \<notin> ent_index ` set es" "map_of (se_result s') q = Some ar' \<Longrightarrow> \<not> ar_is_empty ar'"
      "(sid', q) \<in> E \<Longrightarrow> map_of (se_result s') q = None \<Longrightarrow> e \<in> set es \<Longrightarrow> request_id e \<noteq> Some (sid', q)"
    if "sid' \<noteq> sid" "live sid' = Some s'" for sid' s' q ar' e
    using inv(1) [of sid' s'] inv(2) [of sid' s' q ar'] inv(4) [of sid' q s' e] that by auto
  show ?thesis
  proof (rule once_invI)
    fix sid' seq'
    assume "(sid', seq') \<in> insert (sid, seq) E"
    then show "sid' \<notin> ent_index ` set es" using self(1) inv(3) [of sid' seq'] by auto
  qed (use self other assms(2) in \<open>auto split: if_splits\<close>)
qed


text \<open>
  One entry: the effect of \<^verbatim>\<open>applyEntries\<close> on a request of a client, seen through the contract of the
  managers that keep sessions.
\<close>

lemma not_empty_result [simp]:
  "\<not> ar_is_empty \<lparr>ar_logIndex = i, ar_response = r, ar_error = Some e\<rparr>"
  "ar_is_empty zero_result"
  by (simp_all add: ar_is_empty_def zero_result_def)

lemma client_request_Some:
  "client_request e = Some req \<longleftrightarrow> ent_data e \<noteq> [] \<and> ent_type e = EntryNormal \<and>
     normal_unmarshal zero_normal (ent_data e) = Ret req \<and> nr_register req = None \<and> nr_pubAppService req = None"
  by (auto simp: client_request_def split: outcome.splits)

text \<open>What a run of the logging state machine adds to its trace.\<close>

definition executes :: "('m, 'c, 's \<times> u64 list, 'r) raft_state \<Rightarrow> u64 list \<Rightarrow> ('m, 'c, 's \<times> u64 list, 'r) raft_state \<Rightarrow> bool" where
  "executes st xs st' \<longleftrightarrow> snd (rf_fsm st') = snd (rf_fsm st) @ xs"

text \<open>The managers of sessions, with results as the apply loop stores them.\<close>

locale exactly_once = tracking_sessions ops ok lookup
  for ops :: "('m, 'x response) session_ops" and ok :: "'m \<Rightarrow> bool" and lookup :: "'m \<Rightarrow> u64 \<Rightarrow> 'x response session option"
begin

lemma get_session_cases:
  assumes "ok m"
  obtains (found) s m' where "so_get ops sid m = (Ret (RealSession s), m')" "lookup m sid = Some s" "ok m'" "lookup m' = lookup m"
    "sid \<noteq> 0" "se_id s = sid"
  | (noop) "so_get ops sid m = (Ret NoOPSession, m)" "sid = 0"
  | (missing) e where "so_get ops sid m = (Fail e, m)" "sid \<noteq> 0" "lookup m sid = None"
proof (cases "sid = NoOPSessionID")
  case True
  then show thesis using noop get_noop [OF assms] by (simp add: NoOPSessionID_def)
next
  case False
  note sid = this
  show thesis
  proof (cases "lookup m sid")
    case None
    then show thesis using absent_fails [OF assms sid] missing sid by (auto simp: NoOPSessionID_def)
  next
    case (Some s)
    then show thesis using get_found [OF assms sid] found sid lookup_id [OF assms] by (auto simp: NoOPSessionID_def)
  qed
qed

lemma noop_session_Ret: "ok m \<Longrightarrow> noop_session ops m = Ret (Some NoOPSession, m)"
  using get_noop [of m] by (simp add: noop_session_def NoOPSessionID_def)

lemma expired_live:
  assumes "ok m" and "once_inv (lookup m) es E"
  shows "ok (so_expire ops t m) \<and> once_inv (lookup (so_expire ops t m)) es E"
  using expire_law [OF assms(1), of t] once_inv_less [OF assms(2)] by blast

lemma client_entry:
  assumes "ok (rf_sessions st)" and "once_inv (lookup (rf_sessions st)) (e # es) E"
    and "client_request e = Some req" and "\<forall>e'\<in>set es. follows_lowest e e'"
  shows "\<exists>ar ses m. apply_normal_entry ops ac reqTime e (rf_sessions st) (rf_cluster st) =
      Ret (req, ar, Some ses, m, rf_cluster st) \<and> ok m \<and> once_inv (lookup m) es E \<and>
    (\<not> ar_is_empty ar \<or>
     (ar_is_empty ar \<and> ses = NoOPSession \<and> rc_sessionID (nr_context req) = 0) \<or>
     (ar_is_empty ar \<and> the (request_id e) \<notin> E \<and> rc_sessionID (nr_context req) \<noteq> 0 \<and>
      (\<exists>s. ses = RealSession s \<and> lookup m (rc_sessionID (nr_context req)) = Some s \<and>
         se_id s = rc_sessionID (nr_context req) \<and> map_of (se_result s) (rc_sequenceNum (nr_context req)) = None)))"
proof -
  let ?ctx = "nr_context req" and ?m0 = "so_expire ops reqTime (rf_sessions st)"
  let ?sid = "rc_sessionID ?ctx" and ?seq = "rc_sequenceNum ?ctx"
  have req: "normal_unmarshal zero_normal (ent_data e) = Ret req" "nr_register req = None" "nr_pubAppService req = None"
    using assms(3) by (simp_all add: client_request_Some)
  have id: "request_id e = Some (?sid, ?seq)" using assms(3) by (simp add: request_id_def)
  have ok0: "ok ?m0" and inv0: "once_inv (lookup ?m0) (e # es) E"
    using expired_live [OF assms(1,2)] by simp_all
  note tail = once_inv_tail [OF inv0]
  from ok0 show ?thesis
  proof (cases rule: get_session_cases [where sid = ?sid])
    case (missing err)
    then show ?thesis using ok0 tail req noop_session_Ret [OF ok0] by (simp add: apply_normal_entry_def)
  next
    case noop
    then show ?thesis using ok0 tail req store_noop [of ?m0]
      by (simp add: apply_normal_entry_def do_exactly_once_def)
  next
    case (found s m1)
    let ?s = "clear_result (rc_lowestSeqNumNotYetReplied ?ctx) s"
    have m1: "ok m1" "lookup m1 (se_id ?s) = Some s" using found by simp_all
    have st: "ok (so_store ops (RealSession ?s) m1)" "lookup (so_store ops (RealSession ?s) m1) = (lookup ?m0)(?sid \<mapsto> ?s)"
      using store_real [OF m1] found by simp_all
    have inv: "once_inv (lookup (so_store ops (RealSession ?s) m1)) es E"
      unfolding st(2) by (rule once_inv_clear [OF inv0 assms(3,4) refl found(2)])
    show ?thesis
    proof (cases "map_of (se_result s) ?seq")
      case None
      have "(?sid, ?seq) \<notin> E" using once_invD(4) [OF inv0 _ found(2) None, of e] id by auto
      moreover have "map_of (se_result ?s) ?seq = None" using None by (simp add: map_of_clear)
      ultimately show ?thesis
        using found(1) st inv req None id
        by (simp add: apply_normal_entry_def do_exactly_once_def repeat_sequence_num_def found(5,6))
    next
      case (Some ar)
      then have "\<not> ar_is_empty ar" using once_invD(2) [OF inv0 found(2)] by simp
      then show ?thesis
        using found(1) st(1) inv req Some
        by (simp add: apply_normal_entry_def do_exactly_once_def repeat_sequence_num_def get_result_def)
    qed
  qed
qed

end


text \<open>The effect of one entry on the executed requests.\<close>

definition step_ok ::
  "entry \<Rightarrow> entry list \<Rightarrow> (u64 \<times> u64) set \<Rightarrow> u64 list \<Rightarrow> (u64 \<Rightarrow> 'r session option) \<Rightarrow> bool" where
  "step_ok e es E xs live \<longleftrightarrow>
     (xs = [] \<and> once_inv live es E) \<or>
     (\<exists>sid seq. xs = [ent_index e] \<and> request_id e = Some (sid, seq) \<and>
        (if sid = 0 then once_inv live es E else (sid, seq) \<notin> E \<and> once_inv live es (insert (sid, seq) E)))"

context exactly_once
begin

lemma client_step:
  assumes "ok (rf_sessions st)" and "once_inv (lookup (rf_sessions st)) (e # es) E"
    and "client_request e = Some req" and "bsm_openAppliedIndex bsm < ent_index e"
    and "\<forall>e'\<in>set es. follows_lowest e e'" and fsm: "\<And>x s. \<not> ar_is_empty (fst (fsm x s))"
  shows "\<exists>st' xs. apply_entry ops ac (logging fsm) bsm (e, reqTime, now) st = Ret st' \<and> ok (rf_sessions st') \<and>
    executes st xs st' \<and> step_ok e es E xs (lookup (rf_sessions st'))"
proof -
  let ?sid = "rc_sessionID (nr_context req)" and ?seq = "rc_sequenceNum (nr_context req)"
  let ?x = "\<lparr>fe_term = ent_term e, fe_index = ent_index e, fe_command = nr_stateMachineLog req\<rparr>"
  have d: "ent_data e \<noteq> []" "ent_type e = EntryNormal" and id: "request_id e = Some (?sid, ?seq)"
    using assms(3) by (auto simp: client_request_Some request_id_def)
  have index: "\<not> ent_index e \<le> bsm_openAppliedIndex bsm" using assms(4) by simp
  obtain ar' s' where call: "fsm ?x (fst (rf_fsm st)) = (ar', s')" by fastforce
  have ar': "\<not> ar_is_empty ar'" using fsm [of ?x "fst (rf_fsm st)"] call by simp
  obtain ar ses m where a: "apply_normal_entry ops ac reqTime e (rf_sessions st) (rf_cluster st) =
      Ret (req, ar, Some ses, m, rf_cluster st)" "ok m" "once_inv (lookup m) es E"
    and cases: "\<not> ar_is_empty ar \<or>
     (ar_is_empty ar \<and> ses = NoOPSession \<and> ?sid = 0) \<or>
     (ar_is_empty ar \<and> the (request_id e) \<notin> E \<and> ?sid \<noteq> 0 \<and>
      (\<exists>s. ses = RealSession s \<and> lookup m ?sid = Some s \<and> se_id s = ?sid \<and> map_of (se_result s) ?seq = None))"
    using client_entry [OF assms(1,2,3,5), of ac reqTime] by blast
  from cases show ?thesis
  proof (elim disjE conjE exE)
    assume "\<not> ar_is_empty ar"
    then show ?thesis using a d index by (simp add: apply_entry_def storage_apply_def executes_def step_ok_def)
  next
    assume "ar_is_empty ar" "ses = NoOPSession" "?sid = 0"
    then show ?thesis using a d index id call store_noop [of m]
      by (simp add: apply_entry_def storage_apply_def logging_def executes_def step_ok_def)
  next
    fix s
    assume s: "ar_is_empty ar" "the (request_id e) \<notin> E" "?sid \<noteq> 0" "ses = RealSession s" "lookup m ?sid = Some s" "se_id s = ?sid"
      "map_of (se_result s) ?seq = None"
    let ?s = "s\<lparr>se_lastActive := now, se_result := AList.update ?seq ar' (se_result s)\<rparr>"
    have l: "lookup m (se_id ?s) = Some s" using s(5,6) by simp
    have st: "ok (so_store ops (RealSession ?s) m)" "lookup (so_store ops (RealSession ?s) m) = (lookup m)(?sid \<mapsto> ?s)"
      using store_real [OF a(2) l] s(6) by simp_all
    have "(lookup m)(?sid \<mapsto> s) = lookup m" using s(5) by auto
    then have "once_inv ((lookup m)(?sid \<mapsto> ?s)) es (insert (?sid, ?seq) E)"
      using once_inv_add [of "lookup m" ?sid s es E ar' ?seq now] a(3) ar' by simp
    then show ?thesis using a d index id call s st
      by (simp add: apply_entry_def storage_apply_def logging_def executes_def step_ok_def add_result_def)
  qed
qed

end


text \<open>The requests of sessions among the entries a state machine was called for.\<close>

definition session_ids :: "entry list \<Rightarrow> (u64 \<times> u64) list" where
  "session_ids ex = filter (\<lambda>k. fst k \<noteq> 0) (map (\<lambda>e. the (request_id e)) ex)"

lemma session_ids_simps:
  "session_ids [] = []"
  "request_id e = Some k \<Longrightarrow> session_ids (e # ex) = (if fst k \<noteq> 0 then k # session_ids ex else session_ids ex)"
  by (simp_all add: session_ids_def)

context exactly_once
begin

lemma internal_step:
  assumes "ok (rf_sessions st)" and "once_inv (lookup (rf_sessions st)) (e # es) E"
    and "normal_unmarshal zero_normal (ent_data e) = Ret req" and "ent_data e \<noteq> []" and "ent_type e = EntryNormal"
    and "nr_register req \<noteq> None \<or> nr_pubAppService req \<noteq> None"
    and "bsm_openAppliedIndex bsm < ent_index e" and "0 < ent_index e" and "ent_index e \<notin> ent_index ` set es"
    and total: "\<And>k as c. fst (ac_update_addresses ac k as c) \<noteq> Panic"
  shows "\<exists>st'. apply_entry ops ac fsm bsm (e, reqTime, now) st = Ret st' \<and> ok (rf_sessions st') \<and>
    rf_fsm st' = rf_fsm st \<and> once_inv (lookup (rf_sessions st')) es E"
proof -
  have index: "\<not> ent_index e \<le> bsm_openAppliedIndex bsm" "ent_index e \<noteq> 0" using assms(7,8) by simp_all
  note noop = noop_session_Ret [OF assms(1)] and tail = once_inv_tail [OF assms(2)]
  have full: "\<not> ar_is_empty \<lparr>ar_logIndex = ent_index e, ar_response = r, ar_error = x\<rparr>"
    for r :: "'x response option" and x
    using index(2) by (simp add: ar_is_empty_def)
  show ?thesis
  proof (cases "nr_register req")
    case None
    then obtain p where p: "nr_pubAppService req = Some p" using assms(6) by auto
    obtain r c' where u: "ac_update_addresses ac (pa_pubServicePeerID p) (pa_appServiceAddresses p) (rf_cluster st) = (r, c')"
      by fastforce
    then have "r \<noteq> Panic" using total [of "pa_pubServicePeerID p" "pa_appServiceAddresses p" "rf_cluster st"] by simp
    then show ?thesis using None p u assms(1,3-5) index(1) noop tail full
      by (cases r) (simp_all add: apply_entry_def storage_apply_def apply_normal_entry_def handle_pub_app_service_def)
  next
    case (Some reg)
    let ?m = "rf_sessions st"
    let ?r = "if rg_unregister reg then so_unregister ops (rg_sessionID reg) ?m else so_register ops (ent_index e) reqTime ?m"
    have "?r \<noteq> Panic" using unregister_total [OF assms(1)] register_total [OF assms(1)] by simp
    moreover have "ok m' \<and> once_inv (lookup m') es E" if "?r = Ret m'" for m'
      using that unregister_law [OF assms(1), of "rg_sessionID reg" m'] register_law [OF assms(1), of "ent_index e" reqTime m']
        once_inv_less [OF tail, of "lookup m'"] once_inv_register [OF assms(2) _ assms(9), of "lookup m'" reqTime]
      by (auto split: if_splits)
    ultimately show ?thesis using Some assms(1,3-5) index(1) noop tail full
      by (cases ?r) (auto simp: apply_entry_def storage_apply_def apply_normal_entry_def handle_session_register_def)
  qed
qed

lemma entry_step:
  assumes "ok (rf_sessions st)" and "once_inv (lookup (rf_sessions st)) (e # es) E"
    and "entry_ok bsm e" and "0 < ent_index e" and "ent_index e \<notin> ent_index ` set es"
    and "\<forall>e'\<in>set es. follows_lowest e e'" and "\<And>x s. \<not> ar_is_empty (fst (fsm x s))"
    and "\<And>k as c. fst (ac_update_addresses ac k as c) \<noteq> Panic"
  shows "\<exists>st' xs. apply_entry ops ac (logging fsm) bsm (e, reqTime, now) st = Ret st' \<and> ok (rf_sessions st') \<and>
    executes st xs st' \<and> step_ok e es E xs (lookup (rf_sessions st'))"
proof (cases "ent_data e = [] \<or> ent_type e = EntryConfChange")
  case True
  then show ?thesis using assms(1) once_inv_tail [OF assms(2)]
    by (cases "ent_data e = []") (auto simp: apply_entry_def storage_apply_def executes_def step_ok_def)
next
  case False
  then obtain req where req: "ent_data e \<noteq> []" "ent_type e = EntryNormal" "bsm_openAppliedIndex bsm < ent_index e"
      "normal_unmarshal zero_normal (ent_data e) = Ret req"
    using assms(3) by (auto simp: entry_ok_def)
  show ?thesis
  proof (cases "nr_register req = None \<and> nr_pubAppService req = None")
    case True
    then have "client_request e = Some req" using req by (simp add: client_request_Some)
    then show ?thesis using client_step [OF assms(1,2) _ req(3) assms(6), of req fsm] assms(7) by blast
  next
    case False
    then have "\<exists>st'. apply_entry ops ac (logging fsm) bsm (e, reqTime, now) st = Ret st' \<and> ok (rf_sessions st') \<and>
        rf_fsm st' = rf_fsm st \<and> once_inv (lookup (rf_sessions st')) es E"
      using internal_step [OF assms(1,2) req(4,1,2) _ req(3) assms(4,5,8)] by blast
    then obtain st' where "apply_entry ops ac (logging fsm) bsm (e, reqTime, now) st = Ret st'" "ok (rf_sessions st')"
        "rf_fsm st' = rf_fsm st" "once_inv (lookup (rf_sessions st')) es E" by blast
    then show ?thesis by (intro exI [of _ st'] exI [of _ "[]"]) (simp add: executes_def step_ok_def)
  qed
qed

lemma loop_at_most_once:
  assumes "ok (rf_sessions st)" and "once_inv (lookup (rf_sessions st)) (map fst es) E"
    and "log_ok bsm (map fst es)" and "\<forall>e\<in>set es. 0 < ent_index (fst e)"
    and "\<And>x s. \<not> ar_is_empty (fst (fsm x s))" and "\<And>k as c. fst (ac_update_addresses ac k as c) \<noteq> Panic"
  shows "\<exists>st' ex. apply_loop ops ac (logging fsm) bsm es st = Ret st' \<and>
    snd (rf_fsm st') = snd (rf_fsm st) @ map ent_index ex \<and> subseq ex (map fst es) \<and>
    (\<forall>e\<in>set ex. request_id e \<noteq> None) \<and>
    distinct (session_ids ex) \<and>
    set (session_ids ex) \<inter> E = {}"
  using assms(1-4)
proof (induction es arbitrary: st E)
  case Nil
  show ?case by (intro exI [of _ st] exI [of _ "[]"]) (simp add: session_ids_simps)
next
  case (Cons te es)
  obtain e reqTime now where te: "te = (e, reqTime, now)" by (cases te)
  have ok: "entry_ok bsm e" "ent_index e \<notin> ent_index ` set (map fst es)" "\<forall>e'\<in>set (map fst es). follows_lowest e e'"
      "log_ok bsm (map fst es)" "0 < ent_index e"
    using Cons.prems(3,4) by (auto simp: log_ok_def te)
  have inv: "once_inv (lookup (rf_sessions st)) (e # map fst es) E" using Cons.prems(2) by (simp add: te)
  obtain st1 xs where s1: "apply_entry ops ac (logging fsm) bsm te st = Ret st1" "ok (rf_sessions st1)" "executes st xs st1"
      "step_ok e (map fst es) E xs (lookup (rf_sessions st1))"
    using entry_step [where fsm = fsm, OF Cons.prems(1) inv ok(1,5,2,3) assms(5,6)] unfolding te by blast
  define E' where "E' = (if xs \<noteq> [] \<and> fst (the (request_id e)) \<noteq> 0 then insert (the (request_id e)) E else E)"
  have inv1: "once_inv (lookup (rf_sessions st1)) (map fst es) E'"
    using s1(4) unfolding step_ok_def E'_def by (auto split: if_splits)
  have pos: "\<forall>e\<in>set es. 0 < ent_index (fst e)" using Cons.prems(4) by simp
  obtain st' ex where r: "apply_loop ops ac (logging fsm) bsm es st1 = Ret st'"
      "snd (rf_fsm st') = snd (rf_fsm st1) @ map ent_index ex" "subseq ex (map fst es)" "\<forall>e\<in>set ex. request_id e \<noteq> None"
      "distinct (session_ids ex)"
      "set (session_ids ex) \<inter> E' = {}"
    using Cons.IH [OF s1(2) inv1 ok(4) pos] by blast
  show ?case
  proof (cases "xs = []")
    case True
    then show ?thesis using s1(1,3) r by (intro exI [of _ st'] exI [of _ ex]) (auto simp: executes_def te E'_def session_ids_simps)
  next
    case False
    then obtain k where k: "xs = [ent_index e]" "request_id e = Some k" "fst k \<noteq> 0 \<longrightarrow> k \<notin> E"
      using s1(4) by (auto simp: step_ok_def split: if_splits)
    then show ?thesis using s1(1,3) r by (intro exI [of _ st'] exI [of _ "e # ex"]) (auto simp: executes_def te E'_def session_ids_simps)
  qed
qed

end


interpretation lru_once: exactly_once "lru_ops acq rs" lru_ok lru_lookup for acq rs
  by unfold_locales

interpretation expired_once: exactly_once "expired_ops acq rs" expired_ok expired_lookup for acq rs
  by unfold_locales

section \<open>Replies\<close>

text \<open>The replies an entry owes to the callers that wait for it.\<close>

definition owed_replies :: "bsm_info \<Rightarrow> entry \<Rightarrow> u64 list" where
  "owed_replies bsm e =
     (if ent_data e = [] \<or> ent_type e \<noteq> EntryNormal \<or> ent_index e \<le> bsm_openAppliedIndex bsm then []
      else case normal_unmarshal zero_normal (ent_data e) of
             Ret req \<Rightarrow> [rc_replyID (nr_context req)]
           | _ \<Rightarrow> [])"

lemma apply_normal_entry_req:
  "apply_normal_entry ops ac t e m c = Ret (req, ar, ses, m', c') \<Longrightarrow> normal_unmarshal zero_normal (ent_data e) = Ret req"
  by (auto simp: apply_normal_entry_def bind_outcome_Ret_iff case_prod_beta
      split: outcome.splits option.splits prod.splits)

lemma apply_entry_replies:
  assumes "apply_entry ops ac fsm bsm (e, reqTime, now) st = Ret st'"
  shows "map fst (rf_replies st') = map fst (rf_replies st) @ owed_replies bsm e"
proof -
  consider "ent_data e = [] \<or> ent_type e \<noteq> EntryNormal \<or> ent_index e \<le> bsm_openAppliedIndex bsm"
    | "ent_data e \<noteq> []" "ent_type e = EntryNormal" "\<not> ent_index e \<le> bsm_openAppliedIndex bsm" by blast
  then show ?thesis
  proof cases
    case 1
    then show ?thesis using assms
      by (auto simp: apply_entry_def storage_apply_def owed_replies_def split: if_splits entry_type.splits)
  next
    case 2
    obtain req ar ses m c where a: "apply_normal_entry ops ac reqTime e (rf_sessions st) (rf_cluster st) = Ret (req, ar, ses, m, c)"
      using assms 2 by (auto simp: apply_entry_def storage_apply_def bind_outcome_Ret_iff)
    note req = apply_normal_entry_req [OF a]
    have "map fst (rf_replies st') = map fst (rf_replies st) @ [rc_replyID (nr_context req)]"
      using assms 2 a
      by (auto simp: apply_entry_def storage_apply_def case_prod_beta split: if_splits option.splits outcome.splits)
    then show ?thesis using 2 req by (simp add: owed_replies_def)
  qed
qed

lemma apply_loop_replies:
  "apply_loop ops ac fsm bsm es st = Ret st' \<Longrightarrow>
   map fst (rf_replies st') = map fst (rf_replies st) @ concat (map (owed_replies bsm \<circ> fst) es)"
proof (induction es arbitrary: st)
  case (Cons te es)
  obtain e reqTime now where te: "te = (e, reqTime, now)" by (cases te)
  obtain st1 where s: "apply_entry ops ac fsm bsm te st = Ret st1" "apply_loop ops ac fsm bsm es st1 = Ret st'"
    using Cons.prems by (auto simp: bind_outcome_Ret_iff)
  show ?case using Cons.IH [OF s(2)] apply_entry_replies [OF s(1) [unfolded te]] by (simp add: te)
qed simp

section \<open>Properties\<close>

lemma cluster_addresses_total: "fst (ac_update_addresses cluster_applied k as c) \<noteq> Panic"
  by (cases "cl_peers c")
     (auto simp: cluster_applied_def cluster_update_addresses_def put_peer_def split: option.splits)

lemma apply_entries_loop:
  "apply_loop ops ac fsm bsm es st = Ret st1 \<Longrightarrow>
   \<exists>st'. apply_entries ops ac fsm bsm es st = Ret st' \<and> rf_fsm st' = rf_fsm st1 \<and> rf_replies st' = rf_replies st1 \<and>
     (es \<noteq> [] \<longrightarrow> rf_appliedIndex st' = ent_index (fst (last es))) \<and>
     rf_completed st' = rf_completed st1 @ [rf_appliedIndex st']"
  by (simp add: apply_entries_def Let_def)

text \<open>
  C2. At most once: when the committed entries of a log are applied with the LRU manager of sessions,
  the call returns, and the state machine is called for a part of the entries, in the order of the
  log, all of them requests of clients, such that no two of them are the same request (the same
  sequence number of the same session), however often a request was retried and stands in the log.
  It holds for logs whose clients never use a sequence number below one they announced as the
  lowest without a reply, and for state machines that return a result for every command.
\<close>

theorem applied_at_most_once:
  assumes "lru_ok (rf_sessions st)" and "once_inv (lru_lookup (rf_sessions st)) (map fst es) {}"
    and "log_ok bsm (map fst es)" and "\<forall>e\<in>set es. 0 < ent_index (fst e)"
    and "\<forall>x s. \<not> ar_is_empty (fst (fsm x s))"
  shows "\<exists>st' ex. apply_entries (lru_ops acq rs) cluster_applied (logging fsm) bsm es st = Ret st' \<and>
    snd (rf_fsm st') = snd (rf_fsm st) @ map ent_index ex \<and> subseq ex (map fst es) \<and>
    (\<forall>e\<in>set ex. request_id e \<noteq> None) \<and> distinct (session_ids ex)"
proof -
  have "\<not> ar_is_empty (fst (fsm x s))" for x s using assms(5) by simp
  from lru_once.loop_at_most_once [where fsm = fsm, OF assms(1-4) this cluster_addresses_total]
  obtain st1 ex where "apply_loop (lru_ops acq rs) cluster_applied (logging fsm) bsm es st = Ret st1"
      "snd (rf_fsm st1) = snd (rf_fsm st) @ map ent_index ex" "subseq ex (map fst es)"
      "\<forall>e\<in>set ex. request_id e \<noteq> None" "distinct (session_ids ex)" by blast
  with apply_entries_loop show ?thesis by metis
qed

text \<open>The same for the manager with expiry, whatever the clocks of the entries show.\<close>

theorem expired_applied_at_most_once:
  assumes "expired_ok (rf_sessions st)" and "once_inv (expired_lookup (rf_sessions st)) (map fst es) {}"
    and "log_ok bsm (map fst es)" and "\<forall>e\<in>set es. 0 < ent_index (fst e)"
    and "\<forall>x s. \<not> ar_is_empty (fst (fsm x s))"
  shows "\<exists>st' ex. apply_entries (expired_ops acq rs) cluster_applied (logging fsm) bsm es st = Ret st' \<and>
    snd (rf_fsm st') = snd (rf_fsm st) @ map ent_index ex \<and> subseq ex (map fst es) \<and>
    (\<forall>e\<in>set ex. request_id e \<noteq> None) \<and> distinct (session_ids ex)"
proof -
  have "\<not> ar_is_empty (fst (fsm x s))" for x s using assms(5) by simp
  from expired_once.loop_at_most_once [where fsm = fsm, OF assms(1-4) this cluster_addresses_total]
  obtain st1 ex where "apply_loop (expired_ops acq rs) cluster_applied (logging fsm) bsm es st = Ret st1"
      "snd (rf_fsm st1) = snd (rf_fsm st) @ map ent_index ex" "subseq ex (map fst es)"
      "\<forall>e\<in>set ex. request_id e \<noteq> None" "distinct (session_ids ex)" by blast
  with apply_entries_loop show ?thesis by metis
qed

text \<open>A log in which a client registers a session and sends its first request twice.\<close>

definition sample_entry :: "u64 \<Rightarrow> bytes \<Rightarrow> entry" where
  "sample_entry i b = \<lparr>ent_term = 1, ent_index = i, ent_type = EntryNormal, ent_data = b\<rparr>"

definition sample_client :: client_session where
  "sample_client = \<lparr>cs_sessionID = 1, cs_sequenceNumber = 1, cs_lowestSequenceNumberNotYetReplied = 1\<rparr>"

definition sample_log :: "bytes \<Rightarrow> bytes \<Rightarrow> (entry \<times> u64 \<times> u64) list" where
  "sample_log b1 b2 = [(sample_entry 1 b1, 5, 6), (sample_entry 2 b2, 7, 8), (sample_entry 3 b2, 9, 10)]"

definition sample_fsm :: "(nat, u64) fsm" where
  "sample_fsm x s = (\<lparr>ar_logIndex = fe_index x, ar_response = Some (FsmResponse (of_nat s)), ar_error = Some []\<rparr>, Suc s)"

definition sample_any_rs :: "u64 response response_serializer" where
  "sample_any_rs =
     \<lparr>rs_serialize = (\<lambda>x. case x of FsmResponse v \<Rightarrow> Ret (put_uint64 v) | _ \<Rightarrow> Fail (SText [])),
      rs_deserialize = (\<lambda>b. bind_outcome (read_u64 b) (\<lambda>(v, r). Ret (FsmResponse v, r)))\<rparr>"

definition sample_raft :: "(u64 response lru_manager, cluster, nat \<times> u64 list, u64) raft_state" where
  "sample_raft = \<lparr>rf_sessions = new_lru_manager None, rf_cluster = sample_cluster, rf_fsm = (0, []), rf_replies = [],
     rf_firstCommits = 0, rf_appliedTerm = 0, rf_appliedIndex = 0, rf_completed = []\<rparr>"

definition sample_bsm :: bsm_info where
  "sample_bsm = \<lparr>bsm_openAppliedIndex = 0, bsm_isDiskType = False\<rparr>"

lemma sample_requests:
  "\<exists>b1 b2. normal_unmarshal zero_normal b1 = Ret (register_session_req 3 0) \<and> b1 \<noteq> [] \<and>
     normal_unmarshal zero_normal b2 = Ret (proposed_log_req 4 sample_client [7]) \<and> b2 \<noteq> []"
proof -
  have "context_size (nr_context (register_session_req 3 0)) \<le> 44"
    using varint_field_size_le [of 3] varint_field_size_le [of 0]
    by (simp add: context_size_def register_session_req_def zero_context_def)
  then have "normal_size (register_session_req 3 0) < 2 ^ 63"
    using bytes_field_size_le [of "context_size (nr_context (register_session_req 3 0))"] bytes_field_size_le [of 0]
    by (simp add: normal_size_def) (simp add: register_session_req_def zero_normal_def zero_register_def register_size_def
        bool_field_size_def varint_field_size_def opt_bytes_field_size_def)
  moreover have "context_size (nr_context (proposed_log_req 4 sample_client [7])) \<le> 44"
    using varint_field_size_le [of 4] varint_field_size_le [of 1]
    by (simp add: context_size_def proposed_log_req_def session_context_def sample_client_def)
  then have "normal_size (proposed_log_req 4 sample_client [7]) < 2 ^ 63"
    using bytes_field_size_le [of "context_size (nr_context (proposed_log_req 4 sample_client [7]))"] bytes_field_size_le [of 1]
    by (simp add: normal_size_def) (simp add: proposed_log_req_def zero_normal_def opt_bytes_field_size_def)
  moreover have "normal_unmarshal zero_normal [] = Ret zero_normal"
    by (simp add: normal_unmarshal_def pb_unmarshal_def pb_loop.simps)
  moreover have "register_session_req 3 0 \<noteq> zero_normal" "proposed_log_req 4 sample_client [7] \<noteq> zero_normal"
    by (simp_all add: register_session_req_def proposed_log_req_def zero_normal_def)
  ultimately show ?thesis using encode_requests_decode(1,2) by (metis outcome.inject(1))
qed

lemma sample_log_ok:
  assumes "normal_unmarshal zero_normal b1 = Ret (register_session_req 3 0)" and "b1 \<noteq> []"
    and "normal_unmarshal zero_normal b2 = Ret (proposed_log_req 4 sample_client [7])" and "b2 \<noteq> []"
  shows "log_ok sample_bsm (map fst (sample_log b1 b2))"
proof -
  have "client_request (sample_entry 1 b1) = None"
    using assms by (simp add: client_request_def sample_entry_def register_session_req_def)
  moreover have "follows_lowest (sample_entry 2 b2) (sample_entry 3 b2)"
    using assms by (auto simp: follows_lowest_def client_request_Some sample_entry_def proposed_log_req_def
        session_context_def sample_client_def)
  ultimately show ?thesis using assms
    by (simp add: log_ok_def sample_log_def entry_ok_def follows_lowest_def sample_bsm_def)
       (simp add: sample_entry_def)
qed

lemma sample_raft_fresh:
  "lru_ok (rf_sessions sample_raft)" "once_inv (lru_lookup (rf_sessions sample_raft)) es {}"
proof -
  show "lru_ok (rf_sessions sample_raft)" by (simp add: sample_raft_def new_managers_ok)
  show "once_inv (lru_lookup (rf_sessions sample_raft)) es {}"
    by (simp add: sample_raft_def once_inv_def lru_lookup_def new_lru_manager_def)
qed

lemma sample_log_index: "\<forall>e\<in>set (sample_log b1 b2). 0 < ent_index (fst e)"
  by (simp add: sample_log_def sample_entry_def)

lemma sample_fsm_result: "\<forall>x s. \<not> ar_is_empty (fst (sample_fsm x s))"
  by (simp add: sample_fsm_def)

theorem applied_at_most_once_witness:
  "\<exists>b1 b2 st' ex. normal_unmarshal zero_normal b2 = Ret (proposed_log_req 4 sample_client [7]) \<and>
     apply_entries (lru_ops sample_acquirer sample_any_rs) cluster_applied (logging sample_fsm) sample_bsm (sample_log b1 b2) sample_raft =
       Ret st' \<and>
     snd (rf_fsm st') = map ent_index ex \<and> subseq ex (map fst (sample_log b1 b2)) \<and> distinct (session_ids ex)"
proof -
  obtain b1 b2 where b: "normal_unmarshal zero_normal b1 = Ret (register_session_req 3 0)" "b1 \<noteq> []"
      "normal_unmarshal zero_normal b2 = Ret (proposed_log_req 4 sample_client [7])" "b2 \<noteq> []"
    using sample_requests by blast
  note s = sample_raft_fresh(1) sample_raft_fresh(2) [of "map fst (sample_log b1 b2)"]
  from applied_at_most_once [OF s sample_log_ok [OF b] sample_log_index sample_fsm_result, of sample_acquirer sample_any_rs] b(3)
  show ?thesis by (simp add: sample_raft_def) blast
qed

text \<open>
  C8. Every caller is answered: applying committed entries returns and hands out exactly one reply for
  each request in them, client requests and internal ones alike, in the order of the log and under
  the id the request carries, and the last index is reported as applied and as completed.
\<close>

theorem applied_answers_every_request:
  assumes "lru_ok (rf_sessions st)" and "once_inv (lru_lookup (rf_sessions st)) (map fst es) {}"
    and "log_ok bsm (map fst es)" and "\<forall>e\<in>set es. 0 < ent_index (fst e)"
    and "\<forall>x s. \<not> ar_is_empty (fst (fsm x s))" and "es \<noteq> []"
  shows "\<exists>st'. apply_entries (lru_ops acq rs) cluster_applied (logging fsm) bsm es st = Ret st' \<and>
    map fst (rf_replies st') = map fst (rf_replies st) @ concat (map (owed_replies bsm \<circ> fst) es) \<and>
    rf_appliedIndex st' = ent_index (fst (last es)) \<and> last (rf_completed st') = ent_index (fst (last es))"
proof -
  have "\<not> ar_is_empty (fst (fsm x s))" for x s using assms(5) by simp
  from lru_once.loop_at_most_once [where fsm = fsm, OF assms(1-4) this cluster_addresses_total]
  obtain st1 where s1: "apply_loop (lru_ops acq rs) cluster_applied (logging fsm) bsm es st = Ret st1" by blast
  from apply_entries_loop [OF s1] obtain st' where
    "apply_entries (lru_ops acq rs) cluster_applied (logging fsm) bsm es st = Ret st'" "rf_replies st' = rf_replies st1"
    "rf_appliedIndex st' = ent_index (fst (last es))" "rf_completed st' = rf_completed st1 @ [rf_appliedIndex st']"
    using assms(6) by blast
  with apply_loop_replies [OF s1] show ?thesis by simp
qed

theorem applied_answers_every_request_witness:
  "\<exists>b1 b2 st'. apply_entries (lru_ops sample_acquirer sample_any_rs) cluster_applied (logging sample_fsm) sample_bsm
       (sample_log b1 b2) sample_raft = Ret st' \<and> map fst (rf_replies st') = [3, 4, 4] \<and> rf_appliedIndex st' = 3"
proof -
  obtain b1 b2 where b: "normal_unmarshal zero_normal b1 = Ret (register_session_req 3 0)" "b1 \<noteq> []"
      "normal_unmarshal zero_normal b2 = Ret (proposed_log_req 4 sample_client [7])" "b2 \<noteq> []"
    using sample_requests by blast
  note s = sample_raft_fresh(1) sample_raft_fresh(2) [of "map fst (sample_log b1 b2)"]
  have "concat (map (owed_replies sample_bsm \<circ> fst) (sample_log b1 b2)) = [3, 4, 4]"
    using b by (simp add: sample_log_def owed_replies_def sample_entry_def sample_bsm_def register_session_req_def
        proposed_log_req_def session_context_def sample_client_def zero_context_def)
  moreover have "ent_index (fst (last (sample_log b1 b2))) = 3" "sample_log b1 b2 \<noteq> []" "rf_replies sample_raft = []"
    by (simp_all add: sample_log_def sample_entry_def sample_raft_def)
  ultimately show ?thesis
    using applied_answers_every_request [OF s sample_log_ok [OF b] sample_log_index sample_fsm_result, of sample_acquirer sample_any_rs]
    by (intro exI [of _ b1] exI [of _ b2]) auto
qed

text \<open>A request of a client whose session is kept: what \<^verbatim>\<open>ApplyNormalEntry\<close> hands to \<^verbatim>\<open>applyEntries\<close>.\<close>

lemma kept_session_entry:
  assumes "lru_ok (rf_sessions st)" and "client_request e = Some req" and "rc_sessionID (nr_context req) \<noteq> 0"
    and "lru_lookup (rf_sessions st) (rc_sessionID (nr_context req)) = Some s"
  shows "\<exists>m. apply_normal_entry (lru_ops acq rs) cluster_applied reqTime e (rf_sessions st) (rf_cluster st) =
      Ret (req, case map_of (se_result s) (rc_sequenceNum (nr_context req)) of None \<Rightarrow> zero_result | Some ar \<Rightarrow> ar,
        Some (RealSession (clear_result (rc_lowestSeqNumNotYetReplied (nr_context req)) s)), m, rf_cluster st) \<and> lru_ok m \<and>
      lru_lookup m = (lru_lookup (rf_sessions st))
        (rc_sessionID (nr_context req) \<mapsto> clear_result (rc_lowestSeqNumNotYetReplied (nr_context req)) s)"
proof -
  let ?ops = "lru_ops acq rs" and ?sid = "rc_sessionID (nr_context req)"
  let ?s = "clear_result (rc_lowestSeqNumNotYetReplied (nr_context req)) s"
  have e: "normal_unmarshal zero_normal (ent_data e) = Ret req" "nr_register req = None" "nr_pubAppService req = None"
    using assms(2) by (simp_all add: client_request_Some)
  have x: "so_expire ?ops reqTime (rf_sessions st) = rf_sessions st" by (simp add: lru_ops_def lru_expire_def)
  obtain m where m: "so_get ?ops ?sid (rf_sessions st) = (Ret (RealSession s), m)" "lru_ok m" "lru_lookup m = lru_lookup (rf_sessions st)"
    using lru.get_found [OF assms(1) _ assms(4), of acq rs] assms(3) by (auto simp: NoOPSessionID_def)
  have sid: "se_id ?s = ?sid" using lru_laws(4) [OF assms(1,4)] by (simp add: clear_result_def)
  have "lru_lookup m (se_id ?s) = Some s" using m(3) assms(4) sid by simp
  from lru.store_real [OF m(2) this, of acq rs] m(3) sid
  have "lru_ok (so_store ?ops (RealSession ?s) m)"
    "lru_lookup (so_store ?ops (RealSession ?s) m) = (lru_lookup (rf_sessions st))(?sid \<mapsto> ?s)" by simp_all
  moreover have "apply_normal_entry ?ops cluster_applied reqTime e (rf_sessions st) (rf_cluster st) =
      Ret (req, case map_of (se_result s) (rc_sequenceNum (nr_context req)) of None \<Rightarrow> zero_result | Some ar \<Rightarrow> ar,
        Some (RealSession ?s), so_store ?ops (RealSession ?s) m, rf_cluster st)"
    using e m(1) x by (auto simp: apply_normal_entry_def do_exactly_once_def repeat_sequence_num_def get_result_def
        split: option.split)
  ultimately show ?thesis by blast
qed

text \<open>
  When the session has no result for the request, or an empty one, the state machine is called, and
  the result is added unless the session still has one after \<^verbatim>\<open>ClearResult\<close>.
\<close>

lemma kept_session_call:
  assumes "lru_ok (rf_sessions st)" and "client_request e = Some req" and "rc_sessionID (nr_context req) \<noteq> 0"
    and "lru_lookup (rf_sessions st) (rc_sessionID (nr_context req)) = Some s"
    and "bsm_openAppliedIndex bsm < ent_index e"
    and "case map_of (se_result s) (rc_sequenceNum (nr_context req)) of None \<Rightarrow> True | Some ar \<Rightarrow> ar_is_empty ar"
    and "storage_apply fsm e req st = (ar, st1)"
  defines "s1 \<equiv> clear_result (rc_lowestSeqNumNotYetReplied (nr_context req)) s"
  shows "if map_of (se_result s1) (rc_sequenceNum (nr_context req)) \<noteq> None
    then apply_entry (lru_ops acq rs) cluster_applied fsm bsm (e, reqTime, now) st = Panic
    else \<exists>st'. apply_entry (lru_ops acq rs) cluster_applied fsm bsm (e, reqTime, now) st = Ret st' \<and>
      rf_fsm st' = rf_fsm st1 \<and> lru_ok (rf_sessions st') \<and>
      lru_lookup (rf_sessions st') (rc_sessionID (nr_context req)) =
        Some (s1\<lparr>se_lastActive := now, se_result := AList.update (rc_sequenceNum (nr_context req)) ar (se_result s1)\<rparr>)"
proof -
  let ?ops = "lru_ops acq rs" and ?sid = "rc_sessionID (nr_context req)" and ?seq = "rc_sequenceNum (nr_context req)"
  let ?ar = "case map_of (se_result s) ?seq of None \<Rightarrow> zero_result | Some ar \<Rightarrow> ar"
  let ?s2 = "s1\<lparr>se_lastActive := now, se_result := AList.update ?seq ar (se_result s1)\<rparr>"
  obtain m where m: "apply_normal_entry ?ops cluster_applied reqTime e (rf_sessions st) (rf_cluster st) =
      Ret (req, ?ar, Some (RealSession s1), m, rf_cluster st)" "lru_ok m" "lru_lookup m = (lru_lookup (rf_sessions st))(?sid \<mapsto> s1)"
    using kept_session_entry [OF assms(1-4)] unfolding s1_def by blast
  have d: "ent_data e \<noteq> []" "ent_type e = EntryNormal" "\<not> ent_index e \<le> bsm_openAppliedIndex bsm"
    using assms(2,5) by (simp_all add: client_request_Some)
  have ar: "ar_is_empty ?ar" using assms(6) by (auto split: option.splits)
  note run = apply_entry_def [of ?ops cluster_applied fsm bsm "(e, reqTime, now)" st]
  have "se_id ?s2 = ?sid" using lru_laws(4) [OF assms(1,4)] by (simp add: s1_def clear_result_def)
  moreover have "lru_lookup m ?sid = Some s1" using m(3) by simp
  ultimately have "lru_ok (so_store ?ops (RealSession ?s2) m)" "lru_lookup (so_store ?ops (RealSession ?s2) m) ?sid = Some ?s2"
    using lru.store_real [OF m(2), of ?s2 s1 acq rs] by simp_all
  then show ?thesis using m(1) d ar assms(7) unfolding run by (simp add: add_result_def split: option.split)
qed

lemma storage_apply_logging:
  "storage_apply (logging fsm) e req st =
     (ar, st1) \<Longrightarrow> executes st [ent_index e] st1 \<and>
       ar = fst (fsm \<lparr>fe_term = ent_term e, fe_index = ent_index e, fe_command = nr_stateMachineLog req\<rparr> (fst (rf_fsm st)))"
  by (auto simp: storage_apply_def logging_def executes_def split: prod.splits)


definition empty_result_raft :: "(u64 response lru_manager, cluster, nat \<times> u64 list, u64) raft_state" where
  "empty_result_raft = sample_raft\<lparr>rf_sessions := \<lparr>lru_maxSessions = 2, lru_sessions = [(1, 0)],
       lru_list = [(0, \<lparr>se_id = 1, se_lastActive = 5, se_result = []\<rparr>)], lru_fresh = 1\<rparr>\<rparr>"

definition empty_fsm :: "(nat, u64) fsm" where
  "empty_fsm e s = (zero_result, s + 1)"


text \<open>
  A state machine on disk is opened at the index it had reached; the entries up to it are skipped as
  a whole, together with what they mean for the sessions. A request in the skipped part leaves no
  result, and its retry is executed again although the state machine had executed it before the
  restart.
\<close>

theorem disk_restart_applies_again:
  assumes "lru_ok (rf_sessions st)" and "client_request e = Some req" and "client_request e' = Some req"
    and "bsm_isDiskType bsm" and "ent_index e \<le> bsm_openAppliedIndex bsm" and "bsm_openAppliedIndex bsm < ent_index e'"
    and "rc_sessionID (nr_context req) \<noteq> 0"
    and "lru_lookup (rf_sessions st) (rc_sessionID (nr_context req)) = Some s"
    and "map_of (se_result s) (rc_sequenceNum (nr_context req)) = None"
  shows "\<exists>st'. apply_loop (lru_ops acq rs) cluster_applied (logging fsm) bsm [(e, t1, t2), (e', t3, t4)] st = Ret st' \<and>
    snd (rf_fsm st') = snd (rf_fsm st) @ [ent_index e']"
proof -
  let ?ops = "lru_ops acq rs" and ?sid = "rc_sessionID (nr_context req)" and ?seq = "rc_sequenceNum (nr_context req)"
  let ?s = "clear_result (rc_lowestSeqNumNotYetReplied (nr_context req)) s"
  have d: "ent_data e \<noteq> []" "ent_type e = EntryNormal" using assms(2) by (simp_all add: client_request_Some)
  have e': "ent_data e' \<noteq> []" "ent_type e' = EntryNormal" "normal_unmarshal zero_normal (ent_data e') = Ret req"
      "nr_register req = None" "nr_pubAppService req = None" using assms(3) by (simp_all add: client_request_Some)
  have "so_expire ?ops t3 (rf_sessions st) = rf_sessions st" by (simp add: lru_ops_def lru_expire_def)
  moreover obtain m1 where "so_get ?ops ?sid (rf_sessions st) = (Ret (RealSession s), m1)"
    using lru.get_found [OF assms(1) _ assms(8)] assms(7) by (auto simp: NoOPSessionID_def)
  ultimately have a: "apply_normal_entry ?ops cluster_applied t3 e' (rf_sessions st) (rf_cluster st) =
      Ret (req, zero_result, Some (RealSession ?s), so_store ?ops (RealSession ?s) m1, rf_cluster st)"
    using e' assms(9) by (simp add: apply_normal_entry_def do_exactly_once_def repeat_sequence_num_def)
  have "map_of (se_result ?s) ?seq = None" using assms(9) by (simp add: map_of_clear)
  moreover have "\<not> ent_index e' \<le> bsm_openAppliedIndex bsm" using assms(6) by simp
  ultimately show ?thesis using a e' d assms(4,5)
    by (simp add: apply_entry_def storage_apply_def add_result_def logging_def case_prod_beta)
qed

end
