(* ===== verification/Peer_Manager.thy ===== *)
theory Peer_Manager
  imports Babuza_Prelude
begin

text \<open>
  The connections to the other members of the groups: \<^verbatim>\<open>pkg/transport/peer_manager.go\<close>. Members of
  several groups at one address share a connection, which is counted and stopped with its last
  user. A connection is an object the factory creates; here it is a number, and the state keeps
  which numbers were handed out and which were stopped. The theory shows that the manager is a map
  from members to addresses in which exactly the addresses in use have a running connection.
\<close>

section \<open>The manager\<close>

type_synonym peer_id = "u64 \<times> u64"

record peer_manager =
  pm_peers :: "(bytes \<times> nat) list"
  pm_addresses :: "(peer_id \<times> bytes) list"
  pm_refCounts :: "(bytes \<times> int) list"
  pm_created :: nat
  pm_stopped :: "nat list"

datatype peer_error = PeerNotFound u64 u64 | PeerExists u64 u64 | PeerAddressNotFound u64 u64 | PeerMissingAt bytes | NoPeerAt bytes

definition new_peer_manager :: peer_manager where
  "new_peer_manager = \<lparr>pm_peers = [], pm_addresses = [], pm_refCounts = [], pm_created = 0, pm_stopped = []\<rparr>"

definition ref_count :: "peer_manager \<Rightarrow> bytes \<Rightarrow> int" where
  "ref_count m a = (case map_of (pm_refCounts m) a of Some n \<Rightarrow> n | None \<Rightarrow> 0)"

definition get_peer :: "u64 \<Rightarrow> u64 \<Rightarrow> peer_manager \<Rightarrow> (peer_error, nat) outcome" where
  "get_peer groupID peerID m =
     (case map_of (pm_addresses m) (groupID, peerID) of
        None \<Rightarrow> Fail (PeerNotFound groupID peerID)
      | Some address \<Rightarrow>
          (case map_of (pm_peers m) address of
             None \<Rightarrow> Fail (PeerMissingAt address)
           | Some p \<Rightarrow> Ret p))"

definition retain_address :: "bytes \<Rightarrow> peer_manager \<Rightarrow> peer_manager" where
  "retain_address a m =
     (if map_of (pm_peers m) a \<noteq> None then m\<lparr>pm_refCounts := AList.update a (ref_count m a + 1) (pm_refCounts m)\<rparr>
      else m\<lparr>pm_peers := AList.update a (pm_created m) (pm_peers m), pm_created := Suc (pm_created m),
             pm_refCounts := AList.update a 1 (pm_refCounts m)\<rparr>)"

text \<open>
  \<^verbatim>\<open>releaseAddressLocked\<close> returns the connection to stop, if the count reached zero. A missing
  connection would be the nil value of its type, whose \<^verbatim>\<open>Stop\<close> panics: the outer option.
\<close>

definition release_address :: "bytes \<Rightarrow> peer_manager \<Rightarrow> nat option option \<times> peer_manager" where
  "release_address a m =
     (let m1 = m\<lparr>pm_refCounts := AList.update a (ref_count m a - 1) (pm_refCounts m)\<rparr>
      in if 0 < ref_count m1 a then (None, m1)
         else (Some (map_of (pm_peers m1) a),
               m1\<lparr>pm_peers := AList.delete a (pm_peers m1), pm_refCounts := AList.delete a (pm_refCounts m1)\<rparr>))"

definition stop_peer_if_needed :: "nat option option \<Rightarrow> peer_manager \<Rightarrow> (peer_error, peer_manager) outcome" where
  "stop_peer_if_needed p m =
     (case p of
        None \<Rightarrow> Ret m
      | Some None \<Rightarrow> Panic
      | Some (Some h) \<Rightarrow> Ret (m\<lparr>pm_stopped := pm_stopped m @ [h]\<rparr>))"

definition add_peer :: "u64 \<Rightarrow> u64 \<Rightarrow> bytes \<Rightarrow> peer_manager \<Rightarrow> (peer_error, peer_manager) outcome" where
  "add_peer groupID peerID a m =
     (if map_of (pm_addresses m) (groupID, peerID) = None then
        Ret (retain_address a (m\<lparr>pm_addresses := AList.update (groupID, peerID) a (pm_addresses m)\<rparr>))
      else Fail (PeerExists groupID peerID))"

definition update_peer :: "u64 \<Rightarrow> u64 \<Rightarrow> bytes \<Rightarrow> peer_manager \<Rightarrow> (peer_error, peer_manager) outcome" where
  "update_peer groupID peerID a m =
     (case map_of (pm_addresses m) (groupID, peerID) of
        None \<Rightarrow> Fail (PeerNotFound groupID peerID)
      | Some old \<Rightarrow>
          if old = a then Ret m
          else (case release_address old m of
                  (peerToStop, m1) \<Rightarrow>
                    stop_peer_if_needed peerToStop
                      (retain_address a (m1\<lparr>pm_addresses := AList.update (groupID, peerID) a (pm_addresses m1)\<rparr>))))"

definition remove_peer :: "u64 \<Rightarrow> u64 \<Rightarrow> peer_manager \<Rightarrow> (peer_error, peer_manager) outcome" where
  "remove_peer groupID peerID m =
     (case map_of (pm_addresses m) (groupID, peerID) of
        None \<Rightarrow> Fail (PeerNotFound groupID peerID)
      | Some a \<Rightarrow>
          (case release_address a (m\<lparr>pm_addresses := AList.delete (groupID, peerID) (pm_addresses m)\<rparr>) of
             (peerToStop, m1) \<Rightarrow> stop_peer_if_needed peerToStop m1))"

definition remove_all_peers :: "peer_manager \<Rightarrow> peer_manager" where
  "remove_all_peers m =
     m\<lparr>pm_peers := [], pm_addresses := [], pm_refCounts := [], pm_stopped := pm_stopped m @ map snd (pm_peers m)\<rparr>"

definition resolve_peer_address :: "u64 \<Rightarrow> u64 \<Rightarrow> peer_manager \<Rightarrow> (peer_error, bytes) outcome" where
  "resolve_peer_address groupID peerID m =
     (case map_of (pm_addresses m) (groupID, peerID) of
        None \<Rightarrow> Fail (PeerAddressNotFound groupID peerID)
      | Some a \<Rightarrow> Ret a)"

definition get_peer_by_address :: "bytes \<Rightarrow> peer_manager \<Rightarrow> (peer_error, nat) outcome" where
  "get_peer_by_address a m = (case map_of (pm_peers m) a of None \<Rightarrow> Fail (NoPeerAt a) | Some p \<Rightarrow> Ret p)"

section \<open>The invariant\<close>

definition users :: "(peer_id \<times> bytes) list \<Rightarrow> bytes \<Rightarrow> nat" where
  "users as a = count_list (map snd as) a"

text \<open>
  Every address in use has one running connection and the count of its users; every connection that
  was created is either running or was stopped, once.
\<close>

definition counts_ok :: "peer_manager \<Rightarrow> (bytes \<Rightarrow> nat) \<Rightarrow> bool" where
  "counts_ok m u \<longleftrightarrow>
     map_ok (pm_peers m) \<and> map_ok (pm_refCounts m) \<and>
     (\<forall>a. map_of (pm_refCounts m) a = (if u a = 0 then None else Some (int (u a)))) \<and>
     (\<forall>a. map_of (pm_peers m) a = None \<longleftrightarrow> u a = 0) \<and>
     mset (map snd (pm_peers m)) + mset (pm_stopped m) = mset [0..<pm_created m]"

definition pm_ok :: "peer_manager \<Rightarrow> bool" where
  "pm_ok m \<longleftrightarrow> map_ok (pm_addresses m) \<and> counts_ok m (users (pm_addresses m))"

lemma users_update_new:
  "map_of as k = None \<Longrightarrow> users (AList.update k a as) = (users as)(a := Suc (users as a))"
  by (rule ext) (simp add: users_def update_absent)

lemma delete_absent: "map_of as k = None \<Longrightarrow> AList.delete k as = as"
  by (simp add: delete_idem map_of_eq_None_iff)

lemma map_of_in_range: "map_of as k = Some v \<Longrightarrow> v \<in> set (map snd as)"
  by (force dest: map_of_SomeD)

lemma stopped_self [simp]: "m\<lparr>pm_stopped := pm_stopped m\<rparr> = m"
  by (cases m) simp

lemma users_pos: "map_of as k = Some a \<Longrightarrow> 0 < users as a"
  using map_of_in_range [of as k a] count_list_0_iff [of "map snd as" a] by (simp add: users_def)

lemma users_Cons: "users ((k, v) # as) a = (if v = a then Suc (users as a) else users as a)"
  by (simp add: users_def)

lemma users_delete:
  "map_ok as \<Longrightarrow> map_of as k = Some a \<Longrightarrow> users (AList.delete k as) = (users as)(a := users as a - 1)"
proof (induction as)
  case (Cons e as)
  obtain k' v where e: "e = (k', v)" by (cases e)
  show ?case
  proof (cases "k' = k")
    case True
    then show ?thesis using Cons.prems by (intro ext) (simp add: e users_Cons delete_absent)
  next
    case False
    then have "users (AList.delete k as) = (users as)(a := users as a - 1)" "0 < users as a"
      using Cons e users_pos [of as k a] by auto
    then show ?thesis using False by (intro ext) (simp add: e users_Cons)
  qed
qed simp

lemma users_update:
  "map_ok as \<Longrightarrow> map_of as k = Some old \<Longrightarrow> a \<noteq> old \<Longrightarrow>
   users (AList.update k a as) = (users as)(old := users as old - 1, a := Suc (users as a))"
proof (induction as)
  case (Cons e as)
  obtain k' v where e: "e = (k', v)" by (cases e)
  show ?case
  proof (cases "k' = k")
    case True
    then show ?thesis using Cons.prems by (intro ext) (simp add: e users_Cons)
  next
    case False
    then have "users (AList.update k a as) = (users as)(old := users as old - 1, a := Suc (users as a))" "0 < users as old"
      using Cons e users_pos [of as k old] by auto
    then show ?thesis using False Cons.prems(3) by (intro ext) (simp add: e users_Cons)
  qed
qed simp

lemma mset_delete:
  "map_ok ps \<Longrightarrow> map_of ps a = Some h \<Longrightarrow> mset (map snd ps) = add_mset h (mset (map snd (AList.delete a ps)))"
  by (induction ps) (auto simp: delete_absent split: if_splits)

lemma counts_okD:
  assumes "counts_ok m u"
  shows "map_ok (pm_peers m)" and "map_ok (pm_refCounts m)"
    and "map_of (pm_refCounts m) a = (if u a = 0 then None else Some (int (u a)))"
    and "map_of (pm_peers m) a = None \<longleftrightarrow> u a = 0"
    and "mset (map snd (pm_peers m)) + mset (pm_stopped m) = mset [0..<pm_created m]"
  using assms by (simp_all only: counts_ok_def)

lemma counts_ok_ref: "counts_ok m u \<Longrightarrow> ref_count m a = int (u a)"
  by (simp add: counts_ok_def ref_count_def)

lemma retain_address_ok:
  assumes "counts_ok m u"
  shows "counts_ok (retain_address a m) (u(a := Suc (u a)))"
proof (cases "map_of (pm_peers m) a = None")
  case True
  then have "AList.update a (pm_created m) (pm_peers m) = pm_peers m @ [(a, pm_created m)]" by (rule update_absent)
  moreover have "map_ok (AList.update a (pm_created m) (pm_peers m))" using assms by (simp add: counts_ok_def)
  ultimately show ?thesis using assms True by (auto simp: counts_ok_def retain_address_def)
next
  case False
  then have "u a \<noteq> 0" using counts_okD(4) [OF assms, of a] by simp
  moreover have "retain_address a m = m\<lparr>pm_refCounts := AList.update a (int (u a) + 1) (pm_refCounts m)\<rparr>"
    using False counts_ok_ref [OF assms, of a] by (simp add: retain_address_def)
  ultimately show ?thesis using assms by (simp add: counts_ok_def)
qed

lemma retain_address_addresses [simp]: "pm_addresses (retain_address a m) = pm_addresses m"
  by (simp add: retain_address_def)

text \<open>The connections that are stopped after the lock is released.\<close>

definition pending :: "nat option option \<Rightarrow> nat list" where
  "pending p = (case p of Some (Some h) \<Rightarrow> [h] | _ \<Rightarrow> [])"

definition stop_all :: "nat list \<Rightarrow> peer_manager \<Rightarrow> peer_manager" where
  "stop_all hs m = m\<lparr>pm_stopped := pm_stopped m @ hs\<rparr>"

lemma stop_peer_pending: "p \<noteq> Some None \<Longrightarrow> stop_peer_if_needed p m = Ret (stop_all (pending p) m)"
  by (auto simp: stop_peer_if_needed_def pending_def stop_all_def split: option.split)

lemma stop_all_commutes:
  "stop_all hs (retain_address a m) = retain_address a (stop_all hs m)"
  "stop_all hs (m\<lparr>pm_addresses := as\<rparr>) = (stop_all hs m)\<lparr>pm_addresses := as\<rparr>"
  "pm_addresses (stop_all hs m) = pm_addresses m"
  by (simp_all add: stop_all_def retain_address_def ref_count_def)

lemma counts_ok_addresses [simp]: "counts_ok (m\<lparr>pm_addresses := as\<rparr>) u = counts_ok m u"
  by (simp add: counts_ok_def)

lemma release_address_ok:
  assumes "counts_ok m u" and "0 < u a" and "release_address a m = (p, m')"
  shows "p \<noteq> Some None" and "pm_addresses m' = pm_addresses m" and "counts_ok (stop_all (pending p) m') (u(a := u a - 1))"
proof -
  note c = counts_okD [OF assms(1)]
  obtain h where h: "map_of (pm_peers m) a = Some h" using c(4) [of a] assms(2) by (cases "map_of (pm_peers m) a") simp_all
  note n = counts_ok_ref [OF assms(1), of a]
  let ?m1 = "m\<lparr>pm_refCounts := AList.update a (int (u a) - 1) (pm_refCounts m)\<rparr>"
  have r1: "ref_count ?m1 a = int (u a) - 1" by (simp add: ref_count_def)
  have "p \<noteq> Some None \<and> pm_addresses m' = pm_addresses m \<and> counts_ok (stop_all (pending p) m') (u(a := u a - 1))"
  proof (cases "u a = 1")
    case True
    let ?m2 = "?m1\<lparr>pm_peers := AList.delete a (pm_peers m), pm_refCounts := AList.delete a (pm_refCounts ?m1)\<rparr>"
    have "p = Some (Some h)" "m' = ?m2" using assms(3) n r1 True h by (simp_all add: release_address_def)
    then show ?thesis
      using True assms(1) mset_delete [OF c(1) h] by (simp add: counts_ok_def pending_def stop_all_def)
  next
    case False
    then have "p = None" "m' = ?m1" using assms(2,3) n r1 by (simp_all add: release_address_def)
    then show ?thesis using assms(1,2) False by (simp add: counts_ok_def pending_def stop_all_def of_nat_diff)
  qed
  then show "p \<noteq> Some None" "pm_addresses m' = pm_addresses m" "counts_ok (stop_all (pending p) m') (u(a := u a - 1))"
    by simp_all
qed

section \<open>The operations\<close>

lemma new_peer_manager_ok: "pm_ok new_peer_manager"
  by (simp add: pm_ok_def counts_ok_def new_peer_manager_def users_def)

lemma add_peer_ok:
  assumes "pm_ok m" and "map_of (pm_addresses m) (g, k) = None"
  shows "\<exists>m'. add_peer g k a m = Ret m' \<and> pm_ok m' \<and> map_of (pm_addresses m') = (map_of (pm_addresses m))((g, k) \<mapsto> a)"
  using assms retain_address_ok [of "m\<lparr>pm_addresses := AList.update (g, k) a (pm_addresses m)\<rparr>" "users (pm_addresses m)" a]
  by (simp add: add_peer_def pm_ok_def users_update_new)

lemma remove_peer_ok:
  assumes "pm_ok m" and "map_of (pm_addresses m) (g, k) = Some a"
  shows "\<exists>m'. remove_peer g k m = Ret m' \<and> pm_ok m' \<and> map_of (pm_addresses m') = (map_of (pm_addresses m))((g, k) := None)"
proof -
  let ?as = "AList.delete (g, k) (pm_addresses m)"
  obtain p m1 where r: "release_address a (m\<lparr>pm_addresses := ?as\<rparr>) = (p, m1)" by fastforce
  have c: "counts_ok (m\<lparr>pm_addresses := ?as\<rparr>) (users (pm_addresses m))" "0 < users (pm_addresses m) a"
    using assms users_pos by (simp_all add: pm_ok_def)
  note ok = release_address_ok [OF c r]
  have "map_ok (pm_addresses m)" using assms(1) by (simp add: pm_ok_def)
  then show ?thesis using assms(2) r ok stop_peer_pending [OF ok(1), of m1] users_delete [OF \<open>map_ok (pm_addresses m)\<close> assms(2)]
    by (simp add: remove_peer_def pm_ok_def stop_all_commutes)
qed

lemma update_peer_ok:
  assumes "pm_ok m" and "map_of (pm_addresses m) (g, k) = Some old"
  shows "\<exists>m'. update_peer g k a m = Ret m' \<and> pm_ok m' \<and> map_of (pm_addresses m') = (map_of (pm_addresses m))((g, k) \<mapsto> a)"
proof (cases "old = a")
  case True
  then show ?thesis using assms by (auto simp: update_peer_def)
next
  case False
  let ?as = "AList.update (g, k) a (pm_addresses m)"
  obtain p m1 where r: "release_address old m = (p, m1)" by fastforce
  have c: "counts_ok m (users (pm_addresses m))" "0 < users (pm_addresses m) old" "map_ok (pm_addresses m)"
    using assms users_pos by (simp_all add: pm_ok_def)
  note ok = release_address_ok [OF c(1,2) r]
  let ?m2 = "retain_address a ((stop_all (pending p) m1)\<lparr>pm_addresses := ?as\<rparr>)"
  have "update_peer g k a m = Ret ?m2"
    using assms(2) False r ok(2) stop_peer_pending [OF ok(1)] by (simp add: update_peer_def stop_all_commutes)
  moreover have "counts_ok ((stop_all (pending p) m1)\<lparr>pm_addresses := ?as\<rparr>) ((users (pm_addresses m))(old := users (pm_addresses m) old - 1))"
    using ok(3) by simp
  then have "counts_ok ?m2 (users ?as)"
    using retain_address_ok [where a = a] users_update [OF c(3) assms(2), of a] False by fastforce
  ultimately show ?thesis using c(3) by (simp add: pm_ok_def)
qed

lemma remove_all_ok:
  "pm_ok m \<Longrightarrow> pm_ok (remove_all_peers m) \<and> pm_addresses (remove_all_peers m) = []"
  by (simp add: pm_ok_def counts_ok_def remove_all_peers_def users_def add.commute)

section \<open>A map from members to addresses\<close>

datatype peer_op = AddPeer u64 u64 bytes | UpdatePeer u64 u64 bytes | RemovePeer u64 u64 | RemoveAllPeers

definition peer_step :: "peer_op \<Rightarrow> peer_manager \<Rightarrow> (peer_error, peer_manager) outcome" where
  "peer_step op m =
     (case op of
        AddPeer g k a \<Rightarrow> add_peer g k a m
      | UpdatePeer g k a \<Rightarrow> update_peer g k a m
      | RemovePeer g k \<Rightarrow> remove_peer g k m
      | RemoveAllPeers \<Rightarrow> Ret (remove_all_peers m))"

text \<open>The contract: what the same operation does to a map from members to addresses.\<close>

definition peer_spec :: "peer_op \<Rightarrow> (peer_id \<rightharpoonup> bytes) \<Rightarrow> (peer_error, peer_id \<rightharpoonup> bytes) outcome" where
  "peer_spec op f =
     (case op of
        AddPeer g k a \<Rightarrow> if f (g, k) = None then Ret (f((g, k) \<mapsto> a)) else Fail (PeerExists g k)
      | UpdatePeer g k a \<Rightarrow> if f (g, k) = None then Fail (PeerNotFound g k) else Ret (f((g, k) \<mapsto> a))
      | RemovePeer g k \<Rightarrow> if f (g, k) = None then Fail (PeerNotFound g k) else Ret (f((g, k) := None))
      | RemoveAllPeers \<Rightarrow> Ret Map.empty)"

text \<open>A sequence of calls; a call that returns an error has not changed the state.\<close>

primrec run_calls :: "('op \<Rightarrow> 's \<Rightarrow> ('e, 's) outcome) \<Rightarrow> 'op list \<Rightarrow> 's \<Rightarrow> ('e, 's) outcome" where
  "run_calls f [] s = Ret s"
| "run_calls f (op # ops) s =
     (case f op s of Ret s' \<Rightarrow> run_calls f ops s' | Fail _ \<Rightarrow> run_calls f ops s | Panic \<Rightarrow> Panic)"

lemma peer_step_simulates:
  assumes "pm_ok m"
  shows "case peer_step op m of
           Ret m' \<Rightarrow> pm_ok m' \<and> peer_spec op (map_of (pm_addresses m)) = Ret (map_of (pm_addresses m'))
         | Fail e \<Rightarrow> peer_spec op (map_of (pm_addresses m)) = Fail e
         | Panic \<Rightarrow> False"
proof (cases op)
  case (AddPeer g k a)
  then show ?thesis
    using add_peer_ok [OF assms, of g k a] by (auto simp: peer_step_def peer_spec_def add_peer_def)
next
  case (UpdatePeer g k a)
  then show ?thesis
    using update_peer_ok [OF assms, of g k _ a]
    by (cases "map_of (pm_addresses m) (g, k)") (auto simp: peer_step_def peer_spec_def update_peer_def [of g k a m])
next
  case (RemovePeer g k)
  then show ?thesis
    using remove_peer_ok [OF assms, of g k]
    by (cases "map_of (pm_addresses m) (g, k)") (auto simp: peer_step_def peer_spec_def remove_peer_def [of g k m])
next
  case RemoveAllPeers
  then show ?thesis using remove_all_ok [OF assms] by (simp add: peer_step_def peer_spec_def)
qed

lemma run_peers_simulates:
  assumes "pm_ok m"
  shows "\<exists>m'. run_calls peer_step ops m = Ret m' \<and> pm_ok m' \<and>
           run_calls peer_spec ops (map_of (pm_addresses m)) = Ret (map_of (pm_addresses m'))"
  using assms
proof (induction ops arbitrary: m)
  case (Cons op ops)
  show ?case
    using peer_step_simulates [OF Cons.prems, of op] Cons.IH Cons.prems by (cases "peer_step op m") auto
qed simp

lemma pm_ok_get_peer:
  assumes "pm_ok m"
  shows "get_peer g k m =
           (case map_of (pm_addresses m) (g, k) of
              None \<Rightarrow> Fail (PeerNotFound g k)
            | Some a \<Rightarrow> Ret (the (map_of (pm_peers m) a)))"
proof (cases "map_of (pm_addresses m) (g, k)")
  case (Some a)
  then show ?thesis
    using users_pos [OF Some] counts_okD(4) [of m "users (pm_addresses m)" a] assms
    by (cases "map_of (pm_peers m) a") (simp_all add: get_peer_def pm_ok_def)
qed (simp add: get_peer_def)

lemma running_not_stopped:
  assumes "pm_ok m"
  shows "distinct (map snd (pm_peers m) @ pm_stopped m)"
proof -
  have "mset (map snd (pm_peers m) @ pm_stopped m) = mset [0..<pm_created m]"
    using assms counts_okD(5) [of m "users (pm_addresses m)"] by (simp add: pm_ok_def)
  then show ?thesis by (metis distinct_upt mset_eq_imp_distinct_iff)
qed

lemma users_zero_iff: "users as a = 0 \<longleftrightarrow> a \<notin> set (map snd as)"
  by (simp only: users_def count_list_0_iff)

lemma pm_ok_running:
  assumes "pm_ok m"
  shows "dom (map_of (pm_peers m)) = ran (map_of (pm_addresses m))"
proof -
  have "ran (map_of (pm_addresses m)) = set (map snd (pm_addresses m))"
    using assms by (simp add: pm_ok_def map_ok_def ran_distinct)
  moreover have "a \<in> dom (map_of (pm_peers m)) \<longleftrightarrow> users (pm_addresses m) a \<noteq> 0" for a
    using assms counts_okD(4) [of m "users (pm_addresses m)" a] by (auto simp: pm_ok_def)
  ultimately show ?thesis by (auto simp only: users_zero_iff)
qed

text \<open>
  C18. After any sequence of calls from the empty manager the members and addresses are those of the
  map the same calls give, with the same errors in between and no panic. A connection is running
  exactly for the addresses in use, a lookup of a member returns it, and every connection the factory created is running or was
  stopped, exactly once.
\<close>

theorem peer_manager_refines:
  "\<exists>m. run_calls peer_step ops new_peer_manager = Ret m \<and>
       run_calls peer_spec ops Map.empty = Ret (map_of (pm_addresses m)) \<and>
       dom (map_of (pm_peers m)) = ran (map_of (pm_addresses m)) \<and>
       (\<forall>g k. get_peer g k m =
          (case map_of (pm_addresses m) (g, k) of
             None \<Rightarrow> Fail (PeerNotFound g k)
           | Some a \<Rightarrow> Ret (the (map_of (pm_peers m) a)))) \<and>
       mset (map snd (pm_peers m)) + mset (pm_stopped m) = mset [0..<pm_created m]"
proof -
  obtain m where m: "run_calls peer_step ops new_peer_manager = Ret m" "pm_ok m"
    "run_calls peer_spec ops Map.empty = Ret (map_of (pm_addresses m))"
    using run_peers_simulates [OF new_peer_manager_ok, of ops] by (auto simp: new_peer_manager_def)
  then show ?thesis using pm_ok_running [OF m(2)] pm_ok_get_peer [OF m(2)] counts_okD(5) by (auto simp: pm_ok_def)
qed

end
