(* ===== verification/Conf_Change.thy ===== *)
theory Conf_Change
  imports Apply Peer_Manager
begin

text \<open>
  Changes of the membership: \<^verbatim>\<open>ApplyConfChangeEntry\<close> of \<^verbatim>\<open>raft/applied_facade.go\<close> with the functions it
  calls, \<^verbatim>\<open>applyConfChangeEntry\<close> of \<^verbatim>\<open>raft/raft_ready.go\<close>, the transports of \<^verbatim>\<open>pkg/transport\<close> that it
  tells about peers, and the three places that fill a transport: \<^verbatim>\<open>startNode\<close> and \<^verbatim>\<open>restartNode\<close> of
  \<^verbatim>\<open>raft/bootstrap.go\<close> and \<^verbatim>\<open>applySnapshot\<close> of \<^verbatim>\<open>raft/raft_apply.go\<close>. The decoder of a \<^verbatim>\<open>raftpb.ConfChange\<close>
  and the raft node that applies it belong to another module and are arguments. The result is that
  the transport keeps a connection to every other member at the address the membership has for it.
\<close>

section \<open>The change and its effects\<close>

datatype conf_change_type =
    ConfChangeAddNode | ConfChangeRemoveNode | ConfChangeUpdateNode | ConfChangeAddLearnerNode
  | OtherChange u32

record conf_change =
  cc_type :: conf_change_type
  cc_nodeID :: u64
  cc_context :: bytes

datatype member_event =
    MemberJoined | MemberUpdated | MemberRemoved | LeanerAdded | LeanerPromoted
  | LeaderChanged | AcquiredLeader | LostLeader | RemoveSelf

record raft_event =
  re_event :: member_event
  re_groupID :: u64
  re_peerID :: u64

definition raftNone :: u64 where "raftNone = 0"

text \<open>\<^verbatim>\<open>AppliedTransport\<close>, an interface with an adaptor for each of the two transports.\<close>

record 't applied_transport =
  at_add :: "u64 \<Rightarrow> u64 \<Rightarrow> bytes \<Rightarrow> 't \<Rightarrow> (unit, 't) outcome"
  at_update :: "u64 \<Rightarrow> u64 \<Rightarrow> bytes \<Rightarrow> 't \<Rightarrow> (unit, 't) outcome"
  at_remove :: "u64 \<Rightarrow> u64 \<Rightarrow> 't \<Rightarrow> (unit, 't) outcome"

text \<open>A transport logs the error of its peer manager and goes on.\<close>

definition logged :: "'t \<Rightarrow> ('e, 't) outcome \<Rightarrow> (unit, 't) outcome" where
  "logged t r = (case r of Ret t' \<Rightarrow> Ret t' | Fail _ \<Rightarrow> Ret t | Panic \<Rightarrow> Panic)"

definition trans_add :: "u64 \<Rightarrow> bytes \<Rightarrow> peer_manager \<Rightarrow> (unit, peer_manager) outcome" where
  "trans_add peerID peerAddress t = logged t (add_peer 0 peerID peerAddress t)"

definition trans_update :: "u64 \<Rightarrow> bytes \<Rightarrow> peer_manager \<Rightarrow> (unit, peer_manager) outcome" where
  "trans_update peerID peerAddress t = logged t (update_peer 0 peerID peerAddress t)"

definition trans_remove :: "u64 \<Rightarrow> peer_manager \<Rightarrow> (unit, peer_manager) outcome" where
  "trans_remove peerID t = logged t (remove_peer 0 peerID t)"

definition transport_adaptor :: "peer_manager applied_transport" where
  "transport_adaptor = \<lparr>at_add = (\<lambda>g k a. trans_add k a), at_update = (\<lambda>g k a. trans_update k a),
     at_remove = (\<lambda>g k. trans_remove k)\<rparr>"

definition multi_add :: "u64 \<Rightarrow> u64 \<Rightarrow> bytes \<Rightarrow> peer_manager \<Rightarrow> (unit, peer_manager) outcome" where
  "multi_add groupID peerID peerAddress t = logged t (add_peer groupID peerID peerAddress t)"

definition multi_update :: "u64 \<Rightarrow> u64 \<Rightarrow> bytes \<Rightarrow> peer_manager \<Rightarrow> (unit, peer_manager) outcome" where
  "multi_update groupID peerID peerAddress t = logged t (update_peer groupID peerID peerAddress t)"

definition multi_remove :: "u64 \<Rightarrow> u64 \<Rightarrow> peer_manager \<Rightarrow> (unit, peer_manager) outcome" where
  "multi_remove groupID peerID t = logged t (remove_peer groupID peerID t)"

definition multi_transport :: "peer_manager applied_transport" where
  "multi_transport = \<lparr>at_add = multi_add, at_update = multi_update, at_remove = multi_remove\<rparr>"

section \<open>The facade\<close>

text \<open>
  The state the facade changes: the sessions, the membership, the raft node, the transport, the
  published events (none without a publisher) and the gauge that tells whether the local peer is a
  learner.
\<close>

record ('m, 'c, 'n, 't) facade =
  fa_sessions :: 'm
  fa_cluster :: 'c
  fa_node :: 'n
  fa_trans :: 't
  fa_events :: "raft_event list option"
  fa_isLearner :: nat

type_synonym 'n raft_node = "conf_change \<Rightarrow> 'n \<Rightarrow> conf_state \<times> 'n"

definition raft_apply_conf_change ::
  "'n raft_node \<Rightarrow> u64 \<Rightarrow> conf_change \<Rightarrow> 'n \<Rightarrow> (bytes, conf_state option) outcome \<times> 'n" where
  "raft_apply_conf_change node clusterID cc n = (case node cc n of (cs, n') \<Rightarrow> (Ret (Some cs), n'))"

fun change_number :: "conf_change_type \<Rightarrow> bytes" where
  "change_number ConfChangeAddNode = itoa 0"
| "change_number ConfChangeRemoveNode = itoa 1"
| "change_number ConfChangeUpdateNode = itoa 2"
| "change_number ConfChangeAddLearnerNode = itoa 3"
| "change_number (OtherChange n) =
     (if sint n < 0 then str ''-'' @ itoa (nat (- sint n)) else itoa (nat (sint n)))"

definition with_text :: "(cluster_error, unit) outcome \<times> 'c \<Rightarrow> (bytes, unit) outcome \<times> 'c" where
  "with_text r = (case r of
     (Ret u, c) \<Rightarrow> (Ret u, c) | (Fail e, c) \<Rightarrow> (Fail (cluster_err_text e), c) | (Panic, c) \<Rightarrow> (Panic, c))"

definition cluster_validate_and_apply ::
  "'c applied_cluster \<Rightarrow> conf_change_type \<Rightarrow> conf_change_request \<Rightarrow> 'c \<Rightarrow> (bytes, unit) outcome \<times> 'c" where
  "cluster_validate_and_apply ac changeType req c =
     (case changeType of
        ConfChangeRemoveNode \<Rightarrow> with_text (ac_remove ac (rp_peerID (cr_raftPeerAttr req)) c)
      | ConfChangeUpdateNode \<Rightarrow> with_text (ac_update ac (rp_peerID (cr_raftPeerAttr req)) (cr_raftPeerAttr req) c)
      | OtherChange _ \<Rightarrow> (Fail (str ''cluster: not support changeType('' @ change_number changeType @ str '')''), c)
      | _ \<Rightarrow> if cr_promoteLearner req then with_text (ac_promote ac (rp_peerID (cr_raftPeerAttr req)) c)
             else with_text (ac_add ac (cr_raftPeerAttr req) c))"

definition parse_conf_change_entry ::
  "(bytes \<Rightarrow> conf_change option) \<Rightarrow> entry \<Rightarrow> (conf_change \<times> conf_change_request) option" where
  "parse_conf_change_entry decode e =
     (case decode (ent_data e) of
        None \<Rightarrow> None
      | Some cc \<Rightarrow>
          (case conf_req_unmarshal zero_conf_req (cc_context cc) of
             Ret confReq \<Rightarrow>
               if cc_nodeID cc \<noteq> rp_peerID (cr_raftPeerAttr confReq) then None else Some (cc, confReq)
           | _ \<Rightarrow> None))"

definition publish_member_event ::
  "member_event \<Rightarrow> u64 \<Rightarrow> u64 \<Rightarrow> raft_event list option \<Rightarrow> raft_event list option" where
  "publish_member_event event groupID peerID evs =
     map_option (\<lambda>es. es @ [\<lparr>re_event = event, re_groupID = groupID, re_peerID = peerID\<rparr>]) evs"

definition process_member_event ::
  "conf_change_type \<Rightarrow> conf_change_request \<Rightarrow> raft_event list option \<Rightarrow> raft_event list option" where
  "process_member_event ccType confReq evs =
     (let publish = (\<lambda>event. publish_member_event event (cr_groupID confReq) (rp_peerID (cr_raftPeerAttr confReq)) evs)
      in case ccType of
           ConfChangeAddNode \<Rightarrow> publish (if cr_promoteLearner confReq then LeanerPromoted else MemberJoined)
         | ConfChangeAddLearnerNode \<Rightarrow> publish LeanerAdded
         | ConfChangeRemoveNode \<Rightarrow> publish MemberRemoved
         | ConfChangeUpdateNode \<Rightarrow> publish MemberUpdated
         | OtherChange _ \<Rightarrow> evs)"

text \<open>What the change does to the transport, and whether the local peer was removed.\<close>

definition change_peers ::
  "'t applied_transport \<Rightarrow> u64 \<Rightarrow> conf_change \<Rightarrow> conf_change_request \<Rightarrow> 't \<Rightarrow> (unit, bool \<times> 't) outcome" where
  "change_peers at local cc confReq t =
     (let k = rp_peerID (cr_raftPeerAttr confReq); addr = rp_raftListenAddr (cr_raftPeerAttr confReq); g = cr_groupID confReq
      in case cc_type cc of
           ConfChangeRemoveNode \<Rightarrow>
             if cc_nodeID cc = local then Ret (True, t)
             else bind_outcome (at_remove at g k t) (\<lambda>t'. Ret (False, t'))
         | ConfChangeUpdateNode \<Rightarrow>
             if k \<noteq> local then bind_outcome (at_update at g k addr t) (\<lambda>t'. Ret (False, t')) else Ret (False, t)
         | OtherChange _ \<Rightarrow> Ret (False, t)
         | _ \<Rightarrow>
             if \<not> cr_promoteLearner confReq \<and> k \<noteq> local
             then bind_outcome (at_add at g k addr t) (\<lambda>t'. Ret (False, t')) else Ret (False, t))"

definition learner_gauge :: "u64 \<Rightarrow> conf_change \<Rightarrow> conf_change_request \<Rightarrow> nat \<Rightarrow> nat" where
  "learner_gauge local cc confReq v =
     (if rp_peerID (cr_raftPeerAttr confReq) = local
      then (case cc_type cc of ConfChangeAddLearnerNode \<Rightarrow> 1 | ConfChangeAddNode \<Rightarrow> 0 | _ \<Rightarrow> v) else v)"

definition process_conf_change ::
  "'c applied_cluster \<Rightarrow> 't applied_transport \<Rightarrow> 'n raft_node \<Rightarrow> conf_change \<Rightarrow> conf_change_request \<Rightarrow>
   ('m, 'c, 'n, 't) facade \<Rightarrow> (unit, (bytes, conf_state option \<times> bool) outcome \<times> ('m, 'c, 'n, 't) facade) outcome" where
  "process_conf_change ac at node cc confReq f =
     (case cluster_validate_and_apply ac (cc_type cc) confReq (fa_cluster f) of
        (Panic, _) \<Rightarrow> Panic
      | (Fail err, c) \<Rightarrow>
          Ret (Fail err, f\<lparr>fa_cluster := c,
            fa_node := snd (raft_apply_conf_change node (ac_groupID ac c) (cc\<lparr>cc_nodeID := raftNone\<rparr>) (fa_node f))\<rparr>)
      | (Ret _, c) \<Rightarrow>
          (case raft_apply_conf_change node (ac_groupID ac c) cc (fa_node f) of
             (Panic, _) \<Rightarrow> Panic
           | (Fail err, n) \<Rightarrow> Ret (Fail err, f\<lparr>fa_cluster := c, fa_node := n\<rparr>)
           | (Ret confState, n) \<Rightarrow>
               bind_outcome (change_peers at (ac_localPeerID ac c) cc confReq (fa_trans f)) (\<lambda>(removeSelf, t).
                 Ret (Ret (confState, removeSelf),
                      f\<lparr>fa_cluster := c, fa_node := n, fa_trans := t,
                        fa_events := process_member_event (cc_type cc) confReq (fa_events f),
                        fa_isLearner := learner_gauge (ac_localPeerID ac c) cc confReq (fa_isLearner f)\<rparr>))))"

definition apply_conf_change_entry ::
  "('m, 'r response) session_ops \<Rightarrow> 'c applied_cluster \<Rightarrow> 't applied_transport \<Rightarrow> 'n raft_node \<Rightarrow>
   (bytes \<Rightarrow> conf_change option) \<Rightarrow> u64 \<Rightarrow> entry \<Rightarrow> ('m, 'c, 'n, 't) facade \<Rightarrow>
   (unit, (request_context \<times> 'r any_result \<times> bool) \<times> ('m, 'c, 'n, 't) facade) outcome" where
  "apply_conf_change_entry ops ac at node decode reqTime e f =
     (case parse_conf_change_entry decode e of
        None \<Rightarrow> Panic
      | Some (cc, confReq) \<Rightarrow>
          let ctx = cr_context confReq
          in case so_get ops (rc_sessionID ctx) (so_expire ops reqTime (fa_sessions f)) of
               (Panic, _) \<Rightarrow> Panic
             | (Fail err, m1) \<Rightarrow>
                 Ret ((ctx, \<lparr>ar_logIndex = ent_index e, ar_response = None, ar_error = Some (session_err_text err)\<rparr>, False),
                      f\<lparr>fa_sessions := m1\<rparr>)
             | (Ret session, m1) \<Rightarrow>
                 (case do_exactly_once (ent_index e) ctx session of
                    ((toApply, ar), session') \<Rightarrow>
                      let f1 = f\<lparr>fa_sessions := so_store ops session' m1\<rparr>
                      in if \<not> toApply then Ret ((ctx, ar, False), f1)
                         else bind_outcome (process_conf_change ac at node cc confReq f1) (\<lambda>(r, f2).
                           let ar' = \<lparr>ar_logIndex = ent_index e,
                                 ar_response = Some (ConfStateResponse (case r of Ret (cs, _) \<Rightarrow> cs | _ \<Rightarrow> None)),
                                 ar_error = (case r of Fail err \<Rightarrow> Some err | _ \<Rightarrow> None)\<rparr>
                           in case is_add_result (rc_sequenceNum ctx) reqTime ar' session' of
                                Ret session'' \<Rightarrow>
                                  Ret ((ctx, ar', case r of Ret (_, removeSelf) \<Rightarrow> removeSelf | _ \<Rightarrow> False),
                                       f2\<lparr>fa_sessions := so_store ops session'' (fa_sessions f2)\<rparr>)
                              | _ \<Rightarrow> Panic)))"

text \<open>
  \<^verbatim>\<open>applyConfChangeEntry\<close> of the ready loop: the changes of a batch of committed entries, each with the
  time it is applied at. \<^verbatim>\<open>rd_confState\<close> is the configuration of the node's status, \<^verbatim>\<open>rd_replies\<close> what was
  handed to the waiting callers. Applying stops after the entry that removes the local peer.
\<close>

record ('m, 'c, 'n, 't, 'r) ready_state =
  rd_facade :: "('m, 'c, 'n, 't) facade"
  rd_confState :: conf_state
  rd_replies :: "(u64 \<times> 'r any_result) list"

definition record_change ::
  "request_context \<Rightarrow> 'r any_result \<Rightarrow> ('m, 'c, 'n, 't) facade \<Rightarrow> ('m, 'c, 'n, 't, 'r) ready_state \<Rightarrow>
   ('m, 'c, 'n, 't, 'r) ready_state" where
  "record_change ctx ar f st =
     st\<lparr>rd_facade := f,
       rd_confState := (if ar_error ar = None then
           (case ar_response ar of Some (ConfStateResponse (Some cs)) \<Rightarrow> cs | _ \<Rightarrow> rd_confState st)
         else rd_confState st),
       rd_replies := rd_replies st @ [(rc_replyID ctx, ar)]\<rparr>"

fun apply_conf_changes ::
  "('m, 'r response) session_ops \<Rightarrow> 'c applied_cluster \<Rightarrow> 't applied_transport \<Rightarrow> 'n raft_node \<Rightarrow>
   (bytes \<Rightarrow> conf_change option) \<Rightarrow> (entry \<times> u64) list \<Rightarrow> ('m, 'c, 'n, 't, 'r) ready_state \<Rightarrow>
   (unit, bool \<times> ('m, 'c, 'n, 't, 'r) ready_state) outcome" where
  "apply_conf_changes ops ac at node decode [] st = Ret (False, st)"
| "apply_conf_changes ops ac at node decode ((e, t) # es) st =
     (if ent_type e = EntryConfChange then
        bind_outcome (apply_conf_change_entry ops ac at node decode t e (rd_facade st)) (\<lambda>((ctx, ar, removeSelf), f).
          if removeSelf then Ret (True, record_change ctx ar f st)
          else apply_conf_changes ops ac at node decode es (record_change ctx ar f st))
      else apply_conf_changes ops ac at node decode es st)"

section \<open>Filling a transport\<close>

text \<open>
  The peers a new node starts with are those of its configuration, without itself; a node that is
  restarted from a snapshot adds every member, itself included; a snapshot that is received while
  running replaces the peers by the members of the snapshot.
\<close>

fun add_all :: "(u64 \<times> bytes) list \<Rightarrow> peer_manager \<Rightarrow> (unit, peer_manager) outcome" where
  "add_all [] t = Ret t"
| "add_all ((k, a) # ps) t = bind_outcome (trans_add k a t) (add_all ps)"

definition attr_peer :: "raft_peer_attribute \<Rightarrow> u64 \<times> bytes" where
  "attr_peer a = (rp_peerID a, rp_raftListenAddr a)"

definition start_peers :: "u64 \<Rightarrow> raft_peer_attribute list \<Rightarrow> peer_manager \<Rightarrow> (unit, peer_manager) outcome" where
  "start_peers localPeerID attrs t = add_all (map attr_peer (filter (\<lambda>a. rp_peerID a \<noteq> localPeerID) attrs)) t"

definition restart_peers :: "cluster \<Rightarrow> peer_manager \<Rightarrow> (unit, peer_manager) outcome" where
  "restart_peers c t = add_all (map (attr_peer \<circ> pe_raftPeerAttr) (cluster_list c)) t"

definition snapshot_peers :: "cluster \<Rightarrow> peer_manager \<Rightarrow> (unit, peer_manager) outcome" where
  "snapshot_peers c t =
     add_all (map attr_peer (filter (\<lambda>a. rp_peerID a \<noteq> cl_localPeerID c) (map pe_raftPeerAttr (cluster_list c))))
       (remove_all_peers t)"

section \<open>The contract of a transport\<close>

text \<open>
  \<^verbatim>\<open>peers h\<close> is the map of one group from its peers to their addresses; \<^verbatim>\<open>key\<close> is the group a transport
  files a request under. An error of the peer manager leaves the map as it is.
\<close>

locale peer_transport =
  fixes at :: "'t applied_transport" and tok :: "'t \<Rightarrow> bool"
    and key :: "u64 \<Rightarrow> u64" and peers :: "u64 \<Rightarrow> 't \<Rightarrow> u64 \<rightharpoonup> bytes"
  assumes trans_add_law: "tok t \<Longrightarrow> \<exists>t'. at_add at g k a t = Ret t' \<and> tok t' \<and> (\<forall>h. peers h t' =
      (if h = key g \<and> peers h t k = None then (peers h t)(k \<mapsto> a) else peers h t))"
    and trans_update_law: "tok t \<Longrightarrow> \<exists>t'. at_update at g k a t = Ret t' \<and> tok t' \<and> (\<forall>h. peers h t' =
      (if h = key g \<and> peers h t k \<noteq> None then (peers h t)(k \<mapsto> a) else peers h t))"
    and trans_remove_law: "tok t \<Longrightarrow> \<exists>t'. at_remove at g k t = Ret t' \<and> tok t' \<and> (\<forall>h. peers h t' =
      (if h = key g then (peers h t)(k := None) else peers h t))"

definition group_peers :: "u64 \<Rightarrow> peer_manager \<Rightarrow> u64 \<rightharpoonup> bytes" where
  "group_peers g t = (\<lambda>k. map_of (pm_addresses t) (g, k))"

lemma logged_step:
  assumes "pm_ok t"
  shows "\<exists>t'. logged t (peer_step op t) = Ret t' \<and> pm_ok t' \<and>
    map_of (pm_addresses t') = (case peer_spec op (map_of (pm_addresses t)) of Ret f \<Rightarrow> f | _ \<Rightarrow> map_of (pm_addresses t))"
  using peer_step_simulates [OF assms, of op] assms by (cases "peer_step op t") (auto simp: logged_def)

lemma multi_laws:
  assumes "pm_ok t"
  shows "\<exists>t'. multi_add g k a t = Ret t' \<and> pm_ok t' \<and> (\<forall>h. group_peers h t' =
      (if h = g \<and> group_peers h t k = None then (group_peers h t)(k \<mapsto> a) else group_peers h t))"
    and "\<exists>t'. multi_update g k a t = Ret t' \<and> pm_ok t' \<and> (\<forall>h. group_peers h t' =
      (if h = g \<and> group_peers h t k \<noteq> None then (group_peers h t)(k \<mapsto> a) else group_peers h t))"
    and "\<exists>t'. multi_remove g k t = Ret t' \<and> pm_ok t' \<and> (\<forall>h. group_peers h t' =
      (if h = g then (group_peers h t)(k := None) else group_peers h t))"
  using logged_step [OF assms, of "AddPeer g k a"] logged_step [OF assms, of "UpdatePeer g k a"]
    logged_step [OF assms, of "RemovePeer g k"]
  by (auto simp: multi_add_def multi_update_def multi_remove_def peer_step_def peer_spec_def group_peers_def fun_eq_iff
      split: if_splits)

lemma single_is_multi:
  "trans_add = multi_add 0" "trans_update = multi_update 0" "trans_remove = multi_remove 0"
  by (simp_all add: fun_eq_iff trans_add_def trans_update_def trans_remove_def multi_add_def multi_update_def multi_remove_def)

interpretation multi: peer_transport multi_transport pm_ok "\<lambda>g. g" group_peers
  by (unfold_locales, unfold multi_transport_def applied_transport.select_convs) (rule multi_laws; assumption)+

interpretation single: peer_transport transport_adaptor pm_ok "\<lambda>g. 0" group_peers
  by (unfold_locales, unfold transport_adaptor_def applied_transport.select_convs single_is_multi) (rule multi_laws; assumption)+

section \<open>A membership that is ready\<close>

text \<open>
  What applying a change asks of a membership beside its contract: no operation panics, and none
  changes the local id.
\<close>

locale local_membership = membership ac ok gone
  for ac :: "'c applied_cluster" and ok :: "'c \<Rightarrow> bool" and gone :: "'c \<Rightarrow> u64 set" +
  assumes local_id: "ac_localPeerID ac (snd (ac_add ac a c)) = ac_localPeerID ac c"
      "ac_localPeerID ac (snd (ac_update ac k a c)) = ac_localPeerID ac c"
      "ac_localPeerID ac (snd (ac_remove ac k c)) = ac_localPeerID ac c"
      "ac_localPeerID ac (snd (ac_promote ac k c)) = ac_localPeerID ac c"
    and no_panic: "ok c \<Longrightarrow> fst (ac_add ac a c) \<noteq> Panic"
      "ok c \<Longrightarrow> fst (ac_update ac k a c) \<noteq> Panic"
      "ok c \<Longrightarrow> fst (ac_remove ac k c) \<noteq> Panic"
      "ok c \<Longrightarrow> fst (ac_promote ac k c) \<noteq> Panic"

definition cluster_ready :: "cluster \<Rightarrow> bool" where
  "cluster_ready c \<longleftrightarrow> cluster_ok c \<and> cl_peers c \<noteq> None"

lemma put_peer_ready:
  "cl_peers (snd (put_peer k p c)) = None \<longleftrightarrow> cl_peers c = None"
  "cl_localPeerID (snd (put_peer k p c)) = cl_localPeerID c"
  "cl_peers c \<noteq> None \<Longrightarrow> fst (put_peer k p c) = Ret ()"
  by (cases "cl_peers c"; simp add: put_peer_def)+

lemma cluster_ops_ready:
  "cl_peers (snd (cluster_add a c)) = None \<longleftrightarrow> cl_peers c = None"
  "cl_peers (snd (cluster_update k a c)) = None \<longleftrightarrow> cl_peers c = None"
  "cl_peers (snd (cluster_remove k c)) = None \<longleftrightarrow> cl_peers c = None"
  "cl_peers (snd (cluster_promote k c)) = None \<longleftrightarrow> cl_peers c = None"
  "cl_peers (snd (cluster_update_addresses k as c)) = None \<longleftrightarrow> cl_peers c = None"
  by (simp_all add: cluster_add_def cluster_update_def cluster_promote_def cluster_update_addresses_def cluster_remove_def
      Let_def put_peer_ready split: option.split outcome.split)

lemma cluster_ops_local:
  "cl_localPeerID (snd (cluster_add a c)) = cl_localPeerID c"
  "cl_localPeerID (snd (cluster_update k a c)) = cl_localPeerID c"
  "cl_localPeerID (snd (cluster_remove k c)) = cl_localPeerID c"
  "cl_localPeerID (snd (cluster_promote k c)) = cl_localPeerID c"
  by (simp_all add: cluster_add_def cluster_update_def cluster_promote_def cluster_remove_def
      Let_def put_peer_ready split: option.split outcome.split)

lemma cluster_ops_total:
  assumes "cluster_ready c"
  shows "fst (cluster_add a c) \<noteq> Panic" "fst (cluster_update k a c) \<noteq> Panic"
    "fst (cluster_remove k c) \<noteq> Panic" "fst (cluster_promote k c) \<noteq> Panic"
  using assms put_peer_ready(3) [of c]
  by (auto simp: cluster_ready_def cluster_ok_def cluster_add_def cluster_update_def cluster_promote_def cluster_remove_def
      Let_def split: option.splits)

lemma ready_step: "cluster_ready c \<Longrightarrow> cluster_ok c' \<Longrightarrow> (cl_peers c' = None \<longleftrightarrow> cl_peers c = None) \<Longrightarrow> cluster_ready c'"
  by (simp add: cluster_ready_def)

lemma ready_ok: "cluster_ready c \<Longrightarrow> cluster_ok c"
  by (simp add: cluster_ready_def)

interpretation ready: local_membership cluster_applied cluster_ready cluster_gone
proof (unfold_locales)
  fix c c' :: cluster and a k j as
  assume c: "cluster_ready c"
  note l = members.add_law [OF ready_ok [OF c]] members.update_law [OF ready_ok [OF c]] members.remove_law [OF ready_ok [OF c]]
    members.promote_law [OF ready_ok [OF c]] members.addresses_law [OF ready_ok [OF c]]
  show "ac_add cluster_applied a c = (Ret (), c') \<Longrightarrow> cluster_ready c' \<and> cluster_gone c' = cluster_gone c \<and>
      rp_peerID a \<notin> cluster_gone c \<and> ac_peer cluster_applied (rp_peerID a) c = Fail ErrPeerIDNotFound \<and>
      ac_peer cluster_applied k c' = (if k = rp_peerID a then Ret \<lparr>pe_raftPeerAttr = a, pe_appServiceAddresses = []\<rparr>
        else ac_peer cluster_applied k c)"
    using l(1) [of a c' k] ready_step [OF c, of c'] cluster_ops_ready(1) [of a c] by (simp add: cluster_applied_def)
  show "ac_update cluster_applied (rp_peerID a) a c = (Ret (), c') \<Longrightarrow> cluster_ready c' \<and> cluster_gone c' = cluster_gone c \<and>
      (\<exists>p. ac_peer cluster_applied (rp_peerID a) c = Ret p \<and> ac_peer cluster_applied k c' =
        (if k = rp_peerID a then Ret (p\<lparr>pe_raftPeerAttr := a\<rparr>) else ac_peer cluster_applied k c))"
    using l(2) [of a c' k] ready_step [OF c, of c'] cluster_ops_ready(2) [of "rp_peerID a" a c] by (simp add: cluster_applied_def)
  show "ac_remove cluster_applied j c = (Ret (), c') \<Longrightarrow> cluster_ready c' \<and> cluster_gone c' = insert j (cluster_gone c) \<and>
      ac_peer cluster_applied k c' = (if k = j then Fail ErrPeerIDNotFound else ac_peer cluster_applied k c)"
    using l(3) [of j c' k] ready_step [OF c, of c'] cluster_ops_ready(3) [of j c] by (simp add: cluster_applied_def)
  show "ac_promote cluster_applied j c = (Ret (), c') \<Longrightarrow> cluster_ready c' \<and> cluster_gone c' = cluster_gone c \<and>
      (\<exists>p. ac_peer cluster_applied j c = Ret p \<and> rp_isLearner (pe_raftPeerAttr p) \<and> ac_peer cluster_applied k c' =
        (if k = j then Ret (p\<lparr>pe_raftPeerAttr := (pe_raftPeerAttr p)\<lparr>rp_isLearner := False\<rparr>\<rparr>) else ac_peer cluster_applied k c))"
    using l(4) [of j c' k] ready_step [OF c, of c'] cluster_ops_ready(4) [of j c] by (simp add: cluster_applied_def)
  show "ac_update_addresses cluster_applied j as c = (Ret (), c') \<Longrightarrow> cluster_ready c' \<and> cluster_gone c' = cluster_gone c \<and>
      (\<exists>p. ac_peer cluster_applied j c = Ret p \<and> ac_peer cluster_applied k c' =
        (if k = j then Ret (p\<lparr>pe_appServiceAddresses := as\<rparr>) else ac_peer cluster_applied k c))"
    using l(5) [of j as c' k] ready_step [OF c, of c'] cluster_ops_ready(5) [of j as c] by (simp add: cluster_applied_def)
qed (rule members.peer_law members.failed; (assumption | erule ready_ok) |
     simp add: cluster_applied_def cluster_ops_local cluster_ops_total)+

section \<open>The transport follows the membership\<close>

definition member_addr :: "'c applied_cluster \<Rightarrow> 'c \<Rightarrow> u64 \<rightharpoonup> bytes" where
  "member_addr ac c k = (case ac_peer ac k c of Ret p \<Rightarrow> Some (rp_raftListenAddr (pe_raftPeerAttr p)) | _ \<Rightarrow> None)"

text \<open>
  Every member but the local one is a peer at its address. An id that is not a member is not a peer,
  unless it stands in the configuration \<^verbatim>\<open>exp\<close> the node was started with and was not removed yet.
\<close>

definition peers_follow ::
  "'c applied_cluster \<Rightarrow> ('c \<Rightarrow> u64 set) \<Rightarrow> (u64 \<rightharpoonup> bytes) \<Rightarrow> 'c \<Rightarrow> (u64 \<rightharpoonup> bytes) \<Rightarrow> bool" where
  "peers_follow ac gone exp c ps \<longleftrightarrow>
     (\<forall>k. k \<noteq> ac_localPeerID ac c \<longrightarrow>
        ps k = (case member_addr ac c k of Some a \<Rightarrow> Some a | None \<Rightarrow> if k \<in> gone c then None else exp k))"

text \<open>
  The changes a log holds: they decode, belong to the group, and add a peer of the starting
  configuration with the address of the configuration.
\<close>

definition change_ok ::
  "(u64 \<Rightarrow> bool) \<Rightarrow> (u64 \<rightharpoonup> bytes) \<Rightarrow> conf_change \<Rightarrow> conf_change_request \<Rightarrow> bool" where
  "change_ok ours exp cc confReq \<longleftrightarrow>
     ours (cr_groupID confReq) \<and> cc_nodeID cc = rp_peerID (cr_raftPeerAttr confReq) \<and>
     (exp (cc_nodeID cc) = None \<or> exp (cc_nodeID cc) = Some (rp_raftListenAddr (cr_raftPeerAttr confReq)) \<or>
      cr_promoteLearner confReq \<or> cc_type cc \<in> {ConfChangeRemoveNode, ConfChangeUpdateNode})"

definition change_entry_ok ::
  "(bytes \<Rightarrow> conf_change option) \<Rightarrow> (u64 \<Rightarrow> bool) \<Rightarrow> (u64 \<rightharpoonup> bytes) \<Rightarrow> entry \<Rightarrow> bool" where
  "change_entry_ok decode ours exp e \<longleftrightarrow>
     (ent_type e = EntryConfChange \<longrightarrow>
        (case parse_conf_change_entry decode e of Some (cc, confReq) \<Rightarrow> change_ok ours exp cc confReq | None \<Rightarrow> False))"

lemma with_text_Ret [simp]: "with_text r = (Ret (), c) \<longleftrightarrow> r = (Ret (), c)"
  by (auto simp: with_text_def split: prod.splits outcome.splits)

lemma with_text_snd [simp]: "snd (with_text r) = snd r"
  by (simp add: with_text_def split: prod.split outcome.split)

lemma with_text_fst [simp]: "fst (with_text r) = Panic \<longleftrightarrow> fst r = Panic" "fst (with_text r) = Ret () \<longleftrightarrow> fst r = Ret ()"
  by (simp_all add: with_text_def split: prod.split outcome.split)

locale conf_changes =
  local_membership ac ok gone + peer_transport at tok key peers
  for ac :: "'c applied_cluster" and ok gone and at :: "'t applied_transport" and tok key peers
begin

lemma addr_after:
  "ok c \<Longrightarrow> ac_add ac a c = (Ret (), c') \<Longrightarrow>
     ok c' \<and> gone c' = gone c \<and> rp_peerID a \<notin> gone c \<and> member_addr ac c (rp_peerID a) = None \<and>
     member_addr ac c' = (member_addr ac c)(rp_peerID a \<mapsto> rp_raftListenAddr a)"
  "ok c \<Longrightarrow> ac_update ac (rp_peerID a) a c = (Ret (), c') \<Longrightarrow>
     ok c' \<and> gone c' = gone c \<and> member_addr ac c (rp_peerID a) \<noteq> None \<and>
     member_addr ac c' = (member_addr ac c)(rp_peerID a \<mapsto> rp_raftListenAddr a)"
  "ok c \<Longrightarrow> ac_remove ac k c = (Ret (), c') \<Longrightarrow>
     ok c' \<and> gone c' = insert k (gone c) \<and> member_addr ac c' = (member_addr ac c)(k := None)"
  "ok c \<Longrightarrow> ac_promote ac k c = (Ret (), c') \<Longrightarrow>
     ok c' \<and> gone c' = gone c \<and> member_addr ac c' = member_addr ac c"
proof -
  show "ok c \<Longrightarrow> ac_add ac a c = (Ret (), c') \<Longrightarrow>
     ok c' \<and> gone c' = gone c \<and> rp_peerID a \<notin> gone c \<and> member_addr ac c (rp_peerID a) = None \<and>
     member_addr ac c' = (member_addr ac c)(rp_peerID a \<mapsto> rp_raftListenAddr a)"
    using add_law [of c a c'] by (auto simp: fun_eq_iff member_addr_def)
  show "ok c \<Longrightarrow> ac_remove ac k c = (Ret (), c') \<Longrightarrow>
     ok c' \<and> gone c' = insert k (gone c) \<and> member_addr ac c' = (member_addr ac c)(k := None)"
    using remove_law [of c k c'] by (auto simp: fun_eq_iff member_addr_def)
  assume c: "ok c"
  {
    assume u: "ac_update ac (rp_peerID a) a c = (Ret (), c')"
    have "member_addr ac c' j = ((member_addr ac c)(rp_peerID a \<mapsto> rp_raftListenAddr a)) j" for j
      using update_law [OF c u, of j] by (auto simp: member_addr_def)
    then show "ok c' \<and> gone c' = gone c \<and> member_addr ac c (rp_peerID a) \<noteq> None \<and>
       member_addr ac c' = (member_addr ac c)(rp_peerID a \<mapsto> rp_raftListenAddr a)"
      using update_law [OF c u, of 0] by (auto simp: fun_eq_iff member_addr_def [of ac c "rp_peerID a"])
  next
    assume p: "ac_promote ac k c = (Ret (), c')"
    have "member_addr ac c' j = member_addr ac c j" for j
      using promote_law [OF c p, of j] by (auto simp: member_addr_def)
    then show "ok c' \<and> gone c' = gone c \<and> member_addr ac c' = member_addr ac c"
      using promote_law [OF c p] by (auto simp: fun_eq_iff)
  }
qed

text \<open>The change of the membership and the change of the transport keep step.\<close>

lemma changes_in_step:
  assumes "ok c" and "tok t" and "peers_follow ac gone exp c (peers h t)" and "change_ok (\<lambda>g. key g = h) exp cc req"
    and "cluster_validate_and_apply ac (cc_type cc) req c = (Ret (), c')"
  shows "ok c' \<and> ac_localPeerID ac c' = ac_localPeerID ac c \<and>
    (\<exists>b t'. change_peers at (ac_localPeerID ac c) cc req t = Ret (b, t') \<and> tok t' \<and>
       peers_follow ac gone exp c' (peers h t') \<and> (\<forall>h'. h' \<noteq> h \<longrightarrow> peers h' t' = peers h' t))"
proof -
  let ?k = "rp_peerID (cr_raftPeerAttr req)" and ?a = "rp_raftListenAddr (cr_raftPeerAttr req)" and ?g = "cr_groupID req"
  have k: "cc_nodeID cc = ?k" "key ?g = h" using assms(4) by (simp_all add: change_ok_def)
  have follow: "peers h t j = (case member_addr ac c j of Some a \<Rightarrow> Some a | None \<Rightarrow> if j \<in> gone c then None else exp j)"
    if "j \<noteq> ac_localPeerID ac c" for j using assms(3) that by (simp add: peers_follow_def)
  show ?thesis
  proof (cases "cc_type cc = ConfChangeRemoveNode \<or> cc_type cc = ConfChangeUpdateNode")
    case True
    then show ?thesis
    proof
      assume ty: "cc_type cc = ConfChangeRemoveNode"
      then have r: "ac_remove ac ?k c = (Ret (), c')" using assms(5) by (simp add: cluster_validate_and_apply_def)
      note l = addr_after(3) [OF assms(1) r] local_id(3) [of ?k c]
      from trans_remove_law [OF assms(2), of ?g ?k] show ?thesis
        using l r ty k follow assms(2) by (cases "?k = ac_localPeerID ac c") (auto simp: change_peers_def peers_follow_def)
    next
      assume ty: "cc_type cc = ConfChangeUpdateNode"
      then have r: "ac_update ac ?k (cr_raftPeerAttr req) c = (Ret (), c')"
        using assms(5) by (simp add: cluster_validate_and_apply_def)
      note l = addr_after(2) [OF assms(1) r] local_id(2) [of ?k "cr_raftPeerAttr req" c]
      from trans_update_law [OF assms(2), of ?g ?k ?a] show ?thesis
        using l r ty k follow assms(2) by (cases "?k = ac_localPeerID ac c") (auto simp: change_peers_def peers_follow_def)
    qed
  next
    case False
    then have ty: "cc_type cc = ConfChangeAddNode \<or> cc_type cc = ConfChangeAddLearnerNode"
      using assms(5) by (cases "cc_type cc") (simp_all add: cluster_validate_and_apply_def)
    show ?thesis
    proof (cases "cr_promoteLearner req")
      case True
      then have r: "ac_promote ac ?k c = (Ret (), c')" using ty assms(5) by (auto simp: cluster_validate_and_apply_def)
      show ?thesis using addr_after(4) [OF assms(1) r] local_id(4) [of ?k c] r ty True assms(2,3)
        by (auto simp: change_peers_def peers_follow_def)
    next
      case add: False
      then have r: "ac_add ac (cr_raftPeerAttr req) c = (Ret (), c')"
        using ty assms(5) by (auto simp: cluster_validate_and_apply_def)
      note l = addr_after(1) [OF assms(1) r] local_id(1) [of "cr_raftPeerAttr req" c]
      have e: "exp ?k = None \<or> exp ?k = Some ?a" using assms(4) add ty k by (auto simp: change_ok_def)
      from trans_add_law [OF assms(2), of ?g ?k ?a] show ?thesis
        using l r ty add k e follow assms(2) by (cases "?k = ac_localPeerID ac c") (auto simp: change_peers_def peers_follow_def)
    qed
  qed
qed

end

definition facade_ok ::
  "('m \<Rightarrow> bool) \<Rightarrow> ('c \<Rightarrow> bool) \<Rightarrow> ('t \<Rightarrow> bool) \<Rightarrow> ('c \<Rightarrow> (u64 \<rightharpoonup> bytes) \<Rightarrow> bool) \<Rightarrow> ('t \<Rightarrow> u64 \<rightharpoonup> bytes) \<Rightarrow>
   ('m, 'c, 'n, 't) facade \<Rightarrow> bool" where
  "facade_ok sok ok tok follow ps f \<longleftrightarrow>
     sok (fa_sessions f) \<and> ok (fa_cluster f) \<and> tok (fa_trans f) \<and> follow (fa_cluster f) (ps (fa_trans f))"

locale conf_apply =
  conf_changes ac ok gone at tok key peers + session_manager ops sok lookup
  for ac :: "'c applied_cluster" and ok gone and at :: "'t applied_transport" and tok key peers
    and ops :: "('m, 'r response) session_ops" and sok lookup
begin

lemma validate_failed:
  assumes "ok c"
  shows "fst (cluster_validate_and_apply ac ty req c) \<noteq> Panic"
    and "fst (cluster_validate_and_apply ac ty req c) \<noteq> Ret () \<Longrightarrow> snd (cluster_validate_and_apply ac ty req c) = c"
  by (cases ty; simp add: cluster_validate_and_apply_def no_panic assms)
     (cases ty; cases "cr_promoteLearner req"; simp add: cluster_validate_and_apply_def failed(1,2,4) failed(3) [OF assms])

lemma process_conf_change_ok:
  assumes "facade_ok sok ok tok (peers_follow ac gone exp) (peers h) f" and "change_ok (\<lambda>g. key g = h) exp cc req"
  shows "\<exists>r f'. process_conf_change ac at node cc req f = Ret (r, f') \<and> fa_sessions f' = fa_sessions f \<and>
    facade_ok sok ok tok (peers_follow ac gone exp) (peers h) f'"
proof -
  have f: "sok (fa_sessions f)" "ok (fa_cluster f)" "tok (fa_trans f)"
      "peers_follow ac gone exp (fa_cluster f) (peers h (fa_trans f))" using assms(1) by (simp_all add: facade_ok_def)
  obtain v c' where v: "cluster_validate_and_apply ac (cc_type cc) req (fa_cluster f) = (v, c')" by fastforce
  show ?thesis
  proof (cases v)
    case (Ret u)
    then have r: "cluster_validate_and_apply ac (cc_type cc) req (fa_cluster f) = (Ret (), c')" using v by simp
    from changes_in_step [OF f(2-4) assms(2) r] show ?thesis
      using r f(1) by (auto simp: process_conf_change_def raft_apply_conf_change_def facade_ok_def split: prod.split)
  next
    case (Fail e)
    then have "c' = fa_cluster f" using v validate_failed(2) [OF f(2), of "cc_type cc" req] by simp
    then show ?thesis using v Fail f by (simp add: process_conf_change_def facade_ok_def)
  next
    case Panic
    then show ?thesis using v validate_failed(1) [OF f(2), of "cc_type cc" req] by simp
  qed
qed

lemma session_keeps:
  assumes "sok m" and "so_get ops (rc_sessionID ctx) m = (Ret ses, m1)"
    and "do_exactly_once i ctx ses = ((toApply, ar), ses')"
  shows "sok (so_store ops ses' m1)"
    and "toApply \<Longrightarrow> \<exists>ses''. is_add_result (rc_sequenceNum ctx) t ar' ses' = Ret ses'' \<and>
      sok (so_store ops ses'' (so_store ops ses' m1))"
proof -
  have "sok (so_store ops ses' m1) \<and> (toApply \<longrightarrow>
    (\<exists>ses''. is_add_result (rc_sequenceNum ctx) t ar' ses' = Ret ses'' \<and> sok (so_store ops ses'' (so_store ops ses' m1))))"
  proof (rule get_cases [OF assms(1), of "rc_sessionID ctx"], goal_cases found noop missing)
    case (found s m')
    let ?s = "clear_result (rc_lowestSeqNumNotYetReplied ctx) s"
    have ses: "ses = RealSession s" "m' = m1" "ses' = RealSession ?s"
      using found assms(2,3) by (auto simp: do_exactly_once_def)
    have id: "lookup m1 (se_id ?s) = Some s" using found ses lookup_id [of m1 "rc_sessionID ctx" s] by simp
    note st = store_real [OF _ id]
    show ?thesis
    proof (cases toApply)
      case True
      then have "map_of (se_result s) (rc_sequenceNum ctx) = None"
        using assms(3) ses by (auto simp: do_exactly_once_def repeat_sequence_num_def Option.is_none_def split: if_splits prod.splits)
      then obtain s2 where "add_result (rc_sequenceNum ctx) t ar' ?s = Ret s2" "se_id s2 = se_id ?s"
        by (simp add: add_result_def map_of_clear)
      then show ?thesis using st ses found store_real [of "so_store ops ses' m1" s2 ?s] by auto
    qed (use st ses found in auto)
  next
    case noop
    then show ?thesis using assms store_noop by (auto simp: do_exactly_once_def)
  qed (use assms in simp)
  then show "sok (so_store ops ses' m1)"
    and "toApply \<Longrightarrow> \<exists>ses''. is_add_result (rc_sequenceNum ctx) t ar' ses' = Ret ses'' \<and>
      sok (so_store ops ses'' (so_store ops ses' m1))" by simp_all
qed

lemma facade_sessions: "facade_ok sok ok tok fl ps f \<Longrightarrow> sok m \<Longrightarrow> facade_ok sok ok tok fl ps (f\<lparr>fa_sessions := m\<rparr>)"
  by (simp add: facade_ok_def)

lemma apply_conf_change_entry_ok:
  assumes "facade_ok sok ok tok (peers_follow ac gone exp) (peers h) f"
    and "parse_conf_change_entry decode e = Some (cc, req)" and "change_ok (\<lambda>g. key g = h) exp cc req"
  shows "\<exists>r f'. apply_conf_change_entry ops ac at node decode t e f = Ret (r, f') \<and>
    facade_ok sok ok tok (peers_follow ac gone exp) (peers h) f'"
proof -
  let ?ctx = "cr_context req" and ?m = "so_expire ops t (fa_sessions f)"
  have m: "sok ?m" using assms(1) expire_law by (simp add: facade_ok_def)
  obtain g m1 where g: "so_get ops (rc_sessionID ?ctx) ?m = (g, m1)" by fastforce
  show ?thesis
  proof (cases g)
    case (Ret ses)
    obtain toApply ar ses' where d: "do_exactly_once (ent_index e) ?ctx ses = ((toApply, ar), ses')" by (metis surj_pair)
    note k = session_keeps [OF m _ d] 
    let ?f1 = "f\<lparr>fa_sessions := so_store ops ses' m1\<rparr>"
    have f1: "facade_ok sok ok tok (peers_follow ac gone exp) (peers h) ?f1"
      using facade_sessions [OF assms(1)] k(1) g Ret by simp
    from process_conf_change_ok [OF this assms(3), of node] obtain r f2 where
      p: "process_conf_change ac at node cc req ?f1 = Ret (r, f2)" "fa_sessions f2 = so_store ops ses' m1"
      "facade_ok sok ok tok (peers_follow ac gone exp) (peers h) f2" by auto
    show ?thesis
    proof (cases toApply)
      case False
      then have "apply_conf_change_entry ops ac at node decode t e f = Ret ((?ctx, ar, False), ?f1)"
        using assms(2) g Ret d by (simp add: apply_conf_change_entry_def Let_def)
      then show ?thesis using f1 by blast
    next
      case True
      let ?ar = "\<lparr>ar_logIndex = ent_index e,
          ar_response = Some (ConfStateResponse (case r of Ret (cs, _) \<Rightarrow> cs | _ \<Rightarrow> None)),
          ar_error = (case r of Fail err \<Rightarrow> Some err | _ \<Rightarrow> None)\<rparr>"
      obtain ses'' where "is_add_result (rc_sequenceNum ?ctx) t ?ar ses' = Ret ses''" "sok (so_store ops ses'' (so_store ops ses' m1))"
        using k(2) [of m1 t ?ar] True g Ret by auto
      moreover from this have "apply_conf_change_entry ops ac at node decode t e f =
          Ret ((?ctx, ?ar, case r of Ret (_, removeSelf) \<Rightarrow> removeSelf | _ \<Rightarrow> False),
            f2\<lparr>fa_sessions := so_store ops ses'' (so_store ops ses' m1)\<rparr>)"
        using assms(2) g Ret d True p(1,2) by (simp add: apply_conf_change_entry_def Let_def)
      ultimately show ?thesis using facade_sessions [OF p(3)] by blast
    qed
  next
    case (Fail err)
    have "m1 = ?m" by (rule get_cases [OF m, of "rc_sessionID ?ctx"]) (use g Fail in simp_all)
    with g Fail assms(2) have "apply_conf_change_entry ops ac at node decode t e f =
        Ret ((?ctx, \<lparr>ar_logIndex = ent_index e, ar_response = None, ar_error = Some (session_err_text err)\<rparr>, False),
          f\<lparr>fa_sessions := ?m\<rparr>)" by (simp add: apply_conf_change_entry_def Let_def)
    then show ?thesis using facade_sessions [OF assms(1) m] by blast
  next
    case Panic
    show ?thesis by (rule get_cases [OF m, of "rc_sessionID ?ctx"]) (use g Panic in simp_all)
  qed
qed

theorem conf_changes_follow:
  fixes st :: "('m, 'c, 'n, 't, 'r) ready_state"
  assumes "facade_ok sok ok tok (peers_follow ac gone exp) (peers h) (rd_facade st)"
    and "\<forall>e\<in>set es. change_entry_ok decode (\<lambda>g. key g = h) exp (fst e)"
  shows "\<exists>b st'. apply_conf_changes ops ac at node decode es st = Ret (b, st') \<and>
    facade_ok sok ok tok (peers_follow ac gone exp) (peers h) (rd_facade st')"
  using assms
proof (induction es arbitrary: st)
  case (Cons x es)
  obtain e t where x: "x = (e, t)" by (cases x)
  show ?case
  proof (cases "ent_type e = EntryConfChange")
    case True
    then obtain cc req where "parse_conf_change_entry decode e = Some (cc, req)" "change_ok (\<lambda>g. key g = h) exp cc req"
      using Cons.prems(2) x by (auto simp: change_entry_ok_def split: option.splits)
    from apply_conf_change_entry_ok [OF Cons.prems(1) this, of node t] obtain ctx ar rem f where
      a: "apply_conf_change_entry ops ac at node decode t e (rd_facade st) = Ret ((ctx, ar, rem), f)"
      "facade_ok sok ok tok (peers_follow ac gone exp) (peers h) f" by auto
    let ?st = "record_change ctx ar f st"
    have f: "rd_facade ?st = f" by (simp add: record_change_def)
    have "\<exists>b st2. apply_conf_changes ops ac at node decode es ?st = Ret (b, st2) \<and>
        facade_ok sok ok tok (peers_follow ac gone exp) (peers h) (rd_facade st2)"
      using Cons.IH [of ?st] Cons.prems(2) a(2) f by simp
    then show ?thesis using a True x f by (cases rem) auto
  next
    case False
    then show ?thesis using Cons x by simp
  qed
qed auto

end

interpretation lru_single: conf_apply cluster_applied cluster_ready cluster_gone transport_adaptor pm_ok "\<lambda>g. 0" group_peers
    "lru_ops acq rs" lru_ok lru_lookup for acq rs
  by unfold_locales

interpretation expired_multi: conf_apply cluster_applied cluster_ready cluster_gone multi_transport pm_ok "\<lambda>g. g" group_peers
    "expired_ops acq rs" expired_ok expired_lookup for acq rs
  by unfold_locales

section \<open>The members a node can reach\<close>

lemma add_all_ok:
  "pm_ok t \<Longrightarrow> \<exists>t'. add_all ps t = Ret t' \<and> pm_ok t' \<and> group_peers 0 t' = map_of ps ++ group_peers 0 t"
proof (induction ps arbitrary: t)
  case (Cons x ps)
  obtain k a where x: "x = (k, a)" by (cases x)
  obtain t1 where t1: "trans_add k a t = Ret t1" "pm_ok t1"
      "group_peers 0 t1 = (if group_peers 0 t k = None then (group_peers 0 t)(k \<mapsto> a) else group_peers 0 t)"
    using multi_laws(1) [OF Cons.prems, of 0 k a] by (auto simp: single_is_multi)
  obtain t' where t': "add_all ps t1 = Ret t'" "pm_ok t'" "group_peers 0 t' = map_of ps ++ group_peers 0 t1"
    using Cons.IH [OF t1(2)] by blast
  have "group_peers 0 t' = map_of (x # ps) ++ group_peers 0 t"
    by (rule ext) (simp add: t'(3) t1(3) x map_add_def split: option.split)
  moreover have "add_all (x # ps) t = Ret t'" using t1(1) t'(1) x by simp
  ultimately show ?case using t'(2) by blast
qed simp

lemma trans_add_stopped: "trans_add k a t = Ret t' \<Longrightarrow> pm_stopped t' = pm_stopped t"
  by (auto simp: trans_add_def logged_def add_peer_def retain_address_def split: if_splits)

lemma add_all_stopped: "add_all ps t = Ret t' \<Longrightarrow> pm_stopped t' = pm_stopped t"
proof (induction ps t rule: add_all.induct)
  case (2 k a ps t)
  then show ?case by (cases "trans_add k a t") (auto dest: trans_add_stopped)
qed simp

lemma cluster_list_ids:
  assumes "cluster_ok c"
  shows "distinct (map (\<lambda>p. rp_peerID (pe_raftPeerAttr p)) (cluster_list c))"
proof -
  let ?es = "entries_of (cl_peers c)"
  have "rp_peerID (pe_raftPeerAttr (snd e)) = fst e" if "e \<in> set ?es" for e
  proof -
    have "map_of ?es (fst e) = Some (snd e)" using assms that by (simp add: cluster_ok_def map_ok_def)
    then show ?thesis using cluster_ok_peer [OF assms, of "fst e" "snd e"] by (simp add: go_lookup_def)
  qed
  then have "map (\<lambda>p. rp_peerID (pe_raftPeerAttr p)) (map snd ?es) = map fst ?es" by simp
  moreover have "distinct (map fst ?es)" using assms by (simp add: cluster_ok_def map_ok_def)
  ultimately have "distinct (map (\<lambda>p. rp_peerID (pe_raftPeerAttr p)) (map snd ?es))" by (simp only:)
  moreover have "mset (map (\<lambda>p. rp_peerID (pe_raftPeerAttr p)) (cluster_list c)) =
      mset (map (\<lambda>p. rp_peerID (pe_raftPeerAttr p)) (map snd ?es))" by (simp add: cluster_list_def multiset.map_comp)
  ultimately show ?thesis by (metis mset_eq_imp_distinct_iff)
qed

lemma cluster_list_member:
  assumes "cluster_ok c"
  shows "p \<in> set (cluster_list c) \<longleftrightarrow> cluster_peer (rp_peerID (pe_raftPeerAttr p)) c = Ret p"
proof -
  have "rp_peerID (pe_raftPeerAttr p) = k" if "go_lookup (cl_peers c) k = Some p" for k
    using cluster_ok_peer [OF assms that] by simp
  then have "go_lookup (cl_peers c) (rp_peerID (pe_raftPeerAttr p)) = Some p \<longleftrightarrow> (\<exists>k. go_lookup (cl_peers c) k = Some p)"
    by blast
  also have "\<dots> \<longleftrightarrow> p \<in> set (map snd (entries_of (cl_peers c)))"
  proof -
    have "distinct (map fst (entries_of (cl_peers c)))" using assms by (simp add: cluster_ok_def map_ok_def)
    then show ?thesis by (force simp: go_lookup_def)
  qed
  finally show ?thesis by (simp add: cluster_peer_Ret cluster_list_def)
qed

lemma member_list_addrs:
  assumes "cluster_ok c"
  shows "map_of (map (attr_peer \<circ> pe_raftPeerAttr) (cluster_list c)) = member_addr cluster_applied c"
proof (rule ext)
  fix k
  let ?ps = "map (attr_peer \<circ> pe_raftPeerAttr) (cluster_list c)"
  have d: "distinct (map fst ?ps)" using cluster_list_ids [OF assms] by (simp add: attr_peer_def comp_def)
  have id: "rp_peerID (pe_raftPeerAttr p) = k" if "cluster_peer k c = Ret p" for k p
    using cluster_ok_peer [OF assms] that by (simp add: cluster_peer_Ret)
  have "map_of ?ps k = Some a \<longleftrightarrow> member_addr cluster_applied c k = Some a" for a
  proof -
    have "map_of ?ps k = Some a \<longleftrightarrow> (k, a) \<in> set ?ps" using d by (rule map_of_eq_Some_iff)
    also have "\<dots> \<longleftrightarrow> (\<exists>p\<in>set (cluster_list c). rp_peerID (pe_raftPeerAttr p) = k \<and> rp_raftListenAddr (pe_raftPeerAttr p) = a)"
      by (auto simp: attr_peer_def)
    also have "\<dots> \<longleftrightarrow> (\<exists>p. cluster_peer k c = Ret p \<and> rp_raftListenAddr (pe_raftPeerAttr p) = a)"
      using id cluster_list_member [OF assms] by blast
    finally show ?thesis by (auto simp: member_addr_def cluster_applied_def split: outcome.split)
  qed
  then show "map_of ?ps k = member_addr cluster_applied c k" by (metis not_None_eq)
qed

lemma map_of_filter_local:
  "map_of (map attr_peer (filter (\<lambda>a. rp_peerID a \<noteq> l) as)) k = (if k = l then None else map_of (map attr_peer as) k)"
proof (induction as)
  case (Cons a as)
  then show ?case by (cases "rp_peerID a = l") (auto simp: attr_peer_def [of a])
qed simp

lemma group_peers_removed: "group_peers g (remove_all_peers t) = Map.empty"
  by (simp add: group_peers_def remove_all_peers_def)

text \<open>
  A snapshot that arrives while a node runs replaces its peers by the members of the snapshot:
  whatever the transport held before, afterwards it has exactly the members but the local one, each
  at the address the membership has for it, and every connection it had is stopped.
\<close>

theorem snapshot_peers_follow:
  assumes "cluster_ok c" and "pm_ok t"
  shows "\<exists>t'. snapshot_peers c t = Ret t' \<and> pm_ok t' \<and>
    group_peers 0 t' = (member_addr cluster_applied c)(cl_localPeerID c := None) \<and>
    set (map snd (pm_peers t)) \<subseteq> set (pm_stopped t')"
proof -
  let ?ps = "map attr_peer (filter (\<lambda>a. rp_peerID a \<noteq> cl_localPeerID c) (map pe_raftPeerAttr (cluster_list c)))"
  have r: "pm_ok (remove_all_peers t)" using remove_all_ok [OF assms(2)] by simp
  obtain t' where t': "add_all ?ps (remove_all_peers t) = Ret t'" "pm_ok t'"
      "group_peers 0 t' = map_of ?ps ++ group_peers 0 (remove_all_peers t)" using add_all_ok [OF r] by blast
  have "map_of ?ps k = ((member_addr cluster_applied c)(cl_localPeerID c := None)) k" for k
    unfolding map_of_filter_local using member_list_addrs [OF assms(1)] by (simp add: comp_def)
  then have "group_peers 0 t' = (member_addr cluster_applied c)(cl_localPeerID c := None)"
    using t'(3) by (simp add: group_peers_removed fun_eq_iff)
  moreover have "set (map snd (pm_peers t)) \<subseteq> set (pm_stopped t')"
    using add_all_stopped [OF t'(1)] by (simp add: remove_all_peers_def)
  ultimately show ?thesis using t'(1,2) by (simp add: snapshot_peers_def)
qed

definition pair_cluster :: cluster where
  "pair_cluster = \<lparr>cl_clusterID = 7, cl_groupID = 9, cl_localPeerID = 1,
     cl_store = \<lparr>so_peers = Some [(1, sample_peer),
       (2, sample_peer\<lparr>pe_raftPeerAttr := \<lparr>rp_peerID = 2, rp_raftListenAddr = [104, 58, 50], rp_isLearner = False, rp_storeID = 0\<rparr>\<rparr>)],
       so_removedIds = Some []\<rparr>\<rparr>"

lemma pair_cluster_ok: "cluster_ok pair_cluster"
  by (auto simp: cluster_ok_def pair_cluster_def sample_peer_def go_lookup_def map_ok_def split: if_splits)

theorem snapshot_peers_follow_witness:
  "cluster_ok pair_cluster \<and> pm_ok new_peer_manager \<and>
   (\<exists>t'. snapshot_peers pair_cluster new_peer_manager = Ret t' \<and> pm_ok t' \<and>
      group_peers 0 t' 1 = None \<and> group_peers 0 t' 2 = Some [104, 58, 50])"
proof -
  have a: "member_addr cluster_applied pair_cluster 2 = Some [104, 58, 50]" "cl_localPeerID pair_cluster = 1"
    by (simp_all add: member_addr_def cluster_applied_def cluster_peer_def pair_cluster_def go_lookup_def)
  from snapshot_peers_follow [OF pair_cluster_ok new_peer_manager_ok] obtain t' where
    "snapshot_peers pair_cluster new_peer_manager = Ret t'" "pm_ok t'"
    "group_peers 0 t' = (member_addr cluster_applied pair_cluster)(1 := None)" unfolding a(2) by blast
  with a(1) pair_cluster_ok new_peer_manager_ok show ?thesis by simp
qed

text \<open>
  The restart from a snapshot does not leave out the local peer, as the other two places do: the
  node keeps a connection to itself.
\<close>

lemma restarted_node_has_itself:
  assumes "cluster_ok c" and "cluster_peer (cl_localPeerID c) c = Ret p"
  shows "\<exists>t'. restart_peers c new_peer_manager = Ret t' \<and> pm_ok t' \<and>
    group_peers 0 t' = member_addr cluster_applied c \<and> group_peers 0 t' (cl_localPeerID c) \<noteq> None"
proof -
  have "group_peers 0 new_peer_manager = Map.empty" by (simp add: group_peers_def new_peer_manager_def)
  then show ?thesis
    using add_all_ok [OF new_peer_manager_ok, of "map (attr_peer \<circ> pe_raftPeerAttr) (cluster_list c)"] assms(2)
    by (auto simp: restart_peers_def member_list_addrs [OF assms(1)] member_addr_def [of _ _ "cl_localPeerID c"] cluster_applied_def)
qed

text \<open>The configuration a node is started with, as the map of its other peers.\<close>

definition config_peers :: "u64 \<Rightarrow> raft_peer_attribute list \<Rightarrow> u64 \<rightharpoonup> bytes" where
  "config_peers local attrs = map_of (map attr_peer (filter (\<lambda>a. rp_peerID a \<noteq> local) attrs))"

lemma started_node_follows:
  assumes "start_peers local attrs new_peer_manager = Ret t" and "lru_ok m"
  shows "facade_ok lru_ok cluster_ready pm_ok (peers_follow cluster_applied cluster_gone (config_peers local attrs)) (group_peers 0)
    \<lparr>fa_sessions = m, fa_cluster = set_local_peer_id local new_cluster, fa_node = n, fa_trans = t, fa_events = evs, fa_isLearner = l\<rparr>"
proof -
  let ?c = "set_local_peer_id local new_cluster"
  have c: "cluster_ready ?c" "cluster_gone ?c = {}" "member_addr cluster_applied ?c = Map.empty"
    by (simp_all add: cluster_ready_def cluster_ok_def cluster_gone_def member_addr_def cluster_applied_def cluster_peer_def
        set_local_peer_id_def new_cluster_def fun_eq_iff go_lookup_def)
  have "group_peers 0 new_peer_manager = Map.empty" by (simp add: group_peers_def new_peer_manager_def)
  then have "pm_ok t" "group_peers 0 t = config_peers local attrs"
    using add_all_ok [OF new_peer_manager_ok, of "map attr_peer (filter (\<lambda>a. rp_peerID a \<noteq> local) attrs)"] assms(1) by (auto simp: start_peers_def config_peers_def)
  then show ?thesis using c assms(2) by (simp add: facade_ok_def peers_follow_def)
qed

lemma following_member:
  assumes "pm_ok t" and "peers_follow cluster_applied gone exp c (group_peers 0 t)"
    and "k \<noteq> cl_localPeerID c" and "cluster_peer k c = Ret p"
  shows "(\<exists>h. get_peer 0 k t = Ret h) \<and> resolve_peer_address 0 k t = Ret (rp_raftListenAddr (pe_raftPeerAttr p))"
  using assms(2-4)
  by (simp add: peers_follow_def group_peers_def member_addr_def cluster_applied_def pm_ok_get_peer [OF assms(1)]
      resolve_peer_address_def)

lemma following_gone:
  assumes "cluster_ok c" and "pm_ok t" and "peers_follow cluster_applied cluster_gone exp c (group_peers 0 t)"
    and "k \<in> cluster_gone c" and "k \<noteq> cl_localPeerID c"
  shows "get_peer 0 k t = Fail (PeerNotFound 0 k)"
proof -
  have "member_addr cluster_applied c k = None"
    using cluster_ok_peer [OF assms(1), of k] assms(4)
    by (cases "go_lookup (cl_peers c) k") (auto simp: member_addr_def cluster_applied_def cluster_peer_def cluster_gone_def)
  then have "group_peers 0 t k = None" using assms(3-5) by (simp add: peers_follow_def cluster_applied_def)
  then show ?thesis by (simp add: pm_ok_get_peer [OF assms(2)] group_peers_def)
qed

text \<open>
  C6. A node that is started with a configuration and then applies committed changes of the
  membership never panics on one, and it can reach every other member at each point: the transport
  has a connection under the id of the member, and resolves the id to the address of the member.
  An id that was removed is not a peer any more.
\<close>

theorem started_node_reaches_members:
  assumes "start_peers local attrs new_peer_manager = Ret t" and "lru_ok m"
    and "rd_facade st = \<lparr>fa_sessions = m, fa_cluster = set_local_peer_id local new_cluster, fa_node = n, fa_trans = t,
      fa_events = evs, fa_isLearner = l\<rparr>"
    and "\<forall>e\<in>set es. change_entry_ok decode (\<lambda>g. True) (config_peers local attrs) (fst e)"
  shows "\<exists>b st'. apply_conf_changes (lru_ops acq rs) cluster_applied transport_adaptor node decode es st = Ret (b, st') \<and>
    (\<forall>k p. k \<noteq> cl_localPeerID (fa_cluster (rd_facade st')) \<longrightarrow> cluster_peer k (fa_cluster (rd_facade st')) = Ret p \<longrightarrow>
       (\<exists>h. get_peer 0 k (fa_trans (rd_facade st')) = Ret h) \<and>
       resolve_peer_address 0 k (fa_trans (rd_facade st')) = Ret (rp_raftListenAddr (pe_raftPeerAttr p))) \<and>
    (\<forall>k\<in>cluster_gone (fa_cluster (rd_facade st')). k \<noteq> cl_localPeerID (fa_cluster (rd_facade st')) \<longrightarrow>
       get_peer 0 k (fa_trans (rd_facade st')) = Fail (PeerNotFound 0 k))"
proof -
  let ?follow = "peers_follow cluster_applied cluster_gone (config_peers local attrs)"
  have "\<forall>e\<in>set es. change_entry_ok decode (\<lambda>g. (0 :: u64) = 0) (config_peers local attrs) (fst e)" using assms(4) by simp
  from lru_single.conf_changes_follow [OF _ this] started_node_follows [OF assms(1,2)] assms(3) obtain b st' where
    a: "apply_conf_changes (lru_ops acq rs) cluster_applied transport_adaptor node decode es st = Ret (b, st')"
      "facade_ok lru_ok cluster_ready pm_ok ?follow (group_peers 0) (rd_facade st')" by metis
  have f: "cluster_ok (fa_cluster (rd_facade st'))" "pm_ok (fa_trans (rd_facade st'))"
      "?follow (fa_cluster (rd_facade st')) (group_peers 0 (fa_trans (rd_facade st')))"
    using a(2) by (simp_all add: facade_ok_def cluster_ready_def)
  show ?thesis using a(1) following_member [OF f(2,3)] following_gone [OF f] by blast
qed

definition second_attr :: raft_peer_attribute where
  "second_attr = \<lparr>rp_peerID = 2, rp_raftListenAddr = [104, 58, 50], rp_isLearner = False, rp_storeID = 0\<rparr>"

definition second_req :: conf_change_request where
  "second_req = \<lparr>cr_context = zero_context\<lparr>rc_replyID := 3\<rparr>, cr_groupID = 0, cr_raftPeerAttr = second_attr, cr_promoteLearner = False\<rparr>"

definition second_entry :: entry where
  "second_entry = \<lparr>ent_term = 1, ent_index = 1, ent_type = EntryConfChange, ent_data = [1]\<rparr>"

definition second_change :: "bytes \<Rightarrow> bytes \<Rightarrow> conf_change option" where
  "second_change b data = Some \<lparr>cc_type = ConfChangeAddNode, cc_nodeID = 2, cc_context = b\<rparr>"

definition started_state :: "peer_manager \<Rightarrow> (u64 response lru_manager, cluster, nat, peer_manager, u64) ready_state" where
  "started_state t = \<lparr>rd_facade = \<lparr>fa_sessions = rf_sessions sample_raft, fa_cluster = set_local_peer_id 1 new_cluster,
     fa_node = 0, fa_trans = t, fa_events = Some [], fa_isLearner = 0\<rparr>, rd_confState = zero_conf, rd_replies = []\<rparr>"

lemma second_req_decodes: "\<exists>b. conf_req_unmarshal zero_conf_req b = Ret second_req"
proof -
  have "context_size (cr_context second_req) \<le> 44" "attr_size (cr_raftPeerAttr second_req) \<le> 60"
    using varint_field_size_le [of 3] varint_field_size_le [of 0] varint_field_size_le [of 2] bytes_field_size_le [of "Suc (Suc (Suc 0))"]
    by (simp_all add: context_size_def second_req_def zero_context_def attr_size_def second_attr_def opt_bytes_field_size_def
        bool_field_size_def)
  then have "conf_req_size second_req < 2 ^ 63"
    using bytes_field_size_le [of "context_size (cr_context second_req)"] bytes_field_size_le [of "attr_size (cr_raftPeerAttr second_req)"]
      varint_field_size_le [of 0] by (simp add: conf_req_size_def bool_field_size_def second_req_def)
  then show ?thesis using conf_req.message_round_trip [of second_req] by (auto simp: conf_req_unmarshal_def)
qed

theorem started_node_reaches_members_witness:
  "\<exists>b t r st'. start_peers 1 [pe_raftPeerAttr sample_peer, second_attr] new_peer_manager = Ret t \<and>
     apply_conf_changes (lru_ops sample_acquirer sample_any_rs) cluster_applied transport_adaptor (\<lambda>cc n. (zero_conf, n :: nat))
       (second_change b) [(second_entry, 5)]
       (started_state t) = Ret (r, st') \<and>
     (\<forall>k p. k \<noteq> cl_localPeerID (fa_cluster (rd_facade st')) \<longrightarrow> cluster_peer k (fa_cluster (rd_facade st')) = Ret p \<longrightarrow>
       (\<exists>h. get_peer 0 k (fa_trans (rd_facade st')) = Ret h))"
proof -
  obtain b where b: "conf_req_unmarshal zero_conf_req b = Ret second_req" using second_req_decodes by blast
  obtain t where t: "start_peers 1 [pe_raftPeerAttr sample_peer, second_attr] new_peer_manager = Ret t"
    using add_all_ok [OF new_peer_manager_ok] by (auto simp: start_peers_def)
  have e: "\<forall>e\<in>set [(second_entry, 5 :: u64)]. change_entry_ok (second_change b) (\<lambda>g. True)
      (config_peers 1 [pe_raftPeerAttr sample_peer, second_attr]) (fst e)"
    using b by (simp add: change_entry_ok_def second_entry_def parse_conf_change_entry_def second_change_def change_ok_def
        config_peers_def sample_peer_def second_attr_def second_req_def attr_peer_def)
  have st: "rd_facade (started_state t) = \<lparr>fa_sessions = rf_sessions sample_raft, fa_cluster = set_local_peer_id 1 new_cluster,
     fa_node = 0, fa_trans = t, fa_events = Some [], fa_isLearner = 0\<rparr>" by (simp add: started_state_def)
  from started_node_reaches_members [OF t sample_raft_fresh(1) st e, of sample_acquirer sample_any_rs "\<lambda>cc n. (zero_conf, n)"] t
  show ?thesis by blast
qed

end
