(* ===== verification/Raft_Ready.thy ===== *)
theory Raft_Ready
  imports Conf_Change
begin

text \<open>
  The loop that talks to the raft node: \<^verbatim>\<open>raft/raft_ready.go\<close> with the status of
  \<^verbatim>\<open>pkg/status/status.go\<close> and the publisher of events of \<^verbatim>\<open>raft/raft_listener.go\<close>. One turn of the loop takes what
  the node wants done (a \<^verbatim>\<open>Ready\<close>) and saves, sends, hands over to the state machine and applies changes of
  the membership, in an order the safety of raft depends on. The storage is an argument; its operations may
  fail, which the loop answers with a panic. The transport and the channel to the state machine appear as the
  actions they get. What the other goroutines do meanwhile is an argument of a turn, \<^verbatim>\<open>turn_env\<close>: how many
  events the listener has taken from its channel, and which case each \<^verbatim>\<open>select\<close> takes. A turn gives how it
  stopped, if it did, and the node with all it had done until then.
\<close>

section \<open>Steps that may stop\<close>

text \<open>
  A step stops when the loop returns (on shutdown, or because the local peer was removed), panics, or waits for
  ever on a channel.
\<close>

datatype stop = Closed | RemovedSelf | Crashed | Blocked

type_synonym 'a step = "'a \<Rightarrow> stop option \<times> 'a"

definition then_do :: "'a step \<Rightarrow> 'a step \<Rightarrow> 'a step" where
  "then_do f g s = (case f s of (None, s') \<Rightarrow> g s' | (Some e, s') \<Rightarrow> (Some e, s'))"

fun seq_do :: "'a step list \<Rightarrow> 'a step" where
  "seq_do [] s = (None, s)"
| "seq_do (f # fs) s = then_do f (seq_do fs) s"

definition when_do :: "bool \<Rightarrow> 'a step \<Rightarrow> 'a step" where
  "when_do b f s = (if b then f s else (None, s))"

section \<open>Status\<close>

record soft_state =
  ss_lead :: u64
  ss_isLeader :: bool

record status =
  sa_hardStateTerm :: u64
  sa_committedIndex :: u64
  sa_acquireLeader :: bool
  sa_softState :: soft_state

definition zero_soft :: soft_state where
  "zero_soft = \<lparr>ss_lead = raftNone, ss_isLeader = False\<rparr>"

definition new_status :: status where
  "new_status = \<lparr>sa_hardStateTerm = 0, sa_committedIndex = 0, sa_acquireLeader = False, sa_softState = zero_soft\<rparr>"

text \<open>The gauges of the metrics that \<^verbatim>\<open>updateLeadership\<close> sets, and how often the leader changed.\<close>

record leader_metrics =
  lm_hasLeader :: nat
  lm_isLeader :: nat
  lm_leaderChanges :: nat

definition update_committed_index :: "entry list \<Rightarrow> snapshot \<Rightarrow> status \<Rightarrow> status" where
  "update_committed_index entries snap st =
     (let n1 = (if length entries \<noteq> 0 then ent_index (last entries) else 0);
          n2 = (if n1 < snap_index snap then snap_index snap else n1)
      in if n2 \<noteq> 0 \<and> sa_committedIndex st < n2 then st\<lparr>sa_committedIndex := n2\<rparr> else st)"

text \<open>
  \<^verbatim>\<open>Publish\<close> sends on a channel with 16 slots. The events are all those ever published, and \<^verbatim>\<open>taken\<close> is the number
  of events the listener takes out by the time that is looked at: the send goes through when at most 15 of the
  earlier events are then still in the channel. There is no channel, and sending panics, when no listener was given.
\<close>

definition publish :: "nat \<Rightarrow> member_event \<Rightarrow> u64 \<Rightarrow> raft_event list option step" where
  "publish taken event peerID evs =
     (case evs of
        None \<Rightarrow> (Some Crashed, None)
      | Some es \<Rightarrow>
          if length es < taken + 16 then (None, Some (es @ [\<lparr>re_event = event, re_groupID = 0, re_peerID = peerID\<rparr>]))
          else (Some Blocked, Some es))"

type_synonym leadership = "status \<times> leader_metrics \<times> raft_event list option"

definition on_events :: "raft_event list option step \<Rightarrow> leadership step" where
  "on_events f s = (case s of (st, mt, evs) \<Rightarrow> case f evs of (r, evs') \<Rightarrow> (r, st, mt, evs'))"

text \<open>
  \<^verbatim>\<open>updateLeadership\<close>: two of the events are published only if there is a publisher, the one of a lost
  leadership without asking.
\<close>

definition update_leadership :: "nat \<Rightarrow> u64 \<Rightarrow> soft_state \<Rightarrow> leadership step" where
  "update_leadership taken local currentState s =
     (let preState = sa_softState (fst s);
          newLeader = (ss_lead currentState \<noteq> raftNone \<and> ss_lead preState \<noteq> ss_lead currentState);
          listening = (snd (snd s) \<noteq> None)
      in seq_do
           [(\<lambda>(st, mt, evs). (None, st\<lparr>sa_softState := currentState\<rparr>,
               if ss_lead currentState = raftNone then mt\<lparr>lm_isLeader := 0\<rparr> else mt\<lparr>lm_hasLeader := 1\<rparr>, evs)),
            (\<lambda>(st, mt, evs).
               if ss_lead currentState = local then
                 when_do listening (on_events (publish taken AcquiredLeader (ss_lead currentState)))
                   (st\<lparr>sa_acquireLeader := True\<rparr>, mt\<lparr>lm_isLeader := 1\<rparr>, evs)
               else if sa_acquireLeader st then
                 on_events (publish taken LostLeader local) (st\<lparr>sa_acquireLeader := False\<rparr>, mt\<lparr>lm_isLeader := 0\<rparr>, evs)
               else (None, st, mt, evs)),
            when_do newLeader (when_do listening (on_events (publish taken LeaderChanged (ss_lead currentState)))),
            when_do newLeader (\<lambda>(st, mt, evs). (None, st, mt\<lparr>lm_leaderChanges := Suc (lm_leaderChanges mt)\<rparr>, evs))] s)"

section \<open>Messages\<close>

datatype message_type = MsgAppResp | MsgSnap | OtherMsg nat

record 'b message =
  ms_type :: message_type
  ms_to :: u64
  ms_index :: u64
  ms_reject :: bool
  ms_snapConf :: conf_state
  ms_rest :: 'b

datatype 'b ready_action =
    SendMsg "'b message" | SendSnap "'b message"
  | SaveAct hard_state "entry list" snapshot | HandOver "entry list" snapshot | PassReadState u64
  | ReleaseSnapshot snapshot | AppendEntries "entry list" | ApplyChanges "entry list" | CloseRemoveSelf | Advance | Tick

text \<open>
  \<^verbatim>\<open>sendRaftMessage\<close>: the accumulators are the highest index acknowledged so far, the position of that
  acknowledgement and whether there is one.
\<close>

fun send_loop ::
  "conf_state \<Rightarrow> nat \<Rightarrow> 'b message list \<Rightarrow> u64 \<times> nat \<times> bool \<Rightarrow> 'b ready_action list \<Rightarrow>
   (nat \<times> bool) \<times> 'b ready_action list" where
  "send_loop cs i [] (appRespIndex, lastAppRespMsgIndex, optimise) sent = ((lastAppRespMsgIndex, optimise), sent)"
| "send_loop cs i (m # ms) (appRespIndex, lastAppRespMsgIndex, optimise) sent =
     (case ms_type m of
        MsgAppResp \<Rightarrow>
          if \<not> ms_reject m \<and> appRespIndex < ms_index m then send_loop cs (Suc i) ms (ms_index m, i, True) sent
          else send_loop cs (Suc i) ms (appRespIndex, lastAppRespMsgIndex, optimise) (sent @ [SendMsg m])
      | MsgSnap \<Rightarrow>
          send_loop cs (Suc i) ms (appRespIndex, lastAppRespMsgIndex, optimise) (sent @ [SendSnap (m\<lparr>ms_snapConf := cs\<rparr>)])
      | OtherMsg _ \<Rightarrow>
          send_loop cs (Suc i) ms (appRespIndex, lastAppRespMsgIndex, optimise) (sent @ [SendMsg m]))"

definition send_raft_message :: "conf_state \<Rightarrow> 'b message list \<Rightarrow> 'b ready_action list" where
  "send_raft_message cs msgs =
     (case send_loop cs 0 msgs (0, 0, False) [] of
        ((lastAppRespMsgIndex, optimise), sent) \<Rightarrow>
          if optimise then sent @ [SendMsg (msgs ! lastAppRespMsgIndex)] else sent)"

section \<open>One turn of the loop\<close>

record 'b ready =
  ry_hardState :: hard_state
  ry_softState :: "soft_state option"
  ry_readStates :: "u64 list"
  ry_entries :: "entry list"
  ry_committedEntries :: "entry list"
  ry_snapshot :: snapshot
  ry_messages :: "'b message list"

definition should_wait_wal_sync :: "'b ready \<Rightarrow> bool" where
  "should_wait_wal_sync rd =
     (if length (ry_committedEntries rd) = 0 \<or> length (ry_entries rd) = 0 then False
      else let lastCommittedEntry = last (ry_committedEntries rd); firstUnstableEntry = hd (ry_entries rd)
           in ent_term firstUnstableEntry < ent_term lastCommittedEntry \<or>
              (ent_term lastCommittedEntry = ent_term firstUnstableEntry \<and>
               ent_index firstUnstableEntry \<le> ent_index lastCommittedEntry))"

record 's ready_storage =
  sr_save :: "hard_state \<Rightarrow> entry list \<Rightarrow> snapshot \<Rightarrow> 's \<Rightarrow> 's option"
  sr_release :: "snapshot \<Rightarrow> 's \<Rightarrow> 's option"
  sr_append :: "entry list \<Rightarrow> 's \<Rightarrow> 's option"

record ('m, 'c, 'n, 't, 'r, 's, 'b) ready_node =
  rn_isLeader :: bool
  rn_status :: status
  rn_metrics :: leader_metrics
  rn_ready :: "('m, 'c, 'n, 't, 'r) ready_state"
  rn_storage :: 's
  rn_actions :: "'b ready_action list"

definition did :: "'b ready_action list \<Rightarrow> ('m, 'c, 'n, 't, 'r, 's, 'b) ready_node \<Rightarrow> ('m, 'c, 'n, 't, 'r, 's, 'b) ready_node" where
  "did as nd = nd\<lparr>rn_actions := rn_actions nd @ as\<rparr>"

datatype read_choice = ReadPassed | ReadTimedOut | ReadClosed

record turn_env =
  te_taken :: nat
  te_read :: read_choice
  te_handOver :: bool
  te_nows :: "nat \<Rightarrow> u64"

text \<open>A step on the storage: an error is a panic.\<close>

definition on_storage :: "('s \<Rightarrow> 's option) \<Rightarrow> 'b ready_action \<Rightarrow> ('m, 'c, 'n, 't, 'r, 's, 'b) ready_node step" where
  "on_storage f a nd =
     (case f (rn_storage nd) of None \<Rightarrow> (Some Crashed, nd) | Some s \<Rightarrow> (None, did [a] (nd\<lparr>rn_storage := s\<rparr>)))"

definition observe_state :: "nat \<Rightarrow> u64 \<Rightarrow> 'b ready \<Rightarrow> ('m, 'c, 'n, 't, 'r, 's, 'b) ready_node step" where
  "observe_state taken local rd nd =
     (let nd1 = (if ry_hardState rd \<noteq> zero_hard_state
                 then nd\<lparr>rn_status := (rn_status nd)\<lparr>sa_hardStateTerm := hs_term (ry_hardState rd)\<rparr>\<rparr> else nd)
      in case ry_softState rd of
           None \<Rightarrow> (None, nd1)
         | Some ss \<Rightarrow>
             (case update_leadership taken local ss (rn_status nd1, rn_metrics nd1, fa_events (rd_facade (rn_ready nd1))) of
                (r, st, mt, evs) \<Rightarrow>
                  (r, nd1\<lparr>rn_status := st, rn_metrics := mt,
                        rn_ready := (rn_ready nd1)\<lparr>rd_facade := (rd_facade (rn_ready nd1))\<lparr>fa_events := evs\<rparr>\<rparr>,
                        rn_isLeader := (if r = None then ss_isLeader ss else rn_isLeader nd1)\<rparr>)))"

definition pass_read_state :: "read_choice \<Rightarrow> 'b ready \<Rightarrow> ('m, 'c, 'n, 't, 'r, 's, 'b) ready_node step" where
  "pass_read_state choice rd nd =
     (case choice of
        ReadPassed \<Rightarrow> (None, did [PassReadState (last (ry_readStates rd))] nd)
      | ReadTimedOut \<Rightarrow> (None, nd)
      | ReadClosed \<Rightarrow> (Some Closed, nd))"

definition save_ready :: "'s ready_storage \<Rightarrow> 'b ready \<Rightarrow> ('m, 'c, 'n, 't, 'r, 's, 'b) ready_node step" where
  "save_ready sr rd =
     on_storage (sr_save sr (ry_hardState rd) (ry_entries rd) (ry_snapshot rd))
       (SaveAct (ry_hardState rd) (ry_entries rd) (ry_snapshot rd))"

definition hand_over_ready :: "bool \<Rightarrow> 'b ready \<Rightarrow> ('m, 'c, 'n, 't, 'r, 's, 'b) ready_node step" where
  "hand_over_ready sent rd nd =
     (if sent then (None, did [HandOver (ry_committedEntries rd) (ry_snapshot rd)] nd) else (Some Closed, nd))"

definition send_ready :: "'b ready \<Rightarrow> ('m, 'c, 'n, 't, 'r, 's, 'b) ready_node step" where
  "send_ready rd nd = (None, did (send_raft_message (rd_confState (rn_ready nd)) (ry_messages rd)) nd)"

definition timed :: "(nat \<Rightarrow> u64) \<Rightarrow> entry list \<Rightarrow> (entry \<times> u64) list" where
  "timed nows es = zip es (map nows [0..<length es])"

definition events_fit :: "nat \<Rightarrow> raft_event list option \<Rightarrow> bool" where
  "events_fit taken evs \<longleftrightarrow> (case evs of None \<Rightarrow> True | Some es \<Rightarrow> length es \<le> taken + 16)"

text \<open>
  The changes publish an event each; a turn that blocks on one is given with the state before the changes.
  When the local peer was removed the loop closes a channel and ends.
\<close>

definition apply_changes_ready ::
  "('m, 'r response) session_ops \<Rightarrow> 'c applied_cluster \<Rightarrow> 't applied_transport \<Rightarrow> 'n raft_node \<Rightarrow>
   (bytes \<Rightarrow> conf_change option) \<Rightarrow> turn_env \<Rightarrow> 'b ready \<Rightarrow> ('m, 'c, 'n, 't, 'r, 's, 'b) ready_node step" where
  "apply_changes_ready ops ac at node decode te rd nd =
     (case apply_conf_changes ops ac at node decode (timed (te_nows te) (ry_committedEntries rd)) (rn_ready nd) of
        Ret (removed, st) \<Rightarrow>
          if \<not> events_fit (te_taken te) (fa_events (rd_facade st)) then (Some Blocked, nd)
          else let nd' = did [ApplyChanges (ry_committedEntries rd)] (nd\<lparr>rn_ready := st\<rparr>)
               in if removed then (Some RemovedSelf, did [CloseRemoveSelf] nd') else (None, nd')
      | _ \<Rightarrow> (Some Crashed, nd))"

text \<open>The body of the loop for one \<^verbatim>\<open>Ready\<close>.\<close>

definition process_raft_ready ::
  "('m, 'r response) session_ops \<Rightarrow> 'c applied_cluster \<Rightarrow> 't applied_transport \<Rightarrow> 'n raft_node \<Rightarrow>
   (bytes \<Rightarrow> conf_change option) \<Rightarrow> 's ready_storage \<Rightarrow> turn_env \<Rightarrow> 'b ready \<Rightarrow>
   ('m, 'c, 'n, 't, 'r, 's, 'b) ready_node step" where
  "process_raft_ready ops ac at node decode sr te rd nd =
     then_do (observe_state (te_taken te) (ac_localPeerID ac (fa_cluster (rd_facade (rn_ready nd)))) rd)
       (\<lambda>nd1.
         let isLeader = rn_isLeader nd1; waitWALSync = should_wait_wal_sync rd; emptySnapshot = (snap_index (ry_snapshot rd) = 0)
         in seq_do
              [when_do (length (ry_readStates rd) \<noteq> 0) (pass_read_state (te_read te) rd),
               (\<lambda>nd. (None, nd\<lparr>rn_status := update_committed_index (ry_committedEntries rd) (ry_snapshot rd) (rn_status nd)\<rparr>)),
               when_do waitWALSync (save_ready sr rd),
               when_do (0 < length (ry_committedEntries rd) \<or> \<not> emptySnapshot) (hand_over_ready (te_handOver te) rd),
               when_do isLeader (send_ready rd),
               when_do (\<not> waitWALSync) (save_ready sr rd),
               when_do (\<not> emptySnapshot) (on_storage (sr_release sr (ry_snapshot rd)) (ReleaseSnapshot (ry_snapshot rd))),
               on_storage (sr_append sr (ry_entries rd)) (AppendEntries (ry_entries rd)),
               apply_changes_ready ops ac at node decode te rd,
               when_do (\<not> isLeader) (send_ready rd),
               (\<lambda>nd. (None, did [Advance] nd))] nd1) nd"

text \<open>The loop itself: the ticks, the \<^verbatim>\<open>Ready\<close> values and the shutdown in the order in which the \<^verbatim>\<open>select\<close> takes them.\<close>

datatype 'b loop_event = TickEvent | CloseEvent | ReadyEvent turn_env "'b ready"

fun ready_loop ::
  "('m, 'r response) session_ops \<Rightarrow> 'c applied_cluster \<Rightarrow> 't applied_transport \<Rightarrow> 'n raft_node \<Rightarrow>
   (bytes \<Rightarrow> conf_change option) \<Rightarrow> 's ready_storage \<Rightarrow> 'b loop_event list \<Rightarrow>
   ('m, 'c, 'n, 't, 'r, 's, 'b) ready_node step" where
  "ready_loop ops ac at node decode sr [] nd = (None, nd)"
| "ready_loop ops ac at node decode sr (TickEvent # es) nd = ready_loop ops ac at node decode sr es (did [Tick] nd)"
| "ready_loop ops ac at node decode sr (CloseEvent # es) nd = (Some Closed, nd)"
| "ready_loop ops ac at node decode sr (ReadyEvent te rd # es) nd =
     then_do (process_raft_ready ops ac at node decode sr te rd) (ready_loop ops ac at node decode sr es) nd"

section \<open>Leadership\<close>

text \<open>
  After every report of the node the status says leader exactly when the reported leader is the
  local peer; the commit index never goes down.
\<close>

lemmas step_simps = then_do_def when_do_def on_events_def publish_def

lemma update_leadership_sets:
  assumes "update_leadership taken local ss (st, mt, evs) = (None, st', mt', evs')"
    and "sa_acquireLeader st \<longleftrightarrow> ss_lead (sa_softState st) = local"
  shows "sa_softState st' = ss \<and> (sa_acquireLeader st' \<longleftrightarrow> ss_lead ss = local) \<and>
    sa_committedIndex st' = sa_committedIndex st \<and> (evs = None \<longleftrightarrow> evs' = None)"
  using assms
  by (auto simp: update_leadership_def Let_def step_simps split: if_splits option.splits)

lemma update_committed_index_mono: "sa_committedIndex st \<le> sa_committedIndex (update_committed_index es snap st)"
  by (auto simp: update_committed_index_def Let_def)

text \<open>
  The gauge that tells whether there is a leader is never set back to 0: when the leader is lost another gauge
  is cleared.
\<close>

lemma has_leader_gauge_stays:
  assumes "lm_hasLeader mt = 1"
  shows "lm_hasLeader (fst (snd (snd (update_leadership taken local ss (st, mt, evs))))) = 1"
  using assms by (auto simp: update_leadership_def Let_def step_simps split: if_splits option.splits)

text \<open>With a listener at most two events are published; without one only a lost leadership stops the turn.\<close>

lemma update_leadership_goes_on:
  assumes "length es + 2 \<le> taken + 16"
  shows "\<exists>st' mt' es'. update_leadership taken local ss (st, mt, Some es) = (None, st', mt', Some es') \<and> length es' \<le> length es + 2"
  using assms by (auto simp: update_leadership_def Let_def step_simps split: if_splits)

lemma update_leadership_no_listener:
  "\<exists>st' mt'. update_leadership taken local ss (st, mt, None) =
     (if sa_acquireLeader st \<and> ss_lead ss \<noteq> local then Some Crashed else None, st', mt', None)"
  by (auto simp: update_leadership_def Let_def step_simps split: if_splits)

section \<open>What is sent\<close>

definition ack :: "'b message \<Rightarrow> bool" where
  "ack m \<longleftrightarrow> ms_type m = MsgAppResp \<and> \<not> ms_reject m"

definition deliver :: "conf_state \<Rightarrow> 'b message \<Rightarrow> 'b ready_action" where
  "deliver cs m = (if ms_type m = MsgSnap then SendSnap (m\<lparr>ms_snapConf := cs\<rparr>) else SendMsg m)"

text \<open>
  The reference: an acknowledgement that exceeds every one before it is held back, everything else
  is sent in order, and the last of those held back, the highest, follows at the end.
\<close>

definition higher :: "u64 \<Rightarrow> 'b message \<Rightarrow> bool" where
  "higher n m \<longleftrightarrow> ack m \<and> n < ms_index m"

fun held_back :: "u64 \<Rightarrow> 'b message list \<Rightarrow> 'b message list" where
  "held_back n [] = []"
| "held_back n (m # ms) = (if higher n m then m # held_back (ms_index m) ms else held_back n ms)"

fun passed_on :: "u64 \<Rightarrow> 'b message list \<Rightarrow> 'b message list" where
  "passed_on n [] = []"
| "passed_on n (m # ms) = (if higher n m then passed_on (ms_index m) ms else m # passed_on n ms)"

lemma send_loop_passed_on:
  "send_loop cs i ms (n, l, opt) sent =
     ((if held_back n ms = [] then (l, opt) else (fst (fst (send_loop cs i ms (n, l, opt) sent)), True)),
      sent @ map (deliver cs) (passed_on n ms)) \<and>
   (held_back n ms \<noteq> [] \<longrightarrow>
      (\<exists>j < length ms. fst (fst (send_loop cs i ms (n, l, opt) sent)) = i + j \<and> ms ! j = last (held_back n ms)))"
proof (induction ms arbitrary: i n l opt sent)
  case (Cons m ms)
  show ?case
  proof (cases "higher n m")
    case True
    then have e: "send_loop cs i (m # ms) (n, l, opt) sent = send_loop cs (Suc i) ms (ms_index m, i, True) sent" by (simp add: ack_def higher_def)
    show ?thesis
    proof (cases "held_back (ms_index m) ms")
      case Nil
      then show ?thesis using Cons.IH [of "Suc i" "ms_index m" i True sent] e True by (auto intro: exI [of _ 0])
    next
      case (Cons h hs)
      then show ?thesis using Cons.IH [of "Suc i" "ms_index m" i True sent] e True by (auto intro: exI [of _ "Suc _"])
    qed
  next
    case False
    then have e: "send_loop cs i (m # ms) (n, l, opt) sent = send_loop cs (Suc i) ms (n, l, opt) (sent @ [deliver cs m])"
      by (cases "ms_type m") (auto simp: ack_def deliver_def higher_def)
    show ?thesis using Cons.IH [of "Suc i" n l opt "sent @ [deliver cs m]"] e False by (auto intro: exI [of _ "Suc _"])
  qed
qed simp

lemma held_back_acks: "m \<in> set (held_back n ms) \<Longrightarrow> higher n m"
proof (induction n ms rule: held_back.induct)
  case (2 n m' ms)
  show ?case
  proof (cases "higher n m'")
    case True
    then have "m = m' \<or> m \<in> set (held_back (ms_index m') ms)" using 2(3) by simp
    then show ?thesis using 2(1) [OF True] True by (auto simp: higher_def intro: order_less_trans)
  next
    case False
    then show ?thesis using 2(2) [OF False] 2(3) by simp
  qed
qed simp

lemma held_back_sorted: "sorted_wrt (<) (map ms_index (held_back n ms))"
proof (induction n ms rule: held_back.induct)
  case (2 n m ms)
  show ?case
  proof (cases "higher n m")
    case True
    then show ?thesis using 2(1) [OF True] held_back_acks [of _ "ms_index m" ms] by (auto simp: higher_def)
  next
    case False
    then show ?thesis using 2(2) [OF False] by simp
  qed
qed simp

lemma held_and_passed: "mset (held_back n ms) + mset (passed_on n ms) = mset ms"
proof (induction n ms rule: held_back.induct)
  case (2 n m ms)
  then show ?case by (cases "higher n m") simp_all
qed simp

lemma send_raft_message_reference:
  "send_raft_message cs msgs = map (deliver cs) (passed_on 0 msgs) @
     (if held_back 0 msgs = [] then [] else [SendMsg (last (held_back 0 msgs))])"
proof -
  obtain l opt sent where s: "send_loop cs 0 msgs (0, 0, False) [] = ((l, opt), sent)" by (metis surj_pair)
  note r = send_loop_passed_on [of cs 0 msgs 0 0 False "[]", unfolded s]
  show ?thesis
  proof (cases "held_back 0 msgs = []")
    case True
    then show ?thesis using r s by (simp add: send_raft_message_def)
  next
    case False
    then have "opt" "sent = map (deliver cs) (passed_on 0 msgs)" "msgs ! l = last (held_back 0 msgs)" using r by auto
    then show ?thesis using s False by (simp add: send_raft_message_def)
  qed
qed

text \<open>
  The same without recursion: the message at a position raises the highest acknowledged index if it is an
  acknowledgement of an index above those of all acknowledgements before it.
\<close>

definition raises :: "u64 \<Rightarrow> 'b message list \<Rightarrow> nat \<Rightarrow> bool" where
  "raises n ms i \<longleftrightarrow> higher n (ms ! i) \<and> (\<forall>j<i. ack (ms ! j) \<longrightarrow> ms_index (ms ! j) < ms_index (ms ! i))"

lemma raises_Suc: "raises n (m # ms) (Suc i) \<longleftrightarrow> raises (if higher n m then ms_index m else n) ms i"
  by (auto simp: raises_def higher_def less_Suc_eq_0_disj)

lemma raises_0: "raises n (m # ms) 0 \<longleftrightarrow> higher n m"
  by (simp add: raises_def)

lemma filter_positions:
  "filter P [0..<Suc k] = (if P 0 then [0] else []) @ map Suc (filter (\<lambda>i. P (Suc i)) [0..<k])"
proof -
  have "[0..<Suc k] = 0 # map Suc [0..<k]" by (simp only: map_Suc_upt upt_conv_Cons zero_less_Suc)
  then show ?thesis by (simp add: filter_map comp_def)
qed

lemma held_back_raises: "held_back n ms = map ((!) ms) (filter (raises n ms) [0..<length ms])"
proof (induction n ms rule: held_back.induct)
  case (2 n m ms)
  then show ?case unfolding list.size(4) add_0_right add_Suc_right filter_positions raises_Suc raises_0
    by (auto simp: comp_def cong: filter_cong)
qed simp

lemma passed_on_raises: "passed_on n ms = map ((!) ms) (filter (\<lambda>i. \<not> raises n ms i) [0..<length ms])"
proof (induction n ms rule: passed_on.induct)
  case (2 n m ms)
  then show ?case unfolding list.size(4) add_0_right add_Suc_right filter_positions raises_Suc raises_0
    by (auto simp: comp_def cong: filter_cong)
qed simp

text \<open>
  C24. What one pass over the messages of a turn sends. First, in their order, all messages but the
  acknowledgements that raise the highest acknowledged index of the pass. Then, of those, only the last, which is
  the one with the highest index. The others are never sent, whatever their destination is.
\<close>

theorem send_raft_message_equiv:
  "let held = filter (raises 0 msgs) [0..<length msgs]
   in send_raft_message cs msgs =
        map (\<lambda>i. deliver cs (msgs ! i)) (filter (\<lambda>i. \<not> raises 0 msgs i) [0..<length msgs]) @
        (if held = [] then [] else [SendMsg (msgs ! last held)]) \<and>
      sorted_wrt (<) (map (\<lambda>i. ms_index (msgs ! i)) held)"
  using send_raft_message_reference [of cs msgs] held_back_sorted [of 0 msgs]
  unfolding held_back_raises passed_on_raises
  by (simp add: Let_def comp_def last_map)

section \<open>The order of a turn\<close>

fun is_save :: "'b ready_action \<Rightarrow> bool" where
  "is_save (SaveAct _ _ _) = True" | "is_save _ = False"

fun is_send :: "'b ready_action \<Rightarrow> bool" where
  "is_send (SendMsg _) = True" | "is_send (SendSnap _) = True" | "is_send _ = False"

fun is_handover :: "'b ready_action \<Rightarrow> bool" where
  "is_handover (HandOver _ _) = True" | "is_handover _ = False"

fun is_append :: "'b ready_action \<Rightarrow> bool" where
  "is_append (AppendEntries _) = True" | "is_append _ = False"

text \<open>No action of the second kind comes before the first one of the first kind.\<close>

fun only_after :: "('a \<Rightarrow> bool) \<Rightarrow> ('a \<Rightarrow> bool) \<Rightarrow> 'a list \<Rightarrow> bool" where
  "only_after P Q [] = True"
| "only_after P Q (x # xs) = (P x \<or> \<not> Q x \<and> only_after P Q xs)"

lemma only_after_append: "only_after P Q (xs @ ys) \<longleftrightarrow> (if \<exists>x\<in>set xs. P x then only_after P Q xs else (\<forall>x\<in>set xs. \<not> Q x) \<and> only_after P Q ys)"
  by (induction xs) auto

lemma sends_only: "a \<in> set (send_raft_message cs msgs) \<Longrightarrow> is_send a"
  by (auto simp: send_raft_message_reference deliver_def split: if_splits)

lemma send_kinds:
  assumes "is_send a"
  shows "\<not> is_save a" "\<not> is_handover a" "\<not> is_append a"
  using assms by (cases a; simp)+

text \<open>
  The actions of a turn that goes to its end, for a node that is leader or not and that goes on or was removed;
  a turn that stops early has taken a beginning of them.
\<close>

definition turn_actions :: "'b ready \<Rightarrow> bool \<Rightarrow> bool \<Rightarrow> bool \<Rightarrow> conf_state \<Rightarrow> conf_state \<Rightarrow> 'b ready_action list" where
  "turn_actions rd passed leader removed cs cs' =
     (let save = [SaveAct (ry_hardState rd) (ry_entries rd) (ry_snapshot rd)]; wait = should_wait_wal_sync rd
      in (if ry_readStates rd \<noteq> [] \<and> passed then [PassReadState (last (ry_readStates rd))] else []) @
         (if wait then save else []) @
         (if ry_committedEntries rd \<noteq> [] \<or> snap_index (ry_snapshot rd) \<noteq> 0
          then [HandOver (ry_committedEntries rd) (ry_snapshot rd)] else []) @
         (if leader then send_raft_message cs (ry_messages rd) else []) @
         (if wait then [] else save) @
         (if snap_index (ry_snapshot rd) \<noteq> 0 then [ReleaseSnapshot (ry_snapshot rd)] else []) @
         [AppendEntries (ry_entries rd)] @ [ApplyChanges (ry_committedEntries rd)] @
         (if removed then [CloseRemoveSelf] else (if leader then [] else send_raft_message cs' (ry_messages rd)) @ [Advance]))"

lemma did_simps [simp]:
  "rn_actions (did as nd) = rn_actions nd @ as" "rn_ready (did as nd) = rn_ready nd"
  "rn_isLeader (did as nd) = rn_isLeader nd" "rn_storage (did as nd) = rn_storage nd" "rn_status (did as nd) = rn_status nd"
  by (simp_all add: did_def)

text \<open>
  \<^verbatim>\<open>emits f as nd\<close>: from the node \<^verbatim>\<open>nd\<close> the step takes the actions \<^verbatim>\<open>as\<close> if it goes on, and a beginning of them if it
  stops; it changes neither the facade nor the leadership.
\<close>

definition emits :: "('m, 'c, 'n, 't, 'r, 's, 'b) ready_node step \<Rightarrow> 'b ready_action list \<Rightarrow> ('m, 'c, 'n, 't, 'r) ready_state \<Rightarrow> bool" where
  "emits f as st \<longleftrightarrow>
     (\<forall>nd. rn_ready nd = st \<longrightarrow>
        (\<exists>bs. rn_actions (snd (f nd)) = rn_actions nd @ bs \<and> prefix bs as \<and> (fst (f nd) = None \<longrightarrow> bs = as)) \<and>
        rn_ready (snd (f nd)) = st \<and> rn_isLeader (snd (f nd)) = rn_isLeader nd \<and> fst (f nd) \<noteq> Some RemovedSelf)"

lemma emitsI:
  assumes "\<And>nd. rn_ready nd = st \<Longrightarrow> rn_ready (snd (f nd)) = st \<and> rn_isLeader (snd (f nd)) = rn_isLeader nd \<and>
      (fst (f nd) = None \<and> rn_actions (snd (f nd)) = rn_actions nd @ as \<or>
       fst (f nd) \<noteq> None \<and> fst (f nd) \<noteq> Some RemovedSelf \<and> rn_actions (snd (f nd)) = rn_actions nd)"
  shows "emits f as st"
  using assms unfolding emits_def by fastforce

lemma emits_when: "(b \<Longrightarrow> emits f as st) \<Longrightarrow> emits (when_do b f) (if b then as else []) st"
  by (cases b) (simp_all add: emits_def when_do_def cong: if_cong)

lemma emits_on_storage: "emits (on_storage f a) [a] st"
  by (rule emitsI) (auto simp: on_storage_def split: option.split)

lemma emits_save: "emits (save_ready sr rd) [SaveAct (ry_hardState rd) (ry_entries rd) (ry_snapshot rd)] st"
  unfolding save_ready_def by (rule emits_on_storage)

lemma emits_send: "emits (send_ready rd) (send_raft_message (rd_confState st) (ry_messages rd)) st"
  by (rule emitsI) (simp add: send_ready_def)

lemma emits_hand_over: "emits (hand_over_ready sent rd) [HandOver (ry_committedEntries rd) (ry_snapshot rd)] st"
  by (rule emitsI) (simp add: hand_over_ready_def)

lemma emits_read:
  "emits (pass_read_state choice rd) (if choice = ReadPassed then [PassReadState (last (ry_readStates rd))] else []) st"
  by (rule emitsI) (cases choice; simp add: pass_read_state_def)

lemma emits_status: "emits (\<lambda>nd. (None, nd\<lparr>rn_status := g nd\<rparr>)) [] st"
  by (rule emitsI) simp

lemma emits_advance: "emits (\<lambda>nd. (None, did [Advance] nd)) [Advance] st"
  by (rule emitsI) simp

lemma emits_seq_Nil: "emits (seq_do []) [] st"
  by (simp add: emits_def)

lemma emitsD:
  assumes "emits f as (rn_ready nd)" and "f nd = (r, nd')"
  obtains bs where "rn_actions nd' = rn_actions nd @ bs" and "prefix bs as" and "r = None \<Longrightarrow> bs = as"
    and "rn_ready nd' = rn_ready nd" and "rn_isLeader nd' = rn_isLeader nd" and "r \<noteq> Some RemovedSelf"
  using assms(1) [unfolded emits_def, rule_format, OF refl] assms(2) by auto

lemma emits_byI:
  assumes "\<And>nd r nd'. rn_ready nd = st \<Longrightarrow> f nd = (r, nd') \<Longrightarrow>
      rn_ready nd' = st \<and> rn_isLeader nd' = rn_isLeader nd \<and> r \<noteq> Some RemovedSelf \<and>
      (\<exists>bs. rn_actions nd' = rn_actions nd @ bs \<and> prefix bs as \<and> (r = None \<longrightarrow> bs = as))"
  shows "emits f as st"
  unfolding emits_def using assms [OF _ prod.collapse [symmetric]] by blast

lemma emits_then:
  assumes f: "emits f as st" and g: "emits g bs st"
  shows "emits (then_do f g) (as @ bs) st"
proof (rule emits_byI)
  fix nd r nd' assume st: "rn_ready nd = st" and run: "then_do f g nd = (r, nd')"
  obtain r1 nd1 where 1: "f nd = (r1, nd1)" by fastforce
  from emitsD [OF f [folded st] 1] obtain cs where cs: "rn_actions nd1 = rn_actions nd @ cs" "prefix cs as" "r1 = None \<Longrightarrow> cs = as"
    "rn_ready nd1 = st" "rn_isLeader nd1 = rn_isLeader nd" "r1 \<noteq> Some RemovedSelf" using st by metis
  show "rn_ready nd' = st \<and> rn_isLeader nd' = rn_isLeader nd \<and> r \<noteq> Some RemovedSelf \<and>
      (\<exists>bs'. rn_actions nd' = rn_actions nd @ bs' \<and> prefix bs' (as @ bs) \<and> (r = None \<longrightarrow> bs' = as @ bs))"
  proof (cases r1)
    case None
    then have 2: "g nd1 = (r, nd')" using run 1 by (simp add: then_do_def)
    from emitsD [OF g [folded cs(4)] 2] obtain ds where "rn_actions nd' = rn_actions nd1 @ ds" "prefix ds bs" "r = None \<Longrightarrow> ds = bs"
      "rn_ready nd' = st" "rn_isLeader nd' = rn_isLeader nd1" "r \<noteq> Some RemovedSelf" using cs(4) by metis
    then show ?thesis using cs(1,5) cs(3) [OF None] by (intro conjI exI [of _ "as @ ds"]) auto
  next
    case (Some e)
    then have "r = r1" "nd' = nd1" using run 1 by (simp_all add: then_do_def)
    then show ?thesis using cs Some by (intro conjI exI [of _ cs]) (auto intro: prefix_prefix)
  qed
qed

lemma seq_do_Cons: "seq_do (f # fs) = then_do f (seq_do fs)"
  by (rule ext) simp

lemma emits_seq_Cons: "emits f as st \<Longrightarrow> emits (seq_do fs) bs st \<Longrightarrow> emits (seq_do (f # fs)) (as @ bs) st"
  unfolding seq_do_Cons by (rule emits_then)


lemma then_do_assoc: "then_do (then_do f g) h = then_do f (then_do g h)"
proof
  fix s
  obtain r s' where "f s = (r, s')" by fastforce
  then show "then_do (then_do f g) h s = then_do f (then_do g h) s" by (cases r) (simp_all add: then_do_def)
qed

lemma seq_do_append: "seq_do (fs @ gs) = then_do (seq_do fs) (seq_do gs)"
proof (induction fs)
  case Nil
  show ?case by (rule ext) (simp add: then_do_def)
next
  case (Cons f fs)
  then show ?case by (simp only: append_Cons seq_do_Cons then_do_assoc)
qed

lemmas emits_steps = emits_seq_Cons emits_seq_Nil emits_when emits_on_storage emits_save emits_send emits_hand_over
  emits_read emits_status emits_advance

definition first_steps ::
  "'s ready_storage \<Rightarrow> turn_env \<Rightarrow> 'b ready \<Rightarrow> bool \<Rightarrow> ('m, 'c, 'n, 't, 'r, 's, 'b) ready_node step list" where
  "first_steps sr te rd isLeader =
     (let waitWALSync = should_wait_wal_sync rd; emptySnapshot = (snap_index (ry_snapshot rd) = 0)
      in [when_do (length (ry_readStates rd) \<noteq> 0) (pass_read_state (te_read te) rd),
          (\<lambda>nd. (None, nd\<lparr>rn_status := update_committed_index (ry_committedEntries rd) (ry_snapshot rd) (rn_status nd)\<rparr>)),
          when_do waitWALSync (save_ready sr rd),
          when_do (0 < length (ry_committedEntries rd) \<or> \<not> emptySnapshot) (hand_over_ready (te_handOver te) rd),
          when_do isLeader (send_ready rd),
          when_do (\<not> waitWALSync) (save_ready sr rd),
          when_do (\<not> emptySnapshot) (on_storage (sr_release sr (ry_snapshot rd)) (ReleaseSnapshot (ry_snapshot rd))),
          on_storage (sr_append sr (ry_entries rd)) (AppendEntries (ry_entries rd))])"

definition last_steps :: "'b ready \<Rightarrow> bool \<Rightarrow> ('m, 'c, 'n, 't, 'r, 's, 'b) ready_node step list" where
  "last_steps rd isLeader = [when_do (\<not> isLeader) (send_ready rd), (\<lambda>nd. (None, did [Advance] nd))]"

definition first_actions :: "'b ready \<Rightarrow> bool \<Rightarrow> bool \<Rightarrow> conf_state \<Rightarrow> 'b ready_action list" where
  "first_actions rd passed leader cs =
     (let save = [SaveAct (ry_hardState rd) (ry_entries rd) (ry_snapshot rd)]; wait = should_wait_wal_sync rd
      in (if length (ry_readStates rd) \<noteq> 0 then if passed then [PassReadState (last (ry_readStates rd))] else [] else []) @ [] @
         (if wait then save else []) @
         (if 0 < length (ry_committedEntries rd) \<or> snap_index (ry_snapshot rd) \<noteq> 0
          then [HandOver (ry_committedEntries rd) (ry_snapshot rd)] else []) @
         (if leader then send_raft_message cs (ry_messages rd) else []) @
         (if \<not> wait then save else []) @
         (if snap_index (ry_snapshot rd) \<noteq> 0 then [ReleaseSnapshot (ry_snapshot rd)] else []) @
         [AppendEntries (ry_entries rd)] @ [])"

lemma turn_actions_first:
  "turn_actions rd passed leader removed cs cs' =
     first_actions rd passed leader cs @ [ApplyChanges (ry_committedEntries rd)] @
     (if removed then [CloseRemoveSelf] else (if \<not> leader then send_raft_message cs' (ry_messages rd) else []) @ [Advance] @ [])"
  by (simp add: turn_actions_def first_actions_def Let_def)

lemma emits_first: "emits (seq_do (first_steps sr te rd isLeader)) (first_actions rd (te_read te = ReadPassed) isLeader (rd_confState st)) st"
  unfolding first_steps_def first_actions_def Let_def by (intro emits_steps)

lemma emits_last:
  "emits (seq_do (last_steps rd isLeader)) ((if \<not> isLeader then send_raft_message (rd_confState st) (ry_messages rd) else []) @ [Advance] @ []) st"
  unfolding last_steps_def by (intro emits_steps)

lemma process_raft_ready_steps:
  "process_raft_ready ops ac at node decode sr te rd nd =
     then_do (observe_state (te_taken te) (ac_localPeerID ac (fa_cluster (rd_facade (rn_ready nd)))) rd)
       (\<lambda>nd1. then_do (seq_do (first_steps sr te rd (rn_isLeader nd1)))
          (then_do (apply_changes_ready ops ac at node decode te rd) (seq_do (last_steps rd (rn_isLeader nd1)))) nd1) nd"
proof -
  have "seq_do (first_steps sr te rd L @ apply_changes_ready ops ac at node decode te rd # last_steps rd L) =
      then_do (seq_do (first_steps sr te rd L)) (then_do (apply_changes_ready ops ac at node decode te rd) (seq_do (last_steps rd L)))" for L
    unfolding seq_do_append seq_do_Cons ..
  from this [symmetric] show ?thesis
    by (simp only: process_raft_ready_def first_steps_def last_steps_def Let_def append_Cons append_Nil)
qed

lemma update_leadership_stops: "fst (update_leadership taken local ss s) \<in> {None, Some Crashed, Some Blocked}"
  by (cases s) (auto simp: update_leadership_def Let_def step_simps split: option.split if_splits)

lemma observe_state_actions:
  assumes "observe_state taken local rd nd = (r, nd1)"
  shows "rn_actions nd1 = rn_actions nd \<and> r \<noteq> Some RemovedSelf"
  using assms update_leadership_stops [of taken local] unfolding observe_state_def Let_def
  by (auto split: option.splits prod.splits if_splits) (metis fst_conv insertE option.distinct(1) option.inject singletonD stop.distinct)+

lemma apply_changes_ends:
  assumes "apply_changes_ready ops ac at node decode te rd nd = (r, nd')"
  shows "rn_isLeader nd' = rn_isLeader nd \<and>
    (r = None \<and> rn_actions nd' = rn_actions nd @ [ApplyChanges (ry_committedEntries rd)] \<or>
     r = Some RemovedSelf \<and> rn_actions nd' = rn_actions nd @ [ApplyChanges (ry_committedEntries rd), CloseRemoveSelf] \<or>
     r \<noteq> None \<and> r \<noteq> Some RemovedSelf \<and> nd' = nd)"
  using assms by (auto simp: apply_changes_ready_def Let_def split: outcome.splits prod.splits if_splits)

lemma steps_taken:
  assumes run: "then_do (seq_do (first_steps sr te rd (rn_isLeader nd)))
      (then_do (apply_changes_ready ops ac at node decode te rd) (seq_do (last_steps rd (rn_isLeader nd)))) nd = (r, nd')"
  shows "rn_isLeader nd' = rn_isLeader nd \<and> (\<exists>bs removed cs'. rn_actions nd' = rn_actions nd @ bs \<and>
    prefix bs (turn_actions rd (te_read te = ReadPassed) (rn_isLeader nd) removed (rd_confState (rn_ready nd)) cs') \<and>
    (r = None \<or> r = Some RemovedSelf \<longrightarrow> removed = (r \<noteq> None) \<and>
       bs = turn_actions rd (te_read te = ReadPassed) (rn_isLeader nd) removed (rd_confState (rn_ready nd)) cs'))"
    (is "_ \<and> (\<exists>bs removed cs'. ?taken nd' r bs removed cs')")
proof -
  let ?L = "rn_isLeader nd" and ?first = "first_actions rd (te_read te = ReadPassed) (rn_isLeader nd) (rd_confState (rn_ready nd))"
  obtain r1 nd1 where 1: "seq_do (first_steps sr te rd ?L) nd = (r1, nd1)" by fastforce
  from emitsD [OF emits_first 1] obtain bs where bs: "rn_actions nd1 = rn_actions nd @ bs" "prefix bs ?first" "r1 = None \<Longrightarrow> bs = ?first"
    "rn_ready nd1 = rn_ready nd" "rn_isLeader nd1 = ?L" "r1 \<noteq> Some RemovedSelf" by metis
  show ?thesis
  proof (cases r1)
    case (Some e)
    then have "r = r1" "nd' = nd1" using run 1 by (simp_all add: then_do_def)
    then show ?thesis using bs Some by (intro conjI exI [of _ bs] exI [of _ True]) (auto simp: turn_actions_first intro: prefix_prefix)
  next
    case None
    note bs = bs(1) [unfolded bs(3) [OF None]] bs(4,5)
    obtain r2 nd2 where 2: "apply_changes_ready ops ac at node decode te rd nd1 = (r2, nd2)" by fastforce
    have rest: "then_do (apply_changes_ready ops ac at node decode te rd) (seq_do (last_steps rd ?L)) nd1 = (r, nd')"
      using run 1 None by (simp add: then_do_def)
    consider "r2 = None" "rn_actions nd2 = rn_actions nd1 @ [ApplyChanges (ry_committedEntries rd)]" "rn_isLeader nd2 = ?L"
      | "r2 = Some RemovedSelf" "rn_actions nd2 = rn_actions nd1 @ [ApplyChanges (ry_committedEntries rd), CloseRemoveSelf]" "rn_isLeader nd2 = ?L"
      | "r2 \<noteq> None" "r2 \<noteq> Some RemovedSelf" "nd2 = nd1"
      using apply_changes_ends [OF 2] bs(3) by metis
    then show ?thesis
    proof cases
      case 1
      then have 3: "seq_do (last_steps rd ?L) nd2 = (r, nd')" using rest 2 by (simp add: then_do_def)
      from emitsD [OF emits_last 3] obtain ds where "rn_actions nd' = rn_actions nd2 @ ds"
        "prefix ds ((if \<not> ?L then send_raft_message (rd_confState (rn_ready nd2)) (ry_messages rd) else []) @ [Advance] @ [])"
        "r = None \<Longrightarrow> ds = (if \<not> ?L then send_raft_message (rd_confState (rn_ready nd2)) (ry_messages rd) else []) @ [Advance] @ []"
        "rn_isLeader nd' = ?L" "r \<noteq> Some RemovedSelf" using 1(3) by metis
      then show ?thesis using bs(1) 1(2)
        by (intro conjI exI [of _ "?first @ [ApplyChanges (ry_committedEntries rd)] @ ds"] exI [of _ False] exI [of _ "rd_confState (rn_ready nd2)"])
           (simp_all add: turn_actions_first)
    next
      case 2
      then have "r = Some RemovedSelf" "nd' = nd2" using rest \<open>apply_changes_ready ops ac at node decode te rd nd1 = (r2, nd2)\<close> by (simp_all add: then_do_def)
      then show ?thesis using bs(1) 2
        by (intro conjI exI [of _ "?first @ [ApplyChanges (ry_committedEntries rd), CloseRemoveSelf]"] exI [of _ True]) (simp_all add: turn_actions_first)
    next
      case 3
      then have "r = r2" "nd' = nd1" using rest 2 by (auto simp: then_do_def split: option.splits)
      then show ?thesis using bs 3 by (intro conjI exI [of _ ?first] exI [of _ True]) (simp_all add: turn_actions_first)
    qed
  qed
qed

lemma turn_taken:
  assumes "process_raft_ready ops ac at node decode sr te rd nd = (r, nd')"
  shows "\<exists>bs passed removed cs cs'. rn_actions nd' = rn_actions nd @ bs \<and>
    prefix bs (turn_actions rd passed (rn_isLeader nd') removed cs cs') \<and>
    (r = None \<or> r = Some RemovedSelf \<longrightarrow> removed = (r \<noteq> None) \<and> bs = turn_actions rd passed (rn_isLeader nd') removed cs cs')"
proof -
  obtain r1 nd1 where 1: "observe_state (te_taken te) (ac_localPeerID ac (fa_cluster (rd_facade (rn_ready nd)))) rd nd = (r1, nd1)" by fastforce
  show ?thesis
  proof (cases r1)
    case (Some e)
    then have "r = r1" "nd' = nd1" using assms 1 by (simp_all add: process_raft_ready_def then_do_def)
    then show ?thesis using observe_state_actions [OF 1] Some by (intro exI [of _ "[]"]) simp
  next
    case None
    then have "then_do (seq_do (first_steps sr te rd (rn_isLeader nd1)))
      (then_do (apply_changes_ready ops ac at node decode te rd) (seq_do (last_steps rd (rn_isLeader nd1)))) nd1 = (r, nd')"
      using assms 1 unfolding process_raft_ready_steps by (simp add: then_do_def [of "observe_state _ _ _"])
    from steps_taken [OF this] have L: "rn_isLeader nd' = rn_isLeader nd1" and "\<exists>bs removed cs'. rn_actions nd' = rn_actions nd1 @ bs \<and>
      prefix bs (turn_actions rd (te_read te = ReadPassed) (rn_isLeader nd1) removed (rd_confState (rn_ready nd1)) cs') \<and>
      (r = None \<or> r = Some RemovedSelf \<longrightarrow> removed = (r \<noteq> None) \<and>
         bs = turn_actions rd (te_read te = ReadPassed) (rn_isLeader nd1) removed (rd_confState (rn_ready nd1)) cs')" by blast+
    then show ?thesis unfolding L using observe_state_actions [OF 1] by metis
  qed
qed

lemma sends_no_other:
  "(\<exists>a\<in>set (send_raft_message cs msgs). is_save a) \<longleftrightarrow> False"
  "(\<forall>a\<in>set (send_raft_message cs msgs). \<not> is_append a) \<longleftrightarrow> True"
  "(\<forall>a\<in>set (send_raft_message cs msgs). \<not> is_handover a) \<longleftrightarrow> True"
  "filter is_save (send_raft_message cs msgs) = []"
proof -
  have "\<not> is_save a" "\<not> is_append a" "\<not> is_handover a" if "a \<in> set (send_raft_message cs msgs)" for a
    using send_kinds [OF sends_only [OF that]] by simp_all
  then show "(\<exists>a\<in>set (send_raft_message cs msgs). is_save a) \<longleftrightarrow> False"
    "(\<forall>a\<in>set (send_raft_message cs msgs). \<not> is_append a) \<longleftrightarrow> True"
    "(\<forall>a\<in>set (send_raft_message cs msgs). \<not> is_handover a) \<longleftrightarrow> True"
    "filter is_save (send_raft_message cs msgs) = []" by (auto simp: filter_empty_conv)
qed

lemma turn_order:
  "only_after is_save is_append (turn_actions rd passed leader removed cs cs')"
  "\<not> leader \<Longrightarrow> only_after is_save is_send (turn_actions rd passed leader removed cs cs')"
  "should_wait_wal_sync rd \<Longrightarrow> only_after is_save is_handover (turn_actions rd passed leader removed cs cs')"
  "length (filter is_save (turn_actions rd passed leader removed cs cs')) = 1"
  "\<not> removed \<Longrightarrow> last (turn_actions rd passed leader removed cs cs') = Advance"
  by (cases leader; simp add: turn_actions_def Let_def only_after_append sends_no_other)+

lemma only_after_front: "only_after P Q (xs @ ys) \<Longrightarrow> only_after P Q xs"
  by (induction xs) auto

lemma only_after_prefix: "prefix xs ys \<Longrightarrow> only_after P Q ys \<Longrightarrow> only_after P Q xs"
  by (elim prefixE) (simp add: only_after_front)

lemma filter_prefix: "prefix xs ys \<Longrightarrow> length (filter P xs) \<le> length (filter P ys)"
  by (auto elim!: prefixE)

section \<open>When a turn goes to its end\<close>

definition goes :: "('m, 'c, 'n, 't, 'r, 's, 'b) ready_node step \<Rightarrow> bool" where
  "goes f \<longleftrightarrow> (\<forall>nd. fst (f nd) = None \<and> rn_ready (snd (f nd)) = rn_ready nd)"

lemma goes_then: "goes f \<Longrightarrow> goes g \<Longrightarrow> goes (then_do f g)"
  by (simp add: goes_def then_do_def split: prod.split option.split) (metis fst_conv option.distinct(1) snd_conv)

lemma goes_seq: "\<forall>f\<in>set fs. goes f \<Longrightarrow> goes (seq_do fs)"
proof (induction fs)
  case (Cons f fs)
  then show ?case unfolding seq_do_Cons by (intro goes_then) simp_all
qed (simp add: goes_def)

lemma goes_when: "(b \<Longrightarrow> goes f) \<Longrightarrow> goes (when_do b f)"
  by (cases b) (simp_all add: goes_def when_do_def)

definition storage_total :: "'s ready_storage \<Rightarrow> bool" where
  "storage_total sr \<longleftrightarrow> (\<forall>hs es sn s. sr_save sr hs es sn s \<noteq> None \<and> sr_release sr sn s \<noteq> None \<and> sr_append sr es s \<noteq> None)"

lemma goes_storage: "(\<And>s. f s \<noteq> None) \<Longrightarrow> goes (on_storage f a)"
  by (auto simp: goes_def on_storage_def split: option.split)

lemma goes_first:
  assumes "storage_total sr" and "te_read te \<noteq> ReadClosed" and "te_handOver te"
  shows "goes (seq_do (first_steps sr te rd L))"
proof -
  have "goes (save_ready sr rd)" "goes (on_storage (sr_release sr sn) a)" "goes (on_storage (sr_append sr es) a)" for sn es a
    unfolding save_ready_def using assms(1) by (auto intro!: goes_storage simp: storage_total_def)
  moreover have "goes (pass_read_state (te_read te) rd)" "goes (hand_over_ready (te_handOver te) rd)" "goes (send_ready rd)"
    using assms(2,3) by (cases "te_read te"; simp add: goes_def pass_read_state_def hand_over_ready_def send_ready_def)+
  moreover have "goes (\<lambda>nd. (None, nd\<lparr>rn_status := g nd\<rparr>))" for g by (simp add: goes_def)
  ultimately show ?thesis by (intro goes_seq) (auto simp: first_steps_def Let_def intro: goes_when)
qed

lemma goes_last: "goes (seq_do (last_steps rd L))"
  by (intro goes_seq) (auto simp: last_steps_def goes_def send_ready_def when_do_def)

lemma turn_returns:
  assumes obs: "observe_state (te_taken te) (ac_localPeerID ac (fa_cluster (rd_facade (rn_ready nd)))) rd nd = (None, nd1)"
    and env: "storage_total sr" "te_read te \<noteq> ReadClosed" "te_handOver te"
    and chg: "apply_conf_changes ops ac at node decode (timed (te_nows te) (ry_committedEntries rd)) (rn_ready nd1) = Ret (removed, st)"
    and fit: "events_fit (te_taken te) (fa_events (rd_facade st))"
  shows "\<exists>nd'. process_raft_ready ops ac at node decode sr te rd nd = (if removed then Some RemovedSelf else None, nd') \<and> rn_ready nd' = st"
proof -
  let ?L = "rn_isLeader nd1"
  obtain nd2 where 2: "seq_do (first_steps sr te rd ?L) nd1 = (None, nd2)" "rn_ready nd2 = rn_ready nd1"
    using goes_first [OF env, of rd ?L] unfolding goes_def by (metis prod.collapse)
  define nd3 where "nd3 = did [ApplyChanges (ry_committedEntries rd)] (nd2\<lparr>rn_ready := st\<rparr>)"
  have 3: "apply_changes_ready ops ac at node decode te rd nd2 =
      (if removed then (Some RemovedSelf, did [CloseRemoveSelf] nd3) else (None, nd3))"
    using chg fit 2(2) by (simp add: apply_changes_ready_def nd3_def Let_def)
  obtain nd4 where 4: "seq_do (last_steps rd ?L) nd3 = (None, nd4)" "rn_ready nd4 = rn_ready nd3"
    using goes_last [of rd ?L] unfolding goes_def by (metis prod.collapse)
  show ?thesis
    unfolding process_raft_ready_steps using obs 2(1) 3 4 by (cases removed) (simp_all add: then_do_def nd3_def)
qed

text \<open>Each entry publishes at most one event.\<close>

definition events_grow :: "nat \<Rightarrow> raft_event list option \<Rightarrow> raft_event list option \<Rightarrow> bool" where
  "events_grow k evs evs' \<longleftrightarrow>
     (case evs of None \<Rightarrow> evs' = None | Some es \<Rightarrow> \<exists>es'. evs' = Some es' \<and> length es' \<le> length es + k)"

lemma events_grow_refl: "events_grow k evs evs"
  by (simp add: events_grow_def split: option.split)

lemma events_grow_trans: "events_grow j a b \<Longrightarrow> events_grow k b c \<Longrightarrow> events_grow (j + k) a c"
  by (cases a) (auto simp: events_grow_def)

lemma process_member_event_grows: "events_grow (Suc 0) evs (process_member_event ty req evs)"
  by (cases ty; cases evs) (simp_all add: process_member_event_def publish_member_event_def events_grow_def)

lemma process_conf_change_grows:
  "process_conf_change ac at node cc req f = Ret (x, f') \<Longrightarrow> events_grow (Suc 0) (fa_events f) (fa_events f')"
  by (auto simp: process_conf_change_def bind_outcome_Ret_iff events_grow_refl process_member_event_grows
      split: prod.splits outcome.splits)

lemma apply_conf_change_entry_grows:
  assumes "apply_conf_change_entry ops ac at node decode t e f = Ret (x, f')"
  shows "events_grow (Suc 0) (fa_events f) (fa_events f')"
proof -
  obtain cc req where p: "parse_conf_change_entry decode e = Some (cc, req)"
    using assms by (auto simp: apply_conf_change_entry_def split: option.splits)
  obtain g m where g: "so_get ops (rc_sessionID (cr_context req)) (so_expire ops t (fa_sessions f)) = (g, m)" by fastforce
  show ?thesis
  proof (cases g)
    case (Ret session)
    obtain todo ar session' where d: "do_exactly_once (ent_index e) (cr_context req) session = ((todo, ar), session')" by (metis surj_pair)
    show ?thesis
    proof (cases todo)
      case True
      let ?f1 = "f\<lparr>fa_sessions := so_store ops session' m\<rparr>"
      obtain r f2 where f2: "process_conf_change ac at node cc req ?f1 = Ret (r, f2)"
        using assms Ret True by (auto simp: apply_conf_change_entry_def p g d Let_def bind_outcome_Ret_iff)
      let ?ar = "\<lparr>ar_logIndex = ent_index e, ar_response = Some (ConfStateResponse (case r of Ret (cs, _) \<Rightarrow> cs | _ \<Rightarrow> None)),
          ar_error = (case r of Fail err \<Rightarrow> Some err | _ \<Rightarrow> None)\<rparr>"
      have "fa_events f' = fa_events f2"
        using assms Ret True f2
        by (cases "is_add_result (rc_sequenceNum (cr_context req)) t ?ar session'")
           (auto simp: apply_conf_change_entry_def p g d Let_def)
      then show ?thesis using process_conf_change_grows [OF f2] by simp
    qed (use assms Ret d in \<open>auto simp: apply_conf_change_entry_def p g Let_def events_grow_refl\<close>)
  qed (use assms in \<open>auto simp: apply_conf_change_entry_def p g Let_def events_grow_refl\<close>)
qed

lemma apply_conf_changes_grow:
  "apply_conf_changes ops ac at node decode ets st = Ret (b, st') \<Longrightarrow>
   events_grow (length ets) (fa_events (rd_facade st)) (fa_events (rd_facade st'))"
proof (induction ops ac at node decode ets st rule: apply_conf_changes.induct)
  case (2 ops ac at node decode e t ets st)
  show ?case
  proof (cases "ent_type e = EntryConfChange")
    case True
    then obtain ctx ar rem f where f: "apply_conf_change_entry ops ac at node decode t e (rd_facade st) = Ret ((ctx, ar, rem), f)"
      and rest: "(if rem then Ret (True, record_change ctx ar f st)
          else apply_conf_changes ops ac at node decode ets (record_change ctx ar f st)) = Ret (b, st')"
      using 2(3) by (auto simp: bind_outcome_Ret_iff)
    have r: "fa_events (rd_facade (record_change ctx ar f st)) = fa_events f" by (simp add: record_change_def)
    have "events_grow (length ets) (fa_events f) (fa_events (rd_facade st'))"
    proof (cases rem)
      case True
      then have "st' = record_change ctx ar f st" using rest by simp
      then show ?thesis using events_grow_refl r by metis
    next
      case False
      then have "apply_conf_changes ops ac at node decode ets (record_change ctx ar f st) = Ret (b, st')" using rest by simp
      from 2(1) [OF True False this] show ?thesis unfolding r .
    qed
    from events_grow_trans [OF apply_conf_change_entry_grows [OF f] this] show ?thesis by simp
  next
    case False
    then have "events_grow (length ets) (fa_events (rd_facade st)) (fa_events (rd_facade st'))" using 2(2) [OF False] 2(3) by simp
    from events_grow_trans [OF events_grow_refl [of "Suc 0"] this] show ?thesis by simp
  qed
qed (simp add: events_grow_refl)

lemma facade_ok_events [simp]: "facade_ok sok ok tok fl ps (f\<lparr>fa_events := evs\<rparr>) = facade_ok sok ok tok fl ps f"
  by (simp add: facade_ok_def)

text \<open>
  The reported leader is another one although the node was the leader; and what publishing needs: room in the
  channel for two events of the leadership and one for each committed entry, or, without a listener, that the
  leadership is not lost.
\<close>

definition loses_leadership :: "u64 \<Rightarrow> 'b ready \<Rightarrow> ('m, 'c, 'n, 't, 'r, 's, 'b) ready_node \<Rightarrow> bool" where
  "loses_leadership local rd nd \<longleftrightarrow>
     sa_acquireLeader (rn_status nd) \<and> (case ry_softState rd of None \<Rightarrow> False | Some ss \<Rightarrow> ss_lead ss \<noteq> local)"

definition can_publish :: "nat \<Rightarrow> u64 \<Rightarrow> 'b ready \<Rightarrow> ('m, 'c, 'n, 't, 'r, 's, 'b) ready_node \<Rightarrow> bool" where
  "can_publish taken local rd nd \<longleftrightarrow>
     (case fa_events (rd_facade (rn_ready nd)) of
        None \<Rightarrow> \<not> loses_leadership local rd nd
      | Some es \<Rightarrow> length es + 2 + length (ry_committedEntries rd) \<le> taken + 16)"

lemma observe_state_goes_on:
  assumes "can_publish taken local rd nd"
  shows "\<exists>nd1 evs. observe_state taken local rd nd = (None, nd1) \<and>
    rd_facade (rn_ready nd1) = (rd_facade (rn_ready nd))\<lparr>fa_events := evs\<rparr> \<and>
    events_grow 2 (fa_events (rd_facade (rn_ready nd))) evs"
proof -
  let ?st = "if ry_hardState rd \<noteq> zero_hard_state
      then (rn_status nd)\<lparr>sa_hardStateTerm := hs_term (ry_hardState rd)\<rparr> else rn_status nd"
  show ?thesis
  proof (cases "ry_softState rd")
    case None
    have "rd_facade (rn_ready nd) = (rd_facade (rn_ready nd))\<lparr>fa_events := fa_events (rd_facade (rn_ready nd))\<rparr>" by simp
    then show ?thesis using None
      by (intro exI [of _ "nd\<lparr>rn_status := ?st\<rparr>"] exI [of _ "fa_events (rd_facade (rn_ready nd))"])
         (simp add: observe_state_def Let_def events_grow_refl)
  next
    case (Some ss)
    have a: "sa_acquireLeader ?st = sa_acquireLeader (rn_status nd)" by simp
    obtain st' mt' evs' where "update_leadership taken local ss (?st, rn_metrics nd, fa_events (rd_facade (rn_ready nd))) = (None, st', mt', evs')"
      "events_grow 2 (fa_events (rd_facade (rn_ready nd))) evs'"
    proof (cases "fa_events (rd_facade (rn_ready nd))")
      case None
      then have "\<not> (sa_acquireLeader ?st \<and> ss_lead ss \<noteq> local)"
        using assms Some unfolding a by (simp add: can_publish_def loses_leadership_def)
      then show ?thesis
        using that update_leadership_no_listener [of taken local ss ?st "rn_metrics nd"] None by (auto simp: events_grow_def)
    next
      case (Some es)
      then have "length es + 2 \<le> taken + 16" using assms by (simp add: can_publish_def)
      from update_leadership_goes_on [OF this, of local ss ?st "rn_metrics nd"] show ?thesis
        using that Some by (auto simp: events_grow_def)
    qed
    then show ?thesis using Some
      by (intro exI [of _ "nd\<lparr>rn_status := st', rn_metrics := mt',
          rn_ready := (rn_ready nd)\<lparr>rd_facade := (rd_facade (rn_ready nd))\<lparr>fa_events := evs'\<rparr>\<rparr>, rn_isLeader := ss_isLeader ss\<rparr>"] exI [of _ evs'])
        (auto simp: observe_state_def Let_def split: if_splits)
  qed
qed

lemma lost_leadership_crashes:
  assumes "fa_events (rd_facade (rn_ready nd)) = None" and "loses_leadership local rd nd"
  shows "fst (observe_state taken local rd nd) = Some Crashed"
proof -
  obtain ss where ss: "ry_softState rd = Some ss" "ss_lead ss \<noteq> local" "sa_acquireLeader (rn_status nd)"
    using assms(2) by (auto simp: loses_leadership_def split: option.splits)
  let ?st = "if ry_hardState rd \<noteq> zero_hard_state
      then (rn_status nd)\<lparr>sa_hardStateTerm := hs_term (ry_hardState rd)\<rparr> else rn_status nd"
  have "sa_acquireLeader ?st" using ss(3) by simp
  then show ?thesis
    using update_leadership_no_listener [of taken local ss ?st "rn_metrics nd"] ss(1,2) assms(1)
    by (auto simp: observe_state_def Let_def split: if_splits)
qed

abbreviation node_ok ::
  "(u64 \<rightharpoonup> bytes) \<Rightarrow> ('r lru_manager, cluster, 'n, peer_manager, 'q, 's, 'b) ready_node \<Rightarrow> bool" where
  "node_ok exp nd \<equiv> facade_ok lru_ok cluster_ready pm_ok (peers_follow cluster_applied cluster_gone exp) (group_peers 0) (rd_facade (rn_ready nd))"

lemma ready_turn_returns:
  assumes env: "storage_total sr" "te_read te \<noteq> ReadClosed" "te_handOver te"
    and pub: "can_publish (te_taken te) (ac_localPeerID cluster_applied (fa_cluster (rd_facade (rn_ready nd)))) rd nd"
    and ok: "node_ok exp nd" and chg: "\<forall>e\<in>set (ry_committedEntries rd). change_entry_ok decode (\<lambda>g. True) exp e"
    and run: "process_raft_ready (lru_ops acq rs) cluster_applied transport_adaptor node decode sr te rd nd = (r, nd')"
  shows "(r = None \<or> r = Some RemovedSelf) \<and> node_ok exp nd'"
proof -
  let ?local = "ac_localPeerID cluster_applied (fa_cluster (rd_facade (rn_ready nd)))" and ?evs = "fa_events (rd_facade (rn_ready nd))"
  obtain nd1 evs where nd1: "observe_state (te_taken te) ?local rd nd = (None, nd1)"
      "rd_facade (rn_ready nd1) = (rd_facade (rn_ready nd))\<lparr>fa_events := evs\<rparr>" "events_grow 2 ?evs evs"
    using observe_state_goes_on [OF pub] by metis
  have "node_ok exp nd1" using ok nd1(2) by simp
  moreover have "\<forall>e\<in>set (timed (te_nows te) (ry_committedEntries rd)). change_entry_ok decode (\<lambda>g. (0 :: u64) = 0) exp (fst e)"
    using chg by (auto simp: timed_def dest: set_zip_leftD)
  ultimately obtain removed st where st: "apply_conf_changes (lru_ops acq rs) cluster_applied transport_adaptor node decode
      (timed (te_nows te) (ry_committedEntries rd)) (rn_ready nd1) = Ret (removed, st)"
      "facade_ok lru_ok cluster_ready pm_ok (peers_follow cluster_applied cluster_gone exp) (group_peers 0) (rd_facade st)"
    using lru_single.conf_changes_follow [where st = "rn_ready nd1" and node = node and acq = acq and rs = rs] by blast
  have "fa_events (rd_facade (rn_ready nd1)) = evs" using nd1(2) by simp
  then have "events_grow (2 + length (ry_committedEntries rd)) ?evs (fa_events (rd_facade st))"
    using events_grow_trans [OF nd1(3)] apply_conf_changes_grow [OF st(1)] by (simp add: timed_def)
  then have "events_fit (te_taken te) (fa_events (rd_facade st))"
    using pub by (auto simp: events_fit_def events_grow_def can_publish_def split: option.splits)
  from turn_returns [OF nd1(1) env st(1) this] run st(2) show ?thesis by (cases removed) auto
qed

text \<open>
  C5. One turn of the loop, whatever the storage, the listener and the other goroutines do, and however it ends (it
  goes on, returns on a shutdown, ends because the local peer was removed, panics or blocks). All it has done
  until then is in the order raft needs: the log is saved at most once; entries enter the entry storage only after
  they are saved; a follower sends no message, so acknowledges nothing, before its log and vote are saved; and
  committed entries that are among those still to be saved are handed to the state machine only after that. A
  turn that goes on has saved exactly once and told the node to advance last of all.
  The turn does go on, or ends because the local peer was removed, and the transport still follows the membership,
  under these conditions: the storage does not fail; the node is not shut down while the loop waits; the committed
  changes are ones the membership accepts; and publishing does not stop the turn, that is, the listener has
  left room in its channel for two events and one for each committed entry, or there is no listener and the
  leadership is not lost. Without a listener a turn that loses the leadership panics before it does anything.
\<close>

theorem ready_turn_order:
  assumes run: "process_raft_ready (lru_ops acq rs) cluster_applied transport_adaptor node decode sr te rd nd = (stop, nd')"
    and "rn_actions nd = []"
  shows "length (filter is_save (rn_actions nd')) \<le> 1 \<and> only_after is_save is_append (rn_actions nd') \<and>
    (\<not> rn_isLeader nd' \<longrightarrow> only_after is_save is_send (rn_actions nd')) \<and>
    (should_wait_wal_sync rd \<longrightarrow> only_after is_save is_handover (rn_actions nd')) \<and>
    (stop = None \<longrightarrow> length (filter is_save (rn_actions nd')) = 1 \<and> last (rn_actions nd') = Advance) \<and>
    (storage_total sr \<and> te_read te \<noteq> ReadClosed \<and> te_handOver te \<and> node_ok exp nd \<and>
     (\<forall>e\<in>set (ry_committedEntries rd). change_entry_ok decode (\<lambda>g. True) exp e) \<and>
     can_publish (te_taken te) (ac_localPeerID cluster_applied (fa_cluster (rd_facade (rn_ready nd)))) rd nd \<longrightarrow>
       (stop = None \<or> stop = Some RemovedSelf) \<and> node_ok exp nd') \<and>
    (fa_events (rd_facade (rn_ready nd)) = None \<and>
     loses_leadership (ac_localPeerID cluster_applied (fa_cluster (rd_facade (rn_ready nd)))) rd nd \<longrightarrow>
       stop = Some Crashed \<and> rn_actions nd' = [])"
proof -
  obtain passed removed cs cs' where t: "prefix (rn_actions nd') (turn_actions rd passed (rn_isLeader nd') removed cs cs')"
    "stop = None \<Longrightarrow> \<not> removed \<and> rn_actions nd' = turn_actions rd passed (rn_isLeader nd') removed cs cs'"
    using turn_taken [OF run] assms(2) by auto
  have order: "only_after is_save is_append (rn_actions nd')" "\<not> rn_isLeader nd' \<Longrightarrow> only_after is_save is_send (rn_actions nd')"
    "should_wait_wal_sync rd \<Longrightarrow> only_after is_save is_handover (rn_actions nd')"
    by (rule only_after_prefix [OF t(1)], rule turn_order, assumption?)+
  moreover have "length (filter is_save (rn_actions nd')) \<le> 1" using filter_prefix [OF t(1), of is_save] by (simp only: turn_order(4))
  moreover have "length (filter is_save (rn_actions nd')) = 1 \<and> last (rn_actions nd') = Advance" if "stop = None"
    using t(2) [OF that] by (simp add: turn_order)
  moreover have "stop = Some Crashed \<and> rn_actions nd' = []" if "fa_events (rd_facade (rn_ready nd)) = None"
    "loses_leadership (ac_localPeerID cluster_applied (fa_cluster (rd_facade (rn_ready nd)))) rd nd"
  proof -
    let ?o = "observe_state (te_taken te) (ac_localPeerID cluster_applied (fa_cluster (rd_facade (rn_ready nd)))) rd nd"
    have "?o = (Some Crashed, snd ?o)" using lost_leadership_crashes [OF that] by (simp add: prod_eq_iff)
    then show ?thesis using run observe_state_actions [of _ _ rd nd "Some Crashed" "snd ?o"] assms(2)
      by (auto simp: process_raft_ready_def then_do_def split: prod.splits)
  qed
  ultimately show ?thesis using ready_turn_returns [OF _ _ _ _ _ _ run] by blast
qed

definition sample_ready_storage :: "nat ready_storage" where
  "sample_ready_storage = \<lparr>sr_save = (\<lambda>hs es sn s. Some (Suc s)), sr_release = (\<lambda>sn s. Some s), sr_append = (\<lambda>es s. Some s)\<rparr>"

definition sample_ready :: "unit ready" where
  "sample_ready = \<lparr>ry_hardState = zero_hard_state, ry_softState = Some \<lparr>ss_lead = 2, ss_isLeader = False\<rparr>, ry_readStates = [],
     ry_entries = [second_entry], ry_committedEntries = [second_entry], ry_snapshot = zero_snapshot,
     ry_messages = [\<lparr>ms_type = MsgAppResp, ms_to = 2, ms_index = 1, ms_reject = False, ms_snapConf = zero_conf, ms_rest = ()\<rparr>]\<rparr>"

definition sample_node ::
  "peer_manager \<Rightarrow> (u64 response lru_manager, cluster, nat, peer_manager, u64, nat, unit) ready_node" where
  "sample_node t = \<lparr>rn_isLeader = False, rn_status = new_status,
     rn_metrics = \<lparr>lm_hasLeader = 0, lm_isLeader = 0, lm_leaderChanges = 0\<rparr>, rn_ready = started_state t, rn_storage = 0, rn_actions = []\<rparr>"

definition sample_env :: turn_env where
  "sample_env = \<lparr>te_taken = 0, te_read = ReadTimedOut, te_handOver = True, te_nows = (\<lambda>i. 5)\<rparr>"

theorem ready_turn_order_witness:
  "\<exists>b t stop nd'.
     process_raft_ready (lru_ops sample_acquirer sample_any_rs) cluster_applied transport_adaptor (\<lambda>cc n. (zero_conf, n))
       (second_change b) sample_ready_storage sample_env sample_ready (sample_node t) = (stop, nd') \<and>
     (stop = None \<or> stop = Some RemovedSelf) \<and> only_after is_save is_handover (rn_actions nd')"
proof -
  obtain b where b: "conf_req_unmarshal zero_conf_req b = Ret second_req" using second_req_decodes by blast
  let ?attrs = "[pe_raftPeerAttr sample_peer, second_attr]"
  obtain t where t: "start_peers 1 ?attrs new_peer_manager = Ret t"
    using add_all_ok [OF new_peer_manager_ok] by (auto simp: start_peers_def)
  let ?turn = "process_raft_ready (lru_ops sample_acquirer sample_any_rs) cluster_applied transport_adaptor (\<lambda>cc n. (zero_conf, n))
       (second_change b) sample_ready_storage sample_env sample_ready (sample_node t)"
  have e: "\<forall>e\<in>set (ry_committedEntries sample_ready). change_entry_ok (second_change b) (\<lambda>g. True) (config_peers 1 ?attrs) e"
    using b by (simp add: sample_ready_def change_entry_ok_def second_entry_def parse_conf_change_entry_def second_change_def
        change_ok_def config_peers_def sample_peer_def second_attr_def second_req_def attr_peer_def)
  have f: "node_ok (config_peers 1 ?attrs) (sample_node t)"
    using started_node_follows [OF t sample_raft_fresh(1)] by (simp add: sample_node_def started_state_def)
  have s: "storage_total sample_ready_storage" "rn_actions (sample_node t) = []" "te_read sample_env \<noteq> ReadClosed" "te_handOver sample_env"
      "can_publish (te_taken sample_env) k sample_ready (sample_node t)" for k
    by (simp_all add: storage_total_def sample_ready_storage_def sample_node_def started_state_def sample_env_def can_publish_def sample_ready_def)
  have w: "should_wait_wal_sync sample_ready" by (simp add: should_wait_wal_sync_def sample_ready_def)
  have run: "?turn = (fst ?turn, snd ?turn)" by simp
  from ready_turn_order [OF run s(2), of "config_peers 1 ?attrs"] have
    "(fst ?turn = None \<or> fst ?turn = Some RemovedSelf) \<and> only_after is_save is_handover (rn_actions (snd ?turn))"
    using e f s w by blast
  then show ?thesis using run by blast
qed

end
