(* ===== verification/Replier.thy ===== *)
theory Replier
  imports Babuza_Prelude
begin

unbundle bit_operations_syntax

text \<open>
  How a call waits for the log: the ids of requests (\<^verbatim>\<open>pkg/idgenerator/replyId.go\<close>), the table of the
  channels on which results are handed back (\<^verbatim>\<open>pkg/replier/result.go\<close>) and the one of the channels
  that are closed when an index is applied (\<^verbatim>\<open>pkg/replier/completion.go\<close>). A channel is a number; what
  was sent on it and whether it is closed is part of the state. Each operation holds the mutex, so
  a run is a sequence of calls. The send of \<^verbatim>\<open>SendResult\<close> happens after the mutex is released; it is
  shown never to block, so it is one step with the rest.
\<close>

section \<open>Ids\<close>

definition sequenceNumBits :: nat where "sequenceNumBits = 51"
definition memberBits :: nat where "memberBits = 12"

definition sequenceBitsMask :: u64 where
  "sequenceBitsMask = NOT (push_bit sequenceNumBits (- 1))"

definition memberBitsMask :: u64 where
  "memberBitsMask = NOT (push_bit memberBits (- 1))"

record reply_id =
  ri_seqNum :: u64
  ri_peerID :: u64

definition new_reply_id :: "u64 \<Rightarrow> u64 \<Rightarrow> reply_id" where
  "new_reply_id peerID seed = \<lparr>ri_seqNum = seed, ri_peerID = peerID AND memberBitsMask\<rparr>"

definition reply_next :: "reply_id \<Rightarrow> u64 \<times> reply_id" where
  "reply_next a =
     (let seq = ri_seqNum a + 1
      in (push_bit memberBits (seq AND sequenceBitsMask) OR ri_peerID a, a\<lparr>ri_seqNum := seq\<rparr>))"

section \<open>Results\<close>

record 'v chan =
  ch_values :: "'v list"
  ch_closed :: bool

record 'v results =
  rr_results :: "(u64 \<times> nat) list"
  rr_chans :: "'v chan list"

datatype replier_error = IdExists | Blocked

definition new_results :: "'v results" where
  "new_results = \<lparr>rr_results = [], rr_chans = []\<rparr>"

definition new_chan :: "'v chan" where
  "new_chan = \<lparr>ch_values = [], ch_closed = False\<rparr>"

definition acquire_result_chan :: "u64 \<Rightarrow> 'v results \<Rightarrow> (replier_error, nat \<times> 'v results) outcome" where
  "acquire_result_chan k r =
     (if map_of (rr_results r) k = None then
        Ret (length (rr_chans r),
             r\<lparr>rr_results := AList.update k (length (rr_chans r)) (rr_results r), rr_chans := rr_chans r @ [new_chan]\<rparr>)
      else Fail IdExists)"

definition cancel_result :: "u64 \<Rightarrow> 'v results \<Rightarrow> 'v results" where
  "cancel_result k r = r\<lparr>rr_results := AList.delete k (rr_results r)\<rparr>"

text \<open>A send and a close on a channel with room for one value.\<close>

definition chan_send_close :: "'v \<Rightarrow> 'v chan \<Rightarrow> (replier_error, 'v chan) outcome" where
  "chan_send_close v c =
     (if ch_closed c then Panic
      else if ch_values c \<noteq> [] then Fail Blocked
      else Ret \<lparr>ch_values = [v], ch_closed = True\<rparr>)"

definition send_result :: "u64 \<Rightarrow> 'v \<Rightarrow> 'v results \<Rightarrow> (replier_error, 'v results) outcome" where
  "send_result k v r =
     (case map_of (rr_results r) k of
        None \<Rightarrow> Ret r
      | Some c \<Rightarrow>
          if c < length (rr_chans r) then
            bind_outcome (chan_send_close v (rr_chans r ! c)) (\<lambda>ch.
              Ret (r\<lparr>rr_results := AList.delete k (rr_results r), rr_chans := (rr_chans r)[c := ch]\<rparr>))
          else Panic)"

definition is_waiting :: "u64 \<Rightarrow> 'v results \<Rightarrow> bool" where
  "is_waiting k r \<longleftrightarrow> map_of (rr_results r) k \<noteq> None"

datatype 'v result_op = Acquire u64 | Cancel u64 | Send u64 'v

fun result_step :: "'v result_op \<Rightarrow> 'v results \<Rightarrow> (replier_error, 'v results) outcome" where
  "result_step (Acquire k) r =
     (case acquire_result_chan k r of Ret (_, r') \<Rightarrow> Ret r' | Fail _ \<Rightarrow> Ret r | Panic \<Rightarrow> Panic)"
| "result_step (Cancel k) r = Ret (cancel_result k r)"
| "result_step (Send k v) r = send_result k v r"

fun result_run :: "'v result_op list \<Rightarrow> 'v results \<Rightarrow> (replier_error, 'v results) outcome" where
  "result_run [] r = Ret r"
| "result_run (op # ops) r = bind_outcome (result_step op r) (result_run ops)"

section \<open>Completions\<close>

text \<open>Channel 0 is \<^verbatim>\<open>closedCh\<close>, closed from the start.\<close>

record completion =
  co_completions :: "(u64 \<times> nat) list"
  co_lastCompletedID :: u64
  co_closed :: "nat list"
  co_next :: nat

definition new_completion :: completion where
  "new_completion = \<lparr>co_completions = [], co_lastCompletedID = 0, co_closed = [0], co_next = 1\<rparr>"

definition acquire_completion_chan :: "u64 \<Rightarrow> completion \<Rightarrow> nat \<times> completion" where
  "acquire_completion_chan k c =
     (if k \<le> co_lastCompletedID c then (0, c)
      else case map_of (co_completions c) k of
             Some ch \<Rightarrow> (ch, c)
           | None \<Rightarrow> (co_next c, c\<lparr>co_completions := AList.update k (co_next c) (co_completions c), co_next := Suc (co_next c)\<rparr>))"

fun close_all :: "nat list \<Rightarrow> nat list \<Rightarrow> (unit, nat list) outcome" where
  "close_all [] closed = Ret closed"
| "close_all (h # hs) closed = (if h \<in> set closed then Panic else close_all hs (closed @ [h]))"

definition mark_completed :: "u64 \<Rightarrow> completion \<Rightarrow> (unit, completion) outcome" where
  "mark_completed k c =
     bind_outcome (close_all (map snd (filter (\<lambda>(j, ch). j \<le> k) (co_completions c))) (co_closed c)) (\<lambda>closed.
       Ret (c\<lparr>co_lastCompletedID := k, co_completions := filter (\<lambda>(j, ch). \<not> j \<le> k) (co_completions c),
              co_closed := closed\<rparr>))"

datatype completion_op = AcquireCompletion u64 | MarkCompleted u64

fun completion_step :: "completion_op \<Rightarrow> completion \<Rightarrow> (unit, completion) outcome" where
  "completion_step (AcquireCompletion k) c = Ret (snd (acquire_completion_chan k c))"
| "completion_step (MarkCompleted k) c = mark_completed k c"

fun completion_run :: "completion_op list \<Rightarrow> completion \<Rightarrow> (unit, completion) outcome" where
  "completion_run [] c = Ret c"
| "completion_run (op # ops) c = bind_outcome (completion_step op c) (completion_run ops)"

section \<open>Ids are unique\<close>

lemma reply_masks: "sequenceBitsMask = mask 51" "memberBitsMask = mask 12"
  by (simp_all add: sequenceBitsMask_def memberBitsMask_def sequenceNumBits_def memberBits_def mask_eq_exp_minus_1)

definition reply_word :: "u64 \<Rightarrow> u64 \<Rightarrow> u64" where
  "reply_word peer seq = push_bit 12 (take_bit 51 seq) OR take_bit 12 peer"

lemma reply_next_word:
  "reply_next (new_reply_id peer seed) = (reply_word peer (seed + 1), new_reply_id peer (seed + 1))"
  by (simp add: reply_next_def new_reply_id_def reply_word_def reply_masks take_bit_eq_mask memberBits_def Let_def)

lemma reply_word_parts: "take_bit 12 (reply_word p s) = take_bit 12 p" "drop_bit 12 (reply_word p s) = take_bit 51 s"
  by (rule bit_word_eqI; auto simp: reply_word_def bit_simps)+

lemma reply_word_eq: "reply_word p s = reply_word q t \<longleftrightarrow> take_bit 12 p = take_bit 12 q \<and> take_bit 51 s = take_bit 51 t"
  by (metis reply_word_def reply_word_parts)

fun reply_ids :: "nat \<Rightarrow> reply_id \<Rightarrow> u64 list" where
  "reply_ids 0 a = []"
| "reply_ids (Suc n) a = (case reply_next a of (k, a') \<Rightarrow> k # reply_ids n a')"

lemma reply_ids_words: "reply_ids n (new_reply_id peer seed) = map (\<lambda>i. reply_word peer (seed + of_nat (Suc i))) [0..<n]"
  by (induction n arbitrary: seed) (simp_all add: reply_next_word map_upt_Suc algebra_simps del: upt_Suc)

lemma take_bit_51_of_nat:
  fixes s :: u64
  assumes "take_bit 51 (s + of_nat i) = take_bit 51 (s + of_nat j)" and "i < 2 ^ 51" and "j < 2 ^ 51"
  shows "i = j"
proof -
  have w: "take_bit 51 (uint (s + of_nat k)) = take_bit 51 (uint s + int k)" if "k < 2 ^ 51" for k
  proof -
    have "uint (of_nat k :: u64) = int k" using that by (simp add: unsigned_of_nat take_bit_nat_eq_self)
    then have "uint (s + of_nat k) = take_bit 64 (uint s + int k)" by (simp add: uint_word_arith_bintrs)
    then show ?thesis by simp
  qed
  have "take_bit 51 (uint s + int i) = take_bit 51 (uint s + int j)"
    using arg_cong [OF assms(1), of uint] w [OF assms(2)] w [OF assms(3)] by (simp only: unsigned_take_bit_eq)
  then have "take_bit 51 (int i) = take_bit 51 (int j)"
    using take_bit_diff [of 51 "uint s + int i" "uint s"] take_bit_diff [of 51 "uint s + int j" "uint s"] by simp
  then show ?thesis using assms(2,3) by (simp add: take_bit_int_eq_self)
qed

lemma reply_ids_distinct_below:
  assumes "n \<le> 2 ^ 51"
  shows "distinct (reply_ids n (new_reply_id p s))"
proof -
  have "i = j" if "i < n" "j < n" "take_bit 51 (s + of_nat (Suc i)) = take_bit 51 (s + of_nat (Suc j))" for i j
    using take_bit_51_of_nat [of "s + 1" i j] that assms by (simp add: ac_simps)
  then show ?thesis by (auto simp: reply_ids_words distinct_map inj_on_def reply_word_eq simp del: of_nat_Suc)
qed

text \<open>
  C38. The ids of requests are unique: as long as a node asks for no more than 2 to the 51 of them they are
  pairwise distinct, and two nodes whose ids differ in their lower 12 bits never produce the same
  id, whatever their seeds are.
\<close>

theorem reply_ids_distinct:
  assumes "n \<le> 2 ^ 51" and "take_bit 12 p \<noteq> take_bit 12 q"
  shows "distinct (reply_ids n (new_reply_id p s)) \<and>
    set (reply_ids n (new_reply_id p s)) \<inter> set (reply_ids m (new_reply_id q t)) = {}"
  using reply_ids_distinct_below [OF assms(1)] assms(2) by (auto simp: reply_ids_words reply_word_eq)

theorem reply_ids_distinct_witness:
  "distinct (reply_ids 3 (new_reply_id 1 7)) \<and>
   set (reply_ids 3 (new_reply_id 1 7)) \<inter> set (reply_ids 5 (new_reply_id 2 7)) = {}"
  by (rule reply_ids_distinct) (simp_all add: take_bit_eq_mask mask_eq_exp_minus_1)

section \<open>A result is delivered once\<close>

text \<open>A channel that waits is open and empty, and belongs to one id.\<close>

definition results_ok :: "'v results \<Rightarrow> bool" where
  "results_ok r \<longleftrightarrow>
     (\<forall>j k h. map_of (rr_results r) j = Some h \<longrightarrow> map_of (rr_results r) k = Some h \<longrightarrow> j = k) \<and>
     (\<forall>k h. map_of (rr_results r) k = Some h \<longrightarrow> h < length (rr_chans r) \<and> rr_chans r ! h = new_chan)"

text \<open>What becomes of a channel that waits for an id, by the calls that follow.\<close>

fun delivered :: "u64 \<Rightarrow> 'v result_op list \<Rightarrow> 'v chan" where
  "delivered k [] = new_chan"
| "delivered k (Send j v # ops) = (if j = k then \<lparr>ch_values = [v], ch_closed = True\<rparr> else delivered k ops)"
| "delivered k (Cancel j # ops) = (if j = k then new_chan else delivered k ops)"
| "delivered k (Acquire j # ops) = delivered k ops"

lemma new_results_ok: "results_ok new_results"
  by (simp add: results_ok_def new_results_def)

lemma results_delete:
  "results_ok r \<Longrightarrow> results_ok (r\<lparr>rr_results := AList.delete k (rr_results r)\<rparr>)"
  by (simp add: results_ok_def)

lemma results_okD:
  assumes "results_ok r" and "map_of (rr_results r) k = Some h"
  shows "h < length (rr_chans r)" and "rr_chans r ! h = new_chan" and "map_of (rr_results r) j = Some h \<Longrightarrow> j = k"
  using assms unfolding results_ok_def by blast+

lemma results_okI:
  assumes "\<And>j k h. map_of (rr_results r) j = Some h \<Longrightarrow> map_of (rr_results r) k = Some h \<Longrightarrow> j = k"
    and "\<And>k h. map_of (rr_results r) k = Some h \<Longrightarrow> h < length (rr_chans r) \<and> rr_chans r ! h = new_chan"
  shows "results_ok r"
  using assms unfolding results_ok_def by blast

lemma acquire_ok:
  assumes "results_ok r" and "map_of (rr_results r) k = None"
  shows "results_ok (r\<lparr>rr_results := AList.update k (length (rr_chans r)) (rr_results r), rr_chans := rr_chans r @ [new_chan]\<rparr>)"
    (is "results_ok ?r")
proof (rule results_okI)
  fix i j h
  assume a: "map_of (rr_results ?r) i = Some h" "map_of (rr_results ?r) j = Some h"
  show "i = j"
  proof (cases "i = k \<or> j = k")
    case True
    then show ?thesis using a results_okD(1) [OF assms(1), of i h] results_okD(1) [OF assms(1), of j h]
      by (auto split: if_splits)
  next
    case False
    then show ?thesis using a results_okD(3) [OF assms(1), of j h i] by simp
  qed
next
  fix i h
  assume "map_of (rr_results ?r) i = Some h"
  then show "h < length (rr_chans ?r) \<and> rr_chans ?r ! h = new_chan"
    using results_okD(1,2) [OF assms(1), of i h] by (auto simp: nth_append split: if_splits)
qed

lemma send_ok:
  assumes "results_ok r" and "map_of (rr_results r) k = Some h"
  shows "send_result k v r = Ret (r\<lparr>rr_results := AList.delete k (rr_results r),
      rr_chans := (rr_chans r)[h := \<lparr>ch_values = [v], ch_closed = True\<rparr>]\<rparr>)"
    and "results_ok (r\<lparr>rr_results := AList.delete k (rr_results r),
      rr_chans := (rr_chans r)[h := \<lparr>ch_values = [v], ch_closed = True\<rparr>]\<rparr>)"
proof -
  show "send_result k v r = Ret (r\<lparr>rr_results := AList.delete k (rr_results r),
      rr_chans := (rr_chans r)[h := \<lparr>ch_values = [v], ch_closed = True\<rparr>]\<rparr>)"
    using assms(2) results_okD(1,2) [OF assms] by (simp add: send_result_def chan_send_close_def new_chan_def)
  show "results_ok (r\<lparr>rr_results := AList.delete k (rr_results r),
      rr_chans := (rr_chans r)[h := \<lparr>ch_values = [v], ch_closed = True\<rparr>]\<rparr>)" (is "results_ok ?r")
  proof (rule results_okI)
    fix i j h'
    assume "map_of (rr_results ?r) i = Some h'" "map_of (rr_results ?r) j = Some h'"
    then show "i = j" using results_okD(3) [OF assms(1), of j h' i] by (simp split: if_splits)
  next
    fix i h'
    assume "map_of (rr_results ?r) i = Some h'"
    then have "i \<noteq> k" "map_of (rr_results r) i = Some h'" by (simp_all split: if_splits)
    moreover from this have "h \<noteq> h'" using results_okD(3) [OF assms, of i] by auto
    ultimately show "h' < length (rr_chans ?r) \<and> rr_chans ?r ! h' = new_chan"
      using results_okD(1,2) [OF assms(1), of i h'] by simp
  qed
qed

lemma result_step_cases:
  assumes "results_ok r"
  obtains (skip) "result_step op r = Ret r"
  | (acquire) k where "op = Acquire k" "map_of (rr_results r) k = None"
      "result_step op r = Ret (r\<lparr>rr_results := AList.update k (length (rr_chans r)) (rr_results r), rr_chans := rr_chans r @ [new_chan]\<rparr>)"
  | (cancel) k where "op = Cancel k" "result_step op r = Ret (r\<lparr>rr_results := AList.delete k (rr_results r)\<rparr>)"
  | (send) k v h where "op = Send k v" "map_of (rr_results r) k = Some h"
      "result_step op r = Ret (r\<lparr>rr_results := AList.delete k (rr_results r),
         rr_chans := (rr_chans r)[h := \<lparr>ch_values = [v], ch_closed = True\<rparr>]\<rparr>)"
proof (cases op)
  case (Acquire k)
  then show thesis using acquire skip by (cases "map_of (rr_results r) k") (auto simp: acquire_result_chan_def)
next
  case (Cancel k)
  then show thesis using cancel by (simp add: cancel_result_def)
next
  case (Send k v)
  then show thesis using send skip send_ok(1) [OF assms]
    by (cases "map_of (rr_results r) k") (auto simp: send_result_def [of k v r])
qed

lemma result_step_ok:
  assumes "results_ok r"
  shows "\<exists>r'. result_step op r = Ret r' \<and> results_ok r'"
  by (cases rule: result_step_cases [OF assms, of op]) (use assms in \<open>auto intro: acquire_ok results_delete send_ok(2)\<close>)

lemma result_run_ok: "results_ok r \<Longrightarrow> \<exists>r'. result_run ops r = Ret r' \<and> results_ok r'"
proof (induction ops arbitrary: r)
  case (Cons op ops)
  then show ?case using result_step_ok [OF Cons.prems, of op] by auto
qed simp

text \<open>A channel no id waits for any more is not touched again.\<close>

definition settled :: "nat \<Rightarrow> 'v results \<Rightarrow> bool" where
  "settled h r \<longleftrightarrow> h < length (rr_chans r) \<and> (\<forall>k. map_of (rr_results r) k \<noteq> Some h)"

lemma settled_step:
  assumes "results_ok r" and "settled h r" and "result_step op r = Ret r'"
  shows "settled h r' \<and> rr_chans r' ! h = rr_chans r ! h"
  using assms(1)
proof (cases rule: result_step_cases [where op = op])
  case (send k v h')
  then have "h' \<noteq> h" using assms(2) by (auto simp: settled_def)
  then show ?thesis using send assms(2,3) by (auto simp: settled_def split: if_splits)
next
  case (acquire k)
  then show ?thesis using assms(2,3) by (auto simp: settled_def nth_append split: if_splits)
next
  case (cancel k)
  then show ?thesis using assms(2,3) by (auto simp: settled_def cancel_result_def split: if_splits)
next
  case skip
  then show ?thesis using assms(2,3) by simp
qed

lemma settled_run:
  "results_ok r \<Longrightarrow> settled h r \<Longrightarrow> result_run ops r = Ret r' \<Longrightarrow> rr_chans r' ! h = rr_chans r ! h"
proof (induction ops arbitrary: r)
  case (Cons op ops)
  obtain r1 where r1: "result_step op r = Ret r1" "results_ok r1" using result_step_ok [OF Cons.prems(1)] by blast
  then show ?case using settled_step [OF Cons.prems(1,2) r1(1)] Cons.IH [OF r1(2)] Cons.prems(3) by simp
qed simp

lemma result_run_delivers:
  "results_ok r \<Longrightarrow> map_of (rr_results r) k = Some h \<Longrightarrow> result_run ops r = Ret r' \<Longrightarrow> rr_chans r' ! h = delivered k ops"
proof (induction ops arbitrary: r)
  case Nil
  then show ?case using results_okD(2) by auto
next
  case (Cons op ops)
  note ok = Cons.prems(1)
  obtain r1 where r1: "result_step op r = Ret r1" "results_ok r1" using result_step_ok [OF ok] by blast
  have run: "result_run ops r1 = Ret r'" using Cons.prems(3) r1(1) by simp
  have others: "map_of (AList.delete k (rr_results r)) j \<noteq> Some h" for j
    using results_okD(3) [OF ok Cons.prems(2), of j] by auto
  show ?case
  proof (cases "op = Cancel k \<or> (\<exists>v. op = Send k v)")
    case True
    then have "settled h r1 \<and> rr_chans r1 ! h = delivered k (op # ops)"
    proof (elim disjE exE)
      assume "op = Cancel k"
      then show ?thesis using r1(1) others results_okD(1,2) [OF ok Cons.prems(2)] by (auto simp: settled_def cancel_result_def)
    next
      fix v
      assume "op = Send k v"
      then show ?thesis using r1(1) others results_okD(1) [OF ok Cons.prems(2)] send_ok(1) [OF ok Cons.prems(2), of v]
        by (auto simp: settled_def)
    qed
    then show ?thesis using settled_run [OF r1(2) _ run, of h] by simp
  next
    case False
    then have "map_of (rr_results r1) k = Some h" using r1(1) Cons.prems(2)
      by (cases op) (auto simp: acquire_result_chan_def cancel_result_def send_result_def outcome_iff split: if_splits option.splits)
    moreover have "delivered k (op # ops) = delivered k ops" using False by (cases op) auto
    ultimately show ?thesis using Cons.IH [OF r1(2) _ run] by simp
  qed
qed

text \<open>
  C22. A caller that acquired a channel for an id gets exactly the first result that is sent under the
  id before the id is cancelled: after any further calls, by this caller and by others, the channel
  holds that value and is closed, or is open and empty when there was none. No call blocks or
  panics, so the loop that applies entries is not held up by a caller that has gone away.
\<close>

theorem result_delivered_once:
  assumes "result_run before new_results = Ret r" and "acquire_result_chan k r = Ret (h, r1)"
  shows "\<exists>r2. result_run after r1 = Ret r2 \<and> rr_chans r2 ! h = delivered k after"
proof -
  have r: "results_ok r" using result_run_ok [OF new_results_ok, of before] assms(1) by auto
  have k: "map_of (rr_results r) k = None" "h = length (rr_chans r)"
    "r1 = r\<lparr>rr_results := AList.update k (length (rr_chans r)) (rr_results r), rr_chans := rr_chans r @ [new_chan]\<rparr>"
    using assms(2) by (auto simp: acquire_result_chan_def split: if_splits)
  have r1: "results_ok r1" "map_of (rr_results r1) k = Some h" using acquire_ok [OF r k(1)] k by simp_all
  then show ?thesis using result_run_ok [OF r1(1), of after] result_run_delivers [OF r1] by blast
qed

theorem result_delivered_once_witness:
  "\<exists>r2. result_run [Send 6 True, Send 5 False, Send 5 True] (snd (0 :: nat, \<lparr>rr_results = [(5, 0)], rr_chans = [new_chan]\<rparr>)) = Ret r2 \<and>
     rr_chans r2 ! 0 = \<lparr>ch_values = [False], ch_closed = True\<rparr>"
proof -
  have a: "result_run [] new_results = Ret (new_results :: bool results)" by simp
  have b: "acquire_result_chan 5 (new_results :: bool results) = Ret (0, \<lparr>rr_results = [(5, 0)], rr_chans = [new_chan]\<rparr>)"
    by (simp add: acquire_result_chan_def new_results_def)
  from result_delivered_once [OF a b, of "[Send 6 True, Send 5 False, Send 5 True]"] show ?thesis by simp
qed

section \<open>A completion is signalled exactly when it should be\<close>

definition completion_ok :: "completion \<Rightarrow> bool" where
  "completion_ok c \<longleftrightarrow>
     map_ok (co_completions c) \<and> distinct (map snd (co_completions c)) \<and>
     set (map snd (co_completions c)) \<inter> set (co_closed c) = {} \<and> 0 \<in> set (co_closed c) \<and>
     set (map snd (co_completions c)) \<union> set (co_closed c) \<subseteq> {..<co_next c}"

lemma new_completion_ok: "completion_ok new_completion"
  by (simp add: completion_ok_def new_completion_def)

lemma close_all_Ret: "distinct hs \<Longrightarrow> set hs \<inter> set closed = {} \<Longrightarrow> close_all hs closed = Ret (closed @ hs)"
  by (induction hs arbitrary: closed) auto

lemma acquire_completion_ok:
  assumes "completion_ok c"
  shows "completion_ok (snd (acquire_completion_chan k c))"
    and "map_of (co_completions c) j = Some h \<Longrightarrow> map_of (co_completions (snd (acquire_completion_chan k c))) j = Some h"
    and "co_closed (snd (acquire_completion_chan k c)) = co_closed c"
  using assms by (auto simp: acquire_completion_chan_def completion_ok_def update_absent map_ok_def split: option.split)

lemma mark_completed_ok:
  assumes "completion_ok c"
  shows "\<exists>c'. mark_completed k c = Ret c' \<and> completion_ok c' \<and>
    map_of (co_completions c') j = (if j \<le> k then None else map_of (co_completions c) j) \<and>
    set (co_closed c') = set (co_closed c) \<union> snd ` {e \<in> set (co_completions c). fst e \<le> k}"
proof -
  let ?gone = "filter (\<lambda>(j, ch). j \<le> k) (co_completions c)" and ?rest = "filter (\<lambda>(j, ch). \<not> j \<le> k) (co_completions c)"
  have d: "distinct (map snd (co_completions c))" "set (map snd (co_completions c)) \<inter> set (co_closed c) = {}"
    using assms by (simp_all add: completion_ok_def)
  have "distinct (map snd ?gone)" "set (map snd ?gone) \<inter> set (co_closed c) = {}"
    using d by (auto simp: distinct_map_filter)
  then have m: "mark_completed k c =
      Ret (c\<lparr>co_lastCompletedID := k, co_completions := ?rest, co_closed := co_closed c @ map snd ?gone\<rparr>)"
    by (simp add: mark_completed_def close_all_Ret)
  have "snd e \<noteq> snd e'" if "e \<in> set ?rest" "e' \<in> set ?gone" for e e'
    using that d(1) by (auto simp: distinct_map inj_on_def)
  then have "set (map snd ?rest) \<inter> set (map snd ?gone) = {}" by fastforce
  then have "completion_ok (c\<lparr>co_lastCompletedID := k, co_completions := ?rest, co_closed := co_closed c @ map snd ?gone\<rparr>)"
    using assms by (auto simp: completion_ok_def distinct_map_filter)
  moreover have "map_of ?rest j = (if j \<le> k then None else map_of (co_completions c) j)"
    using map_of_filter_key [of "\<lambda>j. \<not> j \<le> k" "co_completions c" j] by simp
  moreover have "set (map snd ?gone) = snd ` {e \<in> set (co_completions c). fst e \<le> k}" by (simp add: case_prod_beta)
  ultimately show ?thesis using m by simp
qed

lemma completion_step_closed:
  assumes "completion_ok c"
  shows "\<exists>c'. completion_step op c = Ret c' \<and> completion_ok c' \<and> set (co_closed c) \<subseteq> set (co_closed c')"
proof (cases op)
  case (AcquireCompletion k)
  then show ?thesis using acquire_completion_ok(1,3) [OF assms, of k] by simp
next
  case (MarkCompleted k)
  then show ?thesis using mark_completed_ok [OF assms, of k 0] by auto
qed

lemma completion_run_closed:
  "completion_ok c \<Longrightarrow> \<exists>c'. completion_run ops c = Ret c' \<and> completion_ok c' \<and> set (co_closed c) \<subseteq> set (co_closed c')"
proof (induction ops arbitrary: c)
  case (Cons op ops)
  obtain c1 where c1: "completion_step op c = Ret c1" "completion_ok c1" "set (co_closed c) \<subseteq> set (co_closed c1)"
    using completion_step_closed [OF Cons.prems] by blast
  then show ?case using Cons.IH [OF c1(2)] by auto
qed simp

lemma completion_waits:
  "completion_ok c \<Longrightarrow> map_of (co_completions c) k = Some h \<Longrightarrow> completion_run ops c = Ret c' \<Longrightarrow>
   h \<in> set (co_closed c') \<longleftrightarrow> (\<exists>j. MarkCompleted j \<in> set ops \<and> k \<le> j)"
proof (induction ops arbitrary: c)
  case Nil
  then show ?case using map_of_SomeD [OF Nil.prems(2)] by (force simp: completion_ok_def)
next
  case (Cons op ops)
  show ?case
  proof (cases op)
    case (AcquireCompletion j)
    let ?c = "snd (acquire_completion_chan j c)"
    have "completion_run ops ?c = Ret c'" using Cons.prems(3) AcquireCompletion by simp
    then show ?thesis
      using Cons.IH [OF acquire_completion_ok(1) [OF Cons.prems(1)] acquire_completion_ok(2) [OF Cons.prems(1,2)], of j] AcquireCompletion
      by simp
  next
    case (MarkCompleted j)
    obtain c1 where c1: "mark_completed j c = Ret c1" "completion_ok c1"
        "map_of (co_completions c1) k = (if k \<le> j then None else map_of (co_completions c) k)"
        "set (co_closed c1) = set (co_closed c) \<union> snd ` {e \<in> set (co_completions c). fst e \<le> j}"
      using mark_completed_ok [OF Cons.prems(1)] by blast
    have run: "completion_run ops c1 = Ret c'" using Cons.prems(3) MarkCompleted c1(1) by simp
    show ?thesis
    proof (cases "k \<le> j")
      case True
      then have "h \<in> set (co_closed c1)" using c1(4) map_of_SomeD [OF Cons.prems(2)] by force
      then have "h \<in> set (co_closed c')" using completion_run_closed [OF c1(2), of ops] run by auto
      then show ?thesis using MarkCompleted True by auto
    next
      case False
      then show ?thesis using Cons.IH [OF c1(2) _ run] c1(3) Cons.prems(2) MarkCompleted by auto
    qed
  qed
qed

text \<open>The index of the latest call of \<^verbatim>\<open>MarkCompleted\<close> in a history of calls, 0 when there was none.\<close>

fun latest_completed :: "u64 \<Rightarrow> completion_op list \<Rightarrow> u64" where
  "latest_completed k [] = k"
| "latest_completed k (MarkCompleted j # ops) = latest_completed j ops"
| "latest_completed k (AcquireCompletion j # ops) = latest_completed k ops"

lemma completion_run_latest:
  "completion_ok c \<Longrightarrow> completion_run ops c = Ret c' \<Longrightarrow> co_lastCompletedID c' = latest_completed (co_lastCompletedID c) ops"
proof (induction ops arbitrary: c)
  case (Cons op ops)
  show ?case
  proof (cases op)
    case (AcquireCompletion j)
    moreover have "co_lastCompletedID (snd (acquire_completion_chan j c)) = co_lastCompletedID c"
      by (simp add: acquire_completion_chan_def split: option.split)
    ultimately show ?thesis using Cons.IH [OF acquire_completion_ok(1) [OF Cons.prems(1)], of j] Cons.prems(2) by simp
  next
    case (MarkCompleted j)
    then obtain c1 where c1: "mark_completed j c = Ret c1" "completion_ok c1"
      using mark_completed_ok [OF Cons.prems(1), of j 0] by blast
    then have "co_lastCompletedID c1 = j" by (auto simp: mark_completed_def bind_outcome_Ret_iff)
    then show ?thesis using Cons.IH [OF c1(2)] Cons.prems(2) MarkCompleted c1(1) by simp
  qed
qed simp

text \<open>
  C23. A caller that waits for an index is woken exactly when that index is completed. For any calls
  before and any calls after the one that acquires the channel of an index: no call panics (on a channel that
  is closed already), and in the end the channel is closed if and only if the latest call of \<^verbatim>\<open>MarkCompleted\<close>
  before was for this index or a later one (a new table counts index 0 as completed), or some call of
  \<^verbatim>\<open>MarkCompleted\<close> after it is.
\<close>

theorem completion_closed_iff:
  "\<exists>c h c1 c2. completion_run before new_completion = Ret c \<and> acquire_completion_chan k c = (h, c1) \<and>
     completion_run after c1 = Ret c2 \<and>
     (h \<in> set (co_closed c2) \<longleftrightarrow>
        k \<le> latest_completed 0 before \<or> (\<exists>j. MarkCompleted j \<in> set after \<and> k \<le> j))"
proof -
  obtain c where run: "completion_run before new_completion = Ret c" and c: "completion_ok c"
    using completion_run_closed [OF new_completion_ok, of before] by blast
  obtain h c1 where acq: "acquire_completion_chan k c = (h, c1)" by fastforce
  have l: "co_lastCompletedID c = latest_completed 0 before"
    using completion_run_latest [OF new_completion_ok run] by (simp add: new_completion_def)
  have c1: "completion_ok c1" using acquire_completion_ok(1) [OF c, of k] acq by simp
  obtain c2 where c2: "completion_run after c1 = Ret c2" "set (co_closed c1) \<subseteq> set (co_closed c2)"
    using completion_run_closed [OF c1] by blast
  have "h \<in> set (co_closed c2) \<longleftrightarrow> k \<le> co_lastCompletedID c \<or> (\<exists>j. MarkCompleted j \<in> set after \<and> k \<le> j)"
  proof (cases "k \<le> co_lastCompletedID c")
    case True
    then show ?thesis using c2 acq c by (auto simp: acquire_completion_chan_def completion_ok_def)
  next
    case False
    then have "map_of (co_completions c1) k = Some h"
      using acq by (auto simp: acquire_completion_chan_def split: option.splits)
    then show ?thesis using completion_waits [OF c1 _ c2(1)] False by blast
  qed
  then show ?thesis using run acq c2(1) unfolding l by blast
qed

end
