(* ===== verification/Linear_Read.thy ===== *)
theory Linear_Read
  imports Replier
begin

text \<open>
  Linearizable reads: \<^verbatim>\<open>LinearizableRead\<close> of \<^verbatim>\<open>raft/raft_api.go\<close>, the loop of
  \<^verbatim>\<open>raft/raft_linearizable_read.go\<close> that serves it and the signals of \<^verbatim>\<open>pkg/utility/syncutil/notifier.go\<close>.
  Readers and the loop interleave, so they are one step relation with a rule for every point at
  which a process can be held up. The commit index of the group and the index that is applied
  locally move on their own. What the raft node answers to a read request is the guarantee of
  \<^verbatim>\<open>ReadIndex\<close>: an index that is at least the commit index at the time of a request with the same
  context. The theory shows that a read that returns without an error sees everything that was
  committed before it started, and that a read can be left waiting for ever. The stop of the node,
  which ends every wait with \<^verbatim>\<open>ErrStopped\<close>, is not modelled: the runs are those of a node that stays up.
\<close>

section \<open>State\<close>

datatype read_error = ErrLeaderChange | ErrReadIndexRequestTimeout | ErrContextDone | ReadIndexFailed

text \<open>
  Where the loop is: at its top, at the first \<^verbatim>\<open>select\<close> with the id it drew, past the receive from
  \<^verbatim>\<open>readIndexCh\<close>, past \<^verbatim>\<open>Swap\<close>, in \<^verbatim>\<open>readIndexResponse\<close>, and waiting for the index to be applied. A signal
  is the number of the \<^verbatim>\<open>ResultSignal\<close>.
\<close>

datatype read_phase =
    LoopTop
  | Selecting u64
  | Signalled u64
  | Requesting u64 nat
  | Reading u64 nat
  | AwaitApplied u64 nat

text \<open>
  A reader: it has read the current signal, it waits on it, or it has returned. The last component
  is the commit index at the time the read started.
\<close>

datatype reader_state =
    Joined nat u64
  | Waiting nat u64
  | Returned "read_error option" u64

record read_state =
  lr_ids :: reply_id
  lr_round :: nat
  lr_phase :: read_phase
  lr_current :: nat
  lr_done :: "nat \<rightharpoonup> read_error option"
  lr_readers :: "nat \<rightharpoonup> reader_state"
  lr_requests :: "(u64 \<times> u64) list"
  lr_commit :: u64
  lr_applied :: u64

definition read_init :: "u64 \<Rightarrow> u64 \<Rightarrow> read_state" where
  "read_init peer seed =
     \<lparr>lr_ids = new_reply_id peer seed, lr_round = 0, lr_phase = LoopTop, lr_current = 0, lr_done = Map.empty,
      lr_readers = Map.empty, lr_requests = [], lr_commit = 0, lr_applied = 0\<rparr>"

section \<open>Operations on signals\<close>

text \<open>\<^verbatim>\<open>Swap\<close> of the signal manager and \<^verbatim>\<open>CompleteWith\<close>, after which the loop goes back to its top.\<close>

definition swap_signal :: "read_state \<Rightarrow> nat \<times> read_state" where
  "swap_signal s = (lr_current s, s\<lparr>lr_current := Suc (lr_current s)\<rparr>)"

definition complete_with :: "nat \<Rightarrow> read_error option \<Rightarrow> read_state \<Rightarrow> read_state" where
  "complete_with n err s = s\<lparr>lr_done := (lr_done s)(n \<mapsto> err), lr_phase := LoopTop\<rparr>"

definition set_reader :: "nat \<Rightarrow> reader_state \<Rightarrow> read_state \<Rightarrow> read_state" where
  "set_reader r v s = s\<lparr>lr_readers := (lr_readers s)(r \<mapsto> v)\<rparr>"

definition draw_id :: "read_state \<Rightarrow> read_state" where
  "draw_id s = (case reply_next (lr_ids s) of
     (k, ids) \<Rightarrow> s\<lparr>lr_ids := ids, lr_round := Suc (lr_round s), lr_phase := Selecting k\<rparr>)"

definition is_selecting :: "read_phase \<Rightarrow> bool" where
  "is_selecting p \<longleftrightarrow> (\<exists>k. p = Selecting k)"

section \<open>Steps\<close>

datatype read_event = Env | Start nat | Signal nat | Skip nat | Loop | Finish nat | CancelRead nat

inductive read_step :: "read_state \<Rightarrow> read_event \<Rightarrow> read_state \<Rightarrow> bool" where
  committed: "lr_commit s \<le> c \<Longrightarrow> read_step s Env (s\<lparr>lr_commit := c\<rparr>)"
| applied: "lr_applied s \<le> a \<Longrightarrow> a \<le> lr_commit s \<Longrightarrow> read_step s Env (s\<lparr>lr_applied := a\<rparr>)"
| start: "lr_readers s r = None \<Longrightarrow> read_step s (Start r) (set_reader r (Joined (lr_current s) (lr_commit s)) s)"
| signal: "lr_readers s r = Some (Joined n c) \<Longrightarrow> lr_phase s = Selecting k \<Longrightarrow>
    read_step s (Signal r) (set_reader r (Waiting n c) (s\<lparr>lr_phase := Signalled k\<rparr>))"
| skip: "lr_readers s r = Some (Joined n c) \<Longrightarrow> \<not> is_selecting (lr_phase s) \<Longrightarrow>
    read_step s (Skip r) (set_reader r (Waiting n c) s)"
| finish: "lr_readers s r = Some (Waiting n c) \<Longrightarrow> lr_done s n = Some err \<Longrightarrow>
    read_step s (Finish r) (set_reader r (Returned err c) s)"
| cancel: "lr_readers s r = Some (Joined n c) \<or> lr_readers s r = Some (Waiting n c) \<Longrightarrow>
    read_step s (CancelRead r) (set_reader r (Returned (Some ErrContextDone) c) s)"
| top: "lr_phase s = LoopTop \<Longrightarrow> read_step s Loop (draw_id s)"
| leader_changed: "lr_phase s = Selecting k \<Longrightarrow> read_step s Loop (s\<lparr>lr_phase := LoopTop\<rparr>)"
| swap: "lr_phase s = Signalled k \<Longrightarrow> swap_signal s = (old, s') \<Longrightarrow> read_step s Loop (s'\<lparr>lr_phase := Requesting k old\<rparr>)"
| request: "lr_phase s = Requesting k n \<Longrightarrow>
    read_step s Loop (s\<lparr>lr_phase := Reading k n, lr_requests := lr_requests s @ [(k, lr_commit s)]\<rparr>)"
| request_failed: "lr_phase s = Requesting k n \<Longrightarrow> read_step s Loop (complete_with n (Some ReadIndexFailed) s)"
| retry: "lr_phase s = Reading k n \<Longrightarrow> read_step s Loop (s\<lparr>lr_requests := lr_requests s @ [(k, lr_commit s)]\<rparr>)"
| ignored: "lr_phase s = Reading k n \<Longrightarrow> k' \<noteq> k \<Longrightarrow> read_step s Loop s"
| response: "lr_phase s = Reading k n \<Longrightarrow> (k, c) \<in> set (lr_requests s) \<Longrightarrow> c \<le> i \<Longrightarrow>
    read_step s Loop (if lr_applied s < i then s\<lparr>lr_phase := AwaitApplied i n\<rparr> else complete_with n None s)"
| reading_failed: "lr_phase s = Reading k n \<Longrightarrow> read_step s Loop (complete_with n (Some err) s)"
| index_applied: "lr_phase s = AwaitApplied i n \<Longrightarrow> i \<le> lr_applied s \<Longrightarrow> read_step s Loop (complete_with n None s)"

inductive reads_reach :: "u64 \<Rightarrow> u64 \<Rightarrow> read_state \<Rightarrow> bool" for peer seed where
  reach_init: "reads_reach peer seed (read_init peer seed)"
| reach_step: "reads_reach peer seed s \<Longrightarrow> read_step s ev s' \<Longrightarrow> reads_reach peer seed s'"

section \<open>The invariant\<close>

text \<open>The signal the loop is serving, and the readers of a signal that have not returned.\<close>

fun serving :: "read_phase \<Rightarrow> nat option" where
  "serving (Requesting k n) = Some n"
| "serving (Reading k n) = Some n"
| "serving (AwaitApplied i n) = Some n"
| "serving _ = None"

definition reads_on :: "read_state \<Rightarrow> nat \<Rightarrow> u64 \<Rightarrow> bool" where
  "reads_on s n c \<longleftrightarrow> (\<exists>r. lr_readers s r = Some (Joined n c) \<or> lr_readers s r = Some (Waiting n c))"

fun drawn :: "read_phase \<Rightarrow> u64 option" where
  "drawn LoopTop = None"
| "drawn (Selecting k) = Some k"
| "drawn (Signalled k) = Some k"
| "drawn (Requesting k n) = Some k"
| "drawn (Reading k n) = Some k"
| "drawn (AwaitApplied i n) = None"

definition signals_ok :: "read_state \<Rightarrow> bool" where
  "signals_ok s \<longleftrightarrow>
     (\<forall>n c. reads_on s n c \<longrightarrow> n \<le> lr_current s \<and> c \<le> lr_commit s) \<and>
     (\<forall>n. lr_done s n \<noteq> None \<longrightarrow> n < lr_current s) \<and>
     (\<forall>n. serving (lr_phase s) = Some n \<longrightarrow> n < lr_current s)"

text \<open>The phases in which no request of the current round was sent yet.\<close>

fun before_request :: "read_phase \<Rightarrow> bool" where
  "before_request (Selecting k) = True"
| "before_request (Signalled k) = True"
| "before_request (Requesting k n) = True"
| "before_request _ = False"

definition ids_ok :: "u64 \<Rightarrow> u64 \<Rightarrow> read_state \<Rightarrow> bool" where
  "ids_ok peer seed s \<longleftrightarrow>
     lr_ids s = new_reply_id peer (seed + of_nat (lr_round s)) \<and>
     (\<forall>k. drawn (lr_phase s) = Some k \<longrightarrow> k = reply_word peer (seed + of_nat (lr_round s)) \<and> 0 < lr_round s) \<and>
     (\<forall>(k, c) \<in> set (lr_requests s). \<exists>m. 0 < m \<and> m \<le> lr_round s \<and> k = reply_word peer (seed + of_nat m) \<and>
        (m = lr_round s \<longrightarrow> \<not> before_request (lr_phase s)))"

definition seen_ok :: "read_state \<Rightarrow> bool" where
  "seen_ok s \<longleftrightarrow>
     (\<forall>k n c c'. lr_phase s = Reading k n \<longrightarrow> reads_on s n c \<longrightarrow> (k, c') \<in> set (lr_requests s) \<longrightarrow> c \<le> c') \<and>
     (\<forall>i n c. lr_phase s = AwaitApplied i n \<longrightarrow> reads_on s n c \<longrightarrow> c \<le> i) \<and>
     (\<forall>n c. lr_done s n = Some None \<longrightarrow> reads_on s n c \<longrightarrow> c \<le> lr_applied s) \<and>
     (\<forall>r c. lr_readers s r = Some (Returned None c) \<longrightarrow> c \<le> lr_applied s)"

lemma set_reader_simps [simp]:
  "lr_ids (set_reader r v s) = lr_ids s" "lr_round (set_reader r v s) = lr_round s" "lr_phase (set_reader r v s) = lr_phase s"
  "lr_current (set_reader r v s) = lr_current s" "lr_done (set_reader r v s) = lr_done s"
  "lr_requests (set_reader r v s) = lr_requests s" "lr_commit (set_reader r v s) = lr_commit s"
  "lr_applied (set_reader r v s) = lr_applied s" "lr_readers (set_reader r v s) = (lr_readers s)(r \<mapsto> v)"
  by (simp_all add: set_reader_def)

lemma complete_with_simps [simp]:
  "lr_ids (complete_with n e s) = lr_ids s" "lr_round (complete_with n e s) = lr_round s"
  "lr_phase (complete_with n e s) = LoopTop" "lr_current (complete_with n e s) = lr_current s"
  "lr_done (complete_with n e s) = (lr_done s)(n \<mapsto> e)" "lr_requests (complete_with n e s) = lr_requests s"
  "lr_commit (complete_with n e s) = lr_commit s" "lr_applied (complete_with n e s) = lr_applied s"
  "lr_readers (complete_with n e s) = lr_readers s"
  by (simp_all add: complete_with_def)

lemma draw_id_simps [simp]:
  "lr_round (draw_id s) = Suc (lr_round s)" "lr_current (draw_id s) = lr_current s" "lr_done (draw_id s) = lr_done s"
  "lr_requests (draw_id s) = lr_requests s" "lr_commit (draw_id s) = lr_commit s" "lr_applied (draw_id s) = lr_applied s"
  "lr_readers (draw_id s) = lr_readers s" "lr_phase (draw_id s) = Selecting (fst (reply_next (lr_ids s)))"
  "lr_ids (draw_id s) = snd (reply_next (lr_ids s))"
  by (simp_all add: draw_id_def split: prod.split)

lemma reads_on_cong: "lr_readers s' = lr_readers s \<Longrightarrow> reads_on s' = reads_on s"
  by (simp add: reads_on_def fun_eq_iff)

lemma reads_on_set_reader:
  "reads_on (set_reader r v s) n c \<Longrightarrow> reads_on s n c \<or> v = Joined n c \<or> v = Waiting n c"
  by (auto simp: reads_on_def split: if_splits)

lemma reads_onI: "lr_readers s r = Some (Joined n c) \<Longrightarrow> reads_on s n c" "lr_readers s r = Some (Waiting n c) \<Longrightarrow> reads_on s n c"
  by (auto simp: reads_on_def)

lemma signals_okI:
  assumes "\<And>n c. reads_on s n c \<Longrightarrow> n \<le> lr_current s \<and> c \<le> lr_commit s"
    and "\<And>n e. lr_done s n = Some e \<Longrightarrow> n < lr_current s"
    and "\<And>n. serving (lr_phase s) = Some n \<Longrightarrow> n < lr_current s"
  shows "signals_ok s"
  using assms unfolding signals_ok_def by blast

lemma signals_okD:
  assumes "signals_ok s"
  shows "reads_on s n c \<Longrightarrow> n \<le> lr_current s \<and> c \<le> lr_commit s"
    and "lr_done s n = Some e \<Longrightarrow> n < lr_current s"
    and "serving (lr_phase s) = Some n \<Longrightarrow> n < lr_current s"
  using assms unfolding signals_ok_def by blast+

lemma signals_frame:
  assumes "signals_ok s" and "lr_current s \<le> lr_current s'" and "lr_commit s \<le> lr_commit s'"
    and "\<And>n c. reads_on s' n c \<Longrightarrow> reads_on s n c \<or> n \<le> lr_current s' \<and> c \<le> lr_commit s'"
    and "\<And>n e. lr_done s' n = Some e \<Longrightarrow> lr_done s n = Some e \<or> serving (lr_phase s) = Some n"
    and "\<And>n. serving (lr_phase s') = Some n \<Longrightarrow> serving (lr_phase s) = Some n \<or> n < lr_current s'"
  shows "signals_ok s'"
proof (rule signals_okI)
  show "n \<le> lr_current s' \<and> c \<le> lr_commit s'" if "reads_on s' n c" for n c
    using assms(4) [OF that] signals_okD(1) [OF assms(1), of n c] assms(2,3) by auto
  show "n < lr_current s'" if "lr_done s' n = Some e" for n e
    using assms(5) [OF that] signals_okD(2,3) [OF assms(1), of n] assms(2) by auto
  show "n < lr_current s'" if "serving (lr_phase s') = Some n" for n
    using assms(6) [OF that] signals_okD(3) [OF assms(1), of n] assms(2) by auto
qed

text \<open>A reader that moves on reads on the signal it read on before.\<close>

lemma reads_on_moves:
  assumes "lr_readers s r = Some (Joined n c) \<or> lr_readers s r = Some (Waiting n c)"
  shows "reads_on (set_reader r (Waiting n c) s) n' c' \<Longrightarrow> reads_on s n' c'"
    and "reads_on (set_reader r (Returned e c) s) n' c' \<Longrightarrow> reads_on s n' c'"
  using assms by (auto simp: reads_on_def split: if_splits)

lemma reads_on_phase [simp]:
  "reads_on (s\<lparr>lr_phase := p\<rparr>) = reads_on s" "reads_on (s\<lparr>lr_commit := c\<rparr>) = reads_on s"
  "reads_on (s\<lparr>lr_applied := c\<rparr>) = reads_on s" "reads_on (s\<lparr>lr_current := j\<rparr>) = reads_on s"
  "reads_on (s\<lparr>lr_requests := q\<rparr>) = reads_on s" "reads_on (complete_with n e s) = reads_on s" "reads_on (draw_id s) = reads_on s"
  by (rule reads_on_cong; simp)+

lemma signals_step:
  assumes "read_step s ev s'" and "signals_ok s"
  shows "signals_ok s'"
  using assms(1)
proof cases
  case (start r)
  show ?thesis unfolding start by (rule signals_frame [OF assms(2)]) (auto dest: reads_on_set_reader)
next
  case (signal r n c k)
  show ?thesis unfolding signal by (rule signals_frame [OF assms(2)]) (use signal reads_on_moves(1) [of "s\<lparr>lr_phase := Signalled k\<rparr>" r n c] in auto)
next
  case (skip r n c)
  show ?thesis unfolding skip by (rule signals_frame [OF assms(2)]) (use skip reads_on_moves(1) [of s r n c] in auto)
next
  case (finish r n c err)
  show ?thesis unfolding finish by (rule signals_frame [OF assms(2)]) (use finish reads_on_moves(2) [of s r n c] in auto)
next
  case (cancel r n c)
  show ?thesis unfolding cancel by (rule signals_frame [OF assms(2)]) (use cancel reads_on_moves(2) [of s r n c] in auto)
next
  case (swap k old s1)
  show ?thesis by (rule signals_frame [OF assms(2)]) (use swap in \<open>auto simp: swap_signal_def\<close>)
next
  case (response k n c i)
  show ?thesis by (rule signals_frame [OF assms(2)]) (use response in \<open>auto split: if_splits\<close>)
qed (rule signals_frame [OF assms(2)]; auto split: if_splits)+

lemma ids_okI:
  assumes "lr_ids s = new_reply_id peer (seed + of_nat (lr_round s))"
    and "\<And>k. drawn (lr_phase s) = Some k \<Longrightarrow> k = reply_word peer (seed + of_nat (lr_round s)) \<and> 0 < lr_round s"
    and "\<And>k c. (k, c) \<in> set (lr_requests s) \<Longrightarrow> \<exists>m. 0 < m \<and> m \<le> lr_round s \<and> k = reply_word peer (seed + of_nat m) \<and>
      (m = lr_round s \<longrightarrow> \<not> before_request (lr_phase s))"
  shows "ids_ok peer seed s"
  using assms unfolding ids_ok_def by blast

lemma ids_okD:
  assumes "ids_ok peer seed s"
  shows "lr_ids s = new_reply_id peer (seed + of_nat (lr_round s))"
    and "drawn (lr_phase s) = Some k \<Longrightarrow> k = reply_word peer (seed + of_nat (lr_round s)) \<and> 0 < lr_round s"
    and "(k, c) \<in> set (lr_requests s) \<Longrightarrow> \<exists>m. 0 < m \<and> m \<le> lr_round s \<and> k = reply_word peer (seed + of_nat m) \<and>
      (m = lr_round s \<longrightarrow> \<not> before_request (lr_phase s))"
  using assms unfolding ids_ok_def by blast+

lemma ids_frame:
  assumes "ids_ok peer seed s" and "lr_ids s' = lr_ids s" and "lr_round s' = lr_round s"
    and "\<And>k. drawn (lr_phase s') = Some k \<Longrightarrow> drawn (lr_phase s) = Some k"
    and "before_request (lr_phase s') \<Longrightarrow> before_request (lr_phase s)"
    and "\<And>k c. (k, c) \<in> set (lr_requests s') \<Longrightarrow>
      (k, c) \<in> set (lr_requests s) \<or> drawn (lr_phase s) = Some k \<and> \<not> before_request (lr_phase s')"
  shows "ids_ok peer seed s'"
proof (rule ids_okI)
  show "lr_ids s' = new_reply_id peer (seed + of_nat (lr_round s'))" using ids_okD(1) [OF assms(1)] assms(2,3) by simp
  show "k = reply_word peer (seed + of_nat (lr_round s')) \<and> 0 < lr_round s'" if "drawn (lr_phase s') = Some k" for k
    using ids_okD(2) [OF assms(1) assms(4) [OF that]] assms(3) by simp
  show "\<exists>m. 0 < m \<and> m \<le> lr_round s' \<and> k = reply_word peer (seed + of_nat m) \<and> (m = lr_round s' \<longrightarrow> \<not> before_request (lr_phase s'))"
    if "(k, c) \<in> set (lr_requests s')" for k c
    using assms(6) [OF that]
  proof
    assume "(k, c) \<in> set (lr_requests s)"
    then show ?thesis using ids_okD(3) [OF assms(1)] assms(3,5) by metis
  next
    assume "drawn (lr_phase s) = Some k \<and> \<not> before_request (lr_phase s')"
    then show ?thesis using ids_okD(2) [OF assms(1)] assms(3) by auto
  qed
qed

lemma ids_top:
  assumes "ids_ok peer seed s"
  shows "ids_ok peer seed (draw_id s)"
proof (rule ids_okI)
  note n = reply_next_word [of peer "seed + of_nat (lr_round s)", folded ids_okD(1) [OF assms]]
  show "lr_ids (draw_id s) = new_reply_id peer (seed + of_nat (lr_round (draw_id s)))" using n by (simp add: ac_simps)
  show "k = reply_word peer (seed + of_nat (lr_round (draw_id s))) \<and> 0 < lr_round (draw_id s)"
    if "drawn (lr_phase (draw_id s)) = Some k" for k using n that by (simp add: ac_simps)
  show "\<exists>m. 0 < m \<and> m \<le> lr_round (draw_id s) \<and> k = reply_word peer (seed + of_nat m) \<and>
      (m = lr_round (draw_id s) \<longrightarrow> \<not> before_request (lr_phase (draw_id s)))"
    if "(k, c) \<in> set (lr_requests (draw_id s))" for k c
  proof -
    have "(k, c) \<in> set (lr_requests s)" using that by simp
    from ids_okD(3) [OF assms this] obtain m where "0 < m" "m \<le> lr_round s" "k = reply_word peer (seed + of_nat m)" by blast
    then show ?thesis by (intro exI [of _ m]) simp
  qed
qed

lemma ids_step:
  assumes "read_step s ev s'" and "ids_ok peer seed s"
  shows "ids_ok peer seed s'"
  using assms(1)
proof cases
  case top
  then show ?thesis using ids_top [OF assms(2)] by simp
next
  case (swap k old s1)
  show ?thesis by (rule ids_frame [OF assms(2)]) (use swap in \<open>auto simp: swap_signal_def\<close>)
qed (rule ids_frame [OF assms(2)]; auto split: if_splits)+

text \<open>The id of the current round was not used by an earlier request.\<close>

lemma ids_fresh:
  assumes "ids_ok peer seed s" and "lr_round s \<le> 2 ^ 51" and "drawn (lr_phase s) = Some k" and "before_request (lr_phase s)"
  shows "(k, c) \<notin> set (lr_requests s)"
proof
  assume "(k, c) \<in> set (lr_requests s)"
  then obtain m where m: "0 < m" "m < lr_round s" "k = reply_word peer (seed + of_nat m)"
    using ids_okD(3) [OF assms(1)] assms(4) by (metis le_neq_implies_less)
  have k: "k = reply_word peer (seed + of_nat (lr_round s))" "0 < lr_round s" using ids_okD(2) [OF assms(1,3)] by simp_all
  have "take_bit 51 (seed + 1 + of_nat (m - 1)) = take_bit 51 (seed + 1 + of_nat (lr_round s - 1))"
    using m k by (simp add: reply_word_eq of_nat_diff)
  then have "m - 1 = lr_round s - 1" by (rule take_bit_51_of_nat) (use m k assms(2) in auto)
  then show False using m k by simp
qed

lemma seen_okI:
  assumes "\<And>k n c c'. lr_phase s = Reading k n \<Longrightarrow> reads_on s n c \<Longrightarrow> (k, c') \<in> set (lr_requests s) \<Longrightarrow> c \<le> c'"
    and "\<And>i n c. lr_phase s = AwaitApplied i n \<Longrightarrow> reads_on s n c \<Longrightarrow> c \<le> i"
    and "\<And>n c. lr_done s n = Some None \<Longrightarrow> reads_on s n c \<Longrightarrow> c \<le> lr_applied s"
    and "\<And>r c. lr_readers s r = Some (Returned None c) \<Longrightarrow> c \<le> lr_applied s"
  shows "seen_ok s"
  using assms unfolding seen_ok_def by blast

lemma seen_okD:
  assumes "seen_ok s"
  shows "lr_phase s = Reading k n \<Longrightarrow> reads_on s n c \<Longrightarrow> (k, c') \<in> set (lr_requests s) \<Longrightarrow> c \<le> c'"
    and "lr_phase s = AwaitApplied i n \<Longrightarrow> reads_on s n c \<Longrightarrow> c \<le> i"
    and "lr_done s n = Some None \<Longrightarrow> reads_on s n c \<Longrightarrow> c \<le> lr_applied s"
    and "lr_readers s r = Some (Returned None c) \<Longrightarrow> c \<le> lr_applied s"
  using assms unfolding seen_ok_def by blast+

text \<open>A step that brings no new reader to a signal that is served or done, and no new request.\<close>

lemma seen_frame:
  assumes "seen_ok s" and "lr_applied s \<le> lr_applied s'"
    and "\<And>n c. reads_on s' n c \<Longrightarrow> (serving (lr_phase s') = Some n \<or> lr_done s' n \<noteq> None) \<Longrightarrow> reads_on s n c"
    and "\<And>k n. lr_phase s' = Reading k n \<Longrightarrow> lr_phase s = Reading k n \<and> lr_requests s' = lr_requests s"
    and "\<And>i n. lr_phase s' = AwaitApplied i n \<Longrightarrow> lr_phase s = AwaitApplied i n"
    and "\<And>n. lr_done s' n = Some None \<Longrightarrow> lr_done s n = Some None"
    and "\<And>r c. lr_readers s' r = Some (Returned None c) \<Longrightarrow> lr_readers s r = Some (Returned None c) \<or> c \<le> lr_applied s'"
  shows "seen_ok s'"
proof (rule seen_okI)
  show "c \<le> c'" if "lr_phase s' = Reading k n" "reads_on s' n c" "(k, c') \<in> set (lr_requests s')" for k n c c'
    using that assms(3) [OF that(2)] assms(4) [OF that(1)] seen_okD(1) [OF assms(1)] by simp
  show "c \<le> i" if "lr_phase s' = AwaitApplied i n" "reads_on s' n c" for i n c
    using that assms(3) [OF that(2)] assms(5) [OF that(1)] seen_okD(2) [OF assms(1)] by simp
  show "c \<le> lr_applied s'" if "lr_done s' n = Some None" "reads_on s' n c" for n c
    by (rule order.trans [OF seen_okD(3) [OF assms(1) assms(6) [OF that(1)] assms(3) [OF that(2)]] assms(2)]) (simp add: that(1))
  show "c \<le> lr_applied s'" if "lr_readers s' r = Some (Returned None c)" for r c
    using assms(7) [OF that] seen_okD(4) [OF assms(1)] assms(2) by (meson order.trans)
qed

lemma seen_complete:
  assumes "seen_ok s" and "\<And>c. reads_on s n c \<Longrightarrow> c \<le> lr_applied s"
  shows "seen_ok (complete_with n None s)"
proof (rule seen_okI)
  show "c \<le> lr_applied (complete_with n None s)" if "lr_done (complete_with n None s) m = Some None" "reads_on (complete_with n None s) m c" for m c
    using that assms seen_okD(3) [OF assms(1), of m c] by (simp split: if_splits)
  show "c \<le> lr_applied (complete_with n None s)" if "lr_readers (complete_with n None s) r = Some (Returned None c)" for r c
    using that seen_okD(4) [OF assms(1), of r c] by simp
qed simp_all

lemma seen_step:
  assumes "read_step s ev s'" and "seen_ok s" and "signals_ok s" and "ids_ok peer seed s" and "lr_round s \<le> 2 ^ 51"
  shows "seen_ok s'"
  using assms(1)
proof cases
  case (start r)
  have "n < lr_current s" if "serving (lr_phase s) = Some n \<or> lr_done s n \<noteq> None" for n
    using that signals_okD(2,3) [OF assms(3)] by auto
  then show ?thesis unfolding start
    by (intro seen_frame [OF assms(2)]) (auto dest!: reads_on_set_reader split: if_splits)
next
  case (signal r n c k)
  show ?thesis unfolding signal
    by (rule seen_frame [OF assms(2)]) (use signal reads_on_moves(1) [of "s\<lparr>lr_phase := Signalled k\<rparr>" r n c] in \<open>auto split: if_splits\<close>)
next
  case (skip r n c)
  show ?thesis unfolding skip by (rule seen_frame [OF assms(2)]) (use skip reads_on_moves(1) [of s r n c] in \<open>auto split: if_splits\<close>)
next
  case (finish r n c err)
  have "err = None \<Longrightarrow> c \<le> lr_applied s" using finish seen_okD(3) [OF assms(2), of n c] reads_onI(2) [of s r n c] by simp
  then show ?thesis unfolding finish
    by (intro seen_frame [OF assms(2)]) (use finish reads_on_moves(2) [of s r n c] in \<open>auto split: if_splits\<close>)
next
  case (cancel r n c)
  show ?thesis unfolding cancel by (rule seen_frame [OF assms(2)]) (use cancel reads_on_moves(2) [of s r n c] in \<open>auto split: if_splits\<close>)
next
  case (request k n)
  have f: "(k, c) \<notin> set (lr_requests s)" for c using ids_fresh [OF assms(4,5), of k c] request by simp
  show ?thesis unfolding request
    by (rule seen_okI) (use f request signals_okD(1) [OF assms(3)] seen_okD(3,4) [OF assms(2)] in auto)
next
  case (retry k n)
  show ?thesis unfolding retry
    by (rule seen_okI) (use retry signals_okD(1) [OF assms(3)] seen_okD [OF assms(2)] in auto)
next
  case (response k n c i)
  have le: "c' \<le> i" if "reads_on s n c'" for c' using seen_okD(1) [OF assms(2) response(3) that response(4)] response(5) by simp
  show ?thesis
  proof (cases "lr_applied s < i")
    case True
    then show ?thesis using response le seen_okD(3,4) [OF assms(2)] by (intro seen_okI) auto
  next
    case False
    then have "c' \<le> lr_applied s" if "reads_on s n c'" for c' using le [OF that] by simp
    then show ?thesis using seen_complete [OF assms(2)] False response by simp
  qed
next
  case (index_applied i n)
  have "c \<le> lr_applied s" if "reads_on s n c" for c
    using seen_okD(2) [OF assms(2) index_applied(3) that] index_applied(4) by simp
  then show ?thesis using seen_complete [OF assms(2)] index_applied by simp
next
  case (swap k old s1)
  show ?thesis by (rule seen_frame [OF assms(2)]) (use swap in \<open>auto simp: swap_signal_def\<close>)
qed (rule seen_frame [OF assms(2)]; auto split: if_splits)+

lemma round_mono: "read_step s ev s' \<Longrightarrow> lr_round s \<le> lr_round s'"
  by (induction rule: read_step.induct) (auto simp: swap_signal_def)

lemma reach_ok:
  assumes "reads_reach peer seed s"
  shows "signals_ok s \<and> ids_ok peer seed s \<and> (lr_round s \<le> 2 ^ 51 \<longrightarrow> seen_ok s)"
  using assms
proof induction
  case reach_init
  show ?case by (auto simp: signals_ok_def ids_ok_def seen_ok_def reads_on_def read_init_def)
next
  case (reach_step s ev s')
  have "seen_ok s'" if "lr_round s' \<le> 2 ^ 51"
    using seen_step [OF reach_step.hyps(2), of peer seed] reach_step.IH round_mono [OF reach_step.hyps(2)] that by simp
  then show ?case using signals_step [OF reach_step.hyps(2)] ids_step [OF reach_step.hyps(2)] reach_step.IH by blast
qed

section \<open>Reads are linearizable, and can be lost\<close>

text \<open>
  C4. A linearizable read is linearizable: when a read returns without an error, every entry that
  was committed in the group before the read started is applied locally, however the readers, the
  loop, retries, changes of the leader and stale answers interleave, as long as the loop has not
  used up its 2 to the 51 ids.
\<close>

theorem linearizable_read_sees_commits:
  assumes "reads_reach peer seed s" and "lr_round s \<le> 2 ^ 51" and "lr_readers s r = Some (Returned None c)"
  shows "c \<le> lr_applied s"
  using reach_ok [OF assms(1)] assms(2) seen_okD(4) [OF _ assms(3)] by blast

text \<open>Runs of the system, as lists of steps.\<close>

inductive read_run :: "read_state \<Rightarrow> read_event list \<Rightarrow> read_state \<Rightarrow> bool" where
  run_Nil: "read_run s [] s"
| run_Cons: "read_step s ev s' \<Longrightarrow> read_run s' evs s'' \<Longrightarrow> read_run s (ev # evs) s''"

lemma reach_run: "read_run s evs s' \<Longrightarrow> reads_reach p q s \<Longrightarrow> reads_reach p q s'"
  by (induction rule: read_run.induct) (auto intro: reach_step)

text \<open>
  A reader that has the current signal, which is not done, while the loop is not about to swap it:
  nobody has signalled the loop since its last swap.
\<close>

definition stranded :: "nat \<Rightarrow> read_state \<Rightarrow> bool" where
  "stranded r s \<longleftrightarrow>
     (\<exists>c. lr_readers s r = Some (Joined (lr_current s) c) \<or> lr_readers s r = Some (Waiting (lr_current s) c)) \<and>
     lr_done s (lr_current s) = None \<and> (\<forall>k. lr_phase s \<noteq> Signalled k) \<and> serving (lr_phase s) \<noteq> Some (lr_current s)"

definition waiting :: "nat \<Rightarrow> read_state \<Rightarrow> bool" where
  "waiting r s \<longleftrightarrow> (\<exists>n c. lr_readers s r = Some (Waiting n c))"

lemma stranded_step:
  assumes "read_step s ev s'" and "stranded r s" and "ev \<noteq> CancelRead r" and "\<And>r'. ev \<noteq> Signal r'"
  shows "stranded r s' \<and> (waiting r s \<or> ev = Skip r \<longrightarrow> waiting r s')"
  using assms
proof cases
  case (response k n c i)
  then show ?thesis using assms(2) by (auto simp: stranded_def waiting_def)
qed (auto simp: stranded_def waiting_def draw_id_def split: prod.splits)

lemma stranded_run:
  "read_run s evs s' \<Longrightarrow> stranded r s \<Longrightarrow> CancelRead r \<notin> set evs \<Longrightarrow> (\<And>r'. Signal r' \<notin> set evs) \<Longrightarrow>
     stranded r s' \<and> (waiting r s \<or> Skip r \<in> set evs \<longrightarrow> waiting r s')"
proof (induction rule: read_run.induct)
  case (run_Cons s ev s' evs s'')
  have "ev \<noteq> CancelRead r" "\<And>r'. ev \<noteq> Signal r'" using run_Cons.prems(2,3) by auto
  from stranded_step [OF run_Cons.hyps(1) run_Cons.prems(1) this]
  have "stranded r s' \<and> (waiting r s \<or> ev = Skip r \<longrightarrow> waiting r s')" .
  moreover have "stranded r s'' \<and> (waiting r s' \<or> Skip r \<in> set evs \<longrightarrow> waiting r s'')"
    by (rule run_Cons.IH) (use calculation run_Cons.prems(2,3) in auto)
  ultimately show ?case by auto
qed simp

text \<open>A reader that arrives while the loop serves a signal has the next one.\<close>

lemma start_strands:
  assumes "signals_ok s" and "serving (lr_phase s) = Some n" and "read_step s (Start r) s'"
  shows "stranded r s'"
  using assms(3)
proof cases
  case start
  have "lr_done s (lr_current s) = None" using signals_okD(2) [OF assms(1), of "lr_current s"] by (cases "lr_done s (lr_current s)") auto
  moreover have "n \<noteq> lr_current s" using signals_okD(3) [OF assms(1,2)] by simp
  ultimately show ?thesis using assms(2) start by (auto simp: stranded_def)
qed

text \<open>One reader is served, another one arrives while the loop is busy with the first.\<close>

lemma busy_loop_run:
  "\<exists>s s'. reads_reach peer seed s \<and> serving (lr_phase s) = Some 0 \<and>
     read_run s [Start 1, Skip 1, Loop, Loop, Finish 0] s' \<and> lr_readers s' 0 = Some (Returned None 5) \<and>
     lr_phase s' = LoopTop \<and> lr_round s' = 1"
proof -
  define k where "k = fst (reply_next (new_reply_id peer seed))"
  define s1 where "s1 = \<lparr>lr_ids = snd (reply_next (new_reply_id peer seed)), lr_round = 1, lr_phase = Selecting k, lr_current = 0,
    lr_done = Map.empty, lr_readers = Map.empty, lr_requests = [], lr_commit = 5, lr_applied = 5\<rparr>"
  define s2 where "s2 = set_reader 0 (Joined 0 5) s1"
  define s3 where "s3 = set_reader 0 (Waiting 0 5) (s2\<lparr>lr_phase := Signalled k\<rparr>)"
  define s4 where "s4 = s3\<lparr>lr_current := 1, lr_phase := Requesting k 0\<rparr>"
  define s5 where "s5 = set_reader 1 (Joined 1 5) s4"
  define s6 where "s6 = set_reader 1 (Waiting 1 5) s5"
  define s7 where "s7 = s6\<lparr>lr_phase := Reading k 0, lr_requests := [(k, 5)]\<rparr>"
  define s8 where "s8 = complete_with 0 None s7"
  define s9 where "s9 = set_reader 0 (Returned None 5) s8"
  note d = s1_def s2_def s3_def s4_def s5_def s6_def s7_def s8_def s9_def
  note step = reach_step [of peer seed]
  have "reads_reach peer seed (read_init peer seed\<lparr>lr_commit := 5\<rparr>)"
    by (rule step [OF reach_init committed]) (simp add: read_init_def)
  then have "reads_reach peer seed (read_init peer seed\<lparr>lr_commit := 5, lr_applied := 5\<rparr>)"
    by (rule step) (rule applied, simp_all add: read_init_def)
  then have "reads_reach peer seed (draw_id (read_init peer seed\<lparr>lr_commit := 5, lr_applied := 5\<rparr>))"
    by (rule step) (rule top, simp add: read_init_def)
  then have "reads_reach peer seed s1" by (simp add: draw_id_def read_init_def s1_def k_def case_prod_beta)
  then have "reads_reach peer seed s2" by (rule step) (use start [of s1 0] in \<open>simp add: d\<close>)
  then have "reads_reach peer seed s3" by (rule step) (use signal [of s2 0 0 5 k] in \<open>simp add: d\<close>)
  then have reach: "reads_reach peer seed s4"
    by (rule step) (use swap [of s3 k 0 "s3\<lparr>lr_current := 1\<rparr>"] in \<open>simp add: d swap_signal_def set_reader_def\<close>)
  have "read_step s4 (Start 1) s5" using start [of s4 1] by (simp add: d)
  moreover have "read_step s5 (Skip 1) s6" using skip [of s5 1 1 5] by (simp add: d is_selecting_def)
  moreover have "read_step s6 Loop s7" using request [of s6 k 0] by (simp add: d)
  moreover have "read_step s7 Loop s8" using response [of s7 k 0 5 5] by (simp add: d)
  moreover have "read_step s8 (Finish 0) s9" using finish [of s8 0 0 5 None] by (simp add: d)
  ultimately have "read_run s4 [Start 1, Skip 1, Loop, Loop, Finish 0] s9" by (blast intro: read_run.intros)
  moreover have "serving (lr_phase s4) = Some 0" "lr_readers s9 0 = Some (Returned None 5)" "lr_phase s9 = LoopTop" "lr_round s9 = 1"
    by (simp_all add: d)
  ultimately show ?thesis using reach by blast
qed

theorem linearizable_read_sees_commits_witness:
  "\<exists>s. reads_reach 1 7 s \<and> lr_readers s 0 = Some (Returned None 5) \<and> 5 \<le> lr_applied s"
proof -
  obtain s0 s where "reads_reach 1 7 s0" "read_run s0 [Start 1, Skip 1, Loop, Loop, Finish 0] s"
    and s: "lr_readers s 0 = Some (Returned None 5)" "lr_round s = 1" using busy_loop_run by blast
  then have reach: "reads_reach 1 7 s" by (blast intro: reach_run)
  have "lr_round s \<le> 2 ^ 51" using s(2) by simp
  from linearizable_read_sees_commits [OF reach this s(1)] reach s show ?thesis by blast
qed

text \<open>
  C39. A linearizable read can be lost: \<^verbatim>\<open>readIndexCh\<close> has no buffer and \<^verbatim>\<open>LinearizableRead\<close> does not wait for
  the loop to receive. Take any reachable state in which the loop serves earlier readers (it has
  swapped the signal and has not completed the old one), a reader that starts there, and any run
  from there in which the reader gives up its send since nobody receives. As long as no reader
  signals the loop in the run, the context of this reader is not done and the node stays up, it waits
  for a signal that nobody completes, whatever is committed and applied, and also after the loop has gone back to idle.
\<close>

theorem linearizable_read_can_be_lost:
  assumes "reads_reach peer seed s" and "serving (lr_phase s) = Some n" and "read_run s (Start r # evs) s'"
    and "Skip r \<in> set evs" and "\<forall>r'. Signal r' \<notin> set evs" and "CancelRead r \<notin> set evs"
  shows "(\<exists>c. lr_readers s' r = Some (Waiting (lr_current s') c)) \<and> lr_done s' (lr_current s') = None"
proof -
  obtain s1 where s1: "read_step s (Start r) s1" "read_run s1 evs s'" using assms(3) by (cases rule: read_run.cases) auto
  have "stranded r s1" using start_strands [OF _ assms(2) s1(1)] reach_ok [OF assms(1)] by blast
  then have "stranded r s' \<and> waiting r s'" using stranded_run [OF s1(2)] assms(4-6) by blast
  then show ?thesis by (auto simp: stranded_def waiting_def)
qed

theorem linearizable_read_can_be_lost_witness:
  "\<exists>s. reads_reach 1 7 s \<and> lr_readers s 0 = Some (Returned None 5) \<and> lr_phase s = LoopTop \<and>
     (\<exists>n c. lr_readers s 1 = Some (Waiting n c) \<and> lr_done s n = None)"
proof -
  obtain s0 s where s: "reads_reach 1 7 s0" "serving (lr_phase s0) = Some 0" "read_run s0 [Start 1, Skip 1, Loop, Loop, Finish 0] s"
      "lr_readers s 0 = Some (Returned None 5)" "lr_phase s = LoopTop" using busy_loop_run by blast
  have "(\<exists>c. lr_readers s 1 = Some (Waiting (lr_current s) c)) \<and> lr_done s (lr_current s) = None"
    by (rule linearizable_read_can_be_lost [OF s(1-3)]) simp_all
  then show ?thesis using s reach_run [OF s(3,1)] by blast
qed

end
