(* ===== verification/Lock_Store.thy ===== *)
theory Lock_Store
  imports Session
begin

text \<open>
  The replicated state machine of the distributed lock service
  (\<^verbatim>\<open>examples/distlock/server/lockstore\<close>): leases, locks with their queues of waiters and the fencing
  tokens. Go's \<^verbatim>\<open>range\<close> over a map and \<^verbatim>\<open>time.Now\<close> are choices of the runtime and not of the log. They are
  arguments of the operations here: a record \<^verbatim>\<open>go_choice\<close> holds what the runtime chose, and an operation
  has the value \<^const>\<open>None\<close> for a choice that no run of Go can make. Texts are bytes, an \<^verbatim>\<open>int64\<close> is a word
  read with its sign, maps are partial functions, and \<^verbatim>\<open>encoding/json\<close> is a parameter.
\<close>

section \<open>Commands and results\<close>

type_synonym i64 = "64 word"

definition CmdAcquire :: u64 where "CmdAcquire = 1"
definition CmdRelease :: u64 where "CmdRelease = 2"
definition CmdWait :: u64 where "CmdWait = 4"
definition CmdCancelWait :: u64 where "CmdCancelWait = 5"
definition CmdLeaseGrant :: u64 where "CmdLeaseGrant = 10"
definition CmdLeaseRevoke :: u64 where "CmdLeaseRevoke = 11"
definition CmdLeaseKeepAlive :: u64 where "CmdLeaseKeepAlive = 12"
definition CmdTick :: u64 where "CmdTick = 13"

lemmas cmd_defs = CmdAcquire_def CmdRelease_def CmdWait_def CmdCancelWait_def CmdLeaseGrant_def
  CmdLeaseRevoke_def CmdLeaseKeepAlive_def CmdTick_def

record lock_command =
  lc_command :: u64
  lc_lockName :: bytes
  lc_ownerID :: bytes
  lc_ttlSeconds :: i64
  lc_fencingToken :: u64
  lc_timestamp :: i64
  lc_requestID :: bytes
  lc_leaseID :: u64

definition zero_command :: lock_command where
  "zero_command = \<lparr>lc_command = 0, lc_lockName = [], lc_ownerID = [], lc_ttlSeconds = 0, lc_fencingToken = 0,
     lc_timestamp = 0, lc_requestID = [], lc_leaseID = 0\<rparr>"

definition cmd_acquire :: "bytes \<Rightarrow> bytes \<Rightarrow> u64 \<Rightarrow> i64 \<Rightarrow> lock_command \<Rightarrow> lock_command" where
  "cmd_acquire lockName ownerID leaseID timestamp c =
     c\<lparr>lc_command := CmdAcquire, lc_lockName := lockName, lc_ownerID := ownerID, lc_leaseID := leaseID,
       lc_timestamp := timestamp\<rparr>"

definition cmd_release :: "bytes \<Rightarrow> bytes \<Rightarrow> u64 \<Rightarrow> lock_command \<Rightarrow> lock_command" where
  "cmd_release lockName ownerID fencingToken c =
     c\<lparr>lc_command := CmdRelease, lc_lockName := lockName, lc_ownerID := ownerID, lc_fencingToken := fencingToken\<rparr>"

definition cmd_wait :: "bytes \<Rightarrow> bytes \<Rightarrow> u64 \<Rightarrow> i64 \<Rightarrow> bytes \<Rightarrow> lock_command \<Rightarrow> lock_command" where
  "cmd_wait lockName ownerID leaseID timestamp requestID c =
     c\<lparr>lc_command := CmdWait, lc_lockName := lockName, lc_ownerID := ownerID, lc_leaseID := leaseID,
       lc_timestamp := timestamp, lc_requestID := requestID\<rparr>"

definition cmd_cancel_wait :: "bytes \<Rightarrow> bytes \<Rightarrow> lock_command \<Rightarrow> lock_command" where
  "cmd_cancel_wait lockName requestID c =
     c\<lparr>lc_command := CmdCancelWait, lc_lockName := lockName, lc_requestID := requestID\<rparr>"

definition cmd_lease_grant :: "i64 \<Rightarrow> i64 \<Rightarrow> lock_command \<Rightarrow> lock_command" where
  "cmd_lease_grant ttlSeconds timestamp c =
     c\<lparr>lc_command := CmdLeaseGrant, lc_ttlSeconds := ttlSeconds, lc_timestamp := timestamp\<rparr>"

definition cmd_lease_revoke :: "u64 \<Rightarrow> lock_command \<Rightarrow> lock_command" where
  "cmd_lease_revoke leaseID c = c\<lparr>lc_command := CmdLeaseRevoke, lc_leaseID := leaseID\<rparr>"

definition cmd_lease_keep_alive :: "u64 \<Rightarrow> i64 \<Rightarrow> lock_command \<Rightarrow> lock_command" where
  "cmd_lease_keep_alive leaseID timestamp c =
     c\<lparr>lc_command := CmdLeaseKeepAlive, lc_leaseID := leaseID, lc_timestamp := timestamp\<rparr>"

definition cmd_tick :: "i64 \<Rightarrow> lock_command \<Rightarrow> lock_command" where
  "cmd_tick timestamp c = c\<lparr>lc_command := CmdTick, lc_timestamp := timestamp\<rparr>"

definition WaitStatusAcquired :: bytes where "WaitStatusAcquired = str ''acquired''"
definition WaitStatusWaiting :: bytes where "WaitStatusWaiting = str ''waiting''"

record lock_result =
  kr_command :: u64
  kr_lockName :: bytes
  kr_ownerID :: bytes
  kr_fencingToken :: u64
  kr_acquired :: bool
  kr_leaseID :: u64
  kr_queuePosition :: nat
  kr_waitStatus :: bytes
  kr_nextOwnerID :: bytes
  kr_nextRequestID :: bytes
  kr_nextToken :: u64
  kr_nextLeaseID :: u64

definition lock_result0 :: "u64 \<Rightarrow> bytes \<Rightarrow> lock_result" where
  "lock_result0 command lockName = \<lparr>kr_command = command, kr_lockName = lockName, kr_ownerID = [], kr_fencingToken = 0,
     kr_acquired = False, kr_leaseID = 0, kr_queuePosition = 0, kr_waitStatus = [], kr_nextOwnerID = [],
     kr_nextRequestID = [], kr_nextToken = 0, kr_nextLeaseID = 0\<rparr>"

record lease_result =
  er_command :: u64
  er_leaseID :: u64
  er_ttl :: i64
  er_expiresAt :: i64
  er_releasedLocks :: "bytes list"
  er_locks :: "bytes list"

record tick_result =
  tr_command :: u64
  tr_expiredLeases :: "u64 list"
  tr_notifyResults :: "lock_result list"

datatype lock_response = LockResp lock_result | LeaseResp lease_result | TickResp tick_result

definition ErrLockNotFound :: bytes where "ErrLockNotFound = str ''lock not found''"
definition ErrNotLockOwner :: bytes where "ErrNotLockOwner = str ''not lock owner or invalid fencing token''"
definition ErrUnknownCommand :: bytes where "ErrUnknownCommand = str ''unknown command''"
definition ErrLeaseNotFound :: bytes where "ErrLeaseNotFound = str ''lease not found''"

section \<open>The store\<close>

record lease =
  le_id :: u64
  le_ttl :: i64
  le_grantedAt :: i64
  le_expiresAt :: i64

record wait_entry =
  we_ownerID :: bytes
  we_requestID :: bytes
  we_leaseID :: u64
  we_timestamp :: i64

record lock =
  lk_name :: bytes
  lk_ownerID :: bytes
  lk_leaseID :: u64
  lk_fencingToken :: u64
  lk_acquiredAt :: i64
  lk_waitQueue :: "wait_entry list"

record acquired_result =
  aq_result :: lock_result
  aq_expiresAt :: i64

text \<open>\<^verbatim>\<open>map[string]bool\<close> only ever holds \<^verbatim>\<open>true\<close> and is the set of its keys; a nil inner map is \<^const>\<open>None\<close>.\<close>

record lock_store =
  ls_leases :: "u64 \<rightharpoonup> lease"
  ls_locks :: "bytes \<rightharpoonup> lock"
  ls_locksByLease :: "u64 \<rightharpoonup> bytes set"
  ls_acquiredResults :: "bytes \<rightharpoonup> acquired_result"
  ls_leaseSeq :: u64
  ls_globalFencingSeq :: u64

definition new_lock_store :: lock_store where
  "new_lock_store = \<lparr>ls_leases = Map.empty, ls_locks = Map.empty, ls_locksByLease = Map.empty,
     ls_acquiredResults = Map.empty, ls_leaseSeq = 0, ls_globalFencingSeq = 0\<rparr>"

text \<open>
  What the runtime decides while a command is applied: the value of \<^verbatim>\<open>time.Now().UnixNano()\<close> for a
  release, and, for each lease that is revoked, the order in which \<^verbatim>\<open>range\<close> visits its locks with the
  time read at each visit. The order of the list of leases is the order of the \<^verbatim>\<open>range\<close> over the leases.
\<close>

type_synonym visits = "(bytes \<times> i64) list"

record go_choice =
  gc_now :: i64
  gc_visits :: "(u64 \<times> visits) list"

definition visits_of :: "go_choice \<Rightarrow> u64 \<Rightarrow> visits" where
  "visits_of ch leaseID = (case map_of (gc_visits ch) leaseID of None \<Rightarrow> [] | Some vs \<Rightarrow> vs)"

definition result_of :: "u64 \<Rightarrow> 'r \<Rightarrow> 'r apply_result" where
  "result_of logIndex r = \<lparr>ar_logIndex = logIndex, ar_response = Some r, ar_error = None\<rparr>"

definition error_of :: "u64 \<Rightarrow> bytes \<Rightarrow> 'r apply_result" where
  "error_of logIndex e = \<lparr>ar_logIndex = logIndex, ar_response = None, ar_error = Some e\<rparr>"

type_synonym lock_outcome = "(unit, lock_response apply_result \<times> lock_store) outcome"

text \<open>
  \<^verbatim>\<open>s.locksByLease[leaseID][lockName] = true\<close> panics when the inner map is nil, \<^verbatim>\<open>delete\<close> on a nil map
  does nothing and \<^verbatim>\<open>range\<close> over it visits nothing.
\<close>

definition hold_lock :: "u64 \<Rightarrow> bytes \<Rightarrow> lock_store \<Rightarrow> (unit, lock_store) outcome" where
  "hold_lock leaseID lockName s =
     (case ls_locksByLease s leaseID of
        None \<Rightarrow> Panic
      | Some names \<Rightarrow> Ret (s\<lparr>ls_locksByLease := (ls_locksByLease s)(leaseID \<mapsto> insert lockName names)\<rparr>))"

definition drop_lock :: "u64 \<Rightarrow> bytes \<Rightarrow> lock_store \<Rightarrow> lock_store" where
  "drop_lock leaseID lockName s =
     (case ls_locksByLease s leaseID of
        None \<Rightarrow> s
      | Some names \<Rightarrow> s\<lparr>ls_locksByLease := (ls_locksByLease s)(leaseID \<mapsto> names - {lockName})\<rparr>)"

definition held_by :: "u64 \<Rightarrow> lock_store \<Rightarrow> bytes set" where
  "held_by leaseID s = (case ls_locksByLease s leaseID of None \<Rightarrow> {} | Some names \<Rightarrow> names)"

definition delete_lock :: "bytes \<Rightarrow> lock_store \<Rightarrow> lock_store" where
  "delete_lock lockName s = s\<lparr>ls_locks := (ls_locks s)(lockName := None)\<rparr>"

section \<open>Leases\<close>

definition second_ns :: i64 where "second_ns = 1000000000"

definition apply_lease_grant :: "u64 \<Rightarrow> lock_command \<Rightarrow> lock_store \<Rightarrow> lock_outcome" where
  "apply_lease_grant logIndex cmd s =
     (let seq = ls_leaseSeq s + 1;
          lease = \<lparr>le_id = seq, le_ttl = lc_ttlSeconds cmd, le_grantedAt = lc_timestamp cmd,
            le_expiresAt = lc_timestamp cmd + lc_ttlSeconds cmd * second_ns\<rparr>
      in Ret (result_of logIndex (LeaseResp \<lparr>er_command = CmdLeaseGrant, er_leaseID = le_id lease, er_ttl = le_ttl lease,
             er_expiresAt = le_expiresAt lease, er_releasedLocks = [], er_locks = []\<rparr>),
           s\<lparr>ls_leaseSeq := seq, ls_leases := (ls_leases s)(seq \<mapsto> lease),
             ls_locksByLease := (ls_locksByLease s)(seq \<mapsto> {})\<rparr>))"

definition apply_lease_keep_alive :: "u64 \<Rightarrow> lock_command \<Rightarrow> lock_store \<Rightarrow> lock_outcome" where
  "apply_lease_keep_alive logIndex cmd s =
     (case ls_leases s (lc_leaseID cmd) of
        None \<Rightarrow> Ret (error_of logIndex ErrLeaseNotFound, s)
      | Some lease \<Rightarrow>
          let lease' = lease\<lparr>le_expiresAt := lc_timestamp cmd + le_ttl lease * second_ns\<rparr>
          in Ret (result_of logIndex (LeaseResp \<lparr>er_command = CmdLeaseKeepAlive, er_leaseID = le_id lease', er_ttl = le_ttl lease',
                er_expiresAt = le_expiresAt lease', er_releasedLocks = [], er_locks = []\<rparr>),
              s\<lparr>ls_leases := (ls_leases s)(lc_leaseID cmd \<mapsto> lease')\<rparr>))"

text \<open>
  The lock passes to the first waiter, whose lease is alive: the code is the same in
  \<^verbatim>\<open>revokeLeaseInternal\<close> and \<^verbatim>\<open>applyRelease\<close>. The last component is the notification.
\<close>

definition hand_over ::
  "i64 \<Rightarrow> u64 \<Rightarrow> bytes \<Rightarrow> lock \<Rightarrow> wait_entry \<Rightarrow> wait_entry list \<Rightarrow> lease \<Rightarrow> lock_store \<Rightarrow> (unit, lock_store \<times> lock_result) outcome" where
  "hand_over now oldLeaseID lockName lock w rest nextLease s =
     (let seq = ls_globalFencingSeq s + 1;
          lock' = lock\<lparr>lk_waitQueue := rest, lk_ownerID := we_ownerID w, lk_leaseID := we_leaseID w,
            lk_fencingToken := seq, lk_acquiredAt := now\<rparr>;
          s1 = s\<lparr>ls_globalFencingSeq := seq, ls_locks := (ls_locks s)(lockName \<mapsto> lock')\<rparr>
      in bind_outcome (hold_lock (we_leaseID w) lockName (drop_lock oldLeaseID lockName s1)) (\<lambda>s2.
           let acquired = (lock_result0 CmdWait lockName)\<lparr>kr_ownerID := we_ownerID w, kr_fencingToken := seq,
                 kr_acquired := True, kr_leaseID := we_leaseID w, kr_waitStatus := WaitStatusAcquired\<rparr>
           in Ret (s2\<lparr>ls_acquiredResults := (ls_acquiredResults s2)(we_requestID w \<mapsto>
                  \<lparr>aq_result = acquired, aq_expiresAt = le_expiresAt nextLease\<rparr>)\<rparr>,
                (lock_result0 CmdRelease lockName)\<lparr>kr_nextOwnerID := we_ownerID w, kr_nextRequestID := we_requestID w,
                  kr_nextToken := seq, kr_nextLeaseID := we_leaseID w\<rparr>)))"

text \<open>
  The loop of \<^verbatim>\<open>revokeLeaseInternal\<close> over the locks of a lease, along the visits the runtime makes. Go
  produces an entry of the map at most once, not after it was removed, and an entry that is created
  during the loop may or may not be produced. \<^verbatim>\<open>produced\<close> holds the entries produced so far that were
  not removed since: a lock that goes to a waiter with the same lease is removed from the map and
  created again, so that a later visit may find it a second time.
\<close>

fun revoke_loop ::
  "u64 \<Rightarrow> visits \<Rightarrow> bytes set \<Rightarrow> bytes list \<Rightarrow> lock_result list \<Rightarrow> lock_store \<Rightarrow> (unit, bytes list \<times> lock_result list \<times> lock_store) outcome" where
  "revoke_loop leaseID [] produced names told s = Ret (names, told, s)"
| "revoke_loop leaseID ((n, now) # vs) produced names told s =
     (if n \<in> held_by leaseID s \<and> n \<notin> produced then
        (case ls_locks s n of
           None \<Rightarrow> revoke_loop leaseID vs (insert n produced) (names @ [n]) told s
         | Some lock \<Rightarrow>
             (case lk_waitQueue lock of
                [] \<Rightarrow> revoke_loop leaseID vs (produced - {n}) (names @ [n]) told (drop_lock leaseID n (delete_lock n s))
              | w # rest \<Rightarrow>
                  (case ls_leases s (we_leaseID w) of
                     None \<Rightarrow> revoke_loop leaseID vs (insert n produced) (names @ [n]) told (delete_lock n s)
                   | Some nextLease \<Rightarrow>
                       bind_outcome (hand_over now leaseID n lock w rest nextLease s) (\<lambda>(s', note).
                         revoke_loop leaseID vs (produced - {n}) (names @ [n]) (told @ [note]) s'))))
      else revoke_loop leaseID vs produced names told s)"

text \<open>An entry that is in the map when the loop starts and stays there is produced: the visits cover the map.\<close>

definition revoke_lease_internal ::
  "u64 \<Rightarrow> visits \<Rightarrow> lock_store \<Rightarrow> (unit, bytes list \<times> lock_result list \<times> lock_store) outcome option" where
  "revoke_lease_internal leaseID vs s =
     (if held_by leaseID s \<subseteq> fst ` set vs then
        Some (bind_outcome (revoke_loop leaseID vs {} [] [] s) (\<lambda>(names, told, s').
          Ret (names, told, s'\<lparr>ls_leases := (ls_leases s')(leaseID := None),
            ls_locksByLease := (ls_locksByLease s')(leaseID := None)\<rparr>)))
      else None)"

definition apply_lease_revoke :: "go_choice \<Rightarrow> u64 \<Rightarrow> lock_command \<Rightarrow> lock_store \<Rightarrow> lock_outcome option" where
  "apply_lease_revoke ch logIndex cmd s =
     (case ls_leases s (lc_leaseID cmd) of
        None \<Rightarrow> Some (Ret (error_of logIndex ErrLeaseNotFound, s))
      | Some lease \<Rightarrow>
          map_option (\<lambda>r. bind_outcome r (\<lambda>(names, told, s').
              Ret (result_of logIndex (LeaseResp \<lparr>er_command = CmdLeaseRevoke, er_leaseID = lc_leaseID cmd, er_ttl = 0,
                er_expiresAt = 0, er_releasedLocks = names, er_locks = []\<rparr>), s')))
            (revoke_lease_internal (lc_leaseID cmd) (visits_of ch (lc_leaseID cmd)) s))"

definition cleanup_expired :: "i64 \<Rightarrow> lock_store \<Rightarrow> lock_store" where
  "cleanup_expired now s = s\<lparr>ls_acquiredResults := (\<lambda>reqID.
     case ls_acquiredResults s reqID of
       None \<Rightarrow> None
     | Some r \<Rightarrow> if sint (aq_expiresAt r) \<le> sint now then None else Some r)\<rparr>"

definition expired_lease :: "i64 \<Rightarrow> lock_store \<Rightarrow> u64 \<Rightarrow> bool" where
  "expired_lease now s leaseID =
     (case ls_leases s leaseID of None \<Rightarrow> False | Some lease \<Rightarrow> sint (le_expiresAt lease) \<le> sint now)"

fun tick_loop :: "(u64 \<times> visits) list \<Rightarrow> lock_result list \<Rightarrow> lock_store \<Rightarrow> (unit, lock_result list \<times> lock_store) outcome option" where
  "tick_loop [] told s = Some (Ret (told, s))"
| "tick_loop ((leaseID, vs) # ls) told s =
     (case revoke_lease_internal leaseID vs s of
        None \<Rightarrow> None
      | Some (Ret (names, results, s')) \<Rightarrow> tick_loop ls (told @ results) s'
      | Some (Fail e) \<Rightarrow> Some (Fail e)
      | Some Panic \<Rightarrow> Some Panic)"

definition apply_tick :: "go_choice \<Rightarrow> u64 \<Rightarrow> lock_command \<Rightarrow> lock_store \<Rightarrow> lock_outcome option" where
  "apply_tick ch logIndex cmd s =
     (let now = lc_timestamp cmd; expired = map fst (gc_visits ch)
      in if distinct expired \<and> (\<forall>l. l \<in> set expired \<longleftrightarrow> expired_lease now s l)
         then map_option (\<lambda>r. bind_outcome r (\<lambda>(told, s').
             Ret (result_of logIndex (TickResp \<lparr>tr_command = CmdTick, tr_expiredLeases = expired, tr_notifyResults = told\<rparr>),
               cleanup_expired now s')))
           (tick_loop (gc_visits ch) [] s)
         else None)"

section \<open>Locks\<close>

definition acquire_lock :: "lock_command \<Rightarrow> bytes \<Rightarrow> wait_entry list \<Rightarrow> lock_store \<Rightarrow> (unit, lock_store) outcome" where
  "acquire_lock cmd name queue s =
     (let seq = ls_globalFencingSeq s + 1;
          lock = \<lparr>lk_name = name, lk_ownerID = lc_ownerID cmd, lk_leaseID = lc_leaseID cmd,
            lk_fencingToken = seq, lk_acquiredAt = lc_timestamp cmd, lk_waitQueue = queue\<rparr>
      in hold_lock (lc_leaseID cmd) (lc_lockName cmd)
           (s\<lparr>ls_globalFencingSeq := seq, ls_locks := (ls_locks s)(lc_lockName cmd \<mapsto> lock)\<rparr>))"

definition acquired_response :: "u64 \<Rightarrow> lock_command \<Rightarrow> lock_store \<Rightarrow> lock_result" where
  "acquired_response command cmd s =
     (lock_result0 command (lc_lockName cmd))\<lparr>kr_ownerID := lc_ownerID cmd, kr_fencingToken := ls_globalFencingSeq s,
       kr_acquired := True, kr_leaseID := lc_leaseID cmd\<rparr>"

definition apply_acquire :: "u64 \<Rightarrow> lock_command \<Rightarrow> lock_store \<Rightarrow> lock_outcome" where
  "apply_acquire logIndex cmd s =
     (case ls_leases s (lc_leaseID cmd) of
        None \<Rightarrow> Ret (error_of logIndex ErrLeaseNotFound, s)
      | Some lease \<Rightarrow>
          let finish = (\<lambda>s1. bind_outcome (acquire_lock cmd (lc_lockName cmd) [] s1) (\<lambda>s2.
                Ret (result_of logIndex (LockResp (acquired_response CmdAcquire cmd s2)), s2)))
          in (case ls_locks s (lc_lockName cmd) of
                None \<Rightarrow> finish s
              | Some existing \<Rightarrow>
                  (case ls_leases s (lk_leaseID existing) of
                     None \<Rightarrow> finish s
                   | Some existingLease \<Rightarrow>
                       if lk_ownerID existing \<noteq> lc_ownerID cmd
                       then Ret (result_of logIndex (LockResp (lock_result0 CmdAcquire (lc_lockName cmd))), s)
                       else finish (drop_lock (lk_leaseID existing) (lc_lockName cmd) s))))"

definition apply_release :: "i64 \<Rightarrow> u64 \<Rightarrow> lock_command \<Rightarrow> lock_store \<Rightarrow> lock_outcome" where
  "apply_release now logIndex cmd s =
     (case ls_locks s (lc_lockName cmd) of
        None \<Rightarrow> Ret (error_of logIndex ErrLockNotFound, s)
      | Some lock \<Rightarrow>
          if lk_ownerID lock \<noteq> lc_ownerID cmd \<or> lk_fencingToken lock \<noteq> lc_fencingToken cmd
          then Ret (error_of logIndex ErrNotLockOwner, s)
          else
            let freed = Ret (result_of logIndex (LockResp (lock_result0 CmdRelease (lc_lockName cmd))),
                  drop_lock (lk_leaseID lock) (lc_lockName cmd) (delete_lock (lc_lockName cmd) s))
            in (case lk_waitQueue lock of
                  [] \<Rightarrow> freed
                | w # rest \<Rightarrow>
                    (case ls_leases s (we_leaseID w) of
                       None \<Rightarrow> freed
                     | Some nextLease \<Rightarrow>
                         bind_outcome (hand_over now (lk_leaseID lock) (lc_lockName cmd) lock w rest nextLease s) (\<lambda>(s', note).
                           Ret (result_of logIndex (LockResp note), s')))))"

fun queue_index :: "bytes \<Rightarrow> nat \<Rightarrow> wait_entry list \<Rightarrow> nat option" where
  "queue_index requestID i [] = None"
| "queue_index requestID i (w # ws) = (if we_requestID w = requestID then Some i else queue_index requestID (i + 1) ws)"

definition waiting_response :: "lock_command \<Rightarrow> nat \<Rightarrow> lock_result" where
  "waiting_response cmd position =
     (lock_result0 CmdWait (lc_lockName cmd))\<lparr>kr_queuePosition := position, kr_waitStatus := WaitStatusWaiting\<rparr>"

text \<open>The branches of \<^verbatim>\<open>applyWait\<close> once the lease is known to be alive and the request is not yet queued.\<close>

definition wait_for_lock :: "u64 \<Rightarrow> lock_command \<Rightarrow> lock_store \<Rightarrow> lock_outcome" where
  "wait_for_lock logIndex cmd s =
     (let finish = (\<lambda>name queue s1. bind_outcome (acquire_lock cmd name queue s1) (\<lambda>s2.
            Ret (result_of logIndex (LockResp ((acquired_response CmdWait cmd s2)\<lparr>kr_waitStatus := WaitStatusAcquired\<rparr>)), s2)))
      in (case ls_locks s (lc_lockName cmd) of
            None \<Rightarrow> finish (lc_lockName cmd) [] s
          | Some lock \<Rightarrow>
              (case ls_leases s (lk_leaseID lock) of
                 None \<Rightarrow> finish (lk_name lock) (lk_waitQueue lock) s
               | Some existingLease \<Rightarrow>
                   if lk_ownerID lock = lc_ownerID cmd
                   then finish (lk_name lock) (lk_waitQueue lock) (drop_lock (lk_leaseID lock) (lc_lockName cmd) s)
                   else
                     let queue = lk_waitQueue lock @ [\<lparr>we_ownerID = lc_ownerID cmd, we_requestID = lc_requestID cmd,
                           we_leaseID = lc_leaseID cmd, we_timestamp = lc_timestamp cmd\<rparr>]
                     in Ret (result_of logIndex (LockResp (waiting_response cmd (length queue))),
                          s\<lparr>ls_locks := (ls_locks s)(lc_lockName cmd \<mapsto> lock\<lparr>lk_waitQueue := queue\<rparr>)\<rparr>))))"

definition apply_wait :: "u64 \<Rightarrow> lock_command \<Rightarrow> lock_store \<Rightarrow> lock_outcome" where
  "apply_wait logIndex cmd s0 =
     (let s = cleanup_expired (lc_timestamp cmd) s0
      in (case (if lc_requestID cmd \<noteq> [] then ls_acquiredResults s (lc_requestID cmd) else None) of
            Some acquired \<Rightarrow> Ret (result_of logIndex (LockResp (aq_result acquired)), s)
          | None \<Rightarrow>
              (case ls_leases s (lc_leaseID cmd) of
                 None \<Rightarrow> Ret (error_of logIndex ErrLeaseNotFound, s)
               | Some lease \<Rightarrow>
                   (case (case ls_locks s (lc_lockName cmd) of
                            None \<Rightarrow> None
                          | Some lock \<Rightarrow> if lc_requestID cmd \<noteq> [] then queue_index (lc_requestID cmd) 0 (lk_waitQueue lock) else None) of
                      Some i \<Rightarrow> Ret (result_of logIndex (LockResp (waiting_response cmd (i + 1))), s)
                    | None \<Rightarrow> wait_for_lock logIndex cmd s))))"

definition apply_cancel_wait :: "u64 \<Rightarrow> lock_command \<Rightarrow> lock_store \<Rightarrow> lock_outcome" where
  "apply_cancel_wait logIndex cmd s =
     Ret (result_of logIndex (LockResp (lock_result0 CmdCancelWait (lc_lockName cmd))),
       case ls_locks s (lc_lockName cmd) of
         None \<Rightarrow> s
       | Some lock \<Rightarrow> s\<lparr>ls_locks := (ls_locks s)(lc_lockName cmd \<mapsto>
           lock\<lparr>lk_waitQueue := filter (\<lambda>w. we_requestID w \<noteq> lc_requestID cmd) (lk_waitQueue lock)\<rparr>)\<rparr>)"

text \<open>\<^verbatim>\<open>LockStore.Apply\<close> on a decoded command.\<close>

definition apply_command :: "go_choice \<Rightarrow> u64 \<Rightarrow> lock_command \<Rightarrow> lock_store \<Rightarrow> lock_outcome option" where
  "apply_command ch index cmd s =
     (if lc_command cmd = CmdAcquire then Some (apply_acquire index cmd s)
      else if lc_command cmd = CmdRelease then Some (apply_release (gc_now ch) index cmd s)
      else if lc_command cmd = CmdWait then Some (apply_wait index cmd s)
      else if lc_command cmd = CmdCancelWait then Some (apply_cancel_wait index cmd s)
      else if lc_command cmd = CmdLeaseGrant then Some (apply_lease_grant index cmd s)
      else if lc_command cmd = CmdLeaseRevoke then apply_lease_revoke ch index cmd s
      else if lc_command cmd = CmdLeaseKeepAlive then Some (apply_lease_keep_alive index cmd s)
      else if lc_command cmd = CmdTick then apply_tick ch index cmd s
      else Some (Ret (error_of index ErrUnknownCommand, s)))"

section \<open>Well-formed stores\<close>

text \<open>
  Leases and the index of locks by lease have the same keys; a lock of a live lease is in the index
  of its lease and in no other, tokens are those handed out so far and name one lock. While the loop
  over the locks of a lease runs, the index of that lease, in \<^verbatim>\<open>X\<close>, may hold names of deleted locks.
\<close>

definition lock_placed :: "lock_store \<Rightarrow> bytes \<Rightarrow> lock \<Rightarrow> bool" where
  "lock_placed s n k \<longleftrightarrow> lk_name k = n \<and> lk_leaseID k \<le> ls_leaseSeq s \<and> lk_fencingToken k \<le> ls_globalFencingSeq s \<and>
     (ls_leases s (lk_leaseID k) \<noteq> None \<longrightarrow> n \<in> held_by (lk_leaseID k) s)"

definition store_inv :: "u64 set \<Rightarrow> lock_store \<Rightarrow> bool" where
  "store_inv X s \<longleftrightarrow>
     (\<forall>l. ls_leases s l = None \<longleftrightarrow> ls_locksByLease s l = None) \<and>
     (\<forall>l le. ls_leases s l = Some le \<longrightarrow> le_id le = l \<and> l \<le> ls_leaseSeq s) \<and>
     (\<forall>n k. ls_locks s n = Some k \<longrightarrow> lock_placed s n k) \<and>
     (\<forall>l n k. n \<in> held_by l s \<longrightarrow> ls_locks s n = Some k \<longrightarrow> lk_leaseID k = l) \<and>
     (\<forall>l n. n \<in> held_by l s \<longrightarrow> l \<notin> X \<longrightarrow> ls_locks s n \<noteq> None) \<and>
     (\<forall>n m k k'. ls_locks s n = Some k \<longrightarrow> ls_locks s m = Some k' \<longrightarrow> lk_fencingToken k = lk_fencingToken k' \<longrightarrow> n = m) \<and>
     (\<forall>l. finite (held_by l s))"

abbreviation store_ok :: "lock_store \<Rightarrow> bool" where
  "store_ok \<equiv> store_inv {}"

lemma store_invI:
  assumes "\<And>l. ls_leases s l = None \<longleftrightarrow> ls_locksByLease s l = None"
    and "\<And>l le. ls_leases s l = Some le \<Longrightarrow> le_id le = l \<and> l \<le> ls_leaseSeq s"
    and "\<And>n k. ls_locks s n = Some k \<Longrightarrow> lock_placed s n k"
    and "\<And>l n k. n \<in> held_by l s \<Longrightarrow> ls_locks s n = Some k \<Longrightarrow> lk_leaseID k = l"
    and "\<And>l n. n \<in> held_by l s \<Longrightarrow> l \<notin> X \<Longrightarrow> ls_locks s n \<noteq> None"
    and "\<And>n m k k'. ls_locks s n = Some k \<Longrightarrow> ls_locks s m = Some k' \<Longrightarrow> lk_fencingToken k = lk_fencingToken k' \<Longrightarrow> n = m"
    and "\<And>l. finite (held_by l s)"
  shows "store_inv X s"
  unfolding store_inv_def using assms by blast

lemma store_invD:
  assumes "store_inv X s"
  shows "ls_leases s l = None \<longleftrightarrow> ls_locksByLease s l = None"
    and "ls_leases s l = Some le \<Longrightarrow> le_id le = l \<and> l \<le> ls_leaseSeq s"
    and "ls_locks s n = Some k \<Longrightarrow> lock_placed s n k"
    and "n \<in> held_by l s \<Longrightarrow> ls_locks s n = Some k \<Longrightarrow> lk_leaseID k = l"
    and "n \<in> held_by l s \<Longrightarrow> l \<notin> X \<Longrightarrow> ls_locks s n \<noteq> None"
    and "ls_locks s n = Some k \<Longrightarrow> ls_locks s m = Some k' \<Longrightarrow> lk_fencingToken k = lk_fencingToken k' \<Longrightarrow> n = m"
    and "finite (held_by l s)"
  using assms unfolding store_inv_def by blast+

text \<open>
  What a step does to the holdings: tokens only grow, and a lock that is held after the step is held
  as before or under a token that was not handed out before.
\<close>

definition fenced :: "lock_store \<Rightarrow> lock_store \<Rightarrow> bool" where
  "fenced s s' \<longleftrightarrow> ls_globalFencingSeq s \<le> ls_globalFencingSeq s' \<and>
     (\<forall>n k'. ls_locks s' n = Some k' \<longrightarrow> ls_globalFencingSeq s < lk_fencingToken k' \<or>
        (\<exists>k. ls_locks s n = Some k \<and> lk_fencingToken k = lk_fencingToken k' \<and> lk_ownerID k = lk_ownerID k' \<and>
             lk_leaseID k = lk_leaseID k'))"

lemma fenced_refl [simp]: "fenced s s"
  by (auto simp: fenced_def)

lemma fencedD:
  assumes "fenced s s'"
  shows "ls_globalFencingSeq s \<le> ls_globalFencingSeq s'"
    and "ls_locks s' n = Some k' \<Longrightarrow> \<not> ls_globalFencingSeq s < lk_fencingToken k' \<Longrightarrow>
      \<exists>k. ls_locks s n = Some k \<and> lk_fencingToken k = lk_fencingToken k' \<and> lk_ownerID k = lk_ownerID k' \<and>
        lk_leaseID k = lk_leaseID k'"
  using assms unfolding fenced_def by blast+

lemma fenced_trans:
  assumes "fenced s1 s2" and "fenced s2 s3"
  shows "fenced s1 s3"
  unfolding fenced_def
proof (intro conjI allI impI)
  show "ls_globalFencingSeq s1 \<le> ls_globalFencingSeq s3" using fencedD(1) [OF assms(1)] fencedD(1) [OF assms(2)] by simp
next
  fix n k3 assume k3: "ls_locks s3 n = Some k3"
  show "ls_globalFencingSeq s1 < lk_fencingToken k3 \<or>
        (\<exists>k. ls_locks s1 n = Some k \<and> lk_fencingToken k = lk_fencingToken k3 \<and> lk_ownerID k = lk_ownerID k3 \<and>
             lk_leaseID k = lk_leaseID k3)"
  proof (cases "ls_globalFencingSeq s2 < lk_fencingToken k3")
    case True
    then show ?thesis using fencedD(1) [OF assms(1)] by (meson order.strict_trans1)
  next
    case False
    then obtain k2 where k2: "ls_locks s2 n = Some k2" "lk_fencingToken k2 = lk_fencingToken k3" "lk_ownerID k2 = lk_ownerID k3"
        "lk_leaseID k2 = lk_leaseID k3" using fencedD(2) [OF assms(2) k3] by blast
    then show ?thesis using fencedD(2) [OF assms(1) k2(1)] by auto
  qed
qed

lemma lock_ops_simps [simp]:
  "ls_leases (drop_lock l n s) = ls_leases s" "ls_locks (drop_lock l n s) = ls_locks s"
  "ls_leaseSeq (drop_lock l n s) = ls_leaseSeq s" "ls_globalFencingSeq (drop_lock l n s) = ls_globalFencingSeq s"
  "ls_acquiredResults (drop_lock l n s) = ls_acquiredResults s"
  "(ls_locksByLease (drop_lock l n s) l' = None) = (ls_locksByLease s l' = None)"
  "held_by l' (drop_lock l n s) = (if l' = l then held_by l s - {n} else held_by l' s)"
  "ls_leases (delete_lock n s) = ls_leases s" "ls_locksByLease (delete_lock n s) = ls_locksByLease s"
  "ls_locks (delete_lock n s) = (ls_locks s)(n := None)"
  "ls_leaseSeq (delete_lock n s) = ls_leaseSeq s" "ls_globalFencingSeq (delete_lock n s) = ls_globalFencingSeq s"
  "held_by l' (delete_lock n s) = held_by l' s"
  "ls_leases (cleanup_expired t s) = ls_leases s" "ls_locks (cleanup_expired t s) = ls_locks s"
  "ls_locksByLease (cleanup_expired t s) = ls_locksByLease s" "ls_leaseSeq (cleanup_expired t s) = ls_leaseSeq s"
  "ls_globalFencingSeq (cleanup_expired t s) = ls_globalFencingSeq s" "held_by l' (cleanup_expired t s) = held_by l' s"
  by (auto simp: drop_lock_def delete_lock_def cleanup_expired_def held_by_def split: option.splits)

lemma held_by_update [simp]:
  "held_by l (s\<lparr>ls_locks := a\<rparr>) = held_by l s" "held_by l (s\<lparr>ls_leases := b\<rparr>) = held_by l s"
  "held_by l (s\<lparr>ls_globalFencingSeq := c\<rparr>) = held_by l s" "held_by l (s\<lparr>ls_leaseSeq := c\<rparr>) = held_by l s"
  "held_by l (s\<lparr>ls_acquiredResults := d\<rparr>) = held_by l s"
  by (simp_all add: held_by_def)

lemma drop_absent: "n \<notin> held_by l s \<Longrightarrow> drop_lock l n s = s"
proof -
  assume "n \<notin> held_by l s"
  then have "(ls_locksByLease s)(l \<mapsto> ns - {n}) = ls_locksByLease s" if "ls_locksByLease s l = Some ns" for ns
    using that by (auto simp: held_by_def fun_eq_iff)
  then show ?thesis by (simp add: drop_lock_def split: option.splits)
qed

lemma holder_unique:
  assumes "store_inv X s" and "ls_locks s n = Some k" and "l \<noteq> lk_leaseID k"
  shows "n \<notin> held_by l s"
  using store_invD(4) [OF assms(1) _ assms(2), of l] assms(3) by blast

lemma only_holder:
  "store_inv X s \<Longrightarrow> ls_locks s n = Some k \<Longrightarrow> \<forall>l. l \<noteq> lk_leaseID k \<longrightarrow> n \<notin> held_by l s"
  using holder_unique by blast

lemma frame_inv:
  assumes "store_inv X s" and "ls_leases s' = ls_leases s" and "ls_locksByLease s' = ls_locksByLease s"
    and "ls_locks s' = ls_locks s" and "ls_leaseSeq s' = ls_leaseSeq s" and "ls_globalFencingSeq s' = ls_globalFencingSeq s"
  shows "store_inv X s'" and "fenced s s'"
proof -
  have h: "held_by l s' = held_by l s" for l using assms(3) by (simp add: held_by_def)
  have "store_inv X s' = store_inv X s" unfolding store_inv_def lock_placed_def by (simp only: assms(2-6) h)
  then show "store_inv X s'" using assms(1) by simp
  show "fenced s s'" using assms by (auto simp: fenced_def)
qed

text \<open>A lock passes to a live lease under the next token.\<close>

definition grants :: "bytes \<Rightarrow> lock \<Rightarrow> lock_store \<Rightarrow> lock_store" where
  "grants n k s = s\<lparr>ls_globalFencingSeq := ls_globalFencingSeq s + 1, ls_locks := (ls_locks s)(n \<mapsto> k)\<rparr>"

lemma grants_simps [simp]:
  "ls_leases (grants n k s) = ls_leases s" "ls_locksByLease (grants n k s) = ls_locksByLease s"
  "ls_locks (grants n k s) = (ls_locks s)(n \<mapsto> k)" "ls_leaseSeq (grants n k s) = ls_leaseSeq s"
  "ls_globalFencingSeq (grants n k s) = ls_globalFencingSeq s + 1" "held_by l (grants n k s) = held_by l s"
  by (simp_all add: grants_def held_by_def)

lemma next_seq:
  fixes w :: u64
  assumes "unat w + 1 < 2 ^ 64"
  shows "w < w + 1" and "unat (w + 1) = unat w + 1" and "v \<le> w \<Longrightarrow> v \<le> w + 1"
proof -
  show u: "unat (w + 1) = unat w + 1" using assms by (simp add: unat_word_ariths)
  then show lt: "w < w + 1" by (simp add: word_less_nat_alt)
  show "v \<le> w \<Longrightarrow> v \<le> w + 1" using lt by (meson order.strict_implies_order order.trans)
qed

lemma grant_keeps:
  assumes inv: "store_inv X s" and room: "unat (ls_globalFencingSeq s) + 1 < 2 ^ 64"
    and live: "ls_leases s (lk_leaseID k) = Some le" and k: "lk_name k = n" "lk_fencingToken k = ls_globalFencingSeq s + 1"
    and only: "\<forall>l. l \<noteq> old \<longrightarrow> n \<notin> held_by l s"
  shows "\<exists>s'. hold_lock (lk_leaseID k) n (drop_lock old n (grants n k s)) = Ret s' \<and> store_inv X s' \<and> fenced s s' \<and>
    ls_leases s' = ls_leases s \<and> ls_globalFencingSeq s' = ls_globalFencingSeq s + 1 \<and> ls_leaseSeq s' = ls_leaseSeq s \<and>
    ls_locks s' = (ls_locks s)(n \<mapsto> k) \<and> ls_acquiredResults s' = ls_acquiredResults s \<and>
    (\<forall>l. held_by l s' = (if l = lk_leaseID k then insert n (held_by l s) else held_by l s - {n}))"
proof -
  let ?s1 = "drop_lock old n (grants n k s)"
  obtain ns where ns: "ls_locksByLease ?s1 (lk_leaseID k) = Some ns"
    using live store_invD(1) [OF inv, of "lk_leaseID k"] lock_ops_simps(6) [of old n "grants n k s" "lk_leaseID k"] by fastforce
  define s' where "s' = ?s1\<lparr>ls_locksByLease := (ls_locksByLease ?s1)(lk_leaseID k \<mapsto> insert n ns)\<rparr>"
  have ret: "hold_lock (lk_leaseID k) n ?s1 = Ret s'" using ns by (simp add: hold_lock_def s'_def)
  have f [simp]: "ls_leases s' = ls_leases s" "ls_globalFencingSeq s' = ls_globalFencingSeq s + 1" "ls_leaseSeq s' = ls_leaseSeq s"
      "ls_locks s' = (ls_locks s)(n \<mapsto> k)" by (simp_all add: s'_def)
  have q: "ls_acquiredResults s' = ls_acquiredResults s" by (simp add: s'_def grants_def)
  have ns': "ns = held_by (lk_leaseID k) ?s1" using ns by (simp add: held_by_def)
  have h1: "held_by l s' = (if l = lk_leaseID k then insert n ns else held_by l ?s1)" for l
    by (simp add: s'_def held_by_def)
  have h: "held_by l s' = (if l = lk_leaseID k then insert n (held_by l s) else held_by l s - {n})" for l
    using only unfolding h1 ns' by auto
  have t: "lk_fencingToken k' \<noteq> ls_globalFencingSeq s + 1" if "ls_locks s m = Some k'" for m k'
    using store_invD(3) [OF inv that] next_seq(1) [OF room] unfolding lock_placed_def by (metis leD)
  have "store_inv X s'"
  proof (rule store_invI)
    fix l show "ls_leases s' l = None \<longleftrightarrow> ls_locksByLease s' l = None"
      using store_invD(1) [OF inv, of l] live by (auto simp: s'_def)
  next
    fix l le assume "ls_leases s' l = Some le"
    then show "le_id le = l \<and> l \<le> ls_leaseSeq s'" using store_invD(2) [OF inv] by simp
  next
    fix m k' assume "ls_locks s' m = Some k'"
    then show "lock_placed s' m k'"
      using store_invD(3) [OF inv, of m k'] store_invD(2) [OF inv live] k next_seq(3) [OF room]
      by (auto simp: lock_placed_def h split: if_splits)
  next
    fix l m k' assume "m \<in> held_by l s'" "ls_locks s' m = Some k'"
    then show "lk_leaseID k' = l" using store_invD(4) [OF inv, of m l k'] by (auto simp: h split: if_splits)
  next
    fix l m assume "m \<in> held_by l s'" "l \<notin> X"
    then show "ls_locks s' m \<noteq> None" using store_invD(5) [OF inv, of m l] by (auto simp: h split: if_splits)
  next
    fix m m' j j' assume "ls_locks s' m = Some j" "ls_locks s' m' = Some j'" "lk_fencingToken j = lk_fencingToken j'"
    then show "m = m'" using store_invD(6) [OF inv, of m j m' j'] t k(2) by (auto split: if_splits)
  next
    fix l show "finite (held_by l s')" using store_invD(7) [OF inv, of l] by (auto simp: h)
  qed
  moreover have "fenced s s'" using next_seq [OF room] k(2) by (auto simp: fenced_def)
  ultimately show ?thesis using ret f q h by blast
qed

text \<open>A lock is deleted; inside the loop its name may stay in the index of the lease that is revoked.\<close>

lemma removal_keeps:
  assumes inv: "store_inv X s" and eqs: "ls_leases s' = ls_leases s" "ls_locks s' = (ls_locks s)(n := None)"
      "ls_leaseSeq s' = ls_leaseSeq s" "ls_globalFencingSeq s' = ls_globalFencingSeq s"
    and keys: "\<And>l. ls_locksByLease s' l = None \<longleftrightarrow> ls_locksByLease s l = None"
    and held: "\<And>l. held_by l s - {n} \<subseteq> held_by l s'" "\<And>l. held_by l s' \<subseteq> held_by l s"
    and gone: "\<And>l. l \<notin> X \<Longrightarrow> n \<notin> held_by l s'"
  shows "store_inv X s'" and "fenced s s'"
proof -
  show "store_inv X s'"
  proof (rule store_invI)
    fix l show "ls_leases s' l = None \<longleftrightarrow> ls_locksByLease s' l = None" using store_invD(1) [OF inv, of l] keys [of l] eqs by simp
  next
    fix l le assume "ls_leases s' l = Some le"
    then show "le_id le = l \<and> l \<le> ls_leaseSeq s'" using store_invD(2) [OF inv] eqs by simp
  next
    fix m k assume "ls_locks s' m = Some k"
    then show "lock_placed s' m k" using store_invD(3) [OF inv, of m k] held(1) [of "lk_leaseID k"] eqs
      by (auto simp: lock_placed_def split: if_splits)
  next
    fix l m k assume "m \<in> held_by l s'" "ls_locks s' m = Some k"
    then show "lk_leaseID k = l" using store_invD(4) [OF inv, of m l k] held(2) [of l] eqs by (auto split: if_splits)
  next
    fix l m assume "m \<in> held_by l s'" "l \<notin> X"
    then show "ls_locks s' m \<noteq> None" using store_invD(5) [OF inv, of m l] gone [of l] held(2) [of l] eqs by auto
  next
    fix m m' j j' assume "ls_locks s' m = Some j" "ls_locks s' m' = Some j'" "lk_fencingToken j = lk_fencingToken j'"
    then show "m = m'" using store_invD(6) [OF inv, of m j m' j'] eqs by (auto split: if_splits)
  next
    fix l show "finite (held_by l s')" using store_invD(7) [OF inv, of l] held(2) [of l] finite_subset by blast
  qed
  show "fenced s s'" using eqs by (auto simp: fenced_def)
qed

lemma delete_keeps:
  assumes "store_inv X s" and "\<And>l. l \<noteq> old \<Longrightarrow> n \<notin> held_by l s"
  shows "store_inv X (drop_lock old n (delete_lock n s))" and "fenced s (drop_lock old n (delete_lock n s))"
  by (rule removal_keeps [OF assms(1)]; use assms(2) in \<open>auto split: if_splits\<close>)+

lemma delete_in_loop_keeps:
  assumes "store_inv X s" and "\<And>l. l \<notin> X \<Longrightarrow> n \<notin> held_by l s"
  shows "store_inv X (delete_lock n s)" and "fenced s (delete_lock n s)"
  by (rule removal_keeps [OF assms(1)]; use assms(2) in auto)+

text \<open>The queue of a lock does not matter.\<close>

lemma queue_keeps:
  assumes inv: "store_inv X s" and k: "ls_locks s n = Some k"
  shows "store_inv X (s\<lparr>ls_locks := (ls_locks s)(n \<mapsto> k\<lparr>lk_waitQueue := q\<rparr>)\<rparr>)"
    and "fenced s (s\<lparr>ls_locks := (ls_locks s)(n \<mapsto> k\<lparr>lk_waitQueue := q\<rparr>)\<rparr>)"
proof -
  let ?s = "s\<lparr>ls_locks := (ls_locks s)(n \<mapsto> k\<lparr>lk_waitQueue := q\<rparr>)\<rparr>"
  have old: "\<exists>j'. ls_locks s m = Some j' \<and> lk_fencingToken j' = lk_fencingToken j \<and> lk_leaseID j' = lk_leaseID j \<and>
      lk_ownerID j' = lk_ownerID j \<and> lk_name j' = lk_name j" if "ls_locks ?s m = Some j" for m j
    using that k by (auto split: if_splits)
  show "store_inv X ?s"
  proof (rule store_invI)
    fix m j assume "ls_locks ?s m = Some j"
    then show "lock_placed ?s m j" using old [of m j] store_invD(3) [OF inv, of m] by (auto simp: lock_placed_def)
  next
    fix l m j assume "m \<in> held_by l ?s" "ls_locks ?s m = Some j"
    then show "lk_leaseID j = l" using old [of m j] store_invD(4) [OF inv, of m l] by auto
  next
    fix m m' j j' assume "ls_locks ?s m = Some j" "ls_locks ?s m' = Some j'" "lk_fencingToken j = lk_fencingToken j'"
    then show "m = m'" using old [of m j] old [of m' j'] store_invD(6) [OF inv, of m _ m'] by metis
  qed (use store_invD [OF inv] in auto)
  show "fenced s ?s" using k by (auto simp: fenced_def)
qed

section \<open>Every command keeps the store well-formed\<close>

lemma hand_over_keeps:
  assumes inv: "store_inv X s" and room: "unat (ls_globalFencingSeq s) + 1 < 2 ^ 64"
    and lock: "ls_locks s n = Some lock" and live: "ls_leases s (we_leaseID w) = Some nl"
  shows "\<exists>s' note. hand_over now (lk_leaseID lock) n lock w rest nl s = Ret (s', note) \<and> store_inv X s' \<and> fenced s s' \<and>
    ls_leases s' = ls_leases s \<and> ls_leaseSeq s' = ls_leaseSeq s \<and> ls_globalFencingSeq s' = ls_globalFencingSeq s + 1"
proof -
  define k where "k = lock\<lparr>lk_waitQueue := rest, lk_ownerID := we_ownerID w, lk_leaseID := we_leaseID w,
      lk_fencingToken := ls_globalFencingSeq s + 1, lk_acquiredAt := now\<rparr>"
  have k: "lk_leaseID k = we_leaseID w" "lk_name k = n" "lk_fencingToken k = ls_globalFencingSeq s + 1"
    using store_invD(3) [OF inv lock] by (auto simp: k_def lock_placed_def)
  have live': "ls_leases s (lk_leaseID k) = Some nl" using live k(1) by simp
  obtain s1 where s1: "hold_lock (we_leaseID w) n (drop_lock (lk_leaseID lock) n (grants n k s)) = Ret s1" "store_inv X s1"
      "fenced s s1" "ls_leases s1 = ls_leases s" "ls_globalFencingSeq s1 = ls_globalFencingSeq s + 1" "ls_leaseSeq s1 = ls_leaseSeq s"
    using grant_keeps [OF inv room live' k(2,3), of "lk_leaseID lock"] only_holder [OF inv lock] unfolding k(1) by blast
  let ?s2 = "\<lambda>a. s1\<lparr>ls_acquiredResults := a\<rparr>"
  have "store_inv X (?s2 a) \<and> fenced s (?s2 a)" for a
    using frame_inv [OF s1(2), of "?s2 a"] fenced_trans [OF s1(3)] by simp
  then show ?thesis using s1 by (auto simp: hand_over_def Let_def grants_def k_def)
qed

lemma revoke_loop_keeps:
  assumes "store_inv {lid} s" and "unat (ls_globalFencingSeq s) + length vs < 2 ^ 64"
  shows "\<exists>names' told' s'. revoke_loop lid vs produced names told s = Ret (names', told', s') \<and> store_inv {lid} s' \<and>
    fenced s s' \<and> ls_leases s' = ls_leases s \<and> ls_leaseSeq s' = ls_leaseSeq s \<and>
    unat (ls_globalFencingSeq s') \<le> unat (ls_globalFencingSeq s) + length vs"
  using assms
proof (induction vs arbitrary: produced names told s)
  case Nil
  then show ?case by simp
next
  case (Cons v vs)
  obtain n now where v: "v = (n, now)" by fastforce
  have go: ?case if "revoke_loop lid (v # vs) produced names told s = revoke_loop lid vs p' a b s1" "store_inv {lid} s1" "fenced s s1"
      "ls_leases s1 = ls_leases s" "ls_leaseSeq s1 = ls_leaseSeq s" "unat (ls_globalFencingSeq s1) \<le> unat (ls_globalFencingSeq s) + 1" for p' a b s1
    using Cons.IH [OF that(2), of p' a b] that Cons.prems(2) fenced_trans [OF that(3)] by fastforce
  note inv = Cons.prems(1) and room = Cons.prems(2)
  show ?case
  proof (cases "n \<in> held_by lid s \<and> n \<notin> produced")
    case False
    then have "revoke_loop lid (v # vs) produced names told s = revoke_loop lid vs produced names told s" by (auto simp: v)
    from go [OF this inv] show ?thesis by simp
  next
    case True
    show ?thesis
    proof (cases "ls_locks s n")
      case None
      with True have "revoke_loop lid (v # vs) produced names told s = revoke_loop lid vs (insert n produced) (names @ [n]) told s"
        by (simp add: v)
      from go [OF this inv] show ?thesis by simp
    next
      case (Some lock)
      have lid: "lk_leaseID lock = lid" using store_invD(4) [OF inv] True Some by blast
      have only: "n \<notin> held_by l s" if "l \<noteq> lid" for l using holder_unique [OF inv Some] that lid by blast
      consider "lk_waitQueue lock = []" | w rest where "lk_waitQueue lock = w # rest" "ls_leases s (we_leaseID w) = None" |
          w rest nl where "lk_waitQueue lock = w # rest" "ls_leases s (we_leaseID w) = Some nl"
        by (cases "lk_waitQueue lock") blast+
      then show ?thesis
      proof cases
        case 1
        with True Some have "revoke_loop lid (v # vs) produced names told s =
            revoke_loop lid vs (produced - {n}) (names @ [n]) told (drop_lock lid n (delete_lock n s))" by (simp add: v)
        from go [OF this delete_keeps [OF inv only]] show ?thesis by simp
      next
        case 2
        with True Some have "revoke_loop lid (v # vs) produced names told s =
            revoke_loop lid vs (insert n produced) (names @ [n]) told (delete_lock n s)" by (simp add: v)
        from go [OF this delete_in_loop_keeps [OF inv]] only show ?thesis by simp
      next
        case 3
        have r1: "unat (ls_globalFencingSeq s) + 1 < 2 ^ 64" using room by simp
        obtain s1 note1 where s1: "hand_over now lid n lock w rest nl s = Ret (s1, note1)" "store_inv {lid} s1" "fenced s s1"
            "ls_leases s1 = ls_leases s" "ls_leaseSeq s1 = ls_leaseSeq s" "ls_globalFencingSeq s1 = ls_globalFencingSeq s + 1"
          using hand_over_keeps [OF inv r1 Some 3(2), of now rest] unfolding lid by blast
        from 3 True Some s1(1) have "revoke_loop lid (v # vs) produced names told s =
            revoke_loop lid vs (produced - {n}) (names @ [n]) (told @ [note1]) s1" by (simp add: v)
        from go [OF this s1(2-5)] s1(6) next_seq(2) [OF r1] show ?thesis by simp
      qed
    qed
  qed
qed

lemma lease_removed:
  assumes inv: "store_inv {lid} s"
  shows "store_ok (s\<lparr>ls_leases := (ls_leases s)(lid := None), ls_locksByLease := (ls_locksByLease s)(lid := None)\<rparr>)"
    and "fenced s (s\<lparr>ls_leases := (ls_leases s)(lid := None), ls_locksByLease := (ls_locksByLease s)(lid := None)\<rparr>)"
proof -
  let ?s = "s\<lparr>ls_leases := (ls_leases s)(lid := None), ls_locksByLease := (ls_locksByLease s)(lid := None)\<rparr>"
  have h: "held_by l ?s = (if l = lid then {} else held_by l s)" for l by (simp add: held_by_def)
  show "store_ok ?s"
  proof (rule store_invI)
    fix l show "ls_leases ?s l = None \<longleftrightarrow> ls_locksByLease ?s l = None" using store_invD(1) [OF inv, of l] by simp
  next
    fix l le assume "ls_leases ?s l = Some le"
    then show "le_id le = l \<and> l \<le> ls_leaseSeq ?s" using store_invD(2) [OF inv, of l le] by (simp split: if_splits)
  next
    fix n k assume "ls_locks ?s n = Some k"
    then show "lock_placed ?s n k" using store_invD(3) [OF inv, of n k] unfolding lock_placed_def h by simp
  next
    fix l n k assume "n \<in> held_by l ?s" "ls_locks ?s n = Some k"
    then show "lk_leaseID k = l" using store_invD(4) [OF inv, of n l k] unfolding h by (simp split: if_splits)
  next
    fix l n assume "n \<in> held_by l ?s"
    then show "ls_locks ?s n \<noteq> None" using store_invD(5) [OF inv, of n l] unfolding h by (simp split: if_splits)
  next
    fix n m k k' assume "ls_locks ?s n = Some k" "ls_locks ?s m = Some k'" "lk_fencingToken k = lk_fencingToken k'"
    then show "n = m" using store_invD(6) [OF inv, of n k m k'] by simp
  next
    fix l show "finite (held_by l ?s)" using store_invD(7) [OF inv, of l] unfolding h by simp
  qed
  show "fenced s ?s" by (auto simp: fenced_def)
qed

lemma store_inv_weaken: "store_ok s \<Longrightarrow> store_inv X s"
  unfolding store_inv_def by blast

definition kept :: "nat \<Rightarrow> lock_store \<Rightarrow> lock_store \<Rightarrow> bool" where
  "kept b s s' \<longleftrightarrow> store_ok s' \<and> fenced s s' \<and> unat (ls_globalFencingSeq s') \<le> unat (ls_globalFencingSeq s) + b \<and>
     unat (ls_leaseSeq s') \<le> unat (ls_leaseSeq s) + b"

lemma kept_trans: "kept b s1 s2 \<Longrightarrow> kept c s2 s3 \<Longrightarrow> kept (b + c) s1 s3"
  using fenced_trans by (auto simp: kept_def)

lemma kept_more: "kept b s1 s2 \<Longrightarrow> b \<le> c \<Longrightarrow> kept c s1 s2"
  by (auto simp: kept_def)

lemma kept_frame:
  assumes "kept b s0 s" and "ls_leases s' = ls_leases s" "ls_locksByLease s' = ls_locksByLease s" "ls_locks s' = ls_locks s"
    "ls_leaseSeq s' = ls_leaseSeq s" "ls_globalFencingSeq s' = ls_globalFencingSeq s"
  shows "kept b s0 s'"
  using assms frame_inv [of "{}" s s'] fenced_trans [of s0 s s'] by (auto simp: kept_def)

lemma revoke_keeps:
  assumes "store_ok s" and "unat (ls_globalFencingSeq s) + length vs < 2 ^ 64" and "revoke_lease_internal lid vs s = Some r"
  shows "\<exists>names told s'. r = Ret (names, told, s') \<and> kept (length vs) s s' \<and> ls_leases s' = (ls_leases s)(lid := None)"
proof -
  obtain names told s1 where s1: "revoke_loop lid vs {} [] [] s = Ret (names, told, s1)" "store_inv {lid} s1" "fenced s s1"
      "ls_leases s1 = ls_leases s" "ls_leaseSeq s1 = ls_leaseSeq s"
      "unat (ls_globalFencingSeq s1) \<le> unat (ls_globalFencingSeq s) + length vs"
    using revoke_loop_keeps [OF store_inv_weaken [OF assms(1)] assms(2), of lid "{}" "[]" "[]"] by blast
  show ?thesis using assms(3) s1 lease_removed [OF s1(2)] fenced_trans [OF s1(3)]
    by (auto simp: revoke_lease_internal_def kept_def split: if_splits)
qed

fun visit_count :: "(u64 \<times> visits) list \<Rightarrow> nat" where
  "visit_count [] = 0"
| "visit_count ((leaseID, vs) # ls) = length vs + visit_count ls"

lemma tick_loop_keeps:
  assumes "store_ok s" and "unat (ls_globalFencingSeq s) + visit_count ls < 2 ^ 64"
    and "tick_loop ls told s = Some r"
  shows "\<exists>told' s'. r = Ret (told', s') \<and> kept (visit_count ls) s s'"
  using assms
proof (induction ls arbitrary: told s)
  case Nil
  then show ?case by (auto simp: kept_def)
next
  case (Cons v ls)
  obtain lid vs where v: "v = (lid, vs)" by fastforce
  obtain r1 where r1: "revoke_lease_internal lid vs s = Some r1"
    using Cons.prems(3) v by (cases "revoke_lease_internal lid vs s") auto
  obtain names told1 s1 where s1: "r1 = Ret (names, told1, s1)" "kept (length vs) s s1"
    using revoke_keeps [OF Cons.prems(1) _ r1] Cons.prems(2) v by auto
  have "store_ok s1" "unat (ls_globalFencingSeq s1) + visit_count ls < 2 ^ 64"
    using s1(2) Cons.prems(2) by (auto simp: kept_def v)
  moreover have "tick_loop ls (told @ told1) s1 = Some r" using Cons.prems(3) r1 s1(1) v by simp
  ultimately obtain told' s' where "r = Ret (told', s')" "kept (visit_count ls) s1 s'"
    using Cons.IH by blast
  then show ?case using kept_trans [OF s1(2)] by (simp add: v)
qed

lemma acquire_lock_keeps:
  assumes inv: "store_ok s" and room: "unat (ls_globalFencingSeq s) + 1 < 2 ^ 64" and live: "ls_leases s (lc_leaseID cmd) = Some le"
    and only: "\<forall>l. l \<noteq> old \<longrightarrow> lc_lockName cmd \<notin> held_by l s"
  shows "\<exists>s'. acquire_lock cmd (lc_lockName cmd) q (drop_lock old (lc_lockName cmd) s) = Ret s' \<and> kept 1 s s'"
proof -
  define k where "k = \<lparr>lk_name = lc_lockName cmd, lk_ownerID = lc_ownerID cmd, lk_leaseID = lc_leaseID cmd,
      lk_fencingToken = ls_globalFencingSeq s + 1, lk_acquiredAt = lc_timestamp cmd, lk_waitQueue = q\<rparr>"
  have k: "lk_leaseID k = lc_leaseID cmd" "lk_name k = lc_lockName cmd" "lk_fencingToken k = ls_globalFencingSeq s + 1"
    by (simp_all add: k_def)
  have "acquire_lock cmd (lc_lockName cmd) q (drop_lock old (lc_lockName cmd) s) =
      hold_lock (lk_leaseID k) (lc_lockName cmd) (drop_lock old (lc_lockName cmd) (grants (lc_lockName cmd) k s))"
    by (cases s) (simp add: acquire_lock_def k_def grants_def drop_lock_def Let_def split: option.split)
  then show ?thesis using grant_keeps [OF inv room _ k(2,3) only, of le] live k(1) next_seq(2) [OF room]
    by (auto simp: kept_def)
qed

lemma kept_refl [simp]: "store_ok s \<Longrightarrow> kept b s s"
  by (simp add: kept_def)

lemma acquire_lock_keeps':
  assumes inv: "store_ok s" and "unat (ls_globalFencingSeq s) + 1 < 2 ^ 64" and "ls_leases s (lc_leaseID cmd) = Some le"
    and free: "\<And>k. ls_locks s (lc_lockName cmd) = Some k \<Longrightarrow> ls_leases s (lk_leaseID k) = None"
  shows "\<exists>s'. acquire_lock cmd (lc_lockName cmd) q s = Ret s' \<and> kept 1 s s'"
proof -
  have no: "lc_lockName cmd \<notin> held_by l s" for l
  proof
    assume h: "lc_lockName cmd \<in> held_by l s"
    then obtain k where "ls_locks s (lc_lockName cmd) = Some k" "lk_leaseID k = l"
      using store_invD(5) [OF inv h] store_invD(4) [OF inv h] by auto
    then show False using h free store_invD(1) [OF inv, of l] by (simp add: held_by_def)
  qed
  then show ?thesis using acquire_lock_keeps [OF assms(1-3), of 0 q] drop_absent [OF no] no by simp
qed

lemma apply_acquire_keeps:
  assumes inv: "store_ok s" and room: "unat (ls_globalFencingSeq s) + 1 < 2 ^ 64"
  shows "\<exists>res s'. apply_acquire i cmd s = Ret (res, s') \<and> kept 1 s s'"
proof (cases "ls_leases s (lc_leaseID cmd)")
  case None
  then show ?thesis using inv by (simp add: apply_acquire_def)
next
  case (Some le)
  have free: "\<exists>s'. acquire_lock cmd (lc_lockName cmd) [] s = Ret s' \<and> kept 1 s s'"
    if "\<And>k. ls_locks s (lc_lockName cmd) = Some k \<Longrightarrow> ls_leases s (lk_leaseID k) = None"
    using acquire_lock_keeps' [OF inv room Some that] by blast
  have own: "\<exists>s'. acquire_lock cmd (lc_lockName cmd) [] (drop_lock (lk_leaseID k) (lc_lockName cmd) s) = Ret s' \<and> kept 1 s s'"
    if "ls_locks s (lc_lockName cmd) = Some k" for k
    using acquire_lock_keeps [OF inv room Some only_holder [OF inv that]] by blast
  show ?thesis
  proof (cases "ls_locks s (lc_lockName cmd)")
    case None
    with free Some show ?thesis by (auto simp: apply_acquire_def Let_def)
  next
    case (Some k)
    show ?thesis
    proof (cases "ls_leases s (lk_leaseID k)")
      case None
      with free Some \<open>ls_leases s (lc_leaseID cmd) = Some le\<close> show ?thesis by (auto simp: apply_acquire_def Let_def)
    next
      case (Some a)
      then show ?thesis using own [OF \<open>ls_locks s (lc_lockName cmd) = Some k\<close>] inv \<open>ls_locks s (lc_lockName cmd) = Some k\<close>
          \<open>ls_leases s (lc_leaseID cmd) = Some le\<close> by (auto simp: apply_acquire_def Let_def)
    qed
  qed
qed

lemma apply_release_keeps:
  assumes inv: "store_ok s" and room: "unat (ls_globalFencingSeq s) + 1 < 2 ^ 64"
  shows "\<exists>res s'. apply_release now i cmd s = Ret (res, s') \<and> kept 1 s s'"
proof (cases "ls_locks s (lc_lockName cmd)")
  case None
  then show ?thesis using inv by (simp add: apply_release_def)
next
  case (Some k)
  have freed: "kept 1 s (drop_lock (lk_leaseID k) (lc_lockName cmd) (delete_lock (lc_lockName cmd) s))"
    using delete_keeps [OF inv holder_unique [OF inv Some]] by (simp add: kept_def)
  have over: "\<exists>s' n. hand_over now (lk_leaseID k) (lc_lockName cmd) k w rest nl s = Ret (s', n) \<and> kept 1 s s'"
    if "ls_leases s (we_leaseID w) = Some nl" for w rest nl
    using hand_over_keeps [OF inv room Some that, of now rest] next_seq(2) [OF room] by (auto simp: kept_def)
  consider "lk_ownerID k \<noteq> lc_ownerID cmd \<or> lk_fencingToken k \<noteq> lc_fencingToken cmd" |
      w rest nl where "lk_ownerID k = lc_ownerID cmd" "lk_fencingToken k = lc_fencingToken cmd" "lk_waitQueue k = w # rest"
        "ls_leases s (we_leaseID w) = Some nl" |
      "lk_ownerID k = lc_ownerID cmd" "lk_fencingToken k = lc_fencingToken cmd"
        "\<forall>w rest. lk_waitQueue k = w # rest \<longrightarrow> ls_leases s (we_leaseID w) = None"
    by (cases "lk_waitQueue k") fastforce+
  then show ?thesis
  proof cases
    case 1
    then show ?thesis using Some inv by (auto simp: apply_release_def)
  next
    case 2
    then show ?thesis using Some over [OF 2(4), of rest] by (auto simp: apply_release_def Let_def)
  next
    case 3
    then show ?thesis using Some freed by (cases "lk_waitQueue k") (auto simp: apply_release_def Let_def)
  qed
qed

lemma wait_for_lock_keeps:
  assumes inv: "store_ok s" and room: "unat (ls_globalFencingSeq s) + 1 < 2 ^ 64" and live: "ls_leases s (lc_leaseID cmd) = Some le"
  shows "\<exists>res s'. wait_for_lock i cmd s = Ret (res, s') \<and> kept 1 s s'"
proof (cases "ls_locks s (lc_lockName cmd)")
  case None
  then show ?thesis using acquire_lock_keeps' [OF inv room live, of "[]"] by (auto simp: wait_for_lock_def Let_def)
next
  case (Some k)
  have name: "lk_name k = lc_lockName cmd" using store_invD(3) [OF inv Some] by (simp add: lock_placed_def)
  show ?thesis
  proof (cases "ls_leases s (lk_leaseID k)")
    case None
    then show ?thesis using acquire_lock_keeps' [OF inv room live, of "lk_waitQueue k"] Some name
      by (auto simp: wait_for_lock_def Let_def)
  next
    case (Some a)
    note lock = \<open>ls_locks s (lc_lockName cmd) = Some k\<close>
    have "kept 1 s (s\<lparr>ls_locks := (ls_locks s)(lc_lockName cmd \<mapsto> k\<lparr>lk_waitQueue := q\<rparr>)\<rparr>)" for q
      using queue_keeps [OF inv lock] by (simp add: kept_def)
    then show ?thesis using acquire_lock_keeps [OF inv room live only_holder [OF inv lock], where q = "lk_waitQueue k"] Some lock name
      by (auto simp: wait_for_lock_def Let_def)
  qed
qed

lemma apply_wait_keeps:
  assumes inv: "store_ok s" and room: "unat (ls_globalFencingSeq s) + 1 < 2 ^ 64"
  shows "\<exists>res s'. apply_wait i cmd s = Ret (res, s') \<and> kept 1 s s'"
proof -
  let ?s = "cleanup_expired (lc_timestamp cmd) s"
  have c: "kept 0 s ?s" using kept_frame [OF kept_refl [OF inv], of ?s 0] by simp
  then have inv': "store_ok ?s" by (simp add: kept_def)
  have "\<exists>res s'. wait_for_lock i cmd ?s = Ret (res, s') \<and> kept 1 s s'" if "ls_leases ?s (lc_leaseID cmd) = Some le" for le
    using wait_for_lock_keeps [OF inv' _ that, of i] room kept_trans [OF c] by force
  then show ?thesis using kept_more [OF c, of 1] by (auto simp: apply_wait_def Let_def split: option.split)
qed

lemma lease_grant_keeps:
  assumes inv: "store_ok s" and room: "unat (ls_leaseSeq s) + 1 < 2 ^ 64"
  shows "\<exists>res s'. apply_lease_grant i cmd s = Ret (res, s') \<and> kept 1 s s'"
proof -
  let ?n = "ls_leaseSeq s + 1"
  define le where "le = \<lparr>le_id = ?n, le_ttl = lc_ttlSeconds cmd, le_grantedAt = lc_timestamp cmd,
      le_expiresAt = lc_timestamp cmd + lc_ttlSeconds cmd * second_ns\<rparr>"
  define s' where "s' = s\<lparr>ls_leaseSeq := ?n, ls_leases := (ls_leases s)(?n \<mapsto> le), ls_locksByLease := (ls_locksByLease s)(?n \<mapsto> {})\<rparr>"
  note up = next_seq [OF room]
  have h: "held_by l s' = (if l = ?n then {} else held_by l s)" for l by (simp add: s'_def held_by_def)
  have "store_ok s'"
  proof (rule store_invI)
    fix l show "ls_leases s' l = None \<longleftrightarrow> ls_locksByLease s' l = None" using store_invD(1) [OF inv, of l] by (simp add: s'_def)
  next
    fix l le' assume "ls_leases s' l = Some le'"
    then show "le_id le' = l \<and> l \<le> ls_leaseSeq s'" using store_invD(2) [OF inv, of l le'] up(3)
      by (auto simp: s'_def le_def split: if_splits)
  next
    fix n k assume k: "ls_locks s' n = Some k"
    then have p: "lock_placed s n k" using store_invD(3) [OF inv, of n k] by (simp add: s'_def)
    then have "lk_leaseID k \<noteq> ?n" using up(1) by (auto simp: lock_placed_def)
    with p show "lock_placed s' n k" unfolding lock_placed_def h using up(3) by (simp add: s'_def)
  next
    fix l n k assume "n \<in> held_by l s'" "ls_locks s' n = Some k"
    then show "lk_leaseID k = l" using store_invD(4) [OF inv, of n l k] unfolding h by (simp add: s'_def split: if_splits)
  next
    fix l n assume "n \<in> held_by l s'"
    then show "ls_locks s' n \<noteq> None" using store_invD(5) [OF inv, of n l] unfolding h by (simp add: s'_def split: if_splits)
  next
    fix n m k k' assume "ls_locks s' n = Some k" "ls_locks s' m = Some k'" "lk_fencingToken k = lk_fencingToken k'"
    then show "n = m" using store_invD(6) [OF inv, of n k m k'] by (simp add: s'_def)
  next
    fix l show "finite (held_by l s')" using store_invD(7) [OF inv, of l] unfolding h by simp
  qed
  moreover have "fenced s s'" by (auto simp: fenced_def s'_def)
  ultimately have "kept 1 s s'" using up(2) by (simp add: kept_def s'_def)
  then show ?thesis by (simp add: apply_lease_grant_def Let_def s'_def le_def)
qed

lemma keep_alive_keeps:
  assumes inv: "store_ok s"
  shows "\<exists>res s'. apply_lease_keep_alive i cmd s = Ret (res, s') \<and> kept 1 s s'"
proof (cases "ls_leases s (lc_leaseID cmd)")
  case None
  then show ?thesis using inv by (simp add: apply_lease_keep_alive_def)
next
  case (Some le)
  define s' where "s' = s\<lparr>ls_leases := (ls_leases s)(lc_leaseID cmd \<mapsto> le\<lparr>le_expiresAt := lc_timestamp cmd + le_ttl le * second_ns\<rparr>)\<rparr>"
  have same: "ls_leases s' l = None \<longleftrightarrow> ls_leases s l = None" for l using Some by (simp add: s'_def)
  have "store_ok s'"
  proof (rule store_invI)
    fix l show "ls_leases s' l = None \<longleftrightarrow> ls_locksByLease s' l = None" using store_invD(1) [OF inv, of l] same [of l] by (simp add: s'_def)
  next
    fix l a assume "ls_leases s' l = Some a"
    then show "le_id a = l \<and> l \<le> ls_leaseSeq s'" using store_invD(2) [OF inv, of l] Some by (auto simp: s'_def split: if_splits)
  next
    fix n k assume "ls_locks s' n = Some k"
    then show "lock_placed s' n k" using store_invD(3) [OF inv, of n k] same [of "lk_leaseID k"] unfolding lock_placed_def
      by (simp add: s'_def)
  qed (use store_invD [OF inv] in \<open>auto simp: s'_def\<close>)
  moreover have "fenced s s'" by (auto simp: fenced_def s'_def)
  ultimately have "kept 1 s s'" by (simp add: kept_def s'_def)
  then show ?thesis using Some by (simp add: apply_lease_keep_alive_def Let_def s'_def)
qed

lemma visits_of_count: "length (visits_of ch l) \<le> visit_count (gc_visits ch)"
proof -
  have "map_of ls l = Some vs \<Longrightarrow> length vs \<le> visit_count ls" for ls vs
    by (induction ls rule: visit_count.induct) (auto split: if_splits)
  then show ?thesis by (auto simp: visits_of_def split: option.split)
qed

lemma apply_tick_keeps:
  assumes "store_ok s" and "unat (ls_globalFencingSeq s) + visit_count (gc_visits ch) < 2 ^ 64" and "apply_tick ch i cmd s = Some r"
  shows "\<exists>res s'. r = Ret (res, s') \<and> kept (visit_count (gc_visits ch)) s s'"
proof -
  obtain r1 where r1: "tick_loop (gc_visits ch) [] s = Some r1" using assms(3) by (auto simp: apply_tick_def Let_def split: if_splits)
  then obtain told s1 where s1: "r1 = Ret (told, s1)" "kept (visit_count (gc_visits ch)) s s1"
    using tick_loop_keeps [OF assms(1,2) r1] by blast
  then show ?thesis using assms(3) r1 kept_frame [OF s1(2), of "cleanup_expired (lc_timestamp cmd) s1"]
    by (auto simp: apply_tick_def Let_def split: if_splits)
qed

lemma apply_revoke_keeps:
  assumes "store_ok s" and "unat (ls_globalFencingSeq s) + visit_count (gc_visits ch) < 2 ^ 64"
    and "apply_lease_revoke ch i cmd s = Some r"
  shows "\<exists>res s'. r = Ret (res, s') \<and> kept (visit_count (gc_visits ch)) s s'"
proof (cases "ls_leases s (lc_leaseID cmd)")
  case None
  then show ?thesis using assms by (auto simp: apply_lease_revoke_def)
next
  case (Some le)
  let ?vs = "visits_of ch (lc_leaseID cmd)"
  obtain r1 where r1: "revoke_lease_internal (lc_leaseID cmd) ?vs s = Some r1"
    using assms(3) Some by (auto simp: apply_lease_revoke_def)
  have "unat (ls_globalFencingSeq s) + length ?vs < 2 ^ 64" using assms(2) visits_of_count [of ch "lc_leaseID cmd"] by linarith
  then obtain names told s1 where s1: "r1 = Ret (names, told, s1)" "kept (length ?vs) s s1"
    using revoke_keeps [OF assms(1) _ r1] by blast
  then show ?thesis using assms(3) Some r1 kept_more [OF s1(2) visits_of_count] by (auto simp: apply_lease_revoke_def)
qed

lemma apply_command_keeps:
  assumes inv: "store_ok s" and room: "unat (ls_globalFencingSeq s) + (1 + visit_count (gc_visits ch)) < 2 ^ 64"
      "unat (ls_leaseSeq s) + 1 < 2 ^ 64" and r: "apply_command ch i cmd s = Some r"
  shows "\<exists>res s'. r = Ret (res, s') \<and> kept (1 + visit_count (gc_visits ch)) s s'"
proof -
  define Q where "Q x \<longleftrightarrow> (\<exists>res s'. x = Ret (res, s') \<and> kept (1 + visit_count (gc_visits ch)) s s')" for x :: lock_outcome
  have r1: "unat (ls_globalFencingSeq s) + 1 < 2 ^ 64" "unat (ls_globalFencingSeq s) + visit_count (gc_visits ch) < 2 ^ 64"
    using room by simp_all
  have up: "Q x" if "\<exists>res s'. x = Ret (res, s') \<and> kept b s s'" and "b \<le> 1 + visit_count (gc_visits ch)" for x b
    unfolding Q_def using that kept_more by blast
  have "kept 1 s (case ls_locks s n of None \<Rightarrow> s | Some k \<Rightarrow> s\<lparr>ls_locks := (ls_locks s)(n \<mapsto>
      k\<lparr>lk_waitQueue := filter p (lk_waitQueue k)\<rparr>)\<rparr>)" for n p
    using queue_keeps [OF inv] inv by (simp add: kept_def split: option.split)
  then have cancel: "\<exists>res s'. apply_cancel_wait i cmd s = Ret (res, s') \<and> kept 1 s s'" by (simp add: apply_cancel_wait_def)
  have Q1: "Q (apply_acquire i cmd s)" by (rule up [OF apply_acquire_keeps [OF inv r1(1)]]) simp
  have Q2: "Q (apply_release (gc_now ch) i cmd s)" by (rule up [OF apply_release_keeps [OF inv r1(1)]]) simp
  have Q3: "Q (apply_wait i cmd s)" by (rule up [OF apply_wait_keeps [OF inv r1(1)]]) simp
  have Q4: "Q (apply_cancel_wait i cmd s)" by (rule up [OF cancel]) simp
  have Q5: "Q (apply_lease_grant i cmd s)" by (rule up [OF lease_grant_keeps [OF inv room(2)]]) simp
  have Q6: "Q (apply_lease_keep_alive i cmd s)" by (rule up [OF keep_alive_keeps [OF inv]]) simp
  have Q7: "Q (Ret (error_of i ErrUnknownCommand, s))" using inv by (simp add: Q_def)
  have Q8: "Q x" if "apply_lease_revoke ch i cmd s = Some x" for x by (rule up [OF apply_revoke_keeps [OF inv r1(2) that]]) simp
  have Q9: "Q x" if "apply_tick ch i cmd s = Some x" for x by (rule up [OF apply_tick_keeps [OF inv r1(2) that]]) simp
  have "Q r"
    using r Q1 Q2 Q3 Q4 Q5 Q6 Q7 Q8 Q9 unfolding apply_command_def by (simp split: if_splits)
  then show ?thesis by (simp add: Q_def)
qed

section \<open>Logs of commands\<close>

fun apply_all :: "(go_choice \<times> u64 \<times> lock_command) list \<Rightarrow> lock_store \<Rightarrow>
    (unit, lock_response apply_result list \<times> lock_store) outcome option" where
  "apply_all [] s = Some (Ret ([], s))"
| "apply_all ((ch, index, cmd) # xs) s =
     (case apply_command ch index cmd s of
        None \<Rightarrow> None
      | Some (Ret (res, s')) \<Rightarrow> map_option (\<lambda>r. bind_outcome r (\<lambda>(rs, s''). Ret (res # rs, s''))) (apply_all xs s')
      | Some (Fail e) \<Rightarrow> Some (Fail e)
      | Some Panic \<Rightarrow> Some Panic)"

text \<open>A bound on the tokens and lease ids a log can use up.\<close>

fun log_weight :: "(go_choice \<times> u64 \<times> lock_command) list \<Rightarrow> nat" where
  "log_weight [] = 0"
| "log_weight ((ch, index, cmd) # xs) = 1 + visit_count (gc_visits ch) + log_weight xs"

lemma apply_all_keeps:
  assumes "store_ok s" and "unat (ls_globalFencingSeq s) + log_weight xs < 2 ^ 64" and "unat (ls_leaseSeq s) + log_weight xs < 2 ^ 64"
    and "apply_all xs s = Some r"
  shows "\<exists>rs s'. r = Ret (rs, s') \<and> length rs = length xs \<and> kept (log_weight xs) s s'"
  using assms
proof (induction xs arbitrary: s r)
  case Nil
  then show ?case by auto
next
  case (Cons x xs)
  obtain ch i cmd where x: "x = (ch, i, cmd)" by (cases x)
  obtain r1 where r1: "apply_command ch i cmd s = Some r1" using Cons.prems(4) x by (cases "apply_command ch i cmd s") auto
  have "unat (ls_globalFencingSeq s) + (1 + visit_count (gc_visits ch)) < 2 ^ 64" "unat (ls_leaseSeq s) + 1 < 2 ^ 64"
    using Cons.prems(2,3) x by simp_all
  from apply_command_keeps [OF Cons.prems(1) this r1] obtain res s1 where s1: "r1 = Ret (res, s1)"
      "kept (1 + visit_count (gc_visits ch)) s s1" by blast
  then obtain r2 where r2: "apply_all xs s1 = Some r2" "r = bind_outcome r2 (\<lambda>(rs, s''). Ret (res # rs, s''))"
    using Cons.prems(4) r1 x by auto
  have "store_ok s1" "unat (ls_globalFencingSeq s1) + log_weight xs < 2 ^ 64" "unat (ls_leaseSeq s1) + log_weight xs < 2 ^ 64"
    using s1(2) Cons.prems(2,3) x by (auto simp: kept_def)
  from Cons.IH [OF this r2(1)] obtain rs s' where "r2 = Ret (rs, s')" "length rs = length xs" "kept (log_weight xs) s1 s'" by blast
  then show ?case using r2(2) kept_trans [OF s1(2)] x by auto
qed

lemma new_store_ok [simp]: "store_ok new_lock_store"
  by (auto simp: store_inv_def new_lock_store_def held_by_def)

text \<open>For every command the runtime has a choice to make, so a well-formed store never gets stuck.\<close>

definition names_finite :: "lock_store \<Rightarrow> bool" where
  "names_finite s \<longleftrightarrow> (\<forall>l. finite (held_by l s))"

lemma hand_over_finite:
  assumes "names_finite s" and "hand_over now lid n lock w rest nl s = Ret (s', m)"
  shows "names_finite s'"
proof -
  obtain k s2 q where s2: "hold_lock (we_leaseID w) n (drop_lock lid n (grants n k s)) = Ret s2" "s' = s2\<lparr>ls_acquiredResults := q\<rparr>"
    using assms(2) unfolding hand_over_def Let_def grants_def by (auto simp: outcome_iff)
  let ?s = "drop_lock lid n (grants n k s)"
  obtain ns where ns: "ls_locksByLease ?s (we_leaseID w) = Some ns"
      "s2 = ?s\<lparr>ls_locksByLease := (ls_locksByLease ?s)(we_leaseID w \<mapsto> insert n ns)\<rparr>"
    using s2(1) by (auto simp: hold_lock_def split: option.splits)
  have "held_by l s' \<subseteq> insert n (held_by l ?s)" for l using ns by (auto simp: s2(2) held_by_def)
  moreover have "finite (held_by l ?s)" for l using assms(1) by (auto simp: names_finite_def)
  ultimately show ?thesis unfolding names_finite_def by (meson finite.insertI finite_subset)
qed

lemma revoke_loop_ConsE:
  assumes r: "revoke_loop lid ((n, now) # vs) p a b s = Ret x"
  obtains p' a' b' s1 where "revoke_loop lid vs p' a' b' s1 = Ret x"
    "s1 = s \<or> s1 = drop_lock lid n (delete_lock n s) \<or> s1 = delete_lock n s \<or>
      (\<exists>lock w rest nl m. hand_over now lid n lock w rest nl s = Ret (s1, m))"
proof (cases "n \<in> held_by lid s \<and> n \<notin> p")
  case False
  then have "revoke_loop lid vs p a b s = Ret x" using r by auto
  then show thesis by (rule that) simp
next
  case True
  show thesis
  proof (cases "ls_locks s n")
    case None
    then have "revoke_loop lid vs (insert n p) (a @ [n]) b s = Ret x" using r True by simp
    then show thesis by (rule that) simp
  next
    case (Some lock)
    consider "lk_waitQueue lock = []" | w rest where "lk_waitQueue lock = w # rest" "ls_leases s (we_leaseID w) = None" |
        w rest nl where "lk_waitQueue lock = w # rest" "ls_leases s (we_leaseID w) = Some nl"
      by (cases "lk_waitQueue lock") blast+
    then show thesis
    proof cases
      case 1
      then have "revoke_loop lid vs (p - {n}) (a @ [n]) b (drop_lock lid n (delete_lock n s)) = Ret x" using r True Some by simp
      then show thesis by (rule that) simp
    next
      case 2
      then have "revoke_loop lid vs (insert n p) (a @ [n]) b (delete_lock n s) = Ret x" using r True Some by simp
      then show thesis by (rule that) simp
    next
      case 3
      then obtain s1 m where "hand_over now lid n lock w rest nl s = Ret (s1, m)"
          "revoke_loop lid vs (p - {n}) (a @ [n]) (b @ [m]) s1 = Ret x"
        using r True Some by (auto simp: bind_outcome_Ret_iff)
      then show thesis using that by blast
    qed
  qed
qed

lemma revoke_loop_finite:
  assumes "names_finite s" and "revoke_loop lid vs produced names told s = Ret x"
  shows "names_finite (snd (snd x))"
  using assms
proof (induction vs arbitrary: produced names told s)
  case Nil
  then show ?case by auto
next
  case (Cons v vs)
  obtain n now where v: "v = (n, now)" by fastforce
  obtain p' a' b' s1 where s1: "revoke_loop lid vs p' a' b' s1 = Ret x"
    "s1 = s \<or> s1 = drop_lock lid n (delete_lock n s) \<or> s1 = delete_lock n s \<or>
      (\<exists>lock w rest nl m. hand_over now lid n lock w rest nl s = Ret (s1, m))"
    using revoke_loop_ConsE [OF Cons.prems(2) [unfolded v]] by metis
  have "names_finite (drop_lock lid n (delete_lock n s))" "names_finite (delete_lock n s)"
    using Cons.prems(1) by (auto simp: names_finite_def)
  then have "names_finite s1" using s1(2) Cons.prems(1) hand_over_finite by blast
  then show ?case using Cons.IH s1(1) by blast
qed

lemma revoke_exists:
  assumes "names_finite s"
  shows "\<exists>vs. revoke_lease_internal lid vs s \<noteq> None"
proof -
  obtain ns where "set ns = held_by lid s" using assms finite_list [of "held_by lid s"] unfolding names_finite_def by blast
  then have "held_by lid s \<subseteq> fst ` set (map (\<lambda>n. (n, 0)) ns)" by force
  then have "revoke_lease_internal lid (map (\<lambda>n. (n, 0)) ns) s \<noteq> None" by (simp add: revoke_lease_internal_def)
  then show ?thesis by blast
qed

lemma revoke_finite:
  assumes "names_finite s" and "revoke_lease_internal lid vs s = Some (Ret (names, told, s'))"
  shows "names_finite s'"
proof -
  obtain s1 where s1: "revoke_loop lid vs {} [] [] s = Ret (names, told, s1)"
      "s' = s1\<lparr>ls_leases := (ls_leases s1)(lid := None), ls_locksByLease := (ls_locksByLease s1)(lid := None)\<rparr>"
    using assms(2) by (auto simp: revoke_lease_internal_def outcome_iff split: if_splits)
  have "held_by l s' \<subseteq> held_by l s1" for l by (simp add: s1(2) held_by_def)
  then show ?thesis using revoke_loop_finite [OF assms(1) s1(1)] by (metis finite_subset names_finite_def snd_conv)
qed

lemma tick_loop_exists: "names_finite s \<Longrightarrow> \<exists>ls. map fst ls = lids \<and> tick_loop ls told s \<noteq> None"
proof (induction lids arbitrary: told s)
  case Nil
  then show ?case by simp
next
  case (Cons lid lids)
  obtain vs r where r: "revoke_lease_internal lid vs s = Some r" using revoke_exists [OF Cons.prems] by blast
  show ?case
  proof (cases r)
    case (Ret x)
    obtain names t s1 where x: "x = (names, t, s1)" by (cases x)
    obtain ls where "map fst ls = lids" "tick_loop ls (told @ t) s1 \<noteq> None"
      using Cons.IH [OF revoke_finite [OF Cons.prems]] r Ret x by blast
    then show ?thesis using r Ret x by (intro exI [of _ "(lid, vs) # ls"]) simp
  next
    case (Fail e)
    then show ?thesis using r by (intro exI [of _ "(lid, vs) # map (\<lambda>l. (l, [])) lids"]) (simp add: comp_def)
  next
    case Panic
    then show ?thesis using r by (intro exI [of _ "(lid, vs) # map (\<lambda>l. (l, [])) lids"]) (simp add: comp_def)
  qed
qed

lemma apply_command_exists:
  assumes "store_ok s"
  shows "\<exists>ch. apply_command ch i cmd s \<noteq> None"
proof -
  have fin: "names_finite s" using store_invD(7) [OF assms] by (simp add: names_finite_def)
  obtain lids where lids: "set lids = {l. expired_lease (lc_timestamp cmd) s l}" "distinct lids"
    using finite_distinct_list [of "{l. expired_lease (lc_timestamp cmd) s l}"] by (metis finite_class.finite)
  obtain ls where ls: "map fst ls = lids" "tick_loop ls [] s \<noteq> None" using tick_loop_exists [OF fin] by blast
  have tick: "apply_tick \<lparr>gc_now = 0, gc_visits = ls\<rparr> i cmd s \<noteq> None"
    using ls lids by (auto simp: apply_tick_def Let_def)
  obtain vs where vs: "revoke_lease_internal (lc_leaseID cmd) vs s \<noteq> None" using revoke_exists [OF fin] by blast
  have revoke: "apply_lease_revoke \<lparr>gc_now = 0, gc_visits = [(lc_leaseID cmd, vs)]\<rparr> i cmd s \<noteq> None"
    using vs by (auto simp: apply_lease_revoke_def visits_of_def split: option.split)
  consider "lc_command cmd = CmdLeaseRevoke" | "lc_command cmd = CmdTick" |
      "lc_command cmd \<noteq> CmdLeaseRevoke" "lc_command cmd \<noteq> CmdTick" by blast
  then show ?thesis
  proof cases
    case 1
    then have "apply_command ch i cmd s = apply_lease_revoke ch i cmd s" for ch by (simp add: apply_command_def cmd_defs)
    then show ?thesis using revoke by metis
  next
    case 2
    then have "apply_command ch i cmd s = apply_tick ch i cmd s" for ch by (simp add: apply_command_def cmd_defs)
    then show ?thesis using tick by metis
  next
    case 3
    then show ?thesis by (simp add: apply_command_def)
  qed
qed

section \<open>Properties\<close>

text \<open>
  C17. The lock store is well-formed after any log of commands, whatever the runtime chooses: no
  command panics, every command has one result, the locks of a live lease are exactly those in the
  index of the lease, tokens are those handed out and name one lock. And the next command can always
  be applied: there is an order in which Go can visit the maps. The bound keeps the two counters from
  wrapping around.
\<close>

theorem lock_store_well_formed:
  assumes "apply_all xs new_lock_store = Some r" and "log_weight xs < 2 ^ 64"
  shows "\<exists>rs s. r = Ret (rs, s) \<and> length rs = length xs \<and> store_ok s \<and> (\<forall>i cmd. \<exists>ch. apply_command ch i cmd s \<noteq> None)"
proof -
  have "unat (ls_globalFencingSeq new_lock_store) + log_weight xs < 2 ^ 64" "unat (ls_leaseSeq new_lock_store) + log_weight xs < 2 ^ 64"
    using assms(2) by (simp_all add: new_lock_store_def)
  from apply_all_keeps [OF new_store_ok this assms(1)] show ?thesis
    using apply_command_exists by (auto simp: kept_def)
qed

definition no_choice :: go_choice where
  "no_choice = \<lparr>gc_now = 0, gc_visits = []\<rparr>"

text \<open>Two leases that end after a second with a lock each, and a third lease with a waiter for both.\<close>

definition held_log :: "(go_choice \<times> u64 \<times> lock_command) list" where
  "held_log =
     [(no_choice, 1, cmd_lease_grant 1 0 zero_command), (no_choice, 2, cmd_lease_grant 1 0 zero_command),
      (no_choice, 3, cmd_lease_grant 60 0 zero_command), (no_choice, 4, cmd_acquire [97] [1] 1 0 zero_command),
      (no_choice, 5, cmd_acquire [98] [2] 2 0 zero_command)]"

definition queue_log :: "(go_choice \<times> u64 \<times> lock_command) list" where
  "queue_log =
     [(no_choice, 6, cmd_wait [97] [3] 3 0 [7] zero_command), (no_choice, 7, cmd_wait [98] [4] 3 0 [8] zero_command)]"

lemmas command_defs = cmd_lease_grant_def cmd_acquire_def cmd_wait_def cmd_release_def cmd_tick_def cmd_lease_revoke_def zero_command_def cmd_defs

definition held_store :: lock_store where
  "held_store = \<lparr>ls_leases = [1 \<mapsto> \<lparr>le_id = 1, le_ttl = 1, le_grantedAt = 0, le_expiresAt = second_ns\<rparr>,
        2 \<mapsto> \<lparr>le_id = 2, le_ttl = 1, le_grantedAt = 0, le_expiresAt = second_ns\<rparr>,
        3 \<mapsto> \<lparr>le_id = 3, le_ttl = 60, le_grantedAt = 0, le_expiresAt = 60 * second_ns\<rparr>],
      ls_locks = [[97] \<mapsto> \<lparr>lk_name = [97], lk_ownerID = [1], lk_leaseID = 1, lk_fencingToken = 1, lk_acquiredAt = 0, lk_waitQueue = []\<rparr>,
        [98] \<mapsto> \<lparr>lk_name = [98], lk_ownerID = [2], lk_leaseID = 2, lk_fencingToken = 2, lk_acquiredAt = 0, lk_waitQueue = []\<rparr>],
      ls_locksByLease = [1 \<mapsto> {[97]}, 2 \<mapsto> {[98]}, 3 \<mapsto> {}], ls_acquiredResults = Map.empty, ls_leaseSeq = 3, ls_globalFencingSeq = 2\<rparr>"

definition queue_store :: lock_store where
  "queue_store = held_store\<lparr>ls_locks :=
     [[97] \<mapsto> \<lparr>lk_name = [97], lk_ownerID = [1], lk_leaseID = 1, lk_fencingToken = 1, lk_acquiredAt = 0,
          lk_waitQueue = [\<lparr>we_ownerID = [3], we_requestID = [7], we_leaseID = 3, we_timestamp = 0\<rparr>]\<rparr>,
      [98] \<mapsto> \<lparr>lk_name = [98], lk_ownerID = [2], lk_leaseID = 2, lk_fencingToken = 2, lk_acquiredAt = 0,
          lk_waitQueue = [\<lparr>we_ownerID = [4], we_requestID = [8], we_leaseID = 3, we_timestamp = 0\<rparr>]\<rparr>]\<rparr>"

lemma held_log_run: "\<exists>rs. apply_all held_log new_lock_store = Some (Ret (rs, held_store))"
  by (simp add: held_log_def held_store_def new_lock_store_def no_choice_def command_defs apply_command_def apply_lease_grant_def
      apply_acquire_def acquire_lock_def hold_lock_def Let_def fun_upd_twist)

lemma queue_log_run: "\<exists>rs. apply_all queue_log held_store = Some (Ret (rs, queue_store))"
  by (simp add: queue_log_def queue_store_def held_store_def no_choice_def command_defs apply_command_def
      apply_wait_def wait_for_lock_def cleanup_expired_def Let_def fun_upd_twist)

theorem lock_store_well_formed_witness: "\<exists>rs s. apply_all held_log new_lock_store = Some (Ret (rs, s)) \<and> length rs = 5 \<and> store_ok s"
proof -
  obtain rs where rs: "apply_all held_log new_lock_store = Some (Ret (rs, held_store))" using held_log_run by blast
  have "log_weight held_log < 2 ^ 64" by (simp add: held_log_def no_choice_def)
  from lock_store_well_formed [OF rs this] rs show ?thesis by (auto simp: held_log_def)
qed

text \<open>
  C3. A fencing token names one holding: if a lock after some log and a lock after an extension of
  that log carry the same token, they are the same lock, held by the same owner under the same lease.
  So a resource that rejects smaller tokens than it has seen never serves two holders under one token.
\<close>

theorem fencing_token_names_one_holding:
  assumes "apply_all xs new_lock_store = Some (Ret (rs, s))" and "apply_all ys s = Some (Ret (rs', s'))"
    and "log_weight xs + log_weight ys < 2 ^ 64"
    and "ls_locks s n = Some k" and "ls_locks s' m = Some k'" and "lk_fencingToken k = lk_fencingToken k'"
  shows "m = n \<and> lk_ownerID k' = lk_ownerID k \<and> lk_leaseID k' = lk_leaseID k"
proof -
  have "unat (ls_globalFencingSeq new_lock_store) + log_weight xs < 2 ^ 64" "unat (ls_leaseSeq new_lock_store) + log_weight xs < 2 ^ 64"
    using assms(3) by (simp_all add: new_lock_store_def)
  from apply_all_keeps [OF new_store_ok this assms(1)] have s: "kept (log_weight xs) new_lock_store s" by simp
  then have ok: "store_ok s" and "unat (ls_globalFencingSeq s) + log_weight ys < 2 ^ 64" "unat (ls_leaseSeq s) + log_weight ys < 2 ^ 64"
    using assms(3) by (simp_all add: kept_def new_lock_store_def)
  from apply_all_keeps [OF this assms(2)] have "fenced s s'" by (simp add: kept_def)
  moreover have "lk_fencingToken k \<le> ls_globalFencingSeq s" using store_invD(3) [OF ok assms(4)] by (simp add: lock_placed_def)
  ultimately obtain k0 where "ls_locks s m = Some k0" "lk_fencingToken k0 = lk_fencingToken k'" "lk_ownerID k0 = lk_ownerID k'"
      "lk_leaseID k0 = lk_leaseID k'" using fencedD(2) [OF _ assms(5)] assms(6) by (metis leD)
  then show ?thesis using store_invD(6) [OF ok assms(4), of m k0] assms(4,6) by auto
qed

theorem fencing_token_names_one_holding_witness:
  "\<exists>k. ls_locks queue_store [97] = Some k \<and> lk_fencingToken k = 1 \<and> lk_ownerID k = [1] \<and> lk_leaseID k = 1"
proof -
  obtain rs rs' where r: "apply_all held_log new_lock_store = Some (Ret (rs, held_store))"
      "apply_all queue_log held_store = Some (Ret (rs', queue_store))" using held_log_run queue_log_run by blast
  have w: "log_weight held_log + log_weight queue_log < 2 ^ 64" by (simp add: held_log_def queue_log_def no_choice_def)
  obtain k k' where k: "ls_locks held_store [97] = Some k" "ls_locks queue_store [97] = Some k'" "lk_fencingToken k = lk_fencingToken k'"
      "lk_fencingToken k = 1" "lk_ownerID k = [1]" "lk_leaseID k = 1" by (simp add: held_store_def queue_store_def)
  from fencing_token_names_one_holding [OF r w k(1-3)] k show ?thesis by auto
qed

text \<open>Two ways in which Go can visit the two expired leases.\<close>

definition tick_ab :: go_choice where
  "tick_ab = \<lparr>gc_now = 0, gc_visits = [(1, [([97], 5)]), (2, [([98], 6)])]\<rparr>"

definition tick_ba :: go_choice where
  "tick_ba = \<lparr>gc_now = 0, gc_visits = [(2, [([98], 5)]), (1, [([97], 6)])]\<rparr>"

definition at_two :: lock_command where
  "at_two = cmd_tick 2000000000 zero_command"

lemma expired_at_two: "expired_lease 2000000000 queue_store l \<longleftrightarrow> l = 1 \<or> l = 2"
  by (auto simp: expired_lease_def queue_store_def held_store_def second_ns_def)

lemma at_two_simps [simp]: "lc_command at_two = CmdTick" "lc_timestamp at_two = 2000000000"
  by (simp_all add: at_two_def cmd_tick_def)

lemmas revoke_defs = revoke_lease_internal_def hand_over_def held_by_def hold_lock_def drop_lock_def Let_def

lemma tick_ab_run:
  "\<exists>res s k. apply_command tick_ab 8 at_two queue_store = Some (Ret (res, s)) \<and> ls_locks s [97] = Some k \<and>
     lk_ownerID k = [3] \<and> lk_fencingToken k = 3 \<and> lk_waitQueue k = []"
proof -
  have "apply_command tick_ab 8 at_two queue_store = apply_tick tick_ab 8 at_two queue_store"
    by (simp add: apply_command_def cmd_defs)
  moreover have "distinct (map fst (gc_visits tick_ab)) \<and> (\<forall>l. l \<in> set (map fst (gc_visits tick_ab)) \<longleftrightarrow> expired_lease 2000000000 queue_store l)"
    by (auto simp: tick_ab_def expired_at_two)
  moreover have "\<exists>told s k. tick_loop (gc_visits tick_ab) [] queue_store = Some (Ret (told, s)) \<and> ls_locks s [97] = Some k \<and>
     lk_ownerID k = [3] \<and> lk_fencingToken k = 3 \<and> lk_waitQueue k = []"
    by (simp add: tick_ab_def queue_store_def held_store_def revoke_defs)
  ultimately show ?thesis unfolding apply_tick_def Let_def at_two_simps by auto
qed

lemma tick_ba_run:
  "\<exists>res s k. apply_command tick_ba 8 at_two queue_store = Some (Ret (res, s)) \<and> ls_locks s [97] = Some k \<and>
     lk_ownerID k = [3] \<and> lk_fencingToken k = 4"
proof -
  have "apply_command tick_ba 8 at_two queue_store = apply_tick tick_ba 8 at_two queue_store"
    by (simp add: apply_command_def cmd_defs)
  moreover have "distinct (map fst (gc_visits tick_ba)) \<and> (\<forall>l. l \<in> set (map fst (gc_visits tick_ba)) \<longleftrightarrow> expired_lease 2000000000 queue_store l)"
    by (auto simp: tick_ba_def expired_at_two)
  moreover have "\<exists>told s k. tick_loop (gc_visits tick_ba) [] queue_store = Some (Ret (told, s)) \<and> ls_locks s [97] = Some k \<and>
     lk_ownerID k = [3] \<and> lk_fencingToken k = 4"
    by (simp add: tick_ba_def queue_store_def held_store_def revoke_defs)
  ultimately show ?thesis unfolding apply_tick_def Let_def at_two_simps by auto
qed

lemma apply_all_append:
  assumes "apply_all xs s = Some (Ret (rs, s1))" and "apply_all ys s1 = Some (Ret (rs', s2))"
  shows "apply_all (xs @ ys) s = Some (Ret (rs @ rs', s2))"
  using assms
proof (induction xs arbitrary: s rs)
  case (Cons x xs)
  obtain ch i cmd where x: "x = (ch, i, cmd)" by (cases x)
  from Cons.prems(1) obtain res s0 where c: "apply_command ch i cmd s = Some (Ret (res, s0))"
    unfolding x by (auto split: option.splits outcome.splits prod.splits)
  with Cons.prems(1) obtain rs0 where "apply_all xs s0 = Some (Ret (rs0, s1))" "rs = res # rs0"
    unfolding x by (auto simp: bind_outcome_Ret_iff)
  then show ?case using Cons.IH [OF _ Cons.prems(2)] c by (simp add: x)
qed simp

lemma release_by_token:
  assumes "ls_locks s n = Some k" and "lk_ownerID k = owner"
  shows "lk_fencingToken k = t \<Longrightarrow> lk_waitQueue k = [] \<Longrightarrow>
      \<exists>r s'. apply_command ch i (cmd_release n owner t c) s = Some (Ret (r, s')) \<and> ar_error r = None \<and> ls_locks s' n = None"
    and "lk_fencingToken k \<noteq> t \<Longrightarrow>
      apply_command ch i (cmd_release n owner t c) s = Some (Ret (error_of i ErrNotLockOwner, s))"
  using assms by (simp_all add: apply_command_def cmd_release_def cmd_defs apply_release_def result_of_def)

text \<open>
  C40. The store is not a function of the log: the order in which Go visits the map of leases decides
  which waiter gets the smaller token. After the same log, a tick that finds two leases expired leaves
  two replicas with different tokens for the same lock, and a release that one replica executes is
  rejected by the other.
\<close>

theorem tick_order_changes_tokens:
  "\<exists>rs t1 t2 res1 res2 s1 s2 s1' r.
     apply_all (held_log @ queue_log) new_lock_store = Some (Ret (rs, queue_store)) \<and>
     apply_command t1 8 at_two queue_store = Some (Ret (res1, s1)) \<and>
     apply_command t2 8 at_two queue_store = Some (Ret (res2, s2)) \<and>
     apply_command no_choice 9 (cmd_release [97] [3] 3 zero_command) s1 = Some (Ret (r, s1')) \<and>
       ar_error r = None \<and> ls_locks s1' [97] = None \<and>
     apply_command no_choice 9 (cmd_release [97] [3] 3 zero_command) s2 = Some (Ret (error_of 9 ErrNotLockOwner, s2)) \<and>
       ls_locks s2 [97] \<noteq> None"
proof -
  obtain rs where rs: "apply_all (held_log @ queue_log) new_lock_store = Some (Ret (rs, queue_store))"
    using apply_all_append held_log_run queue_log_run by blast
  obtain res1 s1 k1 where 1: "apply_command tick_ab 8 at_two queue_store = Some (Ret (res1, s1))" "ls_locks s1 [97] = Some k1"
      "lk_ownerID k1 = [3]" "lk_fencingToken k1 = 3" "lk_waitQueue k1 = []" using tick_ab_run by blast
  obtain res2 s2 k2 where 2: "apply_command tick_ba 8 at_two queue_store = Some (Ret (res2, s2))" "ls_locks s2 [97] = Some k2"
      "lk_ownerID k2 = [3]" "lk_fencingToken k2 = 4" using tick_ba_run by blast
  obtain r s1' where 3: "apply_command no_choice 9 (cmd_release [97] [3] 3 zero_command) s1 = Some (Ret (r, s1'))" "ar_error r = None"
      "ls_locks s1' [97] = None" using release_by_token(1) [OF 1(2,3,4,5)] by blast
  have 4: "apply_command no_choice 9 (cmd_release [97] [3] 3 zero_command) s2 = Some (Ret (error_of 9 ErrNotLockOwner, s2))"
    using 2(4) by (intro release_by_token(2) [OF 2(2,3)]) simp
  have "ls_locks s2 [97] \<noteq> None" using 2(2) by simp
  then show ?thesis using rs 1(1) 2(1) 3 4 by blast
qed

lemma hand_over_result:
  assumes "hand_over now old n k w rest nl s = Ret (s', note)"
  shows "ls_locks s' = (ls_locks s)(n \<mapsto> k\<lparr>lk_waitQueue := rest, lk_ownerID := we_ownerID w, lk_leaseID := we_leaseID w,
      lk_fencingToken := ls_globalFencingSeq s + 1, lk_acquiredAt := now\<rparr>)"
    and "ls_acquiredResults s' = (ls_acquiredResults s)(we_requestID w \<mapsto>
      \<lparr>aq_result = (lock_result0 CmdWait n)\<lparr>kr_ownerID := we_ownerID w, kr_fencingToken := ls_globalFencingSeq s + 1,
        kr_acquired := True, kr_leaseID := we_leaseID w, kr_waitStatus := WaitStatusAcquired\<rparr>, aq_expiresAt = le_expiresAt nl\<rparr>)"
proof -
  obtain s2 k' q where s2: "hold_lock (we_leaseID w) n (drop_lock old n (s\<lparr>ls_globalFencingSeq := ls_globalFencingSeq s + 1,
        ls_locks := (ls_locks s)(n \<mapsto> k\<lparr>lk_waitQueue := rest, lk_ownerID := we_ownerID w, lk_leaseID := we_leaseID w,
          lk_fencingToken := ls_globalFencingSeq s + 1, lk_acquiredAt := now\<rparr>)\<rparr>)) = Ret s2"
      "s' = s2\<lparr>ls_acquiredResults := (ls_acquiredResults s2)(we_requestID w \<mapsto>
      \<lparr>aq_result = (lock_result0 CmdWait n)\<lparr>kr_ownerID := we_ownerID w, kr_fencingToken := ls_globalFencingSeq s + 1,
        kr_acquired := True, kr_leaseID := we_leaseID w, kr_waitStatus := WaitStatusAcquired\<rparr>, aq_expiresAt = le_expiresAt nl\<rparr>)\<rparr>"
    using assms by (auto simp: hand_over_def Let_def bind_outcome_Ret_iff)
  have h: "hold_lock l m a = Ret b \<Longrightarrow> ls_locks b = ls_locks a \<and> ls_acquiredResults b = ls_acquiredResults a" for l m a b
    by (auto simp: hold_lock_def split: option.splits)
  show "ls_locks s' = (ls_locks s)(n \<mapsto> k\<lparr>lk_waitQueue := rest, lk_ownerID := we_ownerID w, lk_leaseID := we_leaseID w,
      lk_fencingToken := ls_globalFencingSeq s + 1, lk_acquiredAt := now\<rparr>)"
    using h [OF s2(1)] by (simp add: s2(2))
  show "ls_acquiredResults s' = (ls_acquiredResults s)(we_requestID w \<mapsto>
      \<lparr>aq_result = (lock_result0 CmdWait n)\<lparr>kr_ownerID := we_ownerID w, kr_fencingToken := ls_globalFencingSeq s + 1,
        kr_acquired := True, kr_leaseID := we_leaseID w, kr_waitStatus := WaitStatusAcquired\<rparr>, aq_expiresAt = le_expiresAt nl\<rparr>)"
    using h [OF s2(1)] by (simp add: s2(2))
qed

lemma release_hands_over:
  assumes "ls_locks s n = Some k" and "lk_waitQueue k = w # rest" and "ls_leases s (we_leaseID w) = Some nl"
    and "hand_over (gc_now ch) (lk_leaseID k) n k w rest nl s = Ret (s', note)"
  shows "apply_command ch i (cmd_release n (lk_ownerID k) (lk_fencingToken k) c) s = Some (Ret (result_of i (LockResp note), s'))"
  using assms by (simp add: apply_command_def cmd_release_def cmd_defs apply_release_def)

lemma wait_answered:
  assumes "ls_acquiredResults s q = Some a" and "q \<noteq> []" and "sint t < sint (aq_expiresAt a)"
  shows "apply_command ch i (cmd_wait n owner l t q c) s = Some (Ret (result_of i (LockResp (aq_result a)), cleanup_expired t s))"
proof -
  have "ls_acquiredResults (cleanup_expired t s) q = Some a" using assms(1,3) by (simp add: cleanup_expired_def)
  then show ?thesis using assms(2) by (simp add: apply_command_def cmd_wait_def cmd_defs apply_wait_def)
qed

lemma hand_over_total:
  assumes "store_ok s" and "unat (ls_globalFencingSeq s) + 1 < 2 ^ 64" and "ls_locks s n = Some k" and "ls_leases s (we_leaseID w) = Some nl"
  shows "\<exists>s' note. hand_over now (lk_leaseID k) n k w rest nl s = Ret (s', note)"
  using hand_over_keeps [OF assms] by blast

lemma release_frees:
  assumes "ls_locks s n = Some k" and "lk_waitQueue k = w # rest \<Longrightarrow> ls_leases s (we_leaseID w) = None" and "lk_waitQueue k = [] \<or> lk_waitQueue k = w # rest"
  shows "\<exists>s'. apply_command ch i (cmd_release n (lk_ownerID k) (lk_fencingToken k) c) s =
      Some (Ret (result_of i (LockResp (lock_result0 CmdRelease n)), s')) \<and> ls_locks s' n = None \<and>
      ls_acquiredResults s' = ls_acquiredResults s"
  using assms by (auto simp: apply_command_def cmd_release_def cmd_defs apply_release_def Let_def delete_lock_def)

text \<open>
  C25. What a release by the holder does with the queue. When nobody waits, the lock is gone. When the
  lease of the first waiter is no longer in the store, the lock is gone with its whole queue: the
  waiters behind it get neither the lock nor an answer, whatever their leases. When that lease is in
  the store, the first waiter owns the lock under the next fencing token, and the others stay queued
  in their order. If it had named its request, a wait that is applied next under that request
  id, with a timestamp before the end its lease had at the release, is told that the lock is its own,
  with that token, and changes nothing of the lock.
\<close>

theorem released_lock_reaches_waiter:
  assumes "store_ok s" and "unat (ls_globalFencingSeq s) + 1 < 2 ^ 64" and "ls_locks s n = Some k"
  shows "\<exists>res s'. apply_command ch i (cmd_release n (lk_ownerID k) (lk_fencingToken k) c) s = Some (Ret (result_of i (LockResp res), s')) \<and>
    (case lk_waitQueue k of
       [] \<Rightarrow> ls_locks s' n = None
     | w # rest \<Rightarrow>
         (case ls_leases s (we_leaseID w) of
            None \<Rightarrow> ls_locks s' n = None \<and> ls_acquiredResults s' = ls_acquiredResults s
          | Some nl \<Rightarrow>
              (\<exists>k'. ls_locks s' n = Some k' \<and> lk_ownerID k' = we_ownerID w \<and> lk_leaseID k' = we_leaseID w \<and>
                 lk_fencingToken k' = ls_globalFencingSeq s + 1 \<and> lk_waitQueue k' = rest \<and>
                 (we_requestID w \<noteq> [] \<and> sint t < sint (le_expiresAt nl) \<longrightarrow>
                   (\<exists>s'' r. apply_command ch' j (cmd_wait n owner l t (we_requestID w) c') s' = Some (Ret (result_of j (LockResp r), s'')) \<and>
                      kr_acquired r \<and> kr_ownerID r = we_ownerID w \<and> kr_lockName r = n \<and> kr_leaseID r = we_leaseID w \<and>
                      kr_fencingToken r = lk_fencingToken k' \<and> ls_locks s'' n = Some k')))))"
proof (cases "lk_waitQueue k")
  case Nil
  then show ?thesis using release_frees [OF assms(3), of undefined "[]" ch i c] by auto
next
  case (Cons w rest)
  show ?thesis
  proof (cases "ls_leases s (we_leaseID w)")
    case None
    then show ?thesis using release_frees [OF assms(3), of w rest ch i c] Cons by auto
  next
    case (Some nl)
    obtain s' note1 where s': "hand_over (gc_now ch) (lk_leaseID k) n k w rest nl s = Ret (s', note1)"
      using hand_over_total [OF assms Some] by blast
    note release = release_hands_over [OF assms(3) Cons Some s', of i c]
    let ?k = "k\<lparr>lk_waitQueue := rest, lk_ownerID := we_ownerID w, lk_leaseID := we_leaseID w,
        lk_fencingToken := ls_globalFencingSeq s + 1, lk_acquiredAt := gc_now ch\<rparr>"
    let ?r = "(lock_result0 CmdWait n)\<lparr>kr_ownerID := we_ownerID w, kr_fencingToken := ls_globalFencingSeq s + 1,
        kr_acquired := True, kr_leaseID := we_leaseID w, kr_waitStatus := WaitStatusAcquired\<rparr>"
    have lock: "ls_locks s' n = Some ?k" using hand_over_result(1) [OF s'] by simp
    have stored: "ls_acquiredResults s' (we_requestID w) = Some \<lparr>aq_result = ?r, aq_expiresAt = le_expiresAt nl\<rparr>"
      using hand_over_result(2) [OF s'] by simp
    have "apply_command ch' j (cmd_wait n owner l t (we_requestID w) c') s' =
        Some (Ret (result_of j (LockResp ?r), cleanup_expired t s'))"
      if "we_requestID w \<noteq> []" "sint t < sint (le_expiresAt nl)"
      using wait_answered [OF stored that(1), of t] that(2) by simp
    then have "we_requestID w \<noteq> [] \<and> sint t < sint (le_expiresAt nl) \<longrightarrow>
        (\<exists>s'' r. apply_command ch' j (cmd_wait n owner l t (we_requestID w) c') s' = Some (Ret (result_of j (LockResp r), s'')) \<and>
           kr_acquired r \<and> kr_ownerID r = we_ownerID w \<and> kr_lockName r = n \<and> kr_leaseID r = we_leaseID w \<and>
           kr_fencingToken r = lk_fencingToken ?k \<and> ls_locks s'' n = Some ?k)"
      using lock by (auto simp: lock_result0_def cleanup_expired_def)
    then show ?thesis using release lock Cons Some by auto
  qed
qed

theorem released_lock_reaches_waiter_witness:
  "\<exists>res s' s'' r. apply_command no_choice 8 (cmd_release [97] [1] 1 zero_command) queue_store = Some (Ret (res, s')) \<and>
     apply_command no_choice 9 (cmd_wait [97] [3] 3 5 [7] zero_command) s' = Some (Ret (result_of 9 (LockResp r), s'')) \<and>
     kr_acquired r \<and> kr_fencingToken r = 3"
proof -
  obtain rs where "apply_all (held_log @ queue_log) new_lock_store = Some (Ret (rs, queue_store))"
    using apply_all_append held_log_run queue_log_run by blast
  moreover have "log_weight (held_log @ queue_log) < 2 ^ 64" by (simp add: held_log_def queue_log_def no_choice_def)
  ultimately have ok: "store_ok queue_store"
    using apply_all_keeps [OF new_store_ok, of "held_log @ queue_log"] by (simp add: kept_def new_lock_store_def)
  obtain k where k: "ls_locks queue_store [97] = Some k" "lk_ownerID k = [1]" "lk_fencingToken k = 1"
      "lk_waitQueue k = [\<lparr>we_ownerID = [3], we_requestID = [7], we_leaseID = 3, we_timestamp = 0\<rparr>]"
    by (simp add: queue_store_def)
  obtain nl where nl: "ls_leases queue_store 3 = Some nl" "le_expiresAt nl = 60 * second_ns"
    by (simp add: queue_store_def held_store_def)
  have g: "ls_globalFencingSeq queue_store = 2" by (simp add: queue_store_def held_store_def)
  show ?thesis
    using released_lock_reaches_waiter [OF ok _ k(1), of no_choice 8 zero_command 5 no_choice 9 "[3]" 3 zero_command] nl k g
    by (auto simp: second_ns_def)
qed

section \<open>Waiters that are forgotten\<close>

text \<open>An owner that acquires its own lock again also empties the queue.\<close>

lemma reacquire_forgets_waiters:
  assumes "store_ok s" and "unat (ls_globalFencingSeq s) + 1 < 2 ^ 64" and "ls_locks s n = Some k"
    and "ls_leases s (lk_leaseID k) = Some le"
  shows "\<exists>res s' k'. apply_command ch i (cmd_acquire n (lk_ownerID k) (lk_leaseID k) t c) s = Some (Ret (res, s')) \<and>
      ls_locks s' n = Some k' \<and> lk_waitQueue k' = [] \<and> ls_acquiredResults s' = ls_acquiredResults s"
proof -
  define cmd where "cmd = cmd_acquire n (lk_ownerID k) (lk_leaseID k) t c"
  have cmd: "lc_leaseID cmd = lk_leaseID k" "lc_lockName cmd = n" "lc_ownerID cmd = lk_ownerID k" "lc_command cmd = CmdAcquire"
    by (simp_all add: cmd_def cmd_acquire_def)
  have live: "ls_leases s (lc_leaseID cmd) = Some le" using assms(4) cmd(1) by simp
  obtain s' where s': "acquire_lock cmd n [] (drop_lock (lk_leaseID k) n s) = Ret s'"
    using acquire_lock_keeps [OF assms(1,2) live, of "lk_leaseID k" "[]"] only_holder [OF assms(1,3)] unfolding cmd(2) by blast
  then obtain k' where "ls_locks s' n = Some k'" "lk_waitQueue k' = []" "ls_acquiredResults s' = ls_acquiredResults s"
    using cmd by (auto simp: acquire_lock_def hold_lock_def Let_def split: option.splits)
  moreover have "apply_acquire i cmd s = Ret (result_of i (LockResp (acquired_response CmdAcquire cmd s')), s')"
    using assms(3,4) cmd s' by (simp add: apply_acquire_def Let_def)
  ultimately show ?thesis unfolding cmd_def [symmetric] by (simp add: apply_command_def cmd(4))
qed

section \<open>Queries, hash, snapshots and results\<close>

definition lock_query :: "bytes \<Rightarrow> lock_store \<Rightarrow> lock_result" where
  "lock_query lockName s =
     (case ls_locks s lockName of
        None \<Rightarrow> lock_result0 0 lockName
      | Some lock \<Rightarrow>
          (case ls_leases s (lk_leaseID lock) of
             None \<Rightarrow> lock_result0 0 lockName
           | Some lease \<Rightarrow> (lock_result0 0 lockName)\<lparr>kr_ownerID := lk_ownerID lock, kr_fencingToken := lk_fencingToken lock,
               kr_acquired := True, kr_leaseID := lk_leaseID lock, kr_queuePosition := length (lk_waitQueue lock)\<rparr>))"

text \<open>The second argument is the order in which \<^verbatim>\<open>range\<close> visits the locks of the lease.\<close>

definition query_lease :: "u64 \<Rightarrow> bytes list \<Rightarrow> lock_store \<Rightarrow> (bytes, lease_result) outcome option" where
  "query_lease leaseID order s =
     (case ls_leases s leaseID of
        None \<Rightarrow> Some (Fail ErrLeaseNotFound)
      | Some lease \<Rightarrow>
          if distinct order \<and> set order = held_by leaseID s
          then Some (Ret \<lparr>er_command = 0, er_leaseID = le_id lease, er_ttl = le_ttl lease, er_expiresAt = le_expiresAt lease,
            er_releasedLocks = [], er_locks = order\<rparr>)
          else None)"

definition has_expired_leases :: "i64 \<Rightarrow> lock_store \<Rightarrow> bool" where
  "has_expired_leases now s \<longleftrightarrow> (\<exists>l. expired_lease now s l)"

text \<open>A query for a lease names exactly the locks whose holder has the lease.\<close>

lemma query_lease_locks:
  assumes "store_ok s" and "query_lease l order s = Some (Ret r)"
  shows "n \<in> set (er_locks r) \<longleftrightarrow> (\<exists>k. ls_locks s n = Some k \<and> lk_leaseID k = l)"
proof -
  obtain le where l: "ls_leases s l = Some le" using assms(2) by (cases "ls_leases s l") (simp_all add: query_lease_def)
  then have o: "set order = held_by l s" "er_locks r = order"
    using assms(2) unfolding query_lease_def l option.simps by (simp_all split: if_splits) auto
  then have le: "set (er_locks r) = held_by l s" by simp
  have "n \<in> held_by l s" if "ls_locks s n = Some k" "lk_leaseID k = l" for k
    using store_invD(3) [OF assms(1) that(1)] l unfolding lock_placed_def that(2) by blast
  moreover have "\<exists>k. ls_locks s n = Some k \<and> lk_leaseID k = l" if h: "n \<in> held_by l s"
  proof -
    obtain k where "ls_locks s n = Some k" using store_invD(5) [OF assms(1) h] by blast
    then show ?thesis using store_invD(4) [OF assms(1) h] by blast
  qed
  ultimately show ?thesis using le by blast
qed

text \<open>\<^verbatim>\<open>Hash\<close> along the order in which \<^verbatim>\<open>range\<close> visits the locks.\<close>

fun hash_loop :: "bytes list \<Rightarrow> lock_store \<Rightarrow> u32 \<Rightarrow> u32" where
  "hash_loop [] s h = h"
| "hash_loop (n # ns) s h =
     (case ls_locks s n of
        None \<Rightarrow> hash_loop ns s h
      | Some lock \<Rightarrow> hash_loop ns s
          (crc32_update (crc32_update (crc32_update h n) (lk_ownerID lock)) (put_uint64 (lk_fencingToken lock))))"

definition lock_hash :: "bytes list \<Rightarrow> lock_store \<Rightarrow> u32 option" where
  "lock_hash order s = (if distinct order \<and> set order = dom (ls_locks s) then Some (hash_loop order s 0) else None)"

text \<open>The hash of one and the same store depends on the order in which its map is visited.\<close>

lemma crc32_byte_bits:
  "crc32_byte c b = (let c0 = c XOR ucast b; c1 = crc32_bit c0; c2 = crc32_bit c1; c3 = crc32_bit c2; c4 = crc32_bit c3;
     c5 = crc32_bit c4; c6 = crc32_bit c5; c7 = crc32_bit c6 in crc32_bit c7)"
  by (simp add: crc32_byte_def eval_nat_numeral Let_def)

lemma crc_ab: "foldl crc32_byte 0xFFFFFFFF [97, 1, 1, 0, 0, 0, 0, 0, 0, 0, 98, 2, 2, 0, 0, 0, 0, 0, 0, 0] = 350153220"
  by (simp add: crc32_byte_bits crc32_bit_def crc32c_poly_def)

lemma crc_ba: "foldl crc32_byte 0xFFFFFFFF [98, 2, 2, 0, 0, 0, 0, 0, 0, 0, 97, 1, 1, 0, 0, 0, 0, 0, 0, 0] = 150808120"
  by (simp add: crc32_byte_bits crc32_bit_def crc32c_poly_def)

lemma hash_loop_bytes:
  assumes "ls_locks s n = Some k" and "ls_locks s m = Some j"
  shows "hash_loop [n, m] s 0 = crc32_update 0 (n @ lk_ownerID k @ put_uint64 (lk_fencingToken k) @
    m @ lk_ownerID j @ put_uint64 (lk_fencingToken j))"
  using assms by (simp add: crc32_update_append)

lemma hash_depends_on_order:
  "\<exists>h h'. lock_hash [[97], [98]] held_store = Some h \<and> lock_hash [[98], [97]] held_store = Some h' \<and> h \<noteq> h'"
proof -
  have d: "dom (ls_locks held_store) = {[97], [98]}" by (auto simp: held_store_def)
  obtain k j where l: "ls_locks held_store [97] = Some k" "ls_locks held_store [98] = Some j" "lk_ownerID k = [1]" "lk_ownerID j = [2]"
      "lk_fencingToken k = 1" "lk_fencingToken j = 2"
    by (simp add: held_store_def)
  have p: "put_uint64 1 = [1, 0, 0, 0, 0, 0, 0, 0]" "put_uint64 2 = [2, 0, 0, 0, 0, 0, 0, 0]" by (simp_all add: put_uint64_def)
  have m: "(NOT 0 :: u32) = 0xFFFFFFFF" by simp
  have "hash_loop [[97], [98]] held_store 0 = NOT 350153220"
    unfolding hash_loop_bytes [OF l(1,2)] l(3-6) p append.simps crc32_update_def m crc_ab by (rule refl)
  moreover have "hash_loop [[98], [97]] held_store 0 = NOT 150808120"
    unfolding hash_loop_bytes [OF l(2,1)] l(3-6) p append.simps crc32_update_def m crc_ba by (rule refl)
  moreover have "NOT (350153220 :: u32) \<noteq> NOT 150808120" by simp
  ultimately show ?thesis using d by (auto simp: lock_hash_def)
qed

text \<open>
  The data of a snapshot and \<^verbatim>\<open>encoding/json\<close> on it. A nil map is \<^const>\<open>None\<close>. A slice longer than the
  address space cannot be made.
\<close>

record lock_snapshot =
  sd_leaseSeq :: u64
  sd_globalFencingSeq :: u64
  sd_leases :: "(u64 \<rightharpoonup> lease) option"
  sd_locks :: "(bytes \<rightharpoonup> lock) option"
  sd_locksByLease :: "(u64 \<rightharpoonup> bytes set) option"
  sd_acquiredResults :: "(bytes \<rightharpoonup> acquired_result) option"

record 'a json_codec =
  js_marshal :: "'a \<Rightarrow> (bytes, bytes) outcome"
  js_unmarshal :: "bytes \<Rightarrow> (bytes, 'a) outcome"

datatype store_error = StoreIo io_error | StoreText bytes

definition json_result :: "(bytes, 'a) outcome \<Rightarrow> (store_error, 'a) outcome" where
  "json_result r = (case r of Ret x \<Rightarrow> Ret x | Fail e \<Rightarrow> Fail (StoreText e) | Panic \<Rightarrow> Panic)"

definition read_store :: "nat \<Rightarrow> bytes \<Rightarrow> (store_error, bytes \<times> bytes) outcome" where
  "read_store n r =
     (if 2 ^ 48 < n then Panic
      else case read_full n r of Ret x \<Rightarrow> Ret x | Fail e \<Rightarrow> Fail (StoreIo e) | Panic \<Rightarrow> Panic)"

definition lock_save_snapshot :: "lock_snapshot json_codec \<Rightarrow> lock_store \<Rightarrow> (store_error, bytes) outcome" where
  "lock_save_snapshot js s =
     bind_outcome (json_result (js_marshal js \<lparr>sd_leaseSeq = ls_leaseSeq s, sd_globalFencingSeq = ls_globalFencingSeq s,
         sd_leases = Some (ls_leases s), sd_locks = Some (ls_locks s), sd_locksByLease = Some (ls_locksByLease s),
         sd_acquiredResults = Some (ls_acquiredResults s)\<rparr>)) (\<lambda>jsonData.
       Ret (put_uint64 (of_nat (length jsonData)) @ jsonData))"

definition lock_restore_snapshot :: "lock_snapshot json_codec \<Rightarrow> bytes \<Rightarrow> (store_error, lock_store) outcome" where
  "lock_restore_snapshot js r =
     bind_outcome (read_store 8 r) (\<lambda>(buf, r1).
     bind_outcome (read_store (unat (get_uint64 buf)) r1) (\<lambda>(jsonData, r2).
     bind_outcome (json_result (js_unmarshal js jsonData)) (\<lambda>data.
       Ret \<lparr>ls_leases = (case sd_leases data of None \<Rightarrow> Map.empty | Some m \<Rightarrow> m),
            ls_locks = (case sd_locks data of None \<Rightarrow> Map.empty | Some m \<Rightarrow> m),
            ls_locksByLease = (case sd_locksByLease data of None \<Rightarrow> Map.empty | Some m \<Rightarrow> m),
            ls_acquiredResults = (case sd_acquiredResults data of None \<Rightarrow> Map.empty | Some m \<Rightarrow> m),
            ls_leaseSeq = sd_leaseSeq data, ls_globalFencingSeq = sd_globalFencingSeq data\<rparr>)))"

text \<open>
  \<^verbatim>\<open>omitempty\<close> leaves an empty map of answers out, so it comes back as nil; every other map comes back
  as it was.
\<close>

definition json_keeps :: "lock_snapshot json_codec \<Rightarrow> lock_snapshot \<Rightarrow> bytes \<Rightarrow> bool" where
  "json_keeps js d bs \<longleftrightarrow> js_marshal js d = Ret bs \<and>
     js_unmarshal js bs = Ret (if sd_acquiredResults d = Some Map.empty then d\<lparr>sd_acquiredResults := None\<rparr> else d)"

lemma lock_snapshot_round_trip:
  assumes "json_keeps js \<lparr>sd_leaseSeq = ls_leaseSeq s, sd_globalFencingSeq = ls_globalFencingSeq s,
      sd_leases = Some (ls_leases s), sd_locks = Some (ls_locks s), sd_locksByLease = Some (ls_locksByLease s),
      sd_acquiredResults = Some (ls_acquiredResults s)\<rparr> bs" and "length bs \<le> 2 ^ 48"
  shows "\<exists>w. lock_save_snapshot js s = Ret w \<and> lock_restore_snapshot js (w @ rest) = Ret s"
proof -
  have u: "unat (of_nat (length bs) :: u64) = length bs" using assms(2) by (simp add: unsigned_of_nat take_bit_nat_eq_self)
  have "lock_save_snapshot js s = Ret (put_uint64 (of_nat (length bs)) @ bs)"
    using assms(1) by (simp add: lock_save_snapshot_def json_keeps_def json_result_def)
  moreover have "lock_restore_snapshot js (put_uint64 (of_nat (length bs)) @ bs @ rest) = Ret s"
    using assms by (simp add: lock_restore_snapshot_def read_store_def u json_keeps_def json_result_def)
  ultimately show ?thesis by simp
qed

text \<open>\<^verbatim>\<open>ResultSerializer\<close>: the kind of the result is in the three upper bits of the length.\<close>

definition kind_bit :: "nat \<Rightarrow> u64" where "kind_bit k = push_bit k 1"
definition LockResultType :: u64 where "LockResultType = kind_bit 63"
definition LeaseResultType :: u64 where "LeaseResultType = kind_bit 62"
definition TickResultType :: u64 where "TickResultType = kind_bit 61"
definition ClearResultType :: u64 where "ClearResultType = NOT (LockResultType OR LeaseResultType OR TickResultType)"

record result_json =
  rj_lock :: "lock_result json_codec"
  rj_lease :: "lease_result json_codec"
  rj_tick :: "tick_result json_codec"

definition result_frame :: "u64 \<Rightarrow> bytes \<Rightarrow> bytes" where
  "result_frame resType data = put_uint64 (resType OR of_nat (length data)) @ data"

definition result_serialize :: "result_json \<Rightarrow> lock_response \<Rightarrow> (store_error, bytes) outcome" where
  "result_serialize js res =
     (case res of
        LockResp r \<Rightarrow> bind_outcome (json_result (js_marshal (rj_lock js) r)) (\<lambda>data. Ret (result_frame LockResultType data))
      | LeaseResp r \<Rightarrow> bind_outcome (json_result (js_marshal (rj_lease js) r)) (\<lambda>data. Ret (result_frame LeaseResultType data))
      | TickResp r \<Rightarrow> bind_outcome (json_result (js_marshal (rj_tick js) r)) (\<lambda>data. Ret (result_frame TickResultType data)))"

definition result_deserialize :: "result_json \<Rightarrow> bytes \<Rightarrow> (store_error, lock_response \<times> bytes) outcome" where
  "result_deserialize js r =
     bind_outcome (read_store 8 r) (\<lambda>(buf, r1).
       let header = get_uint64 buf; dataLen = unat (header AND ClearResultType);
           body = (\<lambda>decode. bind_outcome (read_store dataLen r1) (\<lambda>(data, r2).
             bind_outcome (json_result (decode data)) (\<lambda>res. Ret (res, r2))))
       in if header AND LockResultType = LockResultType
          then body (\<lambda>data. bind_outcome (js_unmarshal (rj_lock js) data) (\<lambda>x. Ret (LockResp x)))
          else if header AND LeaseResultType = LeaseResultType
          then body (\<lambda>data. bind_outcome (js_unmarshal (rj_lease js) data) (\<lambda>x. Ret (LeaseResp x)))
          else if header AND TickResultType = TickResultType
          then body (\<lambda>data. bind_outcome (js_unmarshal (rj_tick js) data) (\<lambda>x. Ret (TickResp x)))
          else Fail (StoreText (str ''unknown response type'')))"

lemma bit_kind: "bit (kind_bit k) n \<longleftrightarrow> n = k \<and> n < 64"
  unfolding kind_bit_def bit_push_bit_iff bit_1_iff by (auto dest: bit_imp_le_length)

lemma kind_bits:
  fixes x :: u64
  assumes "take_bit 61 x = x" and "61 \<le> k" "k < 64"
  shows "(kind_bit k OR x) AND ClearResultType = x"
    and "61 \<le> j \<Longrightarrow> j < 64 \<Longrightarrow> (kind_bit k OR x) AND kind_bit j = (if j = k then kind_bit j else 0)"
proof -
  have low: "bit x n \<Longrightarrow> n < 61" for n using assms(1) by (metis bit_take_bit_iff)
  show "(kind_bit k OR x) AND ClearResultType = x"
  proof (rule bit_word_eqI)
    fix n assume "n < LENGTH(64)"
    then have n: "n < 64" by simp
    have clear: "bit ClearResultType n \<longleftrightarrow> n < 61" using n
      unfolding ClearResultType_def LockResultType_def LeaseResultType_def TickResultType_def
      by (auto simp: bit_kind bit_or_iff bit_and_iff bit_not_iff)
    show "bit ((kind_bit k OR x) AND ClearResultType) n = bit x n"
      using clear low [of n] assms(2,3) by (auto simp: bit_and_iff bit_or_iff bit_kind)
  qed
  show "(kind_bit k OR x) AND kind_bit j = (if j = k then kind_bit j else 0)" if "61 \<le> j" "j < 64"
  proof (rule bit_word_eqI)
    fix n assume "n < LENGTH(64)"
    then show "bit ((kind_bit k OR x) AND kind_bit j) n = bit (if j = k then kind_bit j else (0 :: u64)) n"
      using low [of n] that assms(2,3) by (auto simp: bit_and_iff bit_or_iff bit_kind)
  qed
qed

lemma push_one_nonzero: "k < 64 \<Longrightarrow> kind_bit k \<noteq> 0"
proof
  assume k: "k < 64" and "kind_bit k = 0"
  then have "\<not> bit (kind_bit k) k" by simp
  with k show False by (simp add: bit_kind)
qed

lemma frame_header:
  assumes "length data < 2 ^ 61" and "61 \<le> k" and "k < 64"
  shows "unat ((kind_bit k OR (of_nat (length data) :: u64)) AND ClearResultType) = length data"
    and "61 \<le> j \<Longrightarrow> j < 64 \<Longrightarrow> (kind_bit k OR (of_nat (length data) :: u64)) AND kind_bit j = kind_bit j \<longleftrightarrow> j = k"
proof -
  have u: "unat (of_nat (length data) :: u64) = length data" using assms(1) by (simp add: unsigned_of_nat take_bit_nat_eq_self)
  have "take_bit 61 (of_nat (length data) :: u64) = of_nat (length data)"
    using assms(1) by (metis take_bit_nat_eq_self take_bit_of_nat)
  note kb = kind_bits [OF this assms(2,3)]
  show "unat ((kind_bit k OR (of_nat (length data) :: u64)) AND ClearResultType) = length data" using kb(1) u by simp
  show "61 \<le> j \<Longrightarrow> j < 64 \<Longrightarrow> (kind_bit k OR (of_nat (length data) :: u64)) AND kind_bit j = kind_bit j \<longleftrightarrow> j = k"
    using kb(2) [of j] push_one_nonzero [of j] by auto
qed

definition response_json :: "result_json \<Rightarrow> lock_response \<Rightarrow> bytes \<Rightarrow> bool" where
  "response_json js res bs \<longleftrightarrow>
     (case res of
        LockResp r \<Rightarrow> js_marshal (rj_lock js) r = Ret bs \<and> js_unmarshal (rj_lock js) bs = Ret r
      | LeaseResp r \<Rightarrow> js_marshal (rj_lease js) r = Ret bs \<and> js_unmarshal (rj_lease js) bs = Ret r
      | TickResp r \<Rightarrow> js_marshal (rj_tick js) r = Ret bs \<and> js_unmarshal (rj_tick js) bs = Ret r)"

lemma result_round_trip:
  assumes "response_json js res bs" and "length bs \<le> 2 ^ 48"
  shows "\<exists>w. result_serialize js res = Ret w \<and> result_deserialize js (w @ rest) = Ret (res, rest)"
proof -
  have "length bs < 2 ^ 61" using assms(2) by simp
  note hd = frame_header [OF this]
  note kinds = LockResultType_def LeaseResultType_def TickResultType_def
  show ?thesis
  proof (cases res)
    case (LockResp r)
    then show ?thesis using assms hd(1) [of 63] hd(2) [of 63 63]
      by (simp add: result_serialize_def result_deserialize_def response_json_def json_result_def result_frame_def read_store_def
          kinds Let_def)
  next
    case (LeaseResp r)
    then show ?thesis using assms hd(1) [of 62] hd(2) [of 62 63] hd(2) [of 62 62]
      by (simp add: result_serialize_def result_deserialize_def response_json_def json_result_def result_frame_def read_store_def
          kinds Let_def)
  next
    case (TickResp r)
    then show ?thesis using assms hd(1) [of 61] hd(2) [of 61 63] hd(2) [of 61 62] hd(2) [of 61 61]
      by (simp add: result_serialize_def result_deserialize_def response_json_def json_result_def result_frame_def read_store_def
          kinds Let_def)
  qed
qed

end
