(* ===== verification/Raft_Msg_Pb.thy ===== *)
theory Raft_Msg_Pb
  imports Request_Pb
begin

unbundle bit_operations_syntax

text \<open>
  The messages of \<^verbatim>\<open>ibabuza/babuzapb/raftMsg.pb.go\<close>, which the nodes exchange: batches of raft messages,
  the heartbeats of several groups, the parts of a snapshot, and the requests for the members and for
  publishing service addresses. A raft message is a message of etcd; its codec is a parameter, as the
  one of the raft snapshot.
\<close>

section \<open>Messages inside messages\<close>

definition nested_bytes :: "byte \<Rightarrow> ('x \<Rightarrow> nat) \<Rightarrow> ('x \<Rightarrow> bytes) \<Rightarrow> 'x \<Rightarrow> bytes" where
  "nested_bytes t sz enc x = t # encode_varint (of_nat (sz x)) @ enc x"

definition nested_list :: "byte \<Rightarrow> ('x \<Rightarrow> nat) \<Rightarrow> ('x \<Rightarrow> bytes) \<Rightarrow> 'x list \<Rightarrow> bytes" where
  "nested_list t sz enc xs = concat (map (nested_bytes t sz enc) xs)"

definition nested_list_size :: "('x \<Rightarrow> nat) \<Rightarrow> 'x list \<Rightarrow> nat" where
  "nested_list_size sz xs = sum_list (map (\<lambda>x. bytes_field_size (sz x)) xs)"

text \<open>
  What a message needs from the codec of a message inside it: the announced size is right and
  decoding into the value it starts from gives the message back.
\<close>

locale nested_codec =
  fixes enc :: "'x \<Rightarrow> bytes" and sz :: "'x \<Rightarrow> nat" and dec :: "bytes \<Rightarrow> (pb_error, 'x) outcome" and good :: "'x \<Rightarrow> bool"
  assumes nested_size: "good x \<Longrightarrow> length (enc x) = sz x"
    and nested_dec: "good x \<Longrightarrow> length (enc x) < 2 ^ 63 \<Longrightarrow> dec (enc x) = Ret x"
begin

lemma one_length: "good x \<Longrightarrow> length (nested_bytes t sz enc x) = bytes_field_size (sz x)"
  by (simp add: nested_bytes_def bytes_field_size_def length_encode_varint nested_size)

lemma many_length: "list_all good xs \<Longrightarrow> length (nested_list t sz enc xs) = nested_list_size sz xs"
  by (induction xs) (simp_all add: nested_list_def nested_list_size_def one_length)

lemma one_reads:
  assumes "tag_ok t f 2" and "sw f = Delimited (\<lambda>b m. bind_outcome (d m b) (\<lambda>x. Ret (g x m)))" and "good x" and "d m = dec"
  shows "fields_to sw (nested_bytes t sz enc x) m (g x m)"
proof -
  have "fields_to sw (t # encode_varint (of_nat (length (enc x))) @ enc x) m (g x m)"
    by (rule reads_delimited [where sw = sw and f = f, OF assms(1,2)]) (simp add: assms(4) nested_dec [OF assms(3)])
  then show ?thesis by (simp add: nested_bytes_def nested_size [OF assms(3)])
qed

lemma many_reads:
  assumes "tag_ok t f 2" and "sw f = Delimited (\<lambda>b m. bind_outcome (dec b) (\<lambda>x. Ret (g x m)))" and "list_all good xs"
  shows "fields_to sw (nested_list t sz enc xs) m (fold g xs m)"
  unfolding nested_list_def
proof (rule reads_entries)
  fix x m assume "x \<in> set xs"
  then have "good x" using assms(3) by (simp add: list_all_iff)
  then show "fields_to sw (nested_bytes t sz enc x) m (g x m)" by (rule one_reads [where sw = sw and f = f and d = "\<lambda>_. dec" and g = g, OF assms(1,2)]) simp
qed

end

sublocale proto_codec \<subseteq> nested: nested_codec enc sz "pb_unmarshal sw zero" ok
  by unfold_locales (simp_all add: size_law unmarshal_enc)

definition codec_ok :: "'x snapshot_codec \<Rightarrow> 'x \<Rightarrow> 'x \<Rightarrow> bool" where
  "codec_ok c z x \<longleftrightarrow> length (sc_marshal c x) = sc_size c x \<and> sc_unmarshal c z (sc_marshal c x) = Ret x"

interpretation etcd: nested_codec "sc_marshal c" "sc_size c" "sc_unmarshal c z" "codec_ok c z" for c z
  by unfold_locales (simp_all add: codec_ok_def)

interpretation snapmeta: nested_codec "metadata_marshal_to sc" "metadata_size sc"
  "metadata_unmarshal sc \<lparr>sm_version = 0, sm_snapshot = zs, sm_files = []\<rparr>"
  "\<lambda>m. map_ok (sm_files m) \<and> codec_ok sc zs (sm_snapshot m)" for sc :: "'s snapshot_codec" and zs
proof unfold_locales
  fix m :: "'s snapshot_metadata" assume m: "map_ok (sm_files m) \<and> codec_ok sc zs (sm_snapshot m)"
  show "length (metadata_marshal_to sc m) = metadata_size sc m" using m metadata_length [of sc m] by (simp add: codec_ok_def)
  show "metadata_unmarshal sc \<lparr>sm_version = 0, sm_snapshot = zs, sm_files = []\<rparr> (metadata_marshal_to sc m) = Ret m"
    if "length (metadata_marshal_to sc m) < 2 ^ 63"
    using unmarshal_fields [OF metadata_fields that, of zs] m by (simp add: codec_ok_def metadata_unmarshal_def)
qed

lemma more_tags:
  "tag_ok 0x30 6 0" "tag_ok 0x40 8 0" "tag_ok 0x4a 9 2" "tag_ok 0x52 10 2" "tag_ok 0x5a 11 2"
  by code_simp+

lemma ucast_u32_u64 [simp]: "ucast (ucast (x :: u32) :: u64) = x"
  by (rule bit_word_eqI) (auto simp: bit_simps)

lemma ucast_u32_eq_0 [simp]: "(ucast (x :: u32) :: u64) = 0 \<longleftrightarrow> x = 0"
  by (metis ucast_u32_u64 ucast_0)

section \<open>MultiRaftHeartbeatMessage\<close>

record heartbeat_message =
  hb_groupID :: u64
  hb_fromPeerID :: u64
  hb_toPeerID :: u64
  hb_term :: u64
  hb_commit :: u64
  hb_context :: bytes

definition zero_heartbeat :: "heartbeat_message" where
  "zero_heartbeat = \<lparr>hb_groupID = 0, hb_fromPeerID = 0, hb_toPeerID = 0, hb_term = 0, hb_commit = 0, hb_context = []\<rparr>"

definition heartbeat_marshal_to :: "heartbeat_message \<Rightarrow> bytes" where
  "heartbeat_marshal_to m =
     varint_field 0x08 (hb_groupID m) @
     varint_field 0x10 (hb_fromPeerID m) @
     varint_field 0x18 (hb_toPeerID m) @
     varint_field 0x20 (hb_term m) @
     varint_field 0x28 (hb_commit m) @
     opt_bytes_field 0x32 (hb_context m)"

definition heartbeat_size :: "heartbeat_message \<Rightarrow> nat" where
  "heartbeat_size m =
     varint_field_size (hb_groupID m) +
     varint_field_size (hb_fromPeerID m) +
     varint_field_size (hb_toPeerID m) +
     varint_field_size (hb_term m) +
     varint_field_size (hb_commit m) +
     opt_bytes_field_size (hb_context m)"

definition heartbeat_switch :: "u32 \<Rightarrow> heartbeat_message field" where
  "heartbeat_switch f =
     (if f = 1 then Varint (\<lambda>v m. m\<lparr>hb_groupID := v\<rparr>)
      else if f = 2 then Varint (\<lambda>v m. m\<lparr>hb_fromPeerID := v\<rparr>)
      else if f = 3 then Varint (\<lambda>v m. m\<lparr>hb_toPeerID := v\<rparr>)
      else if f = 4 then Varint (\<lambda>v m. m\<lparr>hb_term := v\<rparr>)
      else if f = 5 then Varint (\<lambda>v m. m\<lparr>hb_commit := v\<rparr>)
      else if f = 6 then Delimited (\<lambda>b m. Ret (m\<lparr>hb_context := b\<rparr>))
      else Unknown)"

definition heartbeat_unmarshal :: "heartbeat_message \<Rightarrow> bytes \<Rightarrow> (pb_error, heartbeat_message) outcome" where
  "heartbeat_unmarshal = pb_unmarshal heartbeat_switch"

lemma heartbeat_fields: "fields_to heartbeat_switch (heartbeat_marshal_to m) zero_heartbeat m"
  unfolding heartbeat_marshal_to_def
  by (rule fields_to_eq, (rule reads_fields more_tags | simp add: heartbeat_switch_def; fail)+)
     (cases m, simp add: zero_heartbeat_def)

interpretation heartbeat: proto_message heartbeat_switch heartbeat_marshal_to heartbeat_size zero_heartbeat "\<lambda>_. True"
  by unfold_locales (simp add: heartbeat_size_def heartbeat_marshal_to_def, rule heartbeat_fields, simp add: no_panic_def heartbeat_switch_def)

section \<open>SnapshotChunkMessage\<close>

record chunk_message =
  ck_fileType :: u32
  ck_fileTag :: bytes
  ck_id :: u64
  ck_data :: bytes
  ck_continueCrc32 :: u32
  ck_lastChunk :: bool

definition zero_chunk :: "chunk_message" where
  "zero_chunk = \<lparr>ck_fileType = 0, ck_fileTag = [], ck_id = 0, ck_data = [], ck_continueCrc32 = 0, ck_lastChunk = False\<rparr>"

definition chunk_marshal_to :: "chunk_message \<Rightarrow> bytes" where
  "chunk_marshal_to m =
     varint_field 0x08 (scast (ck_fileType m)) @
     opt_bytes_field 0x12 (ck_fileTag m) @
     varint_field 0x18 (ck_id m) @
     opt_bytes_field 0x22 (ck_data m) @
     varint_field 0x28 (ucast (ck_continueCrc32 m)) @
     bool_field 0x30 (ck_lastChunk m)"

definition chunk_size :: "chunk_message \<Rightarrow> nat" where
  "chunk_size m =
     varint_field_size (scast (ck_fileType m)) +
     opt_bytes_field_size (ck_fileTag m) +
     varint_field_size (ck_id m) +
     opt_bytes_field_size (ck_data m) +
     varint_field_size (ucast (ck_continueCrc32 m)) +
     bool_field_size (ck_lastChunk m)"

definition chunk_switch :: "u32 \<Rightarrow> chunk_message field" where
  "chunk_switch f =
     (if f = 1 then Varint (\<lambda>v m. m\<lparr>ck_fileType := ucast v\<rparr>)
      else if f = 2 then Delimited (\<lambda>b m. Ret (m\<lparr>ck_fileTag := b\<rparr>))
      else if f = 3 then Varint (\<lambda>v m. m\<lparr>ck_id := v\<rparr>)
      else if f = 4 then Delimited (\<lambda>b m. Ret (m\<lparr>ck_data := b\<rparr>))
      else if f = 5 then Varint (\<lambda>v m. m\<lparr>ck_continueCrc32 := ucast v\<rparr>)
      else if f = 6 then Varint (\<lambda>v m. m\<lparr>ck_lastChunk := (v \<noteq> 0)\<rparr>)
      else Unknown)"

definition chunk_unmarshal :: "chunk_message \<Rightarrow> bytes \<Rightarrow> (pb_error, chunk_message) outcome" where
  "chunk_unmarshal = pb_unmarshal chunk_switch"

lemma chunk_fields: "fields_to chunk_switch (chunk_marshal_to m) zero_chunk m"
  unfolding chunk_marshal_to_def
  by (rule fields_to_eq, (rule reads_fields more_tags | simp add: chunk_switch_def; fail)+)
     (cases m, simp add: zero_chunk_def)

interpretation chunk: proto_message chunk_switch chunk_marshal_to chunk_size zero_chunk "\<lambda>_. True"
  by unfold_locales (simp add: chunk_size_def chunk_marshal_to_def, rule chunk_fields, simp add: no_panic_def chunk_switch_def)

section \<open>SnapshotMessageResponse\<close>

record snapshot_response =
  sp_status :: u32
  sp_message :: bytes

definition zero_snap_resp :: "snapshot_response" where
  "zero_snap_resp = \<lparr>sp_status = 0, sp_message = []\<rparr>"

definition snap_resp_marshal_to :: "snapshot_response \<Rightarrow> bytes" where
  "snap_resp_marshal_to m =
     varint_field 0x08 (scast (sp_status m)) @
     opt_bytes_field 0x12 (sp_message m)"

definition snap_resp_size :: "snapshot_response \<Rightarrow> nat" where
  "snap_resp_size m =
     varint_field_size (scast (sp_status m)) +
     opt_bytes_field_size (sp_message m)"

definition snap_resp_switch :: "u32 \<Rightarrow> snapshot_response field" where
  "snap_resp_switch f =
     (if f = 1 then Varint (\<lambda>v m. m\<lparr>sp_status := ucast v\<rparr>)
      else if f = 2 then Delimited (\<lambda>b m. Ret (m\<lparr>sp_message := b\<rparr>))
      else Unknown)"

definition snap_resp_unmarshal :: "snapshot_response \<Rightarrow> bytes \<Rightarrow> (pb_error, snapshot_response) outcome" where
  "snap_resp_unmarshal = pb_unmarshal snap_resp_switch"

lemma snap_resp_fields: "fields_to snap_resp_switch (snap_resp_marshal_to m) zero_snap_resp m"
  unfolding snap_resp_marshal_to_def
  by (rule fields_to_eq, (rule reads_fields more_tags | simp add: snap_resp_switch_def; fail)+)
     (cases m, simp add: zero_snap_resp_def)

interpretation snap_resp: proto_message snap_resp_switch snap_resp_marshal_to snap_resp_size zero_snap_resp "\<lambda>_. True"
  by unfold_locales (simp add: snap_resp_size_def snap_resp_marshal_to_def, rule snap_resp_fields, simp add: no_panic_def snap_resp_switch_def)

section \<open>GetClusterPeersRequest\<close>

record peers_request =
  gp_clusterID :: u64
  gp_groupID :: u64
  gp_from :: u64
  gp_to :: u64

definition zero_peers_req :: "peers_request" where
  "zero_peers_req = \<lparr>gp_clusterID = 0, gp_groupID = 0, gp_from = 0, gp_to = 0\<rparr>"

definition peers_req_marshal_to :: "peers_request \<Rightarrow> bytes" where
  "peers_req_marshal_to m =
     varint_field 0x08 (gp_clusterID m) @
     varint_field 0x10 (gp_groupID m) @
     varint_field 0x18 (gp_from m) @
     varint_field 0x20 (gp_to m)"

definition peers_req_size :: "peers_request \<Rightarrow> nat" where
  "peers_req_size m =
     varint_field_size (gp_clusterID m) +
     varint_field_size (gp_groupID m) +
     varint_field_size (gp_from m) +
     varint_field_size (gp_to m)"

definition peers_req_switch :: "u32 \<Rightarrow> peers_request field" where
  "peers_req_switch f =
     (if f = 1 then Varint (\<lambda>v m. m\<lparr>gp_clusterID := v\<rparr>)
      else if f = 2 then Varint (\<lambda>v m. m\<lparr>gp_groupID := v\<rparr>)
      else if f = 3 then Varint (\<lambda>v m. m\<lparr>gp_from := v\<rparr>)
      else if f = 4 then Varint (\<lambda>v m. m\<lparr>gp_to := v\<rparr>)
      else Unknown)"

definition peers_req_unmarshal :: "peers_request \<Rightarrow> bytes \<Rightarrow> (pb_error, peers_request) outcome" where
  "peers_req_unmarshal = pb_unmarshal peers_req_switch"

lemma peers_req_fields: "fields_to peers_req_switch (peers_req_marshal_to m) zero_peers_req m"
  unfolding peers_req_marshal_to_def
  by (rule fields_to_eq, (rule reads_fields more_tags | simp add: peers_req_switch_def; fail)+)
     (cases m, simp add: zero_peers_req_def)

interpretation peers_req: proto_message peers_req_switch peers_req_marshal_to peers_req_size zero_peers_req "\<lambda>_. True"
  by unfold_locales (simp add: peers_req_size_def peers_req_marshal_to_def, rule peers_req_fields, simp add: no_panic_def peers_req_switch_def)

section \<open>PublishApplicationServiceRequest\<close>

record publish_request =
  pr_clusterID :: u64
  pr_groupID :: u64
  pr_from :: u64
  pr_to :: u64
  pr_proposalReplyID :: u64
  pr_appServiceAddresses :: "bytes list"

definition zero_publish_req :: "publish_request" where
  "zero_publish_req = \<lparr>pr_clusterID = 0, pr_groupID = 0, pr_from = 0, pr_to = 0, pr_proposalReplyID = 0, pr_appServiceAddresses = []\<rparr>"

definition publish_req_marshal_to :: "publish_request \<Rightarrow> bytes" where
  "publish_req_marshal_to m =
     varint_field 0x08 (pr_clusterID m) @
     varint_field 0x10 (pr_groupID m) @
     varint_field 0x18 (pr_from m) @
     varint_field 0x20 (pr_to m) @
     varint_field 0x28 (pr_proposalReplyID m) @
     repeated_field 0x32 (pr_appServiceAddresses m)"

definition publish_req_size :: "publish_request \<Rightarrow> nat" where
  "publish_req_size m =
     varint_field_size (pr_clusterID m) +
     varint_field_size (pr_groupID m) +
     varint_field_size (pr_from m) +
     varint_field_size (pr_to m) +
     varint_field_size (pr_proposalReplyID m) +
     repeated_field_size (pr_appServiceAddresses m)"

definition publish_req_switch :: "u32 \<Rightarrow> publish_request field" where
  "publish_req_switch f =
     (if f = 1 then Varint (\<lambda>v m. m\<lparr>pr_clusterID := v\<rparr>)
      else if f = 2 then Varint (\<lambda>v m. m\<lparr>pr_groupID := v\<rparr>)
      else if f = 3 then Varint (\<lambda>v m. m\<lparr>pr_from := v\<rparr>)
      else if f = 4 then Varint (\<lambda>v m. m\<lparr>pr_to := v\<rparr>)
      else if f = 5 then Varint (\<lambda>v m. m\<lparr>pr_proposalReplyID := v\<rparr>)
      else if f = 6 then Delimited (\<lambda>b m. Ret (m\<lparr>pr_appServiceAddresses := pr_appServiceAddresses m @ [b]\<rparr>))
      else Unknown)"

definition publish_req_unmarshal :: "publish_request \<Rightarrow> bytes \<Rightarrow> (pb_error, publish_request) outcome" where
  "publish_req_unmarshal = pb_unmarshal publish_req_switch"

lemma fold_publish_req:
  "fold (\<lambda>b m. m\<lparr>pr_appServiceAddresses := pr_appServiceAddresses m @ [b]\<rparr>) bs m = m\<lparr>pr_appServiceAddresses := pr_appServiceAddresses m @ bs\<rparr>"
  by (induction bs arbitrary: m) simp_all

lemma publish_req_fields: "fields_to publish_req_switch (publish_req_marshal_to m) zero_publish_req m"
  unfolding publish_req_marshal_to_def
  by (rule fields_to_eq, (rule reads_fields more_tags | simp add: publish_req_switch_def; fail)+)
     (cases m, simp add: fold_publish_req zero_publish_req_def)

interpretation publish_req: proto_message publish_req_switch publish_req_marshal_to publish_req_size zero_publish_req "\<lambda>_. True"
  by unfold_locales (simp add: publish_req_size_def publish_req_marshal_to_def, rule publish_req_fields, simp add: no_panic_def publish_req_switch_def)

section \<open>PublishApplicationServiceResponse\<close>

record publish_response =
  pq_status :: u32
  pq_message :: bytes

definition zero_publish_resp :: "publish_response" where
  "zero_publish_resp = \<lparr>pq_status = 0, pq_message = []\<rparr>"

definition publish_resp_marshal_to :: "publish_response \<Rightarrow> bytes" where
  "publish_resp_marshal_to m =
     varint_field 0x08 (scast (pq_status m)) @
     opt_bytes_field 0x12 (pq_message m)"

definition publish_resp_size :: "publish_response \<Rightarrow> nat" where
  "publish_resp_size m =
     varint_field_size (scast (pq_status m)) +
     opt_bytes_field_size (pq_message m)"

definition publish_resp_switch :: "u32 \<Rightarrow> publish_response field" where
  "publish_resp_switch f =
     (if f = 1 then Varint (\<lambda>v m. m\<lparr>pq_status := ucast v\<rparr>)
      else if f = 2 then Delimited (\<lambda>b m. Ret (m\<lparr>pq_message := b\<rparr>))
      else Unknown)"

definition publish_resp_unmarshal :: "publish_response \<Rightarrow> bytes \<Rightarrow> (pb_error, publish_response) outcome" where
  "publish_resp_unmarshal = pb_unmarshal publish_resp_switch"

lemma publish_resp_fields: "fields_to publish_resp_switch (publish_resp_marshal_to m) zero_publish_resp m"
  unfolding publish_resp_marshal_to_def
  by (rule fields_to_eq, (rule reads_fields more_tags | simp add: publish_resp_switch_def; fail)+)
     (cases m, simp add: zero_publish_resp_def)

interpretation publish_resp: proto_message publish_resp_switch publish_resp_marshal_to publish_resp_size zero_publish_resp "\<lambda>_. True"
  by unfold_locales (simp add: publish_resp_size_def publish_resp_marshal_to_def, rule publish_resp_fields, simp add: no_panic_def publish_resp_switch_def)

section \<open>BatchMessage\<close>

record 'm batch_message =
  bm_clusterID :: u64
  bm_messages :: "'m list"

definition zero_batch :: "'m batch_message" where
  "zero_batch = \<lparr>bm_clusterID = 0, bm_messages = []\<rparr>"

definition batch_marshal_to :: "'m snapshot_codec \<Rightarrow> 'm batch_message \<Rightarrow> bytes" where
  "batch_marshal_to mc m =
     varint_field 0x08 (bm_clusterID m) @
     nested_list 0x12 (sc_size mc) (sc_marshal mc) (bm_messages m)"

definition batch_size :: "'m snapshot_codec \<Rightarrow> 'm batch_message \<Rightarrow> nat" where
  "batch_size mc m =
     varint_field_size (bm_clusterID m) +
     nested_list_size (sc_size mc) (bm_messages m)"

definition batch_switch :: "'m snapshot_codec \<Rightarrow> 'm \<Rightarrow> u32 \<Rightarrow> 'm batch_message field" where
  "batch_switch mc z f =
     (if f = 1 then Varint (\<lambda>v m. m\<lparr>bm_clusterID := v\<rparr>)
      else if f = 2 then Delimited (\<lambda>b m. bind_outcome (sc_unmarshal mc z b) (\<lambda>x. Ret (m\<lparr>bm_messages := bm_messages m @ [x]\<rparr>)))
      else Unknown)"

definition batch_unmarshal :: "'m snapshot_codec \<Rightarrow> 'm \<Rightarrow> 'm batch_message \<Rightarrow> bytes \<Rightarrow> (pb_error, 'm batch_message) outcome" where
  "batch_unmarshal mc z = pb_unmarshal (batch_switch mc z)"

definition batch_ok :: "'m snapshot_codec \<Rightarrow> 'm \<Rightarrow> 'm batch_message \<Rightarrow> bool" where
  "batch_ok mc z m \<longleftrightarrow> list_all (codec_ok mc z) (bm_messages m)"

lemma fold_batch_messages:
  "fold (\<lambda>x m. m\<lparr>bm_messages := bm_messages m @ [x]\<rparr>) xs m = m\<lparr>bm_messages := bm_messages m @ xs\<rparr>"
  by (induction xs arbitrary: m) simp_all

lemma batch_fields:
  assumes "batch_ok mc z m"
  shows "fields_to (batch_switch mc z) (batch_marshal_to mc m) zero_batch m"
proof -
  let ?sw = "batch_switch mc z" and ?m0 = "zero_batch"
  let ?m1 = "?m0\<lparr>bm_clusterID := bm_clusterID m\<rparr>"
  let ?m2 = "?m1\<lparr>bm_messages := bm_messages m\<rparr>"
  have f0: "fields_to ?sw (varint_field 0x08 (bm_clusterID m)) ?m0 ?m1"
    by (rule fields_to_eq, rule reads_varint_field, rule one_byte_tags more_tags, simp add: batch_switch_def) (simp add: zero_batch_def)
  have f1: "fields_to ?sw (nested_list 0x12 (sc_size mc) (sc_marshal mc) (bm_messages m)) ?m1 ?m2"
    by (rule fields_to_eq, rule etcd.many_reads [where f = 2 and g = "\<lambda>x m. m\<lparr>bm_messages := bm_messages m @ [x]\<rparr>"], rule one_byte_tags more_tags,
        simp add: batch_switch_def) (use assms in \<open>simp_all add: batch_ok_def fold_batch_messages zero_batch_def list_all_iff\<close>)
  have "?m2 = m" by (cases m) (simp add: zero_batch_def)
  with fields_to_append [OF f0 f1] show ?thesis by (simp add: batch_marshal_to_def)
qed

interpretation batch: proto_codec "batch_switch mc z" "batch_marshal_to mc" "batch_size mc" "zero_batch" "batch_ok mc z" for mc z
  by unfold_locales
     (simp add: batch_ok_def batch_size_def batch_marshal_to_def etcd.many_length list_all_iff, rule batch_fields, assumption)

section \<open>MultiRaftMessage\<close>

record 'm multi_message =
  mm_groupID :: u64
  mm_message :: "'m"
  mm_heartbeatMessages :: "heartbeat_message list"
  mm_heartbeatResponseMessages :: "heartbeat_message list"

definition zero_multi :: "'m \<Rightarrow> 'm multi_message" where
  "zero_multi z = \<lparr>mm_groupID = 0, mm_message = z, mm_heartbeatMessages = [], mm_heartbeatResponseMessages = []\<rparr>"

definition multi_marshal_to :: "'m snapshot_codec \<Rightarrow> 'm multi_message \<Rightarrow> bytes" where
  "multi_marshal_to mc m =
     varint_field 0x08 (mm_groupID m) @
     nested_bytes 0x12 (sc_size mc) (sc_marshal mc) (mm_message m) @
     nested_list 0x1a heartbeat_size heartbeat_marshal_to (mm_heartbeatMessages m) @
     nested_list 0x22 heartbeat_size heartbeat_marshal_to (mm_heartbeatResponseMessages m)"

definition multi_size :: "'m snapshot_codec \<Rightarrow> 'm multi_message \<Rightarrow> nat" where
  "multi_size mc m =
     varint_field_size (mm_groupID m) +
     bytes_field_size (sc_size mc (mm_message m)) +
     nested_list_size heartbeat_size (mm_heartbeatMessages m) +
     nested_list_size heartbeat_size (mm_heartbeatResponseMessages m)"

definition multi_switch :: "'m snapshot_codec \<Rightarrow> u32 \<Rightarrow> 'm multi_message field" where
  "multi_switch mc f =
     (if f = 1 then Varint (\<lambda>v m. m\<lparr>mm_groupID := v\<rparr>)
      else if f = 2 then Delimited (\<lambda>b m. bind_outcome (sc_unmarshal mc (mm_message m) b) (\<lambda>x. Ret (m\<lparr>mm_message := x\<rparr>)))
      else if f = 3 then Delimited (\<lambda>b m. bind_outcome (heartbeat_unmarshal zero_heartbeat b) (\<lambda>x. Ret (m\<lparr>mm_heartbeatMessages := mm_heartbeatMessages m @ [x]\<rparr>)))
      else if f = 4 then Delimited (\<lambda>b m. bind_outcome (heartbeat_unmarshal zero_heartbeat b) (\<lambda>x. Ret (m\<lparr>mm_heartbeatResponseMessages := mm_heartbeatResponseMessages m @ [x]\<rparr>)))
      else Unknown)"

definition multi_unmarshal :: "'m snapshot_codec \<Rightarrow> 'm multi_message \<Rightarrow> bytes \<Rightarrow> (pb_error, 'm multi_message) outcome" where
  "multi_unmarshal mc = pb_unmarshal (multi_switch mc)"

definition multi_ok :: "'m snapshot_codec \<Rightarrow> 'm \<Rightarrow> 'm multi_message \<Rightarrow> bool" where
  "multi_ok mc z m \<longleftrightarrow> codec_ok mc z (mm_message m)"

lemma fold_multi_heartbeatMessages:
  "fold (\<lambda>x m. m\<lparr>mm_heartbeatMessages := mm_heartbeatMessages m @ [x]\<rparr>) xs m = m\<lparr>mm_heartbeatMessages := mm_heartbeatMessages m @ xs\<rparr>"
  by (induction xs arbitrary: m) simp_all

lemma fold_multi_heartbeatResponseMessages:
  "fold (\<lambda>x m. m\<lparr>mm_heartbeatResponseMessages := mm_heartbeatResponseMessages m @ [x]\<rparr>) xs m = m\<lparr>mm_heartbeatResponseMessages := mm_heartbeatResponseMessages m @ xs\<rparr>"
  by (induction xs arbitrary: m) simp_all

lemma multi_fields:
  assumes "multi_ok mc z m"
  shows "fields_to (multi_switch mc) (multi_marshal_to mc m) (zero_multi z) m"
proof -
  let ?sw = "multi_switch mc" and ?m0 = "zero_multi z"
  let ?m1 = "?m0\<lparr>mm_groupID := mm_groupID m\<rparr>"
  let ?m2 = "?m1\<lparr>mm_message := mm_message m\<rparr>"
  let ?m3 = "?m2\<lparr>mm_heartbeatMessages := mm_heartbeatMessages m\<rparr>"
  let ?m4 = "?m3\<lparr>mm_heartbeatResponseMessages := mm_heartbeatResponseMessages m\<rparr>"
  have f0: "fields_to ?sw (varint_field 0x08 (mm_groupID m)) ?m0 ?m1"
    by (rule fields_to_eq, rule reads_varint_field, rule one_byte_tags more_tags, simp add: multi_switch_def) (simp add: zero_multi_def)
  have f1: "fields_to ?sw (nested_bytes 0x12 (sc_size mc) (sc_marshal mc) (mm_message m)) ?m1 ?m2"
    by (rule fields_to_eq, rule etcd.one_reads [where f = 2 and d = "\<lambda>m. sc_unmarshal mc (mm_message m)" and g = "\<lambda>x m. m\<lparr>mm_message := x\<rparr>"], rule one_byte_tags more_tags,
        simp add: multi_switch_def) (use assms in \<open>simp_all add: multi_ok_def zero_multi_def\<close>)
  have f2: "fields_to ?sw (nested_list 0x1a heartbeat_size heartbeat_marshal_to (mm_heartbeatMessages m)) ?m2 ?m3"
    by (rule fields_to_eq, rule heartbeat.nested.many_reads [where f = 3 and g = "\<lambda>x m. m\<lparr>mm_heartbeatMessages := mm_heartbeatMessages m @ [x]\<rparr>"], rule one_byte_tags more_tags,
        simp add: heartbeat_unmarshal_def multi_switch_def) (use assms in \<open>simp_all add: multi_ok_def fold_multi_heartbeatMessages zero_multi_def list_all_iff\<close>)
  have f3: "fields_to ?sw (nested_list 0x22 heartbeat_size heartbeat_marshal_to (mm_heartbeatResponseMessages m)) ?m3 ?m4"
    by (rule fields_to_eq, rule heartbeat.nested.many_reads [where f = 4 and g = "\<lambda>x m. m\<lparr>mm_heartbeatResponseMessages := mm_heartbeatResponseMessages m @ [x]\<rparr>"], rule one_byte_tags more_tags,
        simp add: heartbeat_unmarshal_def multi_switch_def) (use assms in \<open>simp_all add: multi_ok_def fold_multi_heartbeatResponseMessages zero_multi_def list_all_iff\<close>)
  have "?m4 = m" by (cases m) (simp add: zero_multi_def)
  with fields_to_append [OF f0 fields_to_append [OF f1 fields_to_append [OF f2 f3]]] show ?thesis by (simp add: multi_marshal_to_def)
qed

interpretation multi: proto_codec "multi_switch mc" "multi_marshal_to mc" "multi_size mc" "zero_multi z" "multi_ok mc z" for mc z
  by unfold_locales
     (simp add: multi_ok_def multi_size_def multi_marshal_to_def etcd.one_length heartbeat.nested.many_length list_all_iff, rule multi_fields, assumption)

section \<open>MultiRaftBatchMessage\<close>

record 'm multi_batch_message =
  mb_clusterID :: u64
  mb_messages :: "('m multi_message) list"

definition zero_multi_batch :: "'m multi_batch_message" where
  "zero_multi_batch = \<lparr>mb_clusterID = 0, mb_messages = []\<rparr>"

definition multi_batch_marshal_to :: "'m snapshot_codec \<Rightarrow> 'm multi_batch_message \<Rightarrow> bytes" where
  "multi_batch_marshal_to mc m =
     varint_field 0x08 (mb_clusterID m) @
     nested_list 0x12 (multi_size mc) (multi_marshal_to mc) (mb_messages m)"

definition multi_batch_size :: "'m snapshot_codec \<Rightarrow> 'm multi_batch_message \<Rightarrow> nat" where
  "multi_batch_size mc m =
     varint_field_size (mb_clusterID m) +
     nested_list_size (multi_size mc) (mb_messages m)"

definition multi_batch_switch :: "'m snapshot_codec \<Rightarrow> 'm \<Rightarrow> u32 \<Rightarrow> 'm multi_batch_message field" where
  "multi_batch_switch mc z f =
     (if f = 1 then Varint (\<lambda>v m. m\<lparr>mb_clusterID := v\<rparr>)
      else if f = 2 then Delimited (\<lambda>b m. bind_outcome (multi_unmarshal mc (zero_multi z) b) (\<lambda>x. Ret (m\<lparr>mb_messages := mb_messages m @ [x]\<rparr>)))
      else Unknown)"

definition multi_batch_unmarshal :: "'m snapshot_codec \<Rightarrow> 'm \<Rightarrow> 'm multi_batch_message \<Rightarrow> bytes \<Rightarrow> (pb_error, 'm multi_batch_message) outcome" where
  "multi_batch_unmarshal mc z = pb_unmarshal (multi_batch_switch mc z)"

definition multi_batch_ok :: "'m snapshot_codec \<Rightarrow> 'm \<Rightarrow> 'm multi_batch_message \<Rightarrow> bool" where
  "multi_batch_ok mc z m \<longleftrightarrow> list_all (multi_ok mc z) (mb_messages m)"

lemma fold_multi_batch_messages:
  "fold (\<lambda>x m. m\<lparr>mb_messages := mb_messages m @ [x]\<rparr>) xs m = m\<lparr>mb_messages := mb_messages m @ xs\<rparr>"
  by (induction xs arbitrary: m) simp_all

lemma multi_batch_fields:
  assumes "multi_batch_ok mc z m"
  shows "fields_to (multi_batch_switch mc z) (multi_batch_marshal_to mc m) zero_multi_batch m"
proof -
  let ?sw = "multi_batch_switch mc z" and ?m0 = "zero_multi_batch"
  let ?m1 = "?m0\<lparr>mb_clusterID := mb_clusterID m\<rparr>"
  let ?m2 = "?m1\<lparr>mb_messages := mb_messages m\<rparr>"
  have f0: "fields_to ?sw (varint_field 0x08 (mb_clusterID m)) ?m0 ?m1"
    by (rule fields_to_eq, rule reads_varint_field, rule one_byte_tags more_tags, simp add: multi_batch_switch_def) (simp add: zero_multi_batch_def)
  have f1: "fields_to ?sw (nested_list 0x12 (multi_size mc) (multi_marshal_to mc) (mb_messages m)) ?m1 ?m2"
    by (rule fields_to_eq, rule multi.nested.many_reads [where f = 2 and g = "\<lambda>x m. m\<lparr>mb_messages := mb_messages m @ [x]\<rparr>"], rule one_byte_tags more_tags,
        simp add: multi_unmarshal_def multi_batch_switch_def) (use assms in \<open>simp_all add: multi_batch_ok_def fold_multi_batch_messages zero_multi_batch_def list_all_iff\<close>)
  have "?m2 = m" by (cases m) (simp add: zero_multi_batch_def)
  with fields_to_append [OF f0 f1] show ?thesis by (simp add: multi_batch_marshal_to_def)
qed

interpretation multi_batch: proto_codec "multi_batch_switch mc z" "multi_batch_marshal_to mc" "multi_batch_size mc" "zero_multi_batch" "multi_batch_ok mc z" for mc z
  by unfold_locales
     (simp add: multi_batch_ok_def multi_batch_size_def multi_batch_marshal_to_def multi.nested.many_length list_all_iff, rule multi_batch_fields, assumption)

section \<open>SnapshotMessage\<close>

record ('s, 'm) snapshot_message =
  sg_clusterID :: u64
  sg_groupID :: u64
  sg_from :: u64
  sg_to :: u64
  sg_term :: u64
  sg_index :: u64
  sg_type :: u32
  sg_metadata :: "'s snapshot_metadata"
  sg_chunkMessage :: "chunk_message"
  sg_finishMessage :: "'m"

definition zero_snap_msg :: "'s \<Rightarrow> 'm \<Rightarrow> ('s, 'm) snapshot_message" where
  "zero_snap_msg zs z = \<lparr>sg_clusterID = 0, sg_groupID = 0, sg_from = 0, sg_to = 0, sg_term = 0, sg_index = 0, sg_type = 0, sg_metadata = \<lparr>sm_version = 0, sm_snapshot = zs, sm_files = []\<rparr>, sg_chunkMessage = zero_chunk, sg_finishMessage = z\<rparr>"

definition snap_msg_marshal_to :: "'s snapshot_codec \<Rightarrow> 'm snapshot_codec \<Rightarrow> ('s, 'm) snapshot_message \<Rightarrow> bytes" where
  "snap_msg_marshal_to sc mc m =
     varint_field 0x08 (sg_clusterID m) @
     varint_field 0x10 (sg_groupID m) @
     varint_field 0x20 (sg_from m) @
     varint_field 0x28 (sg_to m) @
     varint_field 0x30 (sg_term m) @
     varint_field 0x38 (sg_index m) @
     varint_field 0x40 (scast (sg_type m)) @
     nested_bytes 0x4a (metadata_size sc) (metadata_marshal_to sc) (sg_metadata m) @
     nested_bytes 0x52 chunk_size chunk_marshal_to (sg_chunkMessage m) @
     nested_bytes 0x5a (sc_size mc) (sc_marshal mc) (sg_finishMessage m)"

definition snap_msg_size :: "'s snapshot_codec \<Rightarrow> 'm snapshot_codec \<Rightarrow> ('s, 'm) snapshot_message \<Rightarrow> nat" where
  "snap_msg_size sc mc m =
     varint_field_size (sg_clusterID m) +
     varint_field_size (sg_groupID m) +
     varint_field_size (sg_from m) +
     varint_field_size (sg_to m) +
     varint_field_size (sg_term m) +
     varint_field_size (sg_index m) +
     varint_field_size (scast (sg_type m)) +
     bytes_field_size (metadata_size sc (sg_metadata m)) +
     bytes_field_size (chunk_size (sg_chunkMessage m)) +
     bytes_field_size (sc_size mc (sg_finishMessage m))"

definition snap_msg_switch :: "'s snapshot_codec \<Rightarrow> 'm snapshot_codec \<Rightarrow> u32 \<Rightarrow> ('s, 'm) snapshot_message field" where
  "snap_msg_switch sc mc f =
     (if f = 1 then Varint (\<lambda>v m. m\<lparr>sg_clusterID := v\<rparr>)
      else if f = 2 then Varint (\<lambda>v m. m\<lparr>sg_groupID := v\<rparr>)
      else if f = 4 then Varint (\<lambda>v m. m\<lparr>sg_from := v\<rparr>)
      else if f = 5 then Varint (\<lambda>v m. m\<lparr>sg_to := v\<rparr>)
      else if f = 6 then Varint (\<lambda>v m. m\<lparr>sg_term := v\<rparr>)
      else if f = 7 then Varint (\<lambda>v m. m\<lparr>sg_index := v\<rparr>)
      else if f = 8 then Varint (\<lambda>v m. m\<lparr>sg_type := ucast v\<rparr>)
      else if f = 9 then Delimited (\<lambda>b m. bind_outcome (metadata_unmarshal sc (sg_metadata m) b) (\<lambda>x. Ret (m\<lparr>sg_metadata := x\<rparr>)))
      else if f = 10 then Delimited (\<lambda>b m. bind_outcome (chunk_unmarshal (sg_chunkMessage m) b) (\<lambda>x. Ret (m\<lparr>sg_chunkMessage := x\<rparr>)))
      else if f = 11 then Delimited (\<lambda>b m. bind_outcome (sc_unmarshal mc (sg_finishMessage m) b) (\<lambda>x. Ret (m\<lparr>sg_finishMessage := x\<rparr>)))
      else Unknown)"

definition snap_msg_unmarshal :: "'s snapshot_codec \<Rightarrow> 'm snapshot_codec \<Rightarrow> ('s, 'm) snapshot_message \<Rightarrow> bytes \<Rightarrow> (pb_error, ('s, 'm) snapshot_message) outcome" where
  "snap_msg_unmarshal sc mc = pb_unmarshal (snap_msg_switch sc mc)"

definition snap_msg_ok :: "'s snapshot_codec \<Rightarrow> 'm snapshot_codec \<Rightarrow> 's \<Rightarrow> 'm \<Rightarrow> ('s, 'm) snapshot_message \<Rightarrow> bool" where
  "snap_msg_ok sc mc zs z m \<longleftrightarrow> map_ok (sm_files (sg_metadata m)) \<and> codec_ok sc zs (sm_snapshot (sg_metadata m)) \<and> codec_ok mc z (sg_finishMessage m)"

lemma snap_msg_fields:
  assumes "snap_msg_ok sc mc zs z m"
  shows "fields_to (snap_msg_switch sc mc) (snap_msg_marshal_to sc mc m) (zero_snap_msg zs z) m"
proof -
  let ?sw = "snap_msg_switch sc mc" and ?m0 = "zero_snap_msg zs z"
  let ?m1 = "?m0\<lparr>sg_clusterID := sg_clusterID m\<rparr>"
  let ?m2 = "?m1\<lparr>sg_groupID := sg_groupID m\<rparr>"
  let ?m3 = "?m2\<lparr>sg_from := sg_from m\<rparr>"
  let ?m4 = "?m3\<lparr>sg_to := sg_to m\<rparr>"
  let ?m5 = "?m4\<lparr>sg_term := sg_term m\<rparr>"
  let ?m6 = "?m5\<lparr>sg_index := sg_index m\<rparr>"
  let ?m7 = "?m6\<lparr>sg_type := sg_type m\<rparr>"
  let ?m8 = "?m7\<lparr>sg_metadata := sg_metadata m\<rparr>"
  let ?m9 = "?m8\<lparr>sg_chunkMessage := sg_chunkMessage m\<rparr>"
  let ?m10 = "?m9\<lparr>sg_finishMessage := sg_finishMessage m\<rparr>"
  have f0: "fields_to ?sw (varint_field 0x08 (sg_clusterID m)) ?m0 ?m1"
    by (rule fields_to_eq, rule reads_varint_field, rule one_byte_tags more_tags, simp add: snap_msg_switch_def) (simp add: zero_snap_msg_def)
  have f1: "fields_to ?sw (varint_field 0x10 (sg_groupID m)) ?m1 ?m2"
    by (rule fields_to_eq, rule reads_varint_field, rule one_byte_tags more_tags, simp add: snap_msg_switch_def) (simp add: zero_snap_msg_def)
  have f2: "fields_to ?sw (varint_field 0x20 (sg_from m)) ?m2 ?m3"
    by (rule fields_to_eq, rule reads_varint_field, rule one_byte_tags more_tags, simp add: snap_msg_switch_def) (simp add: zero_snap_msg_def)
  have f3: "fields_to ?sw (varint_field 0x28 (sg_to m)) ?m3 ?m4"
    by (rule fields_to_eq, rule reads_varint_field, rule one_byte_tags more_tags, simp add: snap_msg_switch_def) (simp add: zero_snap_msg_def)
  have f4: "fields_to ?sw (varint_field 0x30 (sg_term m)) ?m4 ?m5"
    by (rule fields_to_eq, rule reads_varint_field, rule one_byte_tags more_tags, simp add: snap_msg_switch_def) (simp add: zero_snap_msg_def)
  have f5: "fields_to ?sw (varint_field 0x38 (sg_index m)) ?m5 ?m6"
    by (rule fields_to_eq, rule reads_varint_field, rule one_byte_tags more_tags, simp add: snap_msg_switch_def) (simp add: zero_snap_msg_def)
  have f6: "fields_to ?sw (varint_field 0x40 (scast (sg_type m))) ?m6 ?m7"
    by (rule fields_to_eq, rule reads_varint_field, rule one_byte_tags more_tags, simp add: snap_msg_switch_def) (simp add: zero_snap_msg_def)
  have f7: "fields_to ?sw (nested_bytes 0x4a (metadata_size sc) (metadata_marshal_to sc) (sg_metadata m)) ?m7 ?m8"
    by (rule fields_to_eq, rule snapmeta.one_reads [where f = 9 and d = "\<lambda>m. metadata_unmarshal sc (sg_metadata m)" and g = "\<lambda>x m. m\<lparr>sg_metadata := x\<rparr>"], rule one_byte_tags more_tags,
        simp add: snap_msg_switch_def) (use assms in \<open>simp_all add: snap_msg_ok_def zero_snap_msg_def\<close>)
  have f8: "fields_to ?sw (nested_bytes 0x52 chunk_size chunk_marshal_to (sg_chunkMessage m)) ?m8 ?m9"
    by (rule fields_to_eq, rule chunk.nested.one_reads [where f = 10 and d = "\<lambda>m. chunk_unmarshal (sg_chunkMessage m)" and g = "\<lambda>x m. m\<lparr>sg_chunkMessage := x\<rparr>"], rule one_byte_tags more_tags,
        simp add: snap_msg_switch_def) (use assms in \<open>simp_all add: snap_msg_ok_def chunk_unmarshal_def zero_snap_msg_def\<close>)
  have f9: "fields_to ?sw (nested_bytes 0x5a (sc_size mc) (sc_marshal mc) (sg_finishMessage m)) ?m9 ?m10"
    by (rule fields_to_eq, rule etcd.one_reads [where f = 11 and d = "\<lambda>m. sc_unmarshal mc (sg_finishMessage m)" and g = "\<lambda>x m. m\<lparr>sg_finishMessage := x\<rparr>"], rule one_byte_tags more_tags,
        simp add: snap_msg_switch_def) (use assms in \<open>simp_all add: snap_msg_ok_def zero_snap_msg_def\<close>)
  have "?m10 = m" by (cases m) (simp add: zero_snap_msg_def)
  with fields_to_append [OF f0 fields_to_append [OF f1 fields_to_append [OF f2 fields_to_append [OF f3 fields_to_append [OF f4 fields_to_append [OF f5 fields_to_append [OF f6 fields_to_append [OF f7 fields_to_append [OF f8 f9]]]]]]]]] show ?thesis by (simp add: snap_msg_marshal_to_def)
qed

interpretation snap_msg: proto_codec "snap_msg_switch sc mc" "snap_msg_marshal_to sc mc" "snap_msg_size sc mc" "zero_snap_msg zs z" "snap_msg_ok sc mc zs z" for sc mc zs z
  by unfold_locales
     (simp add: snap_msg_ok_def snap_msg_size_def snap_msg_marshal_to_def chunk.nested.one_length etcd.one_length [where c = mc and z = z] snapmeta.one_length [where sc = sc and zs = zs] list_all_iff, rule snap_msg_fields, assumption)

section \<open>GetClusterPeersResponse\<close>

record peers_response =
  gs_status :: u32
  gs_message :: bytes
  gs_peers :: "peer list"

definition zero_peers_resp :: "peers_response" where
  "zero_peers_resp = \<lparr>gs_status = 0, gs_message = [], gs_peers = []\<rparr>"

definition peers_resp_marshal_to :: "peers_response \<Rightarrow> bytes" where
  "peers_resp_marshal_to m =
     varint_field 0x08 (scast (gs_status m)) @
     opt_bytes_field 0x12 (gs_message m) @
     nested_list 0x1a peer_size peer_marshal_to (gs_peers m)"

definition peers_resp_size :: "peers_response \<Rightarrow> nat" where
  "peers_resp_size m =
     varint_field_size (scast (gs_status m)) +
     opt_bytes_field_size (gs_message m) +
     nested_list_size peer_size (gs_peers m)"

definition peers_resp_switch :: "u32 \<Rightarrow> peers_response field" where
  "peers_resp_switch f =
     (if f = 1 then Varint (\<lambda>v m. m\<lparr>gs_status := ucast v\<rparr>)
      else if f = 2 then Delimited (\<lambda>b m. Ret (m\<lparr>gs_message := b\<rparr>))
      else if f = 3 then Delimited (\<lambda>b m. bind_outcome (peer_unmarshal zero_peer b) (\<lambda>x. Ret (m\<lparr>gs_peers := gs_peers m @ [x]\<rparr>)))
      else Unknown)"

definition peers_resp_unmarshal :: "peers_response \<Rightarrow> bytes \<Rightarrow> (pb_error, peers_response) outcome" where
  "peers_resp_unmarshal = pb_unmarshal peers_resp_switch"

lemma fold_peers_resp_peers:
  "fold (\<lambda>x m. m\<lparr>gs_peers := gs_peers m @ [x]\<rparr>) xs m = m\<lparr>gs_peers := gs_peers m @ xs\<rparr>"
  by (induction xs arbitrary: m) simp_all

lemma peers_resp_fields:
  shows "fields_to (peers_resp_switch) (peers_resp_marshal_to m) zero_peers_resp m"
proof -
  let ?sw = "peers_resp_switch" and ?m0 = "zero_peers_resp"
  let ?m1 = "?m0\<lparr>gs_status := gs_status m\<rparr>"
  let ?m2 = "?m1\<lparr>gs_message := gs_message m\<rparr>"
  let ?m3 = "?m2\<lparr>gs_peers := gs_peers m\<rparr>"
  have f0: "fields_to ?sw (varint_field 0x08 (scast (gs_status m))) ?m0 ?m1"
    by (rule fields_to_eq, rule reads_varint_field, rule one_byte_tags more_tags, simp add: peers_resp_switch_def) (simp add: zero_peers_resp_def)
  have f1: "fields_to ?sw (opt_bytes_field 0x12 (gs_message m)) ?m1 ?m2"
    by (rule fields_to_eq, rule reads_opt_bytes_field, rule one_byte_tags more_tags, simp add: peers_resp_switch_def) (simp add: zero_peers_resp_def)
  have f2: "fields_to ?sw (nested_list 0x1a peer_size peer_marshal_to (gs_peers m)) ?m2 ?m3"
    by (rule fields_to_eq, rule peer.nested.many_reads [where f = 3 and g = "\<lambda>x m. m\<lparr>gs_peers := gs_peers m @ [x]\<rparr>"], rule one_byte_tags more_tags,
        simp add: peer_unmarshal_def peers_resp_switch_def) (use TrueI in \<open>simp_all add: fold_peers_resp_peers zero_peers_resp_def list_all_iff\<close>)
  have "?m3 = m" by (cases m) (simp add: zero_peers_resp_def)
  with fields_to_append [OF f0 fields_to_append [OF f1 f2]] show ?thesis by (simp add: peers_resp_marshal_to_def)
qed

interpretation peers_resp: proto_message "peers_resp_switch" "peers_resp_marshal_to" peers_resp_size "zero_peers_resp" "\<lambda>_. True"
  by unfold_locales
     (simp add: peers_resp_size_def peers_resp_marshal_to_def peer.nested.many_length list_all_iff, rule peers_resp_fields,
      simp add: no_panic_def peers_resp_switch_def peer_unmarshal_def  bind_no_panic peer.unmarshal_total)

section \<open>Properties\<close>

text \<open>
  C29. What a node sends is what the other node reads: a message of a snapshot transfer, with the
  description of the snapshot, a chunk of a file and the raft message at its end, is exactly as long as
  announced and reads back as it was sent, and so does a batch of raft messages. The codecs of the raft
  messages and snapshots of etcd inside are assumed to read back what they wrote.
\<close>

theorem peer_messages_round_trip:
  assumes "snap_msg_ok sc mc zs z m" and "snap_msg_size sc mc m < 2 ^ 63" and "batch_ok mc z b" and "batch_size mc b < 2 ^ 63"
  shows "(\<exists>d. pb_marshal (snap_msg_size sc mc m) (snap_msg_marshal_to sc mc m) = Ret d \<and> length d = snap_msg_size sc mc m \<and>
      snap_msg_unmarshal sc mc (zero_snap_msg zs z) d = Ret m) \<and>
    (\<exists>d. pb_marshal (batch_size mc b) (batch_marshal_to mc b) = Ret d \<and> length d = batch_size mc b \<and>
      batch_unmarshal mc z zero_batch d = Ret b)"
  using snap_msg.message_round_trip [OF assms(1,2)] batch.message_round_trip [OF assms(3,4)]
  by (simp add: snap_msg_unmarshal_def batch_unmarshal_def)

definition sample_chunk_message :: chunk_message where
  "sample_chunk_message = \<lparr>ck_fileType = 2, ck_fileTag = [97], ck_id = 1, ck_data = [1, 2, 3], ck_continueCrc32 = 5, ck_lastChunk = True\<rparr>"

definition sample_snap_msg :: "(u64, u64) snapshot_message" where
  "sample_snap_msg = (zero_snap_msg 7 9)\<lparr>sg_clusterID := 1, sg_type := 1, sg_chunkMessage := sample_chunk_message\<rparr>"

lemma sample_snap_msg_size: "snap_msg_size sample_codec sample_codec sample_snap_msg < 2 ^ 63"
proof -
  have "chunk_size sample_chunk_message \<le> 66"
    using varint_field_size_le [of 2] varint_field_size_le [of 1] varint_field_size_le [of 5]
      bytes_field_size_le [of "Suc 0"] bytes_field_size_le [of "Suc (Suc (Suc 0))"]
    by (simp add: chunk_size_def sample_chunk_message_def opt_bytes_field_size_def bool_field_size_def)
  moreover have "metadata_size sample_codec \<lparr>sm_version = 0, sm_snapshot = 7, sm_files = []\<rparr> \<le> 19"
    using bytes_field_size_le [of 8] by (simp add: metadata_size_def sample_codec_def varint_field_size_def)
  ultimately show ?thesis
    using bytes_field_size_le [of "chunk_size sample_chunk_message"] varint_field_size_le [of 1] varint_field_size_le [of 0]
      bytes_field_size_le [of "metadata_size sample_codec \<lparr>sm_version = 0, sm_snapshot = 7, sm_files = []\<rparr>"] bytes_field_size_le [of 8]
    by (simp add: snap_msg_size_def sample_snap_msg_def zero_snap_msg_def sample_codec_def)
qed

theorem peer_messages_round_trip_witness:
  "\<exists>d e. snap_msg_unmarshal sample_codec sample_codec (zero_snap_msg 0 0) d = Ret sample_snap_msg \<and>
     batch_unmarshal sample_codec 0 zero_batch e = Ret \<lparr>bm_clusterID = 1, bm_messages = [5, 6]\<rparr>"
proof -
  let ?b = "\<lparr>bm_clusterID = 1, bm_messages = [5, 6]\<rparr> :: u64 batch_message"
  have ok: "codec_ok sample_codec 0 x" for x by (simp add: codec_ok_def sample_codec_def)
  have "snap_msg_ok sample_codec sample_codec 0 0 sample_snap_msg"
    by (simp add: snap_msg_ok_def ok sample_snap_msg_def zero_snap_msg_def)
  moreover have "batch_ok sample_codec 0 ?b" by (simp add: batch_ok_def ok)
  moreover have "batch_size sample_codec ?b < 2 ^ 63"
    using varint_field_size_le [of 1] bytes_field_size_le [of 8]
    by (simp add: batch_size_def nested_list_size_def sample_codec_def)
  ultimately show ?thesis using peer_messages_round_trip [OF _ sample_snap_msg_size, of 0 0 ?b] by blast
qed

end
