(* ===== verification/Spec2Isabelle.thy ===== *)
theory Spec2Isabelle
  imports Wal_Recovery Raft_Ready Linear_Read Lock_Store Raft_Msg_Pb
begin

text \<open>
  A verification library for babuza, a raft library written in Go.

  \<^bold>\<open>The program.\<close> A node of babuza wraps the raft algorithm of etcd. The ready loop
  (\<^verbatim>\<open>raft/raft_ready.go\<close>) asks the raft node what is to be done: it saves entries and hard states
  in the write-ahead log (\<^verbatim>\<open>pkg/wal\<close>), sends messages to the other members (\<^verbatim>\<open>pkg/transport\<close>), and hands
  committed entries to the apply loop (\<^verbatim>\<open>raft/raft_apply.go\<close>, \<^verbatim>\<open>raft/applied_facade.go\<close>). The apply loop
  runs the user's state machine under the bookkeeping of the client sessions (\<^verbatim>\<open>pkg/session\<close>), changes
  the membership (\<^verbatim>\<open>pkg/cluster\<close>) and with it the connections, and answers the callers, who wait
  on the channels of \<^verbatim>\<open>pkg/replier\<close>. Reads that must be linearizable go through a loop of their own.
  The distributed lock service under \<^verbatim>\<open>examples/distlock\<close> is a state machine on top of it.

  \<^bold>\<open>Conventions.\<close> Integers of a fixed width are words of that width. An \<^verbatim>\<open>int\<close> that is a length or a
  position is a natural number where the code keeps it non-negative. A fallible call is an
  \<^verbatim>\<open>outcome\<close>: a value, an error, or a panic. A call that changes its receiver returns the state
  after it. A loop whose end depends on an invariant is a partial function to options, and \<^verbatim>\<open>None\<close> is
  not returning. Strings are lists of bytes. What Go leaves open is an argument: the time, the content
  of recycled buffers, the order of a \<^verbatim>\<open>range\<close> over a map. Code of other modules is an
  argument too: etcd's codecs and raft node, \<^verbatim>\<open>encoding/json\<close> for the types of the lock store,
  the user's state machine. A mutex that an operation holds for its whole body makes it one step.

  \<^bold>\<open>Foundations.\<close>
  \<^item> \<^verbatim>\<open>Babuza_Prelude\<close>: machine types, outcomes, little-endian integers, \<^verbatim>\<open>io.ReadFull\<close>, CRC-32C and the
    file header of \<^verbatim>\<open>pkg/utility/fileutil\<close>; the lemma collections of the development.
  \<^item> \<^verbatim>\<open>Bufio\<close>: the buffered reader of the snapshot files, and what a single \<^verbatim>\<open>Read\<close> gives.
  \<^item> \<^verbatim>\<open>Allocator\<close>: the pool of byte buffers, \<^verbatim>\<open>pkg/utility/allocator/pool.go\<close>. A buffer that is handed out is
    large enough and no longer in the pool.
  \<^item> \<^verbatim>\<open>Proto_Wire\<close>: the code the protobuf generator repeats in every message. The locales
    \<^verbatim>\<open>proto_codec\<close> and \<^verbatim>\<open>proto_message\<close> hold the round trip and the totality of a message once for all.
    The loop over the fields is given the length of the input as its fuel, and each turn consumes a byte.
  \<^item> \<^verbatim>\<open>Wal_Pb\<close>, \<^verbatim>\<open>Request_Pb\<close>, \<^verbatim>\<open>Raft_Msg_Pb\<close>: every message of \<^verbatim>\<open>wal.pb.go\<close>, \<^verbatim>\<open>babuza.pb.go\<close> and
    \<^verbatim>\<open>raftMsg.pb.go\<close>, with \<^verbatim>\<open>Size\<close>, \<^verbatim>\<open>MarshalTo\<close> and \<^verbatim>\<open>Unmarshal\<close>: what is marshalled is as long as
    announced and reads back.

  \<^bold>\<open>The write-ahead log.\<close>
  \<^item> \<^verbatim>\<open>Ring_Cache\<close> and \<^verbatim>\<open>Entry_Storage\<close>: \<^verbatim>\<open>pkg/wal/walbase\<close>. The ring buffer refines a queue of
    consecutively numbered payloads (locale \<^verbatim>\<open>payload_cache\<close>), and the storage answers raft with
    exactly the entries of the log, from the cache or from the files.
  \<^item> \<^verbatim>\<open>Wal_Codec\<close>, \<^verbatim>\<open>Page_Writer\<close>, \<^verbatim>\<open>Wal_File\<close>: the framing of records, the page-aligning writer over a
    file with a durable part, the files and their manager.
  \<^item> \<^verbatim>\<open>Wal_Replay\<close>: the parser and the player. Damage to a record is detected, and a torn tail is cut off.
  \<^item> \<^verbatim>\<open>Wal\<close> and \<^verbatim>\<open>Wal_Recovery\<close>: the operations of \<^verbatim>\<open>wal.go\<close>, and the invariant that parsing the
    files gives the state in memory. A saved batch survives a crash and a restart goes on from it; a batch
    that starts before the oldest cached entry also does, but leaves stale payloads in the cache.
    The same invariant shows two losses: a vote saved without entries is not synced, and a reopened log that
    cycles before a new entry hides its older files. Renames are taken to be durable.

  \<^bold>\<open>The node.\<close>
  \<^item> \<^verbatim>\<open>Session\<close>: results, their format and the three session managers under the contracts
    \<^verbatim>\<open>session_manager\<close> and \<^verbatim>\<open>tracking_sessions\<close>; the LRU manager refines a bounded move-to-front list. Its
    snapshot restores the sessions, unless an error with an empty text is stored: then \<^verbatim>\<open>Restore\<close> panics.
  \<^item> \<^verbatim>\<open>Cluster\<close>: the membership under the contract \<^verbatim>\<open>membership\<close>, with its snapshot.
  \<^item> \<^verbatim>\<open>Apply\<close>: the apply loop. A request of a session is executed at most once, and every request is
    answered once; both are proved in the locale \<^verbatim>\<open>exactly_once\<close> for every manager that tracks results.
  \<^item> \<^verbatim>\<open>Peer_Manager\<close> and \<^verbatim>\<open>Conf_Change\<close>: the shared connections, and changes of the membership
    through sessions, membership and transport. The node keeps a connection to every other member.
  \<^item> \<^verbatim>\<open>Raft_Ready\<close>: a turn of the ready loop as a sequence of steps that act or stop it (shutdown, removal
    of the local peer, panic, a full event channel), the order of its actions however it ends, and when it goes on.
  \<^item> \<^verbatim>\<open>Replier\<close>: request ids, result channels and completion channels.
  \<^item> \<^verbatim>\<open>Linear_Read\<close>: readers and the read loop as an interleaving step relation. A read that returns
    without an error sees what was committed before it; a read that starts while the loop serves
    others, and finds nobody to signal, waits until a later reader comes.
  \<^item> \<^verbatim>\<open>Lock_Store\<close>: the state machine of the lock service, over logs of commands. A fencing token names
    one holding; a release passes the lock to the first waiter, or drops the whole queue when
    that waiter's lease is gone; the order in which expired leases are visited changes the tokens.

  \<^bold>\<open>Not modelled.\<close> The raft algorithm belongs to etcd; what is used of its documentation is a hypothesis of the
  theorem that uses it. The protocols of the transport, the public API around
  proposals and the experimental store for many groups are goroutines on channels and network
  connections; only the parts named above are modelled. The logs over etcd's WAL, Pebble and
  Badger adapt modules that are not part of the repository. Configuration, metrics and logging, the
  command lines of the examples and the tests do not change the state of a node. Errors of
  the operating system on a write are not modelled, and goroutines are modelled only where a step relation
  is named above.
\<close>

end
